(* ===== verification/Hopter_Prelude.thy ===== *)
theory Hopter_Prelude
  imports Main "HOL-Library.Word" "HOL-Library.Log_Nat"
begin

unbundle bit_operations_syntax

text \<open>
  Shared vocabulary of the development: the machine integers of the 32-bit target, the
  pieces of the Rust core library that several components use (\<open>leading_zeros\<close>,
  \<open>saturating_sub\<close>, checked and wrapping pointer arithmetic, rotations), the word-addressed
  memory with its 16-bit views, and generic lemmas on them. The arithmetic is the one of the
  release profile (Cargo.toml does not turn overflow checks on): \<open>+\<close>, \<open>-\<close> and \<open>*\<close> on a
  machine integer wrap around.
\<close>

type_synonym u8 = "8 word"
type_synonym u16 = "16 word"
type_synonym u32 = "32 word"
type_synonym u64 = "64 word"

text \<open>The failure of a kernel call: \<open>unrecoverable::die()\<close> (an endless loop by intention) or a
  Rust panic, which enters the unwinder. A fallible operation returns \<open>fault + 'a\<close>.\<close>

datatype fault = Die | Panic

type_synonym 'a res = "fault + 'a"

text \<open>\<open>core::cmp::Ordering\<close>, and the \<open>Ord\<close> of the unsigned integers.\<close>

datatype cmp_ordering = Less | Equal | Greater

definition word_cmp :: "'a :: len word \<Rightarrow> 'a word \<Rightarrow> cmp_ordering" where
  "word_cmp x y = (if x < y then Less else if x = y then Equal else Greater)"

text \<open>Sequencing of fallible steps: the \<open>?\<close> operator and the early exits of the source.\<close>

definition bindr :: "'e + 'a \<Rightarrow> ('a \<Rightarrow> 'e + 'b) \<Rightarrow> 'e + 'b" where
  "bindr r f = (case r of Inl e \<Rightarrow> Inl e | Inr x \<Rightarrow> f x)"

lemma bindr_simps [simp]: "bindr (Inl e) f = Inl e" "bindr (Inr x) f = f x"
  by (simp_all add: bindr_def)

lemma bindr_cong [fundef_cong]:
  "r = r' \<Longrightarrow> (\<And>x. r' = Inr x \<Longrightarrow> f x = g x) \<Longrightarrow> bindr r f = bindr r' g"
  by (auto simp: bindr_def split: sum.split)

lemma bindr_assoc: "bindr (bindr r f) g = bindr r (\<lambda>x. bindr (f x) g)"
  by (cases r) simp_all

lemma bindr_Inr: "bindr r f = Inr y \<longleftrightarrow> (\<exists>x. r = Inr x \<and> f x = Inr y)"
  by (cases r) auto

lemma bindr_Inl: "bindr r f = Inl e \<longleftrightarrow> r = Inl e \<or> (\<exists>x. r = Inr x \<and> f x = Inl e)"
  by (cases r) auto

named_theorems mem_simps \<open>reading back from an updated word memory\<close>
named_theorems link_simps \<open>links of the free lists after a primitive write\<close>

section \<open>Integers of the core library\<close>

definition leading_zeros :: "u32 \<Rightarrow> nat" where
  "leading_zeros w = 32 - floorlog 2 (unat w)"

definition trailing_zeros :: "u32 \<Rightarrow> nat" where
  "trailing_zeros w = length (takeWhile (\<lambda>i. \<not> bit w i) [0..<32])"

definition checked_add :: "u32 \<Rightarrow> u32 \<Rightarrow> u32 option" where
  "checked_add a b = (if unat a + unat b < 2 ^ 32 then Some (a + b) else None)"

lemma floorlog_u32_le: "floorlog 2 (unat (w :: u32)) \<le> 32"
proof -
  have "unat w < 2 ^ 32" using unsigned_less[of w] by simp
  then show ?thesis by (simp add: floorlog_leI)
qed

section \<open>Pointers\<close>

text \<open>A pointer is the address it holds, a natural number below \<open>2 ^ 32\<close>; 0 is the null
  pointer. \<open>wrapping_byte_add\<close> and \<open>wrapping_byte_sub\<close> wrap around the address space.\<close>

type_synonym ptr = nat

definition wrapping_byte_add :: "ptr \<Rightarrow> nat \<Rightarrow> ptr" where
  "wrapping_byte_add p n = (p + n) mod 2 ^ 32"

definition wrapping_byte_sub :: "ptr \<Rightarrow> nat \<Rightarrow> ptr" where
  "wrapping_byte_sub p n = (p + (2 ^ 32 - n mod 2 ^ 32)) mod 2 ^ 32"

lemma wrapping_byte_add_small [simp]: "p + n < 2 ^ 32 \<Longrightarrow> wrapping_byte_add p n = p + n"
  by (simp add: wrapping_byte_add_def)

lemma wrapping_byte_sub_small [simp]:
  assumes "n \<le> p" "p < 2 ^ 32" shows "wrapping_byte_sub p n = p - n"
proof -
  have "n mod 2 ^ 32 = n" using assms by simp
  moreover have "p + (2 ^ 32 - n) = (p - n) + 2 ^ 32" using assms by simp
  ultimately have "wrapping_byte_sub p n = ((p - n) + 2 ^ 32) mod 2 ^ 32"
    by (simp only: wrapping_byte_sub_def)
  also have "\<dots> = (p - n) mod 2 ^ 32" by (rule mod_add_self2)
  finally show ?thesis using assms by simp
qed

section \<open>Word memory\<close>

text \<open>Memory at the granularity the heap and the stacks use: one 32-bit word per 4-byte aligned
  address. A 16-bit access reads or writes half of the little-endian word that contains it.\<close>

type_synonym mem = "ptr \<Rightarrow> u32"

definition write32 :: "mem \<Rightarrow> ptr \<Rightarrow> u32 \<Rightarrow> mem" where
  "write32 m p v = m(p := v)"

definition lo16 :: "u32 \<Rightarrow> u16" where
  "lo16 w = ucast w"

definition hi16 :: "u32 \<Rightarrow> u16" where
  "hi16 w = ucast (drop_bit 16 w)"

definition join16 :: "u16 \<Rightarrow> u16 \<Rightarrow> u32" where
  "join16 hi lo = push_bit 16 (ucast hi) OR ucast lo"

definition read16 :: "mem \<Rightarrow> ptr \<Rightarrow> u16" where
  "read16 m p = (if p mod 4 = 0 then lo16 (m p) else hi16 (m (p - 2)))"

definition write16 :: "mem \<Rightarrow> ptr \<Rightarrow> u16 \<Rightarrow> mem" where
  "write16 m p v =
     (if p mod 4 = 0 then m(p := join16 (hi16 (m p)) v)
      else m(p - 2 := join16 v (lo16 (m (p - 2)))))"

lemma lo16_join16 [simp]: "lo16 (join16 hi lo) = lo"
  by (rule bit_word_eqI) (auto simp: lo16_def join16_def bit_simps)

lemma hi16_join16 [simp]: "hi16 (join16 hi lo) = hi"
  by (rule bit_word_eqI) (auto simp: hi16_def join16_def bit_simps dest: bit_imp_le_length)

end
