(* ===== verification/Heap.thy ===== *)
theory Heap
  imports Hopter_Prelude
begin

unbundle bit_operations_syntax

text \<open>
  The kernel heap, \<open>src/allocator/heap.rs\<close>: a two-level segregated fit allocator with boundary
  tags and six circular doubly linked free lists. Every function of the file is a definition of
  the same name over the word memory; static variables are the fields of the record \<open>heap\<close>.
  The link script's and the configuration's values (\<open>__ram_end\<close>,
  \<open>config::__MEM_CHUNK_LINK_OFFSET\<close>, the address where the linker puts \<open>SENTINELS\<close>) are the
  fields of \<open>heap_env\<close>.
\<close>

section \<open>Environment and static variables\<close>

record heap_env =
  link_offset :: u32
  sentinels :: ptr
  ram_end :: u32

record heap =
  mem :: mem
  heap_start :: ptr
  cached :: ptr
  high_water_mark :: u32
  high_water_mark_just_updated :: bool
  cur_alloc_size :: u32
  max_alloc_size :: u32

definition HDR_SIZE :: u32 where "HDR_SIZE = 4"
definition GUARD_SIZE :: u32 where "GUARD_SIZE = 4"

text \<open>Header (4) plus footer (4) plus two links of 2 bytes.\<close>

definition FREE_CHUNK_MIN_SIZE :: u32 where "FREE_CHUNK_MIN_SIZE = 12"

text \<open>A \<open>Sentinel\<close> is laid out as a free chunk's first eight bytes: header, prev link, next
  link. \<open>SENTINELS[idx].hdr\<close> is at \<open>sentinel idx\<close>.\<close>

definition sentinel :: "heap_env \<Rightarrow> nat \<Rightarrow> ptr" where
  "sentinel env idx = sentinels env + 8 * idx"

section \<open>Headers, footers and links\<close>

definition hdr_to_payload :: "ptr \<Rightarrow> ptr" where
  "hdr_to_payload hdr = wrapping_byte_add hdr 4"

definition payload_to_hdr :: "ptr \<Rightarrow> ptr" where
  "payload_to_hdr p = wrapping_byte_sub p 4"

definition get_hdr_chunk_size :: "mem \<Rightarrow> ptr \<Rightarrow> u32" where
  "get_hdr_chunk_size m hdr = m hdr AND NOT 3"

definition set_hdr_chunk_size :: "ptr \<Rightarrow> u32 \<Rightarrow> mem \<Rightarrow> mem" where
  "set_hdr_chunk_size hdr sz m = write32 m hdr ((sz AND NOT 3) OR (m hdr AND 3))"

definition clear_hdr :: "ptr \<Rightarrow> mem \<Rightarrow> mem" where
  "clear_hdr hdr m = write32 m hdr 0"

definition hdr_to_ftr :: "mem \<Rightarrow> ptr \<Rightarrow> ptr" where
  "hdr_to_ftr m hdr =
     wrapping_byte_sub (wrapping_byte_add hdr (unat (get_hdr_chunk_size m hdr))) 4"

definition set_ftr_chunk_size :: "ptr \<Rightarrow> u32 \<Rightarrow> mem \<Rightarrow> mem" where
  "set_ftr_chunk_size ftr sz m = write32 m ftr sz"

definition hdr_to_right_hdr :: "mem \<Rightarrow> ptr \<Rightarrow> ptr" where
  "hdr_to_right_hdr m hdr = wrapping_byte_add hdr (unat (get_hdr_chunk_size m hdr))"

definition hdr_to_left_ftr :: "ptr \<Rightarrow> ptr" where
  "hdr_to_left_ftr hdr = wrapping_byte_sub hdr 4"

definition hdr_to_left_hdr :: "mem \<Rightarrow> ptr \<Rightarrow> ptr" where
  "hdr_to_left_hdr m hdr = wrapping_byte_sub hdr (unat (m (hdr_to_left_ftr hdr)))"

definition is_this_free :: "mem \<Rightarrow> ptr \<Rightarrow> bool" where
  "is_this_free m hdr \<longleftrightarrow> m hdr AND 2 = 0"

definition is_left_free :: "mem \<Rightarrow> ptr \<Rightarrow> bool" where
  "is_left_free m hdr \<longleftrightarrow> m hdr AND 1 = 0"

definition is_right_free :: "mem \<Rightarrow> ptr \<Rightarrow> bool" where
  "is_right_free m hdr \<longleftrightarrow> is_this_free m (hdr_to_right_hdr m hdr)"

definition set_this_free :: "ptr \<Rightarrow> mem \<Rightarrow> mem" where
  "set_this_free hdr m = write32 m hdr (m hdr AND NOT 2)"

definition set_self_allocated :: "ptr \<Rightarrow> mem \<Rightarrow> mem" where
  "set_self_allocated hdr m = write32 m hdr (m hdr OR 2)"

definition set_left_allocated :: "ptr \<Rightarrow> mem \<Rightarrow> mem" where
  "set_left_allocated hdr m = write32 m hdr (m hdr OR 1)"

definition set_left_free :: "ptr \<Rightarrow> mem \<Rightarrow> mem" where
  "set_left_free hdr m = write32 m hdr (m hdr AND NOT 1)"

definition link_to_ptr :: "heap_env \<Rightarrow> u16 \<Rightarrow> ptr" where
  "link_to_ptr env link = unat (link_offset env + push_bit 2 (ucast link))"

definition ptr_to_link :: "heap_env \<Rightarrow> ptr \<Rightarrow> u16" where
  "ptr_to_link env p = ucast (drop_bit 2 (of_nat p - link_offset env))"

definition hdr_to_prev_field :: "ptr \<Rightarrow> ptr" where
  "hdr_to_prev_field hdr = wrapping_byte_add hdr 4"

definition hdr_to_next_field :: "ptr \<Rightarrow> ptr" where
  "hdr_to_next_field hdr = wrapping_byte_add hdr 6"

definition hdr_to_prev_hdr :: "heap_env \<Rightarrow> mem \<Rightarrow> ptr \<Rightarrow> ptr" where
  "hdr_to_prev_hdr env m hdr = link_to_ptr env (read16 m (hdr_to_prev_field hdr))"

definition hdr_to_next_hdr :: "heap_env \<Rightarrow> mem \<Rightarrow> ptr \<Rightarrow> ptr" where
  "hdr_to_next_hdr env m hdr = link_to_ptr env (read16 m (hdr_to_next_field hdr))"

section \<open>Free lists\<close>

definition unlink_chunk :: "heap_env \<Rightarrow> ptr \<Rightarrow> mem \<Rightarrow> mem" where
  "unlink_chunk env hdr m =
     (let prev_hdr = hdr_to_prev_hdr env m hdr;
          next_hdr = hdr_to_next_hdr env m hdr;
          m = write16 m (hdr_to_next_field prev_hdr) (ptr_to_link env next_hdr)
      in write16 m (hdr_to_prev_field next_hdr) (ptr_to_link env prev_hdr))"

definition link_chunk :: "heap_env \<Rightarrow> ptr \<Rightarrow> ptr \<Rightarrow> mem \<Rightarrow> mem" where
  "link_chunk env prev_hdr hdr m =
     (let next_hdr = hdr_to_next_hdr env m prev_hdr;
          m = write16 m (hdr_to_next_field prev_hdr) (ptr_to_link env hdr);
          m = write16 m (hdr_to_prev_field next_hdr) (ptr_to_link env hdr);
          m = write16 m (hdr_to_next_field hdr) (ptr_to_link env next_hdr)
      in write16 m (hdr_to_prev_field hdr) (ptr_to_link env prev_hdr))"

definition unlink_and_merge_right :: "heap_env \<Rightarrow> ptr \<Rightarrow> mem \<Rightarrow> ptr \<times> mem" where
  "unlink_and_merge_right env hdr m =
     (let right_hdr = hdr_to_right_hdr m hdr;
          m = unlink_chunk env right_hdr m;
          total_size = get_hdr_chunk_size m hdr + get_hdr_chunk_size m right_hdr
      in (hdr, set_hdr_chunk_size hdr total_size m))"

definition unlink_and_merge_left :: "heap_env \<Rightarrow> ptr \<Rightarrow> mem \<Rightarrow> ptr \<times> mem" where
  "unlink_and_merge_left env hdr m =
     (let left_hdr = hdr_to_left_hdr m hdr;
          m = unlink_chunk env left_hdr m;
          total_size = get_hdr_chunk_size m hdr + get_hdr_chunk_size m left_hdr
      in (left_hdr, set_hdr_chunk_size left_hdr total_size m))"

definition unlink_and_merge_neighbor :: "heap_env \<Rightarrow> ptr \<Rightarrow> mem \<Rightarrow> ptr \<times> mem" where
  "unlink_and_merge_neighbor env hdr m =
     (let left_hdr = hdr_to_left_hdr m hdr;
          right_hdr = hdr_to_right_hdr m hdr;
          m = unlink_chunk env left_hdr m;
          m = unlink_chunk env right_hdr m;
          total_size = get_hdr_chunk_size m hdr + get_hdr_chunk_size m left_hdr
            + get_hdr_chunk_size m right_hdr
      in (left_hdr, set_hdr_chunk_size left_hdr total_size m))"

text \<open>The source encodes the two flags as \<open>left_free + 2 * right_free\<close> and matches on 0 to 3.\<close>

definition merge_neighbor_if_possible :: "heap_env \<Rightarrow> ptr \<Rightarrow> mem \<Rightarrow> ptr \<times> mem" where
  "merge_neighbor_if_possible env hdr m =
     (case (is_left_free m hdr, is_right_free m hdr) of
        (False, False) \<Rightarrow> (hdr, m)
      | (True, False) \<Rightarrow> unlink_and_merge_left env hdr m
      | (False, True) \<Rightarrow> unlink_and_merge_right env hdr m
      | (True, True) \<Rightarrow> unlink_and_merge_neighbor env hdr m)"

definition set_free_chunk_hdr_ftr :: "ptr \<Rightarrow> u32 \<Rightarrow> mem \<Rightarrow> mem" where
  "set_free_chunk_hdr_ftr hdr sz m =
     (let m = clear_hdr hdr m;
          m = set_hdr_chunk_size hdr sz m;
          ftr = hdr_to_ftr m hdr;
          m = set_ftr_chunk_size ftr sz m
      in set_this_free hdr m)"

definition chunk_size_to_list_index :: "u32 \<Rightarrow> nat" where
  "chunk_size_to_list_index sz = min (27 - leading_zeros sz) 5"

definition return_excess_to_free_list :: "heap_env \<Rightarrow> ptr \<Rightarrow> u32 \<Rightarrow> mem \<Rightarrow> mem" where
  "return_excess_to_free_list env hdr sz m =
     (let total_size = get_hdr_chunk_size m hdr
      in if total_size < sz + FREE_CHUNK_MIN_SIZE then m
         else
           let right_size = total_size - sz;
               right_hdr = wrapping_byte_add hdr (unat sz);
               m = set_free_chunk_hdr_ftr right_hdr right_size m;
               idx = chunk_size_to_list_index right_size;
               m = link_chunk env (sentinel env idx) right_hdr m
           in set_hdr_chunk_size hdr sz m)"

section \<open>Searching, freeing, allocating\<close>

text \<open>The \<open>while\<close> loop over one free list. \<open>None\<close> is a loop that never ends, which a corrupted
  list could cause; \<open>Some None\<close> is a list without a fitting chunk.\<close>

partial_function (option) search_list ::
  "heap_env \<Rightarrow> mem \<Rightarrow> u32 \<Rightarrow> ptr \<Rightarrow> ptr \<Rightarrow> ptr option option" where
  "search_list env m sz end_hdr cur =
     (if cur = end_hdr then Some None
      else if get_hdr_chunk_size m cur \<ge> sz then Some (Some cur)
      else search_list env m sz end_hdr (hdr_to_next_hdr env m cur))"

declare search_list.simps [code]

fun search_lists :: "heap_env \<Rightarrow> mem \<Rightarrow> u32 \<Rightarrow> nat list \<Rightarrow> ptr option" where
  "search_lists env m sz [] = Some 0"
| "search_lists env m sz (idx # idxs) =
     (case search_list env m sz (sentinel env idx) (hdr_to_next_hdr env m (sentinel env idx)) of
        None \<Rightarrow> None
      | Some (Some hdr) \<Rightarrow> Some hdr
      | Some None \<Rightarrow> search_lists env m sz idxs)"

definition search_first_fit :: "heap_env \<Rightarrow> mem \<Rightarrow> u32 \<Rightarrow> ptr option" where
  "search_first_fit env m sz =
     (let idx_fit = min (chunk_size_to_list_index sz + 1) 5
      in search_lists env m sz [idx_fit..<6])"

definition mcu_free :: "heap_env \<Rightarrow> ptr \<Rightarrow> heap \<Rightarrow> heap" where
  "mcu_free env payload s =
     (let hdr = payload_to_hdr payload
      in if cached s = 0 then s\<lparr>cached := hdr\<rparr>
         else
           let old = cached s;
               s = s\<lparr>cached := hdr\<rparr>;
               m = mem s;
               s = s\<lparr>cur_alloc_size := cur_alloc_size s - get_hdr_chunk_size m old\<rparr>;
               (merged_hdr, m) = merge_neighbor_if_possible env old m;
               m = set_this_free merged_hdr m;
               merged_ftr = hdr_to_ftr m merged_hdr;
               m = set_ftr_chunk_size merged_ftr (get_hdr_chunk_size m merged_hdr) m;
               m = set_left_allocated merged_hdr m;
               right_hdr = hdr_to_right_hdr m merged_hdr;
               m = set_left_free right_hdr m;
               sz = get_hdr_chunk_size m merged_hdr;
               idx = chunk_size_to_list_index sz;
               m = link_chunk env (sentinel env idx) merged_hdr m
           in s\<lparr>mem := m\<rparr>)"

text \<open>The size of the chunk that serves a request: header added, at least 16, a multiple of 8.\<close>

definition request_size :: "u32 \<Rightarrow> u32" where
  "request_size sz = (max (sz + HDR_SIZE) 16 + 7) AND NOT 7"

definition mcu_malloc :: "heap_env \<Rightarrow> u32 \<Rightarrow> heap \<Rightarrow> (ptr \<times> heap) option" where
  "mcu_malloc env sz s =
     (if sz = 0 then Some (0, s)
      else
        let sz = request_size sz;
            cached_hdr = cached s;
            m = mem s
        in if cached_hdr \<noteq> 0 \<and> get_hdr_chunk_size m cached_hdr \<ge> sz
              \<and> get_hdr_chunk_size m cached_hdr - sz \<le> 512
           then Some (hdr_to_payload cached_hdr, s\<lparr>cached := 0\<rparr>)
           else
             case search_first_fit env m sz of
               None \<Rightarrow> None
             | Some hdr \<Rightarrow>
                 if hdr = 0 then Some (0, s)
                 else
                   let m = unlink_chunk env hdr m;
                       m = return_excess_to_free_list env hdr sz m;
                       m = set_self_allocated hdr m;
                       m = set_left_allocated hdr m;
                       right_hdr = hdr_to_right_hdr m hdr;
                       m = set_left_allocated right_hdr m;
                       s = s\<lparr>mem := m\<rparr>;
                       s = (if high_water_mark s < of_nat right_hdr
                            then s\<lparr>high_water_mark := of_nat right_hdr,
                                   high_water_mark_just_updated := True\<rparr>
                            else s);
                       s = s\<lparr>cur_alloc_size := cur_alloc_size s + get_hdr_chunk_size m hdr\<rparr>;
                       s = (if max_alloc_size s \<le> cur_alloc_size s
                            then s\<lparr>max_alloc_size := cur_alloc_size s\<rparr> else s)
                   in Some (hdr_to_payload hdr, s))"

section \<open>Initialisation\<close>

text \<open>The loop over the six sentinels: both links of each point to itself.\<close>

fun init_sentinels :: "heap_env \<Rightarrow> nat list \<Rightarrow> mem \<Rightarrow> mem" where
  "init_sentinels env [] m = m"
| "init_sentinels env (idx # idxs) m =
     (let m = write16 m (hdr_to_next_field (sentinel env idx)) (ptr_to_link env (sentinel env idx));
          m = write16 m (hdr_to_prev_field (sentinel env idx)) (ptr_to_link env (sentinel env idx))
      in init_sentinels env idxs m)"

definition mcu_heap_init :: "heap_env \<Rightarrow> u32 \<Rightarrow> heap \<Rightarrow> heap res" where
  "mcu_heap_init env data_end s =
     (case checked_add data_end 3 of
        None \<Rightarrow> Inl Die
      | Some e \<Rightarrow>
          (let data_end = e AND NOT 3
           in case (if data_end mod 8 = 0 then checked_add data_end 4 else Some data_end) of
                None \<Rightarrow> Inl Die
              | Some data_end \<Rightarrow>
                  let ram_end_addr = ram_end env
                  in if ram_end_addr < data_end then Inl Die
                     else if ram_end_addr - data_end < FREE_CHUNK_MIN_SIZE then Inl Die
                     else
                       let s = s\<lparr>heap_start := unat data_end\<rparr>;
                           buffer_size = ram_end_addr - data_end;
                           m = init_sentinels env [0..<6] (mem s);
                           hdr = heap_start s;
                           init_size = buffer_size - GUARD_SIZE;
                           m = set_free_chunk_hdr_ftr hdr init_size m;
                           m = set_left_allocated hdr m;
                           guard = hdr_to_right_hdr m hdr;
                           m = clear_hdr guard m;
                           m = set_hdr_chunk_size guard 0 m;
                           m = set_self_allocated guard m;
                           m = set_left_free guard m;
                           m = link_chunk env
                                 (sentinel env (chunk_size_to_list_index init_size)) hdr m
                       in Inr (s\<lparr>mem := m\<rparr>)))"

end
