(* ===== verification/Heap_Lists.thy ===== *)
theory Heap_Lists
  imports Heap
begin

unbundle bit_operations_syntax

text \<open>
  The six circular free lists. \<open>dll nx pv xs\<close> says that consecutive elements of \<open>xs\<close> point to
  each other; a free list with sentinel \<open>s\<close> and elements \<open>fl\<close> is \<open>dll nx pv (s # fl @ [s])\<close>.
  The first half is about arbitrary link functions, the second relates them to the 16-bit link
  fields of the memory and proves what \<open>unlink_chunk\<close> and \<open>link_chunk\<close> do.
\<close>

section \<open>Doubly linked paths\<close>

fun dll :: "('a \<Rightarrow> 'a) \<Rightarrow> ('a \<Rightarrow> 'a) \<Rightarrow> 'a list \<Rightarrow> bool" where
  "dll nx pv (a # b # xs) \<longleftrightarrow> nx a = b \<and> pv b = a \<and> dll nx pv (b # xs)"
| "dll nx pv _ \<longleftrightarrow> True"

lemma dll_append: "dll nx pv (xs @ a # ys) \<longleftrightarrow> dll nx pv (xs @ [a]) \<and> dll nx pv (a # ys)"
proof (induction xs)
  case (Cons x xs)
  then show ?case by (cases xs) auto
qed simp

lemma dll_cong:
  assumes "\<And>x. x \<in> set (butlast xs) \<Longrightarrow> nx' x = nx x" "\<And>x. x \<in> set (tl xs) \<Longrightarrow> pv' x = pv x"
  shows "dll nx' pv' xs = dll nx pv xs"
  using assms
proof (induction xs rule: induct_list012)
  case (3 x y zs)
  have "dll nx' pv' (y # zs) = dll nx pv (y # zs)"
  proof (rule "3.IH"(2))
    fix u assume "u \<in> set (butlast (y # zs))"
    then show "nx' u = nx u" using "3.prems"(1)[of u] by auto
  next
    fix u assume "u \<in> set (tl (y # zs))"
    then show "pv' u = pv u" using "3.prems"(2)[of u] by simp
  qed
  moreover have "nx' x = nx x" "pv' y = pv y" using "3.prems" by auto
  ultimately show ?case by simp
qed auto

lemma dll_remove:
  assumes "dll nx pv (xs @ p # h # n # ys)"
    and "distinct (butlast (xs @ p # h # n # ys))" "distinct (tl (xs @ p # h # n # ys))"
  shows "dll (nx(p := n)) (pv(n := p)) (xs @ p # n # ys)"
proof -
  have 1: "dll nx pv (xs @ [p])" "dll nx pv (n # ys)"
    using assms(1) dll_append[of nx pv xs p "h # n # ys"] by auto
  have "dll (nx(p := n)) (pv(n := p)) (xs @ [p]) = dll nx pv (xs @ [p])"
  proof (rule dll_cong)
    fix x assume "x \<in> set (butlast (xs @ [p]))"
    then show "(nx(p := n)) x = nx x" using assms(2) by (auto simp: butlast_append)
  next
    fix x assume x: "x \<in> set (tl (xs @ [p]))"
    then have "x \<noteq> n" using assms(3) by (cases xs) auto
    then show "(pv(n := p)) x = pv x" by simp
  qed
  moreover have "dll (nx(p := n)) (pv(n := p)) (n # ys) = dll nx pv (n # ys)"
  proof (rule dll_cong)
    fix x assume "x \<in> set (butlast (n # ys))"
    then have "x \<noteq> p" using assms(2) by (auto simp: butlast_append split: if_splits)
    then show "(nx(p := n)) x = nx x" by simp
  next
    fix x assume "x \<in> set (tl (n # ys))"
    then have "x \<noteq> n" using assms(3) by (cases xs) auto
    then show "(pv(n := p)) x = pv x" by simp
  qed
  ultimately show ?thesis using 1 dll_append[of _ _ xs p "n # ys"] by simp
qed

lemma dll_insert:
  assumes "dll nx pv (p # n # ys)" "h \<notin> set (p # n # ys)"
    and "distinct (butlast (p # n # ys))" "distinct (n # ys)"
  shows "dll (nx(p := h, h := n)) (pv(n := h, h := p)) (p # h # n # ys)"
proof -
  have "dll (nx(p := h, h := n)) (pv(n := h, h := p)) (n # ys) = dll nx pv (n # ys)"
  proof (rule dll_cong)
    fix x assume "x \<in> set (butlast (n # ys))"
    then have "x \<noteq> p" "x \<noteq> h" using assms(2,3) by (auto dest: in_set_butlastD split: if_splits)
    then show "(nx(p := h, h := n)) x = nx x" by simp
  next
    fix x assume "x \<in> set (tl (n # ys))"
    then have "x \<noteq> n" "x \<noteq> h" using assms(2,4) by auto
    then show "(pv(n := h, h := p)) x = pv x" by simp
  qed
  with assms(1,2) show ?thesis by auto
qed

section \<open>Families of disjoint rings\<close>

text \<open>\<open>rings nx pv S fl\<close>: for each of the six indices, \<open>fl i\<close> is the circular list that starts
  and ends at the sentinel \<open>S i\<close>, and no node is in two lists.\<close>

definition rings :: "('a \<Rightarrow> 'a) \<Rightarrow> ('a \<Rightarrow> 'a) \<Rightarrow> (nat \<Rightarrow> 'a) \<Rightarrow> (nat \<Rightarrow> 'a list) \<Rightarrow> bool" where
  "rings nx pv S fl \<longleftrightarrow>
     (\<forall>i < 6. dll nx pv (S i # fl i @ [S i]) \<and> distinct (S i # fl i)) \<and>
     (\<forall>i < 6. \<forall>j < 6. i \<noteq> j \<longrightarrow> set (S i # fl i) \<inter> set (S j # fl j) = {})"

definition ring_nodes :: "(nat \<Rightarrow> 'a) \<Rightarrow> (nat \<Rightarrow> 'a list) \<Rightarrow> 'a set" where
  "ring_nodes S fl = (\<Union>i < 6. set (S i # fl i))"

lemma ring_nodes_sub: "i < 6 \<Longrightarrow> set (S i # fl i) \<subseteq> ring_nodes S fl"
  by (auto simp: ring_nodes_def)

lemma rings_cong:
  assumes "\<And>x. x \<in> ring_nodes S fl \<Longrightarrow> nx' x = nx x \<and> pv' x = pv x"
  shows "rings nx' pv' S fl = rings nx pv S fl"
proof -
  have "dll nx' pv' (S i # fl i @ [S i]) = dll nx pv (S i # fl i @ [S i])" if "i < 6" for i
  proof -
    have "nx' x = nx x \<and> pv' x = pv x" if "x \<in> set (S i # fl i)" for x
      using assms[of x] ring_nodes_sub[OF \<open>i < 6\<close>, of S fl] that by auto
    then show ?thesis by (intro dll_cong) (auto simp: butlast_append split: if_splits)
  qed
  then show ?thesis by (auto simp: rings_def)
qed

lemma rings_neighbours:
  assumes "rings nx pv S fl" "i < 6" "fl i = xs @ h # ys"
  shows "pv h = last (S i # xs)" "nx h = hd (ys @ [S i])"
    "pv h \<in> set (S i # fl i)" "nx h \<in> set (S i # fl i)"
proof -
  have d: "dll nx pv ((S i # xs) @ h # ys @ [S i])" using assms by (auto simp: rings_def)
  then have "dll nx pv ((S i # xs) @ [h])" "dll nx pv (h # ys @ [S i])"
    using dll_append[of nx pv "S i # xs" h "ys @ [S i]"] by auto
  moreover have "dll nx pv (butlast (S i # xs) @ last (S i # xs) # [h])"
    using calculation(1) by (metis append_butlast_last_id append_Cons append_Nil append_assoc list.distinct(1))
  ultimately show pv: "pv h = last (S i # xs)" and nx: "nx h = hd (ys @ [S i])"
    using dll_append[of nx pv "butlast (S i # xs)" "last (S i # xs)" "[h]"]
    by (simp, cases ys, auto)
  show "pv h \<in> set (S i # fl i)" unfolding pv assms(3) using last_in_set[of "S i # xs"] by auto
  show "nx h \<in> set (S i # fl i)" unfolding nx assms(3) by (cases ys) auto
qed

lemma rings_unlink:
  assumes R: "rings nx pv S fl" and i: "i < 6" and fl: "fl i = xs @ h # ys"
  shows "rings (nx(pv h := nx h)) (pv(nx h := pv h)) S (fl(i := xs @ ys))"
proof -
  let ?p = "pv h" and ?n = "nx h"
  note nb = rings_neighbours[OF R i fl]
  have D: "dll nx pv (S i # fl i @ [S i])" "distinct (S i # fl i)"
    using R i by (auto simp: rings_def)
  obtain as where as: "S i # xs = as @ [?p]"
    using nb(1) by (metis append_butlast_last_id list.distinct(1))
  obtain bs where bs: "ys @ [S i] = ?n # bs"
    using nb(2) by (cases ys) auto
  have whole: "S i # fl i @ [S i] = as @ ?p # h # ?n # bs"
    using as bs fl by (metis append_Cons append_Nil append_assoc)
  have short: "S i # (xs @ ys) @ [S i] = as @ ?p # ?n # bs"
    using as bs by (metis append_Cons append_Nil append_assoc)
  have "dll (nx(?p := ?n)) (pv(?n := ?p)) (as @ ?p # ?n # bs)"
  proof (rule dll_remove)
    show "dll nx pv (as @ ?p # h # ?n # bs)" using D(1) whole by simp
    show "distinct (butlast (as @ ?p # h # ?n # bs))"
      using D(2) unfolding whole[symmetric] by (simp add: butlast_append)
    show "distinct (tl (as @ ?p # h # ?n # bs))"
      using D(2) unfolding whole[symmetric] by simp
  qed
  then have this_ring: "dll (nx(?p := ?n)) (pv(?n := ?p)) (S i # (xs @ ys) @ [S i])"
    using short by simp
  have other: "dll (nx(?p := ?n)) (pv(?n := ?p)) (S j # fl j @ [S j])" if j: "j < 6" "j \<noteq> i" for j
  proof -
    have "set (S i # fl i) \<inter> set (S j # fl j) = {}" using R i j by (auto simp: rings_def)
    then have "?p \<notin> set (S j # fl j)" "?n \<notin> set (S j # fl j)" using nb(3,4) by auto
    then have "dll (nx(?p := ?n)) (pv(?n := ?p)) (S j # fl j @ [S j]) = dll nx pv (S j # fl j @ [S j])"
      by (intro dll_cong) (auto simp: butlast_append split: if_splits)
    then show ?thesis using R j by (auto simp: rings_def)
  qed
  show ?thesis
    unfolding rings_def
  proof (intro conjI allI impI)
    fix j :: nat assume "j < 6"
    then show "dll (nx(?p := ?n)) (pv(?n := ?p)) (S j # (fl(i := xs @ ys)) j @ [S j])"
      using this_ring other by (cases "j = i") auto
    show "distinct (S j # (fl(i := xs @ ys)) j)"
      using R \<open>j < 6\<close> D(2) fl by (auto simp: rings_def)
  next
    fix j k :: nat assume "j < 6" "k < 6" "j \<noteq> k"
    then have "set (S j # fl j) \<inter> set (S k # fl k) = {}" using R by (auto simp: rings_def)
    then show "set (S j # (fl(i := xs @ ys)) j) \<inter> set (S k # (fl(i := xs @ ys)) k) = {}"
      using fl by (auto split: if_splits)
  qed
qed

lemma rings_link:
  assumes R: "rings nx pv S fl" and i: "i < 6" and h: "h \<notin> ring_nodes S fl"
  shows "rings (nx(S i := h, h := nx (S i))) (pv(nx (S i) := h, h := S i)) S (fl(i := h # fl i))"
    and "nx (S i) \<in> set (S i # fl i)"
proof -
  let ?s = "S i" and ?n = "nx (S i)"
  have D: "dll nx pv (S i # fl i @ [S i])" "distinct (S i # fl i)"
    using R i by (auto simp: rings_def)
  obtain bs where bs: "fl i @ [?s] = ?n # bs" using D(1) by (cases "fl i") auto
  show n: "?n \<in> set (S i # fl i)" using bs by (cases "fl i") auto
  have hn: "h \<notin> set (S j # fl j)" if "j < 6" for j using h that by (auto simp: ring_nodes_def)
  have hi: "h \<notin> set (?s # ?n # bs)" using hn[OF i] bs by (metis list.set_intros(1) set_ConsD
        Un_iff set_append list.set(1) list.set(2) insert_iff empty_iff)
  have bl: "butlast (?s # ?n # bs) = S i # fl i" using bs by (metis butlast.simps(2) butlast_snoc list.distinct(1))
  have dn: "distinct (?n # bs)" using D(2) unfolding bs[symmetric] by simp
  have "dll (nx(?s := h, h := ?n)) (pv(?n := h, h := ?s)) (?s # h # ?n # bs)"
    by (rule dll_insert) (use D bs hi bl dn in auto)
  then have this_ring:
    "dll (nx(?s := h, h := ?n)) (pv(?n := h, h := ?s)) (?s # (h # fl i) @ [?s])"
    using bs by simp
  have other: "dll (nx(?s := h, h := ?n)) (pv(?n := h, h := ?s)) (S j # fl j @ [S j])"
    if j: "j < 6" "j \<noteq> i" for j
  proof -
    have "set (S i # fl i) \<inter> set (S j # fl j) = {}" using R i j by (auto simp: rings_def)
    then have "?s \<notin> set (S j # fl j)" "?n \<notin> set (S j # fl j)" "h \<notin> set (S j # fl j)"
      using n hn j by auto
    then have "dll (nx(?s := h, h := ?n)) (pv(?n := h, h := ?s)) (S j # fl j @ [S j])
        = dll nx pv (S j # fl j @ [S j])"
      by (intro dll_cong) (auto simp: butlast_append split: if_splits)
    then show ?thesis using R j by (auto simp: rings_def)
  qed
  show "rings (nx(?s := h, h := ?n)) (pv(?n := h, h := ?s)) S (fl(i := h # fl i))"
    unfolding rings_def
  proof (intro conjI allI impI)
    fix j :: nat assume "j < 6"
    then show "dll (nx(?s := h, h := ?n)) (pv(?n := h, h := ?s)) (S j # (fl(i := h # fl i)) j @ [S j])"
      using this_ring other by (cases "j = i") auto
    show "distinct (S j # (fl(i := h # fl i)) j)"
      using R \<open>j < 6\<close> D(2) hn[OF i] by (auto simp: rings_def)
  next
    fix j k :: nat assume jk: "j < 6" "k < 6" "j \<noteq> k"
    then have "set (S j # fl j) \<inter> set (S k # fl k) = {}" using R by (auto simp: rings_def)
    then show "set (S j # (fl(i := h # fl i)) j) \<inter> set (S k # (fl(i := h # fl i)) k) = {}"
      using hn[OF jk(1)] hn[OF jk(2)] jk(3) by (auto split: if_splits)
  qed
qed

section \<open>Link fields in memory\<close>

text \<open>A link stores a word offset from \<open>link_offset\<close> in 16 bits: the pointers that survive the
  round trip are the word-aligned ones in the 256 KiB above it.\<close>

definition linkable :: "heap_env \<Rightarrow> ptr \<Rightarrow> bool" where
  "linkable env p \<longleftrightarrow> unat (link_offset env) \<le> p \<and> p < unat (link_offset env) + 2 ^ 18
     \<and> 4 dvd p - unat (link_offset env) \<and> 4 dvd p \<and> p + 8 \<le> 2 ^ 32"

lemma ptr_to_link_linkable:
  assumes "linkable env p"
  shows "unat (ptr_to_link env p) = (p - unat (link_offset env)) div 4"
proof -
  let ?o = "unat (link_offset env)"
  have p: "?o \<le> p" "p < ?o + 2 ^ 18" "p < 2 ^ 32" using assms by (auto simp: linkable_def)
  have "of_nat p - link_offset env = (of_nat (p - ?o) :: u32)"
    using p(1) by (simp add: of_nat_diff)
  moreover have "unat (of_nat (p - ?o) :: u32) = p - ?o"
    using p by (simp add: unat_of_nat take_bit_nat_eq_self del: of_nat_diff)
  ultimately have "unat (of_nat p - link_offset env) = p - ?o" by (simp only:)
  then have "unat (drop_bit 2 (of_nat p - link_offset env)) = (p - ?o) div 4"
    by (simp only: unat_drop_bit_eq) (simp add: drop_bit_eq_div)
  moreover have "(p - ?o) div 4 < 2 ^ 16" using p by simp
  ultimately show ?thesis
    by (simp add: ptr_to_link_def unsigned_ucast_eq take_bit_nat_eq_self)
qed

lemma link_ptr_roundtrip [simp]:
  assumes "linkable env p" shows "link_to_ptr env (ptr_to_link env p) = p"
proof -
  let ?o = "unat (link_offset env)" and ?k = "(p - unat (link_offset env)) div 4"
  have p: "?o \<le> p" "p < ?o + 2 ^ 18" "p < 2 ^ 32" "4 dvd p - ?o"
    using assms by (auto simp: linkable_def)
  have k4: "?k * 4 = p - ?o" using p(4) by simp
  have "(ucast (ptr_to_link env p) :: u32) = of_nat ?k"
    by (metis of_nat_unat ptr_to_link_linkable[OF assms])
  then have "push_bit 2 (ucast (ptr_to_link env p) :: u32) = of_nat (?k * 4)"
    by (simp add: push_bit_eq_mult)
  also have "\<dots> = of_nat (p - ?o)" using k4 by simp
  finally have "link_offset env + push_bit 2 (ucast (ptr_to_link env p)) = (of_nat p :: u32)"
    using p(1) by (simp add: of_nat_diff)
  then show ?thesis
    using p(3) by (simp add: link_to_ptr_def unat_of_nat take_bit_nat_eq_self)
qed

abbreviation NX :: "heap_env \<Rightarrow> mem \<Rightarrow> ptr \<Rightarrow> ptr" where
  "NX env m \<equiv> hdr_to_next_hdr env m"

abbreviation PV :: "heap_env \<Rightarrow> mem \<Rightarrow> ptr \<Rightarrow> ptr" where
  "PV env m \<equiv> hdr_to_prev_hdr env m"

lemma linkable_aligned:
  assumes "linkable env p"
  shows "p mod 4 = 0" "(p + 6) mod 4 = 2" "p + 6 - 2 = p + 4" "hdr_to_next_field p = p + 6"
    "hdr_to_prev_field p = p + 4"
  using assms by (auto simp: linkable_def hdr_to_next_field_def hdr_to_prev_field_def elim!: dvdE)

lemma PV_eq: "linkable env a \<Longrightarrow> PV env m a = link_to_ptr env (lo16 (m (a + 4)))"
  by (simp add: hdr_to_prev_hdr_def read16_def linkable_aligned add.commute)

lemma NX_eq: "linkable env a \<Longrightarrow> NX env m a = link_to_ptr env (hi16 (m (a + 4)))"
  by (simp add: hdr_to_next_hdr_def read16_def linkable_aligned add.commute)

lemma write_next:
  "linkable env p \<Longrightarrow>
     write16 m (hdr_to_next_field p) v = m(p + 4 := join16 v (lo16 (m (p + 4))))"
  by (simp add: write16_def linkable_aligned add.commute)

lemma write_prev:
  "linkable env p \<Longrightarrow>
     write16 m (hdr_to_prev_field p) v = m(p + 4 := join16 (hi16 (m (p + 4))) v)"
  by (simp add: write16_def linkable_aligned add.commute)

text \<open>The effect of one link write on the link functions, at every linkable node.\<close>

lemma NX_write_next [link_simps]:
  "\<lbrakk>linkable env p; linkable env v; linkable env a\<rbrakk> \<Longrightarrow>
     NX env (write16 m (hdr_to_next_field p) (ptr_to_link env v)) a = (if a = p then v else NX env m a)"
  by (simp add: write_next NX_eq)

lemma PV_write_next [link_simps]:
  "\<lbrakk>linkable env p; linkable env a\<rbrakk> \<Longrightarrow>
     PV env (write16 m (hdr_to_next_field p) v) a = PV env m a"
  by (simp add: write_next PV_eq)

lemma PV_write_prev [link_simps]:
  "\<lbrakk>linkable env p; linkable env v; linkable env a\<rbrakk> \<Longrightarrow>
     PV env (write16 m (hdr_to_prev_field p) (ptr_to_link env v)) a = (if a = p then v else PV env m a)"
  by (simp add: write_prev PV_eq)

lemma NX_write_prev [link_simps]:
  "\<lbrakk>linkable env p; linkable env a\<rbrakk> \<Longrightarrow>
     NX env (write16 m (hdr_to_prev_field p) v) a = NX env m a"
  by (simp add: write_prev NX_eq)

lemma unlink_chunk_links:
  assumes "linkable env (PV env m h)" "linkable env (NX env m h)" "linkable env a"
  shows "NX env (unlink_chunk env h m) a = ((NX env m)(PV env m h := NX env m h)) a"
    and "PV env (unlink_chunk env h m) a = ((PV env m)(NX env m h := PV env m h)) a"
  using assms by (simp_all add: unlink_chunk_def Let_def link_simps)

lemma unlink_chunk_frame:
  assumes "linkable env (PV env m h)" "linkable env (NX env m h)"
    and "w \<noteq> PV env m h + 4" "w \<noteq> NX env m h + 4"
  shows "unlink_chunk env h m w = m w"
  using assms by (simp add: unlink_chunk_def Let_def write_next write_prev)

lemma link_chunk_links:
  assumes "linkable env p" "linkable env (NX env m p)" "linkable env h" "linkable env a"
    and "h \<noteq> p" "h \<noteq> NX env m p"
  shows "NX env (link_chunk env p h m) a = ((NX env m)(p := h, h := NX env m p)) a"
    and "PV env (link_chunk env p h m) a = ((PV env m)(NX env m p := h, h := p)) a"
  using assms by (simp_all add: link_chunk_def Let_def link_simps)

lemma link_chunk_frame:
  assumes "linkable env p" "linkable env (NX env m p)" "linkable env h"
    and "w \<noteq> p + 4" "w \<noteq> NX env m p + 4" "w \<noteq> h + 4"
  shows "link_chunk env p h m w = m w"
  using assms by (simp add: link_chunk_def Let_def write_next write_prev)

text \<open>Writes that miss the link word of a node leave its links alone.\<close>

lemma links_cong:
  "linkable env a \<Longrightarrow> m' (a + 4) = m (a + 4) \<Longrightarrow> NX env m' a = NX env m a \<and> PV env m' a = PV env m a"
  by (simp add: NX_eq PV_eq)

section \<open>The free lists in memory\<close>

definition free_lists :: "heap_env \<Rightarrow> mem \<Rightarrow> (nat \<Rightarrow> ptr list) \<Rightarrow> bool" where
  "free_lists env m fl \<longleftrightarrow> rings (NX env m) (PV env m) (sentinel env) fl
     \<and> (\<forall>a \<in> ring_nodes (sentinel env) fl. linkable env a)"

lemma free_lists_cong:
  assumes "free_lists env m fl" "\<And>a. a \<in> ring_nodes (sentinel env) fl \<Longrightarrow> m' (a + 4) = m (a + 4)"
  shows "free_lists env m' fl"
proof -
  have "NX env m' a = NX env m a \<and> PV env m' a = PV env m a" if "a \<in> ring_nodes (sentinel env) fl" for a
    using assms that by (intro links_cong) (auto simp: free_lists_def)
  then have "rings (NX env m') (PV env m') (sentinel env) fl = rings (NX env m) (PV env m) (sentinel env) fl"
    by (rule rings_cong)
  then show ?thesis using assms(1) by (simp add: free_lists_def)
qed

lemma ring_nodes_upd_sub:
  "i < 6 \<Longrightarrow> ring_nodes S (fl(i := ys)) \<subseteq> ring_nodes S fl \<union> set ys"
  by (auto simp: ring_nodes_def split: if_splits)

lemma free_lists_unlink:
  assumes F: "free_lists env m fl" and i: "i < 6" and fl: "fl i = xs @ h # ys"
  shows "free_lists env (unlink_chunk env h m) (fl(i := xs @ ys))"
    and "\<And>w. (\<And>a. a \<in> ring_nodes (sentinel env) fl \<Longrightarrow> w \<noteq> a + 4) \<Longrightarrow> unlink_chunk env h m w = m w"
proof -
  let ?N = "ring_nodes (sentinel env) fl" and ?m = "unlink_chunk env h m"
  have R: "rings (NX env m) (PV env m) (sentinel env) fl" and L: "\<And>a. a \<in> ?N \<Longrightarrow> linkable env a"
    using F by (auto simp: free_lists_def)
  have nb: "PV env m h \<in> ?N" "NX env m h \<in> ?N"
    using rings_neighbours(3,4)[OF R i fl] ring_nodes_sub[OF i, of "sentinel env" fl] by auto
  have sub: "ring_nodes (sentinel env) (fl(i := xs @ ys)) \<subseteq> ?N"
    using ring_nodes_upd_sub[OF i, of "sentinel env" fl "xs @ ys"] ring_nodes_sub[OF i, of "sentinel env" fl] fl
    by auto
  have "rings (NX env ?m) (PV env ?m) (sentinel env) (fl(i := xs @ ys))
      = rings ((NX env m)(PV env m h := NX env m h)) ((PV env m)(NX env m h := PV env m h))
          (sentinel env) (fl(i := xs @ ys))"
    by (rule rings_cong) (use unlink_chunk_links[of env m h] L nb sub in auto)
  then show "free_lists env ?m (fl(i := xs @ ys))"
    using rings_unlink[OF R i fl] L sub by (auto simp: free_lists_def)
  show "\<And>w. (\<And>a. a \<in> ?N \<Longrightarrow> w \<noteq> a + 4) \<Longrightarrow> ?m w = m w"
    using unlink_chunk_frame[of env m h] L nb by auto
qed

lemma free_lists_link:
  assumes F: "free_lists env m fl" and i: "i < 6" and h: "h \<notin> ring_nodes (sentinel env) fl"
    and lh: "linkable env h"
  shows "free_lists env (link_chunk env (sentinel env i) h m) (fl(i := h # fl i))"
    and "\<And>w. (\<And>a. a \<in> insert h (ring_nodes (sentinel env) fl) \<Longrightarrow> w \<noteq> a + 4) \<Longrightarrow>
           link_chunk env (sentinel env i) h m w = m w"
proof -
  let ?N = "ring_nodes (sentinel env) fl" and ?s = "sentinel env i"
  let ?m = "link_chunk env ?s h m"
  have R: "rings (NX env m) (PV env m) (sentinel env) fl" and L: "\<And>a. a \<in> ?N \<Longrightarrow> linkable env a"
    using F by (auto simp: free_lists_def)
  have nb: "?s \<in> ?N" "NX env m ?s \<in> ?N"
    using rings_link(2)[OF R i h] ring_nodes_sub[OF i, of "sentinel env" fl] by auto
  have ne: "h \<noteq> ?s" "h \<noteq> NX env m ?s" using nb h by auto
  have sub: "ring_nodes (sentinel env) (fl(i := h # fl i)) \<subseteq> insert h ?N"
    using ring_nodes_upd_sub[OF i, of "sentinel env" fl "h # fl i"] ring_nodes_sub[OF i, of "sentinel env" fl]
    by auto
  have "rings (NX env ?m) (PV env ?m) (sentinel env) (fl(i := h # fl i))
      = rings ((NX env m)(?s := h, h := NX env m ?s)) ((PV env m)(NX env m ?s := h, h := ?s))
          (sentinel env) (fl(i := h # fl i))"
    by (rule rings_cong)
       (use link_chunk_links[of env ?s m h] L nb lh ne sub in auto)
  then show "free_lists env ?m (fl(i := h # fl i))"
    using rings_link(1)[OF R i h] L sub lh by (auto simp: free_lists_def)
  show "\<And>w. (\<And>a. a \<in> insert h ?N \<Longrightarrow> w \<noteq> a + 4) \<Longrightarrow> ?m w = m w"
    using link_chunk_frame[of env ?s m h] L nb lh by auto
qed

end
