(* ===== verification/Heap_Layout.thy ===== *)
theory Heap_Layout
  imports Heap_Lists
begin

unbundle bit_operations_syntax

text \<open>
  The boundary tags. The heap from \<open>heap_start\<close> to the guard is a sequence of chunks, each a
  pair of its length and whether it is allocated; \<open>hdrs m a l bs\<close> says that memory \<open>m\<close> holds
  the headers (and, for free chunks, the footers) of the chunks \<open>bs\<close> from address \<open>a\<close> on, where
  \<open>l\<close> is the allocation state of the left neighbour.
\<close>

section \<open>Header words\<close>

definition hw :: "nat \<Rightarrow> bool \<Rightarrow> bool \<Rightarrow> u32" where
  "hw n b l = push_bit 2 (of_nat (n div 4)) OR (if b then 2 else 0) OR (if l then 1 else 0)"

lemma bit_2_iff: "bit (2 :: u32) i \<longleftrightarrow> i = 1"
proof -
  have "(2 :: u32) = 2 ^ 1" by simp
  then have "bit (2 :: u32) i = bit (2 ^ 1 :: u32) i" by simp
  also have "\<dots> \<longleftrightarrow> i = 1" by (auto simp only: bit_exp_iff possible_bit_word) simp
  finally show ?thesis .
qed

lemma bit_3_iff: "bit (3 :: u32) i \<longleftrightarrow> i < 2"
proof -
  have "(3 :: u32) = mask 2" by (simp add: mask_eq_exp_minus_1)
  then show ?thesis by (auto simp only: bit_mask_iff possible_bit_word) auto
qed

lemma bit_hw:
  "bit (hw n b l) i \<longleftrightarrow> (if i = 0 then l else if i = 1 then b
     else i < 32 \<and> bit (of_nat (n div 4) :: u32) (i - 2))"
proof -
  have "bit (if b then 2 else 0 :: u32) i \<longleftrightarrow> b \<and> i = 1"
    by (cases b) (simp_all only: if_True if_False bit_2_iff bit_0_eq bot_apply bot_bool_def simp_thms)
  moreover have "bit (if l then 1 else 0 :: u32) i \<longleftrightarrow> l \<and> i = 0" by (simp add: bit_1_iff)
  moreover have "bit (push_bit 2 (of_nat (n div 4) :: u32)) i
      \<longleftrightarrow> 2 \<le> i \<and> i < 32 \<and> bit (of_nat (n div 4) :: u32) (i - 2)"
    by (auto simp: bit_push_bit_iff possible_bit_word)
  ultimately show ?thesis unfolding hw_def bit_or_iff by auto
qed

lemma bit_of_nat_dvd4:
  assumes "4 dvd n"
  shows "bit (of_nat n :: u32) i \<longleftrightarrow> 2 \<le> i \<and> i < 32 \<and> bit (of_nat (n div 4) :: u32) (i - 2)"
proof -
  have "(of_nat n :: u32) = of_nat (n div 4 * 4)" using assms by simp
  also have "\<dots> = push_bit 2 (of_nat (n div 4))" by (simp add: push_bit_eq_mult del: of_nat_div)
  finally show ?thesis by (simp add: bit_push_bit_iff possible_bit_word del: of_nat_div)
qed

text \<open>The masks of the source, bit by bit.\<close>

lemma bit_masks:
  "bit (x AND 3 :: u32) i \<longleftrightarrow> i < 2 \<and> bit x i"
  "bit (x AND NOT 3 :: u32) i \<longleftrightarrow> 2 \<le> i \<and> bit x i"
  "bit (x AND NOT 2 :: u32) i \<longleftrightarrow> i \<noteq> 1 \<and> bit x i"
  "bit (x AND NOT 1 :: u32) i \<longleftrightarrow> i \<noteq> 0 \<and> bit x i"
  "bit (x OR 2 :: u32) i \<longleftrightarrow> i = 1 \<or> bit x i"
  "bit (x OR 1 :: u32) i \<longleftrightarrow> i = 0 \<or> bit x i"
  by (auto simp only: bit_and_iff bit_or_iff bit_not_iff bit_2_iff bit_3_iff bit_1_iff
      possible_bit_word not_less dest: bit_imp_le_length)

lemma bit_word_extI: "(\<And>i. i < 32 \<Longrightarrow> bit (a :: u32) i = bit b i) \<Longrightarrow> a = b"
  by (rule bit_word_eqI) simp

lemma hw_size: "4 dvd n \<Longrightarrow> hw n b l AND NOT 3 = of_nat n"
  by (rule bit_word_extI, unfold bit_masks bit_hw bit_of_nat_dvd4) auto

lemma hw_flags:
  "hw n b l AND NOT 2 = hw n False l" "hw n b l OR 2 = hw n True l"
  "hw n b l AND NOT 1 = hw n b False" "hw n b l OR 1 = hw n b True"
  by (rule bit_word_extI; (simp only: bit_masks bit_hw)?; auto)+

lemma hw_set_size: "4 dvd k \<Longrightarrow> (of_nat k AND NOT 3) OR (hw n b l AND 3) = hw k b l"
  by (rule bit_word_extI, unfold bit_or_iff bit_masks bit_hw bit_of_nat_dvd4) auto

lemma hw_0: "hw 0 False False = 0"
  by (simp add: hw_def)

lemma and_2_eq_0: "(x :: u32) AND 2 = 0 \<longleftrightarrow> \<not> bit x 1"
  using and_exp_eq_0_iff_not_bit[of x 1] by simp

lemma and_1_eq_0: "(x :: u32) AND 1 = 0 \<longleftrightarrow> \<not> bit x 0"
  using and_exp_eq_0_iff_not_bit[of x 0] by simp

lemma hw_and_2: "hw n b l AND 2 = 0 \<longleftrightarrow> \<not> b"
  by (simp only: and_2_eq_0 bit_hw) simp

lemma hw_and_1: "hw n b l AND 1 = 0 \<longleftrightarrow> \<not> l"
  by (simp only: and_1_eq_0 bit_hw) simp

text \<open>The simplifier writes the complemented masks as negative numerals; the facts are collected
  in that form.\<close>

lemma not_masks: "NOT 3 = (- 4 :: u32)" "NOT 2 = (- 3 :: u32)" "NOT 1 = (- 2 :: u32)"
  by simp_all

lemmas hw_simps = hw_size[unfolded not_masks] hw_flags[unfolded not_masks]
  hw_set_size[unfolded not_masks] hw_and_1 hw_and_2


section \<open>Sequences of chunks\<close>

type_synonym chunks = "(nat \<times> bool) list"

text \<open>The guard word above the last chunk is a header with length 0 that is never free.\<close>

abbreviation guard :: "nat \<times> bool" where
  "guard \<equiv> (0, True)"

definition bsum :: "chunks \<Rightarrow> nat" where
  "bsum bs = sum_list (map fst bs)"

fun lastb :: "bool \<Rightarrow> chunks \<Rightarrow> bool" where
  "lastb l [] = l"
| "lastb l ((n, b) # bs) = lastb b bs"

fun hdrs :: "mem \<Rightarrow> ptr \<Rightarrow> bool \<Rightarrow> chunks \<Rightarrow> bool" where
  "hdrs m a l [] \<longleftrightarrow> True"
| "hdrs m a l ((n, b) # bs) \<longleftrightarrow>
     m a = hw n b l \<and> (\<not> b \<longrightarrow> m (a + n - 4) = of_nat n) \<and> hdrs m (a + n) b bs"

text \<open>Chunk lengths are multiples of 8 and at least 16, and of two neighbours one is allocated.\<close>

fun wfb :: "bool \<Rightarrow> chunks \<Rightarrow> bool" where
  "wfb l [] \<longleftrightarrow> True"
| "wfb l ((n, b) # bs) \<longleftrightarrow> 8 dvd n \<and> 16 \<le> n \<and> (l \<or> b) \<and> wfb b bs"

fun tags :: "ptr \<Rightarrow> chunks \<Rightarrow> ptr set" where
  "tags a [] = {}"
| "tags a ((n, b) # bs) = insert a ((if b then {} else {a + n - 4}) \<union> tags (a + n) bs)"

fun blks :: "ptr \<Rightarrow> chunks \<Rightarrow> (ptr \<times> nat \<times> bool) set" where
  "blks a [] = {}"
| "blks a ((n, b) # bs) = insert (a, n, b) (blks (a + n) bs)"

definition asum :: "chunks \<Rightarrow> nat" where
  "asum bs = sum_list (map (\<lambda>(n, b). if b then n else 0) bs)"

lemma bsum_simps [simp]:
  "bsum [] = 0" "bsum (p # bs) = fst p + bsum bs" "bsum (xs @ ys) = bsum xs + bsum ys"
  by (simp_all add: bsum_def)

lemma asum_simps [simp]:
  "asum [] = 0" "asum ((n, b) # bs) = (if b then n else 0) + asum bs"
  "asum (xs @ ys) = asum xs + asum ys"
  by (simp_all add: asum_def)

lemma asum_le_bsum: "asum bs \<le> bsum bs"
  by (induction bs) (auto simp: asum_def bsum_def)

lemma lastb_append [simp]: "lastb l (xs @ ys) = lastb (lastb l xs) ys"
  by (induction l xs rule: lastb.induct) auto

lemma hdrs_append [simp]:
  "hdrs m a l (xs @ ys) \<longleftrightarrow> hdrs m a l xs \<and> hdrs m (a + bsum xs) (lastb l xs) ys"
  by (induction m a l xs rule: hdrs.induct) (auto simp: add.assoc)

lemma wfb_append [simp]: "wfb l (xs @ ys) \<longleftrightarrow> wfb l xs \<and> wfb (lastb l xs) ys"
  by (induction l xs rule: wfb.induct) auto

lemma tags_append [simp]: "tags a (xs @ ys) = tags a xs \<union> tags (a + bsum xs) ys"
  by (induction a xs rule: tags.induct) (auto simp: add.assoc)

lemma blks_append [simp]: "blks a (xs @ ys) = blks a xs \<union> blks (a + bsum xs) ys"
  by (induction a xs rule: blks.induct) (auto simp: add.assoc)

lemma hdrs_cong: "(\<And>w. w \<in> tags a bs \<Longrightarrow> m' w = m w) \<Longrightarrow> hdrs m' a l bs = hdrs m a l bs"
  by (induction m a l bs rule: hdrs.induct) auto

lemma tags_range: "wfb l bs \<Longrightarrow> w \<in> tags a bs \<Longrightarrow> a \<le> w \<and> w + 4 \<le> a + bsum bs"
  by (induction a bs arbitrary: l rule: tags.induct) (fastforce split: if_splits)+

lemma blks_split:
  "(h, n, b) \<in> blks a bs \<Longrightarrow> \<exists>xs ys. bs = xs @ (n, b) # ys \<and> h = a + bsum xs"
proof (induction a bs rule: blks.induct)
  case (2 a n' b' bs)
  show ?case
  proof (cases "(h, n, b) = (a, n', b')")
    case True
    then have "(n', b') # bs = [] @ (n, b) # bs \<and> h = a + bsum []" by simp
    then show ?thesis by blast
  next
    case False
    then obtain xs ys where "bs = xs @ (n, b) # ys" "h = a + n' + bsum xs" using 2 by auto
    then have "(n', b') # bs = ((n', b') # xs) @ (n, b) # ys \<and> h = a + bsum ((n', b') # xs)"
      by simp
    then show ?thesis by blast
  qed
qed simp

lemma blks_mid: "(a + bsum xs, n, b) \<in> blks a (xs @ (n, b) # ys)"
  by simp

lemma blks_range: "(h, n, b) \<in> blks a bs \<Longrightarrow> a \<le> h \<and> h + n \<le> a + bsum bs"
  by (auto dest!: blks_split)

lemma blks_size: "wfb l bs \<Longrightarrow> (h, n, b) \<in> blks a bs \<Longrightarrow> 8 dvd n \<and> 16 \<le> n"
  by (auto dest!: blks_split)

lemma wfb_dvd: "wfb l bs \<Longrightarrow> 8 dvd bsum bs"
  by (induction l bs rule: wfb.induct) auto

lemma blks_aligned: "wfb l bs \<Longrightarrow> (h, n, b) \<in> blks a bs \<Longrightarrow> 8 dvd h - a"
  by (auto dest!: blks_split intro: wfb_dvd)

text \<open>Two chunks are the same or do not overlap.\<close>

lemma blks_disjoint:
  assumes "wfb l bs" "(h, n, b) \<in> blks a bs" "(h', n', b') \<in> blks a bs"
  shows "(h, n, b) = (h', n', b') \<or> h + n \<le> h' \<or> h' + n' \<le> h"
  using assms
proof (induction a bs arbitrary: l rule: blks.induct)
  case (2 a k c bs)
  then show ?case using blks_range by fastforce
qed simp

text \<open>The tags inside a chunk are its header and, when it is free, its footer.\<close>

lemma tags_blks:
  "w \<in> tags a bs \<Longrightarrow> \<exists>h n b. (h, n, b) \<in> blks a bs \<and> (w = h \<or> \<not> b \<and> w = h + n - 4)"
proof (induction a bs rule: tags.induct)
  case (2 a n b bs)
  consider "w = a" | "\<not> b" "w = a + n - 4" | "w \<in> tags (a + n) bs"
    using "2.prems" by (auto split: if_splits)
  then show ?case
  proof cases
    case 3
    then show ?thesis using "2.IH" by auto
  qed auto
qed simp

lemma inside_not_tag:
  assumes "wfb l bs" "(h, n, b) \<in> blks a bs" "h < w" "w < h + n" "b \<or> w + 4 < h + n"
  shows "w \<notin> tags a bs"
proof
  assume "w \<in> tags a bs"
  then obtain h' n' b' where *: "(h', n', b') \<in> blks a bs" "w = h' \<or> \<not> b' \<and> w = h' + n' - 4"
    by (auto dest: tags_blks)
  have "16 \<le> n'" using blks_size[OF assms(1) *(1)] by simp
  with blks_disjoint[OF assms(1,2) *(1)] *(2) assms(3-5) show False by auto
qed

text \<open>Replacing some consecutive chunks by others of the same total length: the new tags are
  written, the left-neighbour flag of the following header is set, all other tags are kept.\<close>

lemma hdrs_replace:
  assumes "hdrs m a l (xs @ mid @ (nr, br) # ys)" and h: "h = a + bsum xs"
    and N: "bsum mid = N" "bsum mid' = N"
    and "hdrs m' h (lastb l xs) mid'"
    and "m' (h + N) = hw nr br (lastb (lastb l xs) mid')"
    and "\<And>w. w \<in> tags a xs \<Longrightarrow> m' w = m w"
    and "\<And>w. w \<in> (if br then {} else {h + N + nr - 4}) \<union> tags (h + N + nr) ys \<Longrightarrow> m' w = m w"
  shows "hdrs m' a l (xs @ mid' @ (nr, br) # ys)"
proof -
  have "hdrs m' a l xs" using assms(1,7) hdrs_cong[of a xs m' m l] by simp
  moreover have "hdrs m' (h + N + nr) br ys"
    using assms(1,8) h N hdrs_cong[of "h + N + nr" ys m' m br] by simp
  ultimately show ?thesis using assms by (auto simp: add.assoc)
qed

end
