(* ===== verification/Heap_Search.thy ===== *)
theory Heap_Search
  imports Heap_Layout
begin

unbundle bit_operations_syntax

text \<open>
  The invariant of the heap, and the search for a free chunk. \<open>heap_ok env s bs fl\<close> ties the
  state to an abstract view: the chunks \<open>bs\<close> from \<open>heap_start\<close> to the guard and the contents
  \<open>fl\<close> of the six free lists. \<open>search_list\<close>, a loop over linked memory, is shown to end and to
  be \<open>find\<close> on the list; hence \<open>search_first_fit\<close> is a first fit over the lists searched.
\<close>

section \<open>The heap invariant\<close>

text \<open>Where the heap may lie: the sentinels below it, everything within reach of the 16-bit
  links, the first header at an address that makes the payloads 8-byte aligned.\<close>

definition region_ok :: "heap_env \<Rightarrow> ptr \<Rightarrow> ptr \<Rightarrow> bool" where
  "region_ok env a e \<longleftrightarrow> 4 dvd unat (link_offset env) \<and> unat (link_offset env) \<le> sentinels env
     \<and> 4 dvd sentinels env \<and> sentinels env + 48 \<le> a \<and> a mod 8 = 4
     \<and> e \<le> unat (link_offset env) + 2 ^ 18 \<and> e + 4 \<le> 2 ^ 32 \<and> 0 < sentinels env"

abbreviation list_index :: "nat \<Rightarrow> nat" where
  "list_index n \<equiv> chunk_size_to_list_index (of_nat n)"

definition bin :: "ptr \<Rightarrow> chunks \<Rightarrow> nat \<Rightarrow> ptr set" where
  "bin a bs i = {h. \<exists>n. (h, n, False) \<in> blks a bs \<and> list_index n = i}"

definition mem_ok :: "heap_env \<Rightarrow> ptr \<Rightarrow> mem \<Rightarrow> chunks \<Rightarrow> (nat \<Rightarrow> ptr list) \<Rightarrow> bool" where
  "mem_ok env a m bs fl \<longleftrightarrow>
     region_ok env a (a + bsum bs) \<and> hdrs m a True (bs @ [guard]) \<and> wfb True bs
     \<and> free_lists env m fl \<and> (\<forall>i < 6. set (fl i) = bin a bs i)"

definition heap_ok :: "heap_env \<Rightarrow> heap \<Rightarrow> chunks \<Rightarrow> (nat \<Rightarrow> ptr list) \<Rightarrow> bool" where
  "heap_ok env s bs fl \<longleftrightarrow>
     mem_ok env (heap_start s) (mem s) bs fl
     \<and> (cached s \<noteq> 0 \<longrightarrow> (\<exists>n. (cached s, n, True) \<in> blks (heap_start s) bs))
     \<and> cur_alloc_size s = of_nat (asum bs) \<and> cur_alloc_size s \<le> max_alloc_size s"

lemma list_index_less: "chunk_size_to_list_index k < 6"
  by (simp add: chunk_size_to_list_index_def)

lemma region_heap:
  "region_ok env a e \<Longrightarrow> 0 < a" "region_ok env a e \<Longrightarrow> 4 dvd a" "region_ok env a e \<Longrightarrow> e < 2 ^ 32"
  by (auto simp: region_ok_def) presburger

lemma region_linkable:
  assumes "region_ok env a e" "a \<le> h" "h + 8 \<le> e" "4 dvd h"
  shows "linkable env h"
  using assms by (auto simp: region_ok_def linkable_def dvd_diff_nat)

lemma sentinel_linkable:
  assumes "region_ok env a e" "a \<le> e" "i < 6" shows "linkable env (sentinel env i)"
proof -
  have "4 dvd sentinel env i" using assms(1) by (auto simp: region_ok_def sentinel_def)
  with assms show ?thesis by (auto simp: region_ok_def linkable_def sentinel_def dvd_diff_nat)
qed

lemma blks_linkable:
  assumes "region_ok env a (a + bsum bs)" "wfb True bs" "(h, n, b) \<in> blks a bs"
  shows "linkable env h"
proof (rule region_linkable[OF assms(1)])
  show "a \<le> h" "h + 8 \<le> a + bsum bs"
    using blks_range[OF assms(3)] blks_size[OF assms(2,3)] by auto
  have "8 dvd h - a" by (rule blks_aligned[OF assms(2,3)])
  then show "4 dvd h" using region_heap(2)[OF assms(1)] \<open>a \<le> h\<close> by presburger
qed

text \<open>The words the links live in are not boundary tags.\<close>

lemma node_not_tag:
  assumes R: "region_ok env a (a + bsum bs)" and W: "wfb True bs"
    and v: "v \<in> sentinel env ` {..<6} \<or> (\<exists>n. (v, n, False) \<in> blks a bs)"
  shows "v + 4 \<notin> tags a (bs @ [guard])"
  using v
proof
  assume "v \<in> sentinel env ` {..<6}"
  then have "v + 4 < a" using R by (auto simp: region_ok_def sentinel_def)
  then show ?thesis using tags_range[OF W, of "v + 4" a] by auto
next
  assume "\<exists>n. (v, n, False) \<in> blks a bs"
  then obtain n where n: "(v, n, False) \<in> blks a bs" by blast
  have 16: "16 \<le> n" using blks_size[OF W n] by simp
  then have "v + 4 \<notin> tags a bs" by (intro inside_not_tag[OF W n]) auto
  moreover have "v + 4 < a + bsum bs" using blks_range[OF n] 16 by simp
  ultimately show ?thesis by simp
qed

lemma size_at:
  assumes "hdrs m a l bs" "wfb l' bs" "(h, n, b) \<in> blks a bs"
  shows "get_hdr_chunk_size m h = of_nat n"
proof -
  obtain xs ys where s: "bs = xs @ (n, b) # ys" "h = a + bsum xs" using blks_split[OF assms(3)] by blast
  have "8 dvd n" using blks_size[OF assms(2,3)] by simp
  then have "4 dvd n" by (rule dvd_trans[rotated]) simp
  then show ?thesis using assms(1) s by (simp add: get_hdr_chunk_size_def hw_simps)
qed

section \<open>Searching the free lists\<close>

lemma search_list_find:
  assumes "dll nx pv (x # xs @ [e])" "e \<notin> set xs" "\<And>y. y \<in> set (x # xs) \<Longrightarrow> NX env m y = nx y"
  shows "search_list env m sz e (NX env m x) = Some (find (\<lambda>h. sz \<le> get_hdr_chunk_size m h) xs)"
  using assms
proof (induction xs arbitrary: x)
  case Nil
  then show ?case by (simp add: search_list.simps)
next
  case (Cons y ys)
  then have "NX env m x = y" "y \<noteq> e" "dll nx pv (y # ys @ [e])" by auto
  moreover have "search_list env m sz e (NX env m y) = Some (find (\<lambda>h. sz \<le> get_hdr_chunk_size m h) ys)"
    using Cons by (intro Cons.IH) auto
  ultimately show ?case by (subst search_list.simps) simp
qed

lemma search_list_ring:
  assumes "free_lists env m fl" "i < 6"
  shows "search_list env m sz (sentinel env i) (NX env m (sentinel env i))
    = Some (find (\<lambda>h. sz \<le> get_hdr_chunk_size m h) (fl i))"
  by (rule search_list_find[where nx = "NX env m" and pv = "PV env m"])
     (use assms in \<open>auto simp: free_lists_def rings_def\<close>)

lemma find_append: "find P (xs @ ys) = (case find P xs of None \<Rightarrow> find P ys | Some x \<Rightarrow> Some x)"
  by (induction xs) auto

text \<open>The nested loops find the first chunk, in the order of the lists, that is long enough;
  the address 0 stands for not found.\<close>

lemma search_lists_find:
  assumes "free_lists env m fl" "\<And>i. i \<in> set idxs \<Longrightarrow> i < 6"
  shows "search_lists env m sz idxs =
    Some (case find (\<lambda>h. sz \<le> get_hdr_chunk_size m h) (concat (map fl idxs)) of
            None \<Rightarrow> 0 | Some h \<Rightarrow> h)"
  using assms(2)
proof (induction idxs)
  case (Cons i idxs)
  then show ?case
    by (simp add: search_list_ring[OF assms(1)] find_append split: option.splits)
qed simp

lemma search_first_fit_find:
  assumes "free_lists env m fl"
  shows "search_first_fit env m sz =
    Some (case find (\<lambda>h. sz \<le> get_hdr_chunk_size m h)
            (concat (map fl [min (chunk_size_to_list_index sz + 1) 5..<6])) of
            None \<Rightarrow> 0 | Some h \<Rightarrow> h)"
  unfolding search_first_fit_def Let_def by (rule search_lists_find[OF assms]) simp

text \<open>A chunk on a list above the request's own index is long enough: the indices are the
  binary logarithms of the lengths.\<close>

lemma list_index_mono_size:
  assumes "chunk_size_to_list_index k < chunk_size_to_list_index n" shows "k \<le> n"
proof (rule ccontr)
  assume "\<not> k \<le> n"
  then have "unat n \<le> unat k" by (simp add: word_le_nat_alt)
  then have "floorlog 2 (unat n) \<le> floorlog 2 (unat k)" by (simp add: floorlog_mono)
  then show False using assms by (auto simp: chunk_size_to_list_index_def leading_zeros_def min_def split: if_splits)
qed

end
