(* ===== verification/Heap_Steps.thy ===== *)
theory Heap_Steps
  imports Heap_Search
begin

unbundle bit_operations_syntax

text \<open>
  The steps from which \<open>mcu_malloc\<close>, \<open>mcu_free\<close> and \<open>mcu_heap_init\<close> are composed, in terms of
  the chunks and the free lists: unlinking and linking a free chunk, and the header writes. In
  between, a set \<open>X\<close> of free chunks may be off the lists.
\<close>

section \<open>Nodes of the free lists\<close>

definition nodes :: "heap_env \<Rightarrow> ptr \<Rightarrow> chunks \<Rightarrow> ptr set" where
  "nodes env a bs = sentinel env ` {..<6} \<union> {v. \<exists>n. (v, n, False) \<in> blks a bs}"

definition link_words :: "heap_env \<Rightarrow> ptr \<Rightarrow> chunks \<Rightarrow> ptr set" where
  "link_words env a bs = (\<lambda>v. v + 4) ` nodes env a bs"

definition lists_ok :: "heap_env \<Rightarrow> ptr \<Rightarrow> mem \<Rightarrow> chunks \<Rightarrow> ptr set \<Rightarrow> (nat \<Rightarrow> ptr list) \<Rightarrow> bool" where
  "lists_ok env a m bs X fl \<longleftrightarrow> free_lists env m fl \<and> (\<forall>i < 6. set (fl i) = bin a bs i - X)"

lemma link_words_not_tags:
  "\<lbrakk>region_ok env a (a + bsum bs); wfb True bs; w \<in> link_words env a bs\<rbrakk> \<Longrightarrow> w \<notin> tags a (bs @ [guard])"
  using node_not_tag[of env a bs] by (auto simp: link_words_def nodes_def)

lemma bin_simps [simp]:
  "bin a [] i = {}"
  "bin a ((n, b) # bs) i = (if \<not> b \<and> list_index n = i then {a} else {}) \<union> bin (a + n) bs i"
  "bin a (xs @ ys) i = bin a xs i \<union> bin (a + bsum xs) ys i"
  by (auto simp: bin_def)

lemma bin_range: "h \<in> bin a bs i \<Longrightarrow> wfb l bs \<Longrightarrow> a \<le> h \<and> h + 16 \<le> a + bsum bs"
  by (fastforce simp: bin_def dest: blks_range blks_size)

lemma blks_unique:
  assumes "wfb l bs" "(h, n, b) \<in> blks a bs" "(h, n', b') \<in> blks a bs"
  shows "n' = n \<and> b' = b"
  using blks_disjoint[OF assms] blks_size[OF assms(1,2)] blks_size[OF assms(1,3)] by auto

lemma bin_iff:
  "wfb l bs \<Longrightarrow> (h, n, False) \<in> blks a bs \<Longrightarrow> h \<in> bin a bs i \<longleftrightarrow> i = list_index n"
  by (auto simp: bin_def dest: blks_unique)

lemma lists_nodes:
  assumes "lists_ok env a m bs X fl"
  shows "ring_nodes (sentinel env) fl \<subseteq> sentinel env ` {..<6} \<union> ({v. \<exists>n. (v, n, False) \<in> blks a bs} - X)"
proof
  fix v assume "v \<in> ring_nodes (sentinel env) fl"
  then obtain i where i: "i < 6" "v = sentinel env i \<or> v \<in> set (fl i)" by (auto simp: ring_nodes_def)
  then show "v \<in> sentinel env ` {..<6} \<union> ({v. \<exists>n. (v, n, False) \<in> blks a bs} - X)"
    using assms by (auto simp: lists_ok_def bin_def)
qed

lemma lists_cong:
  assumes "lists_ok env a m bs X fl"
    and "\<And>v. v \<in> nodes env a bs \<Longrightarrow> v \<notin> X \<or> v \<in> sentinel env ` {..<6} \<Longrightarrow> m' (v + 4) = m (v + 4)"
  shows "lists_ok env a m' bs X fl"
proof -
  have "free_lists env m' fl"
  proof (rule free_lists_cong)
    show "free_lists env m fl" using assms(1) by (simp add: lists_ok_def)
    fix v assume "v \<in> ring_nodes (sentinel env) fl"
    then have "v \<in> sentinel env ` {..<6} \<union> ({v. \<exists>n. (v, n, False) \<in> blks a bs} - X)"
      using lists_nodes[OF assms(1)] by blast
    then show "m' (v + 4) = m (v + 4)" using assms(2)[of v] by (auto simp: nodes_def)
  qed
  then show ?thesis using assms(1) by (simp add: lists_ok_def)
qed

lemma lists_rebin:
  "lists_ok env a m bs X fl \<Longrightarrow> (\<And>i. i < 6 \<Longrightarrow> bin a bs' i - X' = bin a bs i - X) \<Longrightarrow>
    lists_ok env a m bs' X' fl"
  by (simp add: lists_ok_def)

section \<open>Unlinking and linking\<close>

lemma unlink_step:
  assumes L: "lists_ok env a m bs X fl" and W: "wfb True bs"
    and h: "(h, n, False) \<in> blks a bs" "h \<notin> X"
  shows "\<exists>fl'. lists_ok env a (unlink_chunk env h m) bs (insert h X) fl'"
    and "\<And>w. w \<notin> link_words env a bs \<Longrightarrow> unlink_chunk env h m w = m w"
proof -
  let ?i = "list_index n"
  have F: "free_lists env m fl" using L by (simp add: lists_ok_def)
  have i: "?i < 6" by (rule list_index_less)
  then have "h \<in> set (fl ?i)" using L h by (auto simp: lists_ok_def bin_def)
  then obtain xs ys where fl: "fl ?i = xs @ h # ys" by (meson split_list)
  have d: "distinct (fl ?i)" using F i by (auto simp: free_lists_def rings_def)
  have "set ((fl(?i := xs @ ys)) j) = bin a bs j - insert h X" if "j < 6" for j
  proof (cases "j = ?i")
    case True
    have "set (xs @ ys) = set (fl ?i) - {h}" using d unfolding fl by auto
    then show ?thesis using L i True by (auto simp: lists_ok_def)
  next
    case False
    then show ?thesis using L that bin_iff[OF W h(1)] by (auto simp: lists_ok_def)
  qed
  then show "\<exists>fl'. lists_ok env a (unlink_chunk env h m) bs (insert h X) fl'"
    using free_lists_unlink(1)[OF F i fl] unfolding lists_ok_def by blast
  show "unlink_chunk env h m w = m w" if "w \<notin> link_words env a bs" for w
  proof (rule free_lists_unlink(2)[OF F i fl])
    fix v assume "v \<in> ring_nodes (sentinel env) fl"
    then have "v \<in> nodes env a bs" using lists_nodes[OF L] by (auto simp: nodes_def)
    then show "w \<noteq> v + 4" using that by (auto simp: link_words_def)
  qed
qed

lemma link_step:
  assumes L: "lists_ok env a m bs (insert h X) fl" and W: "wfb True bs"
    and R: "region_ok env a (a + bsum bs)"
    and h: "(h, n, False) \<in> blks a bs" "h \<notin> X"
  shows "\<exists>fl'. lists_ok env a (link_chunk env (sentinel env (list_index n)) h m) bs X fl'"
    and "\<And>w. w \<notin> link_words env a bs \<Longrightarrow>
           link_chunk env (sentinel env (list_index n)) h m w = m w"
proof -
  let ?i = "list_index n"
  have F: "free_lists env m fl" using L by (simp add: lists_ok_def)
  have i: "?i < 6" by (rule list_index_less)
  have "h \<noteq> sentinel env j" if "j < 6" for j
    using R blks_range[OF h(1)] that by (auto simp: region_ok_def sentinel_def)
  then have nr: "h \<notin> ring_nodes (sentinel env) fl" using lists_nodes[OF L] by auto
  have lh: "linkable env h" by (rule blks_linkable[OF R W h(1)])
  have "set ((fl(?i := h # fl ?i)) j) = bin a bs j - X" if "j < 6" for j
    using L that bin_iff[OF W h(1)] h(2) i by (auto simp: lists_ok_def)
  then show "\<exists>fl'. lists_ok env a (link_chunk env (sentinel env ?i) h m) bs X fl'"
    using free_lists_link(1)[OF F i nr lh] unfolding lists_ok_def by blast
  show "link_chunk env (sentinel env ?i) h m w = m w" if "w \<notin> link_words env a bs" for w
  proof (rule free_lists_link(2)[OF F i nr lh])
    fix v assume "v \<in> insert h (ring_nodes (sentinel env) fl)"
    then have "v \<in> nodes env a bs" using lists_nodes[OF L] h(1) by (auto simp: nodes_def)
    then show "w \<noteq> v + 4" using that by (auto simp: link_words_def)
  qed
qed

section \<open>Header writes\<close>

lemma unat_of_nat32: "n < 2 ^ 32 \<Longrightarrow> unat (of_nat n :: u32) = n"
  by (simp add: unat_of_nat take_bit_nat_eq_self)

lemma dvd_8_4: "8 dvd n \<Longrightarrow> 4 dvd (n :: nat)"
  by (rule dvd_trans[of 4 8]) simp_all

lemma hdr_ops [simp]:
  assumes "m h = hw n b l" "4 dvd n" "n < 2 ^ 32"
  shows "get_hdr_chunk_size m h = of_nat n"
    and "set_this_free h m = m(h := hw n False l)"
    and "set_self_allocated h m = m(h := hw n True l)"
    and "set_left_allocated h m = m(h := hw n b True)"
    and "set_left_free h m = m(h := hw n b False)"
    and "4 dvd k \<Longrightarrow> set_hdr_chunk_size h (of_nat k) m = m(h := hw k b l)"
    and "is_this_free m h \<longleftrightarrow> \<not> b" and "is_left_free m h \<longleftrightarrow> \<not> l"
    and "h + n < 2 ^ 32 \<Longrightarrow> hdr_to_right_hdr m h = h + n"
    and "h + n < 2 ^ 32 \<Longrightarrow> 4 \<le> n \<Longrightarrow> hdr_to_ftr m h = h + n - 4"
proof -
  show g: "get_hdr_chunk_size m h = of_nat n"
    using assms by (simp add: get_hdr_chunk_size_def hw_simps)
  show "set_this_free h m = m(h := hw n False l)"
    "set_self_allocated h m = m(h := hw n True l)"
    "set_left_allocated h m = m(h := hw n b True)"
    "set_left_free h m = m(h := hw n b False)"
    using assms(1) by (simp_all add: set_this_free_def set_self_allocated_def
        set_left_allocated_def set_left_free_def write32_def hw_simps)
  show "set_hdr_chunk_size h (of_nat k) m = m(h := hw k b l)" if "4 dvd k"
    using assms(1) that by (simp add: set_hdr_chunk_size_def write32_def hw_simps)
  show "is_this_free m h \<longleftrightarrow> \<not> b" "is_left_free m h \<longleftrightarrow> \<not> l"
    using assms(1) by (simp_all add: is_this_free_def is_left_free_def hw_simps)
  show r: "hdr_to_right_hdr m h = h + n" if "h + n < 2 ^ 32"
    using that assms(3) by (simp add: hdr_to_right_hdr_def g unat_of_nat32)
  show "hdr_to_ftr m h = h + n - 4" if "h + n < 2 ^ 32" "4 \<le> n"
    using that assms(3) by (simp add: hdr_to_ftr_def g unat_of_nat32)
qed

lemma set_free_chunk_hdr_ftr_eq:
  assumes "8 dvd k" "16 \<le> k" "r + k < 2 ^ 32"
  shows "set_free_chunk_hdr_ftr r (of_nat k) m = m(r := hw k False False, r + k - 4 := of_nat k)"
proof -
  let ?m1 = "m(r := hw 0 False False)" and ?m2 = "m(r := hw k False False)"
  have 4: "4 dvd k" using assms(1) by (rule dvd_8_4)
  have "clear_hdr r m = ?m1" by (simp add: clear_hdr_def write32_def hw_0)
  moreover have "set_hdr_chunk_size r (of_nat k) ?m1 = ?m2"
    using hdr_ops(6)[of ?m1 r 0 False False k] 4 by simp
  moreover have "hdr_to_ftr ?m2 r = r + k - 4"
    using hdr_ops(10)[of ?m2 r k False False] 4 assms by simp
  moreover have "set_this_free r (?m2(r + k - 4 := of_nat k)) = ?m2(r + k - 4 := of_nat k)"
  proof -
    define m' where "m' = ?m2(r + k - 4 := of_nat k)"
    have r: "m' r = hw k False False" using assms(2) by (auto simp: m'_def)
    have "set_this_free r m' = m'(r := m' r)"
      using hdr_ops(2)[of m' r k False False] r 4 assms(3) by simp
    then show ?thesis unfolding m'_def[symmetric] by simp
  qed
  ultimately show ?thesis
    by (simp add: set_free_chunk_hdr_ftr_def Let_def set_ftr_chunk_size_def write32_def)
qed

end
