(* ===== verification/Heap_Malloc.thy ===== *)
theory Heap_Malloc
  imports Heap_Steps
begin

unbundle bit_operations_syntax

text \<open>
  \<open>mcu_malloc\<close>: taking a free chunk off its list, splitting it when the excess is large enough
  for a chunk of its own, and marking it allocated keep the invariant, whatever the neighbours.
\<close>

section \<open>Taking a chunk\<close>

text \<open>The memory after the header updates of \<open>mcu_malloc\<close>, with the address of the right
  neighbour.\<close>

definition alloc_mem :: "heap_env \<Rightarrow> ptr \<Rightarrow> u32 \<Rightarrow> mem \<Rightarrow> ptr \<times> mem" where
  "alloc_mem env h sz m =
     (let m = set_left_allocated h (set_self_allocated h
                (return_excess_to_free_list env h sz (unlink_chunk env h m)))
      in (hdr_to_right_hdr m h, set_left_allocated (hdr_to_right_hdr m h) m))"

lemma mid_facts:
  assumes "mem_ok env a m bs fl" "bs = xs @ (n, b) # ys" "h = a + bsum xs"
  shows "8 dvd n" "16 \<le> n" "h + n < 2 ^ 32" "h + n + bsum ys < 2 ^ 32" "m h = hw n b (lastb True xs)"
    and "(h, n, b) \<in> blks a bs" and "\<not> b \<Longrightarrow> lastb True xs" and "lists_ok env a m bs {} fl"
    and "n < 2 ^ 32" and "4 dvd n"
  using assms dvd_8_4[of n] by (auto simp: mem_ok_def region_ok_def lists_ok_def)

text \<open>The header that follows a chunk, possibly the guard.\<close>

lemma next_hdr:
  assumes "mem_ok env a m (xs @ (n, b) # ys) fl"
  obtains nr br zs where "ys @ [guard] = (nr, br) # zs" "m (a + bsum xs + n) = hw nr br b"
    "4 dvd nr" "nr < 2 ^ 32" "b \<or> br" "\<not> br \<Longrightarrow> 16 \<le> nr"
    "\<And>w. w \<in> (if br then {} else {a + bsum xs + n + nr - 4}) \<union> tags (a + bsum xs + n + nr) zs \<Longrightarrow>
       a + bsum xs + n < w \<and> w \<in> tags a (xs @ (n, b) # ys @ [guard])"
proof (cases ys)
  case Nil
  then show ?thesis using that[of 0 True "[]"] assms by (auto simp: mem_ok_def)
next
  case (Cons y zs)
  obtain nr br where y: "y = (nr, br)" by fastforce
  have M: "hdrs m a True (xs @ (n, b) # (nr, br) # zs @ [guard])" "wfb True (xs @ (n, b) # (nr, br) # zs)"
    "region_ok env a (a + bsum (xs @ (n, b) # (nr, br) # zs))"
    using assms Cons y by (auto simp: mem_ok_def)
  have nr: "nr < 2 ^ 32" "4 dvd nr" "16 \<le> nr" "wfb br zs" "b \<or> br"
    using M dvd_8_4[of nr] by (auto simp: region_ok_def)
  have r: "a + bsum xs + n < w" if "w \<in> tags (a + bsum xs + n + nr) (zs @ [guard])" for w
    using tags_range[OF nr(4), of w "a + bsum xs + n + nr"] nr(3) that by auto
  show ?thesis
    by (rule that[of nr br "zs @ [guard]"])
       (use M nr r Cons y in \<open>auto simp: add.assoc split: if_splits\<close>)
qed

text \<open>A node other than the chunk at \<open>h\<close> has its links outside that chunk.\<close>

lemma other_node:
  assumes "mem_ok env a m bs fl" "(h, n, b) \<in> blks a bs"
    and "v \<in> nodes env a bs" "v \<noteq> h \<or> v \<in> sentinel env ` {..<6}"
  shows "v + 4 < h \<or> h + n \<le> v"
proof (cases "v \<in> sentinel env ` {..<6}")
  case True
  then have "v + 4 < a" using assms(1) by (auto simp: mem_ok_def region_ok_def sentinel_def)
  then show ?thesis using blks_range[OF assms(2)] by simp
next
  case False
  have W: "wfb True bs" using assms(1) by (simp add: mem_ok_def)
  from False assms(3,4) obtain k where k: "(v, k, False) \<in> blks a bs" "v \<noteq> h"
    by (auto simp: nodes_def)
  show ?thesis using blks_disjoint[OF W k(1) assms(2)] blks_size[OF W k(1)] k(2) by auto
qed

lemma tags_xs_ys:
  assumes "wfb True (xs @ (n, b) # ys)"
  shows "w \<in> tags a xs \<Longrightarrow> w < a + bsum xs"
    and "w \<in> tags (a + bsum xs + n) (ys @ [guard]) \<Longrightarrow> a + bsum xs + n \<le> w"
  using assms tags_range[of True xs w a] tags_range[of b ys w "a + bsum xs + n"] by auto

lemma bin_off_mid:
  assumes "wfb True (xs @ (n, b) # ys)" "h = a + bsum xs" "h \<le> u" "u < h + n"
  shows "u \<notin> bin a xs i" "u \<notin> bin (h + n) ys i"
  using assms bin_range[of u a xs i True] bin_range[of u "h + n" ys i b] by auto

lemma excess_test:
  assumes "mem_ok env a m bs fl" "bs = xs @ (n, b) # ys" "h = a + bsum xs" "k \<le> n"
  shows "(of_nat n :: u32) < of_nat k + FREE_CHUNK_MIN_SIZE \<longleftrightarrow> n < k + 12"
proof -
  have "h + n < 2 ^ 32" "12 \<le> h" using mid_facts[OF assms(1-3)] assms by (auto simp: mem_ok_def region_ok_def)
  then have "unat (of_nat (k + 12) :: u32) = k + 12" "unat (of_nat n :: u32) = n"
    using assms(4) by (intro unat_of_nat32; simp)+
  moreover have "of_nat k + FREE_CHUNK_MIN_SIZE = (of_nat (k + 12) :: u32)"
    by (simp add: FREE_CHUNK_MIN_SIZE_def)
  ultimately show ?thesis by (simp only: word_less_nat_alt)
qed

section \<open>Without a split\<close>

lemma alloc_whole:
  assumes M: "mem_ok env a m bs fl" and bs: "bs = xs @ (n, False) # ys" and h: "h = a + bsum xs"
    and k: "8 dvd k" "k \<le> n" "n < k + 12"
  obtains m' fl' where "alloc_mem env h (of_nat k) m = (h + n, m')"
    "mem_ok env a m' (xs @ (n, True) # ys) fl'"
    "\<And>w. w \<noteq> h \<Longrightarrow> w \<noteq> h + n \<Longrightarrow> w \<notin> link_words env a bs \<Longrightarrow> m' w = m w"
proof -
  note mid = mid_facts[OF M bs h]
  have W: "wfb True bs" and R: "region_ok env a (a + bsum bs)" and T: "hdrs m a True (bs @ [guard])"
    using M by (auto simp: mem_ok_def)
  obtain nr br zs where nx: "ys @ [guard] = (nr, br) # zs" "m (h + n) = hw nr br False"
      "4 dvd nr" "nr < 2 ^ 32" "br"
    and rest: "\<And>w. w \<in> (if br then {} else {h + n + nr - 4}) \<union> tags (h + n + nr) zs \<Longrightarrow>
       h + n < w \<and> w \<in> tags a (bs @ [guard])"
    by (rule next_hdr[of env a m xs n False ys fl]) (use M bs h in auto)
  define m1 where "m1 = unlink_chunk env h m"
  obtain fl1 where L1: "lists_ok env a m1 bs {h} fl1"
    using unlink_step(1)[OF mid(8) W mid(6)] by (auto simp: m1_def)
  have f1: "m1 w = m w" if "w \<notin> link_words env a bs" for w
    using unlink_step(2)[OF mid(8) W mid(6)] that by (simp add: m1_def)
  have t1: "m1 w = m w" if "w \<in> tags a (bs @ [guard])" for w
    using f1 link_words_not_tags[OF R W] that by blast
  have th: "h \<in> tags a (bs @ [guard])" "h + n \<in> tags a (bs @ [guard])"
    using bs h nx(1) by (auto simp: add.assoc)
  have h1: "m1 h = hw n False True" "m1 (h + n) = hw nr br False"
    using t1[OF th(1)] t1[OF th(2)] mid(5,7) nx(2) by auto
  define m' where "m' = m1(h := hw n True True, h + n := hw nr br True)"
  have A: "alloc_mem env h (of_nat k) m = (h + n, m')"
    using h1 mid nx(3,4) excess_test[OF M bs h k(2)] k(3)
    by (simp add: alloc_mem_def Let_def return_excess_to_free_list_def m1_def[symmetric] m'_def)
  have "hdrs m' a True (xs @ [(n, True)] @ (nr, br) # zs)"
  proof (rule hdrs_replace)
    show "hdrs m a True (xs @ [(n, False)] @ (nr, br) # zs)" using T bs nx(1) by simp
    fix w assume "w \<in> tags a xs"
    then have "w < h" "w \<in> tags a (bs @ [guard])" using tags_xs_ys(1)[of xs n False ys w a] W bs h by auto
    then show "m' w = m w" using t1 by (simp add: m'_def)
  next
    fix w assume "w \<in> (if br then {} else {h + n + nr - 4}) \<union> tags (h + n + nr) zs"
    then show "m' w = m w" using rest[of w] t1 by (simp add: m'_def)
  qed (use mid(2) h in \<open>auto simp: m'_def mid(7)\<close>)
  moreover have "wfb True (xs @ (n, True) # ys)" using W bs by (cases ys) auto
  moreover have "lists_ok env a m' bs {h} fl1"
  proof (rule lists_cong[OF L1])
    fix v assume "v \<in> nodes env a bs" "v \<notin> {h} \<or> v \<in> sentinel env ` {..<6}"
    then have "v + 4 < h \<or> h + n \<le> v" using other_node[OF M mid(6)] by auto
    then show "m' (v + 4) = m1 (v + 4)" by (auto simp: m'_def)
  qed
  then have "lists_ok env a m' (xs @ (n, True) # ys) {} fl1"
  proof (rule lists_rebin)
    fix i show "bin a (xs @ (n, True) # ys) i - {} = bin a bs i - {h}"
      using bin_off_mid[of xs n False ys h a h i] W bs h mid(2) by auto
  qed
  moreover have "m' w = m w" if "w \<noteq> h" "w \<noteq> h + n" "w \<notin> link_words env a bs" for w
    using that f1 by (simp add: m'_def)
  ultimately show ?thesis using that[OF A, of fl1] R bs nx(1) by (simp add: mem_ok_def lists_ok_def)
qed


section \<open>With a split\<close>

lemma alloc_split:
  assumes M: "mem_ok env a m bs fl" and bs: "bs = xs @ (n, False) # ys" and h: "h = a + bsum xs"
    and k: "8 dvd k" "16 \<le> k" "k \<le> n" "\<not> n < k + 12"
  obtains m' fl' where "alloc_mem env h (of_nat k) m = (h + k, m')"
    "mem_ok env a m' (xs @ (k, True) # (n - k, False) # ys) fl'"
    "\<And>w. \<lbrakk>w \<noteq> h; w \<noteq> h + k; w \<noteq> h + n - 4; w \<notin> link_words env a bs;
       w \<notin> link_words env a (xs @ (k, True) # (n - k, False) # ys)\<rbrakk> \<Longrightarrow> m' w = m w"
proof -
  let ?bs = "xs @ (k, True) # (n - k, False) # ys" and ?r = "h + k"
  note mid = mid_facts[OF M bs h]
  have W: "wfb True bs" and R: "region_ok env a (a + bsum bs)" and T: "hdrs m a True (bs @ [guard])"
    using M by (auto simp: mem_ok_def)
  have "16 \<le> n - k" using k mid(1) by presburger
  then have k': "8 dvd n - k" "16 \<le> n - k" "4 dvd k" "4 dvd n - k" "?r + (n - k) = h + n"
    using k mid(1) dvd_8_4[of k] dvd_8_4[of "n - k"] by auto
  have bs': "bsum ?bs = bsum bs" using k(3) bs by simp
  have W': "wfb True ?bs" using W bs k k' by (cases ys) auto
  have R': "region_ok env a (a + bsum ?bs)" using R bs' by simp
  obtain nr br zs where nx: "ys @ [guard] = (nr, br) # zs" "m (h + n) = hw nr br False"
    and rest: "\<And>w. w \<in> (if br then {} else {h + n + nr - 4}) \<union> tags (h + n + nr) zs \<Longrightarrow>
       h + n < w \<and> w \<in> tags a (bs @ [guard])"
    by (rule next_hdr[of env a m xs n False ys fl]) (use M bs h in auto)
  define m1 where "m1 = unlink_chunk env h m"
  obtain fl1 where L1: "lists_ok env a m1 bs {h} fl1"
    using unlink_step(1)[OF mid(8) W mid(6)] by (auto simp: m1_def)
  have f1: "m1 w = m w" if "w \<notin> link_words env a bs" for w
    using unlink_step(2)[OF mid(8) W mid(6)] that by (simp add: m1_def)
  define m2 where "m2 = m1(?r := hw (n - k) False False, h + n - 4 := of_nat (n - k))"
  have "lists_ok env a m2 bs {h} fl1"
  proof (rule lists_cong[OF L1])
    fix v assume "v \<in> nodes env a bs" "v \<notin> {h} \<or> v \<in> sentinel env ` {..<6}"
    then have "v + 4 < h \<or> h + n \<le> v" using other_node[OF M mid(6)] by auto
    then show "m2 (v + 4) = m1 (v + 4)" using k by (auto simp: m2_def)
  qed
  then have L2: "lists_ok env a m2 ?bs {?r} fl1"
  proof (rule lists_rebin)
    fix i
    have "h \<notin> bin a xs i" "h \<notin> bin (h + n) ys i" "?r \<notin> bin a xs i" "?r \<notin> bin (h + n) ys i"
      using bin_off_mid[of xs n False ys h a h i] bin_off_mid[of xs n False ys h a ?r i] W bs h mid(2) k k'
      by auto
    moreover have "bin a bs i = bin a xs i \<union> (if list_index n = i then {h} else {}) \<union> bin (h + n) ys i"
      unfolding bs h by (simp add: Un_assoc)
    moreover have "bin a ?bs i
        = bin a xs i \<union> (if list_index (n - k) = i then {?r} else {}) \<union> bin (?r + (n - k)) ys i"
      unfolding h by (simp add: Un_assoc del: of_nat_diff)
    ultimately show "bin a ?bs i - {?r} = bin a bs i - {h}"
      unfolding k'(5) by (cases "list_index (n - k) = i"; cases "list_index n = i") simp_all
  qed
  have br: "(?r, n - k, False) \<in> blks a ?bs" using h by simp
  define m3 where "m3 = link_chunk env (sentinel env (list_index (n - k))) ?r m2"
  obtain fl3 where L3: "lists_ok env a m3 ?bs {} fl3"
    using link_step(1)[OF L2 W' R' br] by (auto simp: m3_def)
  have f3: "m3 w = m2 w" if "w \<notin> link_words env a ?bs" for w
    using link_step(2)[OF L2 W' R' br] that by (simp add: m3_def)
  have nt: "w \<in> tags a (bs @ [guard]) \<Longrightarrow> w \<notin> link_words env a bs"
    "w \<in> tags a (?bs @ [guard]) \<Longrightarrow> w \<notin> link_words env a ?bs" for w
    using link_words_not_tags[OF R W] link_words_not_tags[OF R' W'] by blast+
  define m' where "m' = m3(h := hw k True True, ?r := hw (n - k) False True)"
  have th: "h \<in> tags a (bs @ [guard])" "h \<in> tags a (?bs @ [guard])" "?r \<in> tags a (?bs @ [guard])"
    "h + n - 4 \<in> tags a (?bs @ [guard])" using bs h k'(5) by auto
  have v: "m1 h = hw n False True" "m3 h = hw n False True" "m3 ?r = hw (n - k) False False"
      "m3 (h + n - 4) = of_nat (n - k)"
    using f1[OF nt(1)[OF th(1)]] f3[OF nt(2)[OF th(2)]] f3[OF nt(2)[OF th(3)]] f3[OF nt(2)[OF th(4)]]
      mid(5,7) k k' by (auto simp: m2_def)
  have X: "return_excess_to_free_list env h (of_nat k) m1 = m3(h := hw k False True)"
  proof -
    have "set_free_chunk_hdr_ftr ?r (of_nat (n - k)) m1 = m2"
      using set_free_chunk_hdr_ftr_eq[OF k'(1,2), of ?r m1] mid(3) k'(5) by (simp add: m2_def)
    moreover have "(of_nat n - of_nat k :: u32) = of_nat (n - k)" using k(3) by (simp add: of_nat_diff)
    moreover have "wrapping_byte_add h (unat (of_nat k :: u32)) = ?r"
      using unat_of_nat32[of k] mid(3) k(3) by simp
    ultimately show ?thesis using v(1,2) mid k' excess_test[OF M bs h k(3)] k(4)
      by (simp add: return_excess_to_free_list_def Let_def m3_def del: of_nat_diff)
  qed
  have A: "alloc_mem env h (of_nat k) m = (?r, m')"
    using v mid k k' unfolding alloc_mem_def m1_def[symmetric] X by (simp add: Let_def m'_def)
  have keep: "m' w = m w" if "w \<in> tags a (bs @ [guard])" "w \<in> tags a (?bs @ [guard])"
    "w \<noteq> h" "w \<noteq> ?r" "w \<noteq> h + n - 4" for w
    using f1[OF nt(1)[OF that(1)]] f3[OF nt(2)[OF that(2)]] that(3-5) by (simp add: m'_def m2_def)
  have "hdrs m' a True (xs @ [(k, True), (n - k, False)] @ (nr, br) # zs)"
  proof (rule hdrs_replace[OF _ h])
    show "hdrs m a True (xs @ [(n, False)] @ (nr, br) # zs)" using T bs nx(1) by simp
    show "hdrs m' h (lastb True xs) [(k, True), (n - k, False)]"
      using v k k' mid(7) by (auto simp: m'_def)
    fix w assume "w \<in> tags a xs"
    then have "w < h" "w \<in> tags a (bs @ [guard])" "w \<in> tags a (?bs @ [guard])"
      using tags_xs_ys(1)[of xs n False ys w a] W bs h by auto
    moreover have "w \<noteq> h + n - 4" using \<open>w < h\<close> mid(2) by simp
    ultimately show "m' w = m w" by (intro keep) auto
  next
    fix w assume w: "w \<in> (if br then {} else {h + n + nr - 4}) \<union> tags (h + n + nr) zs"
    then have "w \<in> tags (h + n) (ys @ [guard])" unfolding nx(1) by auto
    then have "w \<in> tags a (?bs @ [guard])" using k(3) h by (auto simp: add.assoc)
    then show "m' w = m w" using rest[OF w] k(3) by (intro keep) auto
  next
    show "m' (h + n) = hw nr br (lastb (lastb True xs) [(k, True), (n - k, False)])"
    proof -
      have "h + n \<in> tags (h + n) (ys @ [guard])" unfolding nx(1) by simp
      moreover have "tags a (bs @ [guard]) = tags a (xs @ [(n, False)]) \<union> tags (h + n) (ys @ [guard])"
        "tags a (?bs @ [guard])
          = tags a (xs @ [(k, True), (n - k, False)]) \<union> tags (?r + (n - k)) (ys @ [guard])"
        unfolding bs h by (simp_all add: Un_ac insert_commute add.assoc)
      ultimately have "m' (h + n) = m (h + n)" unfolding k'(5) using k mid(2) by (intro keep) auto
      then show ?thesis using nx(2) by simp
    qed
  qed (use k in auto)
  moreover have "lists_ok env a m' ?bs {} fl3"
  proof (rule lists_cong[OF L3])
    fix w assume "w \<in> nodes env a ?bs"
    then have "w + 4 \<notin> tags a (?bs @ [guard])"
      using link_words_not_tags[OF R' W'] by (auto simp: link_words_def)
    then have "w + 4 \<noteq> h" "w + 4 \<noteq> ?r" using th(2,3) by metis+
    then show "m' (w + 4) = m3 (w + 4)" by (simp add: m'_def)
  qed
  ultimately have "mem_ok env a m' ?bs fl3" using R' W' nx(1) by (simp add: mem_ok_def lists_ok_def)
  moreover have "m' w = m w" if "w \<noteq> h" "w \<noteq> ?r" "w \<noteq> h + n - 4" "w \<notin> link_words env a bs"
     "w \<notin> link_words env a ?bs" for w
    using that f1 f3 by (simp add: m'_def m2_def)
  ultimately show ?thesis using that[OF A] by blast
qed


section \<open>Allocated chunks and their payloads\<close>

definition allocated :: "ptr \<Rightarrow> chunks \<Rightarrow> (ptr \<times> nat) set" where
  "allocated a bs = {(h, n). (h, n, True) \<in> blks a bs}"

definition live :: "heap \<Rightarrow> chunks \<Rightarrow> (ptr \<times> nat) set" where
  "live s bs = {(h, n) \<in> allocated (heap_start s) bs. h \<noteq> cached s}"

definition same_payload :: "(ptr \<times> nat) set \<Rightarrow> mem \<Rightarrow> mem \<Rightarrow> bool" where
  "same_payload A m m' \<longleftrightarrow> (\<forall>(h, n) \<in> A. \<forall>w. h + 4 \<le> w \<and> w < h + n \<longrightarrow> m' w = m w)"

lemma allocated_simps [simp]:
  "allocated a [] = {}"
  "allocated a ((n, b) # bs) = (if b then {(a, n)} else {}) \<union> allocated (a + n) bs"
  "allocated a (xs @ ys) = allocated a xs \<union> allocated (a + bsum xs) ys"
  by (auto simp: allocated_def)

lemma payload_not_link:
  assumes R: "region_ok env a (a + bsum bs)" and W: "wfb True bs"
    and g: "(g, j) \<in> allocated a bs" "g + 4 \<le> w" "w < g + j"
  shows "w \<notin> link_words env a bs"
proof
  assume "w \<in> link_words env a bs"
  then obtain v where v: "w = v + 4" "v \<in> nodes env a bs" by (auto simp: link_words_def)
  have g': "(g, j, True) \<in> blks a bs" using g by (simp add: allocated_def)
  show False
  proof (cases "v \<in> sentinel env ` {..<6}")
    case True
    then have "w < a" using R v(1) by (auto simp: region_ok_def sentinel_def)
    then show False using blks_range[OF g'] g by simp
  next
    case False
    then obtain k where k: "(v, k, False) \<in> blks a bs" using v(2) by (auto simp: nodes_def)
    then show False using blks_disjoint[OF W g' k] blks_size[OF W k] v(1) g by auto
  qed
qed

lemma payload_not_tag:
  assumes "wfb True bs" "(g, j) \<in> allocated a bs" "g + 4 \<le> w" "w < g + j"
  shows "w \<notin> tags a (bs @ [guard])"
proof -
  have g: "(g, j, True) \<in> blks a bs" using assms(2) by (simp add: allocated_def)
  have "w \<notin> tags a bs" by (rule inside_not_tag[OF assms(1) g]) (use assms in auto)
  moreover have "w < a + bsum bs" using blks_range[OF g] assms by simp
  ultimately show ?thesis by simp
qed

text \<open>The words an operation may change without touching a payload.\<close>

definition admin :: "heap_env \<Rightarrow> ptr \<Rightarrow> chunks \<Rightarrow> ptr set" where
  "admin env a bs = tags a (bs @ [guard]) \<union> link_words env a bs"

lemma same_payloadI:
  assumes M: "mem_ok env a m bs fl" "mem_ok env a m' bs' fl'"
    and A: "A \<subseteq> allocated a bs" "A \<subseteq> allocated a bs'"
    and f: "\<And>w. w \<notin> admin env a bs \<Longrightarrow> w \<notin> admin env a bs' \<Longrightarrow> m' w = m w"
  shows "same_payload A m m'"
proof -
  have "m' w = m w" if "(g, j) \<in> A" "g + 4 \<le> w" "w < g + j" for g j w
    using that A M payload_not_link[of env a bs g j w] payload_not_link[of env a bs' g j w]
      payload_not_tag[of bs g j a w] payload_not_tag[of bs' g j a w]
    by (intro f) (auto simp: mem_ok_def admin_def)
  then show ?thesis by (auto simp: same_payload_def)
qed

text \<open>Taking a chunk, with or without a split, in one statement.\<close>

lemma alloc_mem_ok:
  assumes M: "mem_ok env a m bs fl" and bs: "bs = xs @ (n, False) # ys" and h: "h = a + bsum xs"
    and k: "8 dvd k" "16 \<le> k" "k \<le> n"
  obtains m' fl' n' bs' where "alloc_mem env h (of_nat k) m = (h + n', m')" "k \<le> n'"
    "mem_ok env a m' bs' fl'" "bsum bs' = bsum bs" "asum bs' = asum bs + n'"
    "allocated a bs' = insert (h, n') (allocated a bs)" "same_payload (allocated a bs) m m'"
proof -
  have W: "wfb True bs" and R: "region_ok env a (a + bsum bs)" using M by (auto simp: mem_ok_def)
  show ?thesis
  proof (cases "n < k + 12")
    case True
    let ?bs = "xs @ (n, True) # ys"
    obtain m' fl' where *: "alloc_mem env h (of_nat k) m = (h + n, m')" "mem_ok env a m' ?bs fl'"
      "\<And>w. w \<noteq> h \<Longrightarrow> w \<noteq> h + n \<Longrightarrow> w \<notin> link_words env a bs \<Longrightarrow> m' w = m w"
      using alloc_whole[OF M bs h k(1,3) True] by blast
    have "h \<in> admin env a bs" "h + n \<in> admin env a bs" using bs h by (cases ys; auto simp: admin_def)+
    then have "same_payload (allocated a bs) m m'"
      by (intro same_payloadI[OF M *(2)] *(3)) (auto simp: admin_def bs h)
    then show ?thesis by (intro that[OF *(1) k(3) *(2)]) (use bs h in auto)
  next
    case False
    let ?bs = "xs @ (k, True) # (n - k, False) # ys"
    obtain m' fl' where *: "alloc_mem env h (of_nat k) m = (h + k, m')" "mem_ok env a m' ?bs fl'"
      "\<And>w. \<lbrakk>w \<noteq> h; w \<noteq> h + k; w \<noteq> h + n - 4; w \<notin> link_words env a bs; w \<notin> link_words env a ?bs\<rbrakk>
         \<Longrightarrow> m' w = m w"
      using alloc_split[OF M bs h k False] by blast
    have 1: "h \<in> admin env a bs" "h + n - 4 \<in> admin env a bs" "h + k \<in> admin env a ?bs"
      using bs h by (auto simp: admin_def)
    have 2: "allocated a ?bs = insert (h, k) (allocated a bs)" using bs h k(3) by (auto simp: add.assoc)
    have "same_payload (allocated a bs) m m'"
      by (intro same_payloadI[OF M *(2)] *(3)) (use 1 2 in \<open>auto simp: admin_def\<close>)
    then show ?thesis by (intro that[OF *(1) _ *(2)]) (use bs k(3) 2 in auto)
  qed
qed


section \<open>The request size\<close>

lemma and_not_7: "(x :: u32) AND NOT 7 = push_bit 3 (drop_bit 3 x)"
proof -
  have 7: "(7 :: u32) = mask 3" by (simp add: mask_eq_exp_minus_1)
  show ?thesis unfolding 7
    by (rule bit_word_eqI)
       (auto simp only: bit_and_iff bit_not_iff bit_mask_iff bit_push_bit_iff bit_drop_bit_eq
         possible_bit_word o_apply not_less le_add_diff_inverse dest: bit_imp_le_length)
qed

lemma request_size_eq:
  assumes "unat sz < 2 ^ 31"
  shows "request_size sz = of_nat ((max (unat sz + 4) 16 + 7) div 8 * 8)"
proof -
  let ?k = "max (unat sz + 4) 16 + 7"
  have "unat (sz + 4) = unat sz + 4" using assms by (simp add: unat_word_ariths)
  then have "max (sz + HDR_SIZE) 16 = of_nat (max (unat sz + 4) 16)"
    by (simp add: HDR_SIZE_def max_def word_le_nat_alt)
  then have "max (sz + HDR_SIZE) 16 + 7 = (of_nat ?k :: u32)" by simp
  moreover have "drop_bit 3 (of_nat ?k :: u32) = of_nat (?k div 8)"
  proof -
    have "?k < 2 ^ 32" using assms by simp
    then have "unat (drop_bit 3 (of_nat ?k :: u32)) = ?k div 8"
      by (simp only: unat_drop_bit_eq unat_of_nat32) (simp add: drop_bit_eq_div)
    then have "of_nat (unat (drop_bit 3 (of_nat ?k :: u32))) = (of_nat (?k div 8) :: u32)" by simp
    then show ?thesis by simp
  qed
  ultimately show ?thesis
    unfolding request_size_def and_not_7 by (simp add: push_bit_eq_mult mult.commute)
qed

lemma request_size:
  assumes "unat sz < 2 ^ 31"
  obtains k where "request_size sz = of_nat k" "8 dvd k" "16 \<le> k" "unat sz + 4 \<le> k" "k < unat sz + 20"
    "k < 2 ^ 32"
proof
  let ?k = "(max (unat sz + 4) 16 + 7) div 8 * 8"
  show "request_size sz = of_nat ?k" by (rule request_size_eq[OF assms])
  show "8 dvd ?k" by simp
  show "16 \<le> ?k" "unat sz + 4 \<le> ?k" "?k < unat sz + 20" "?k < 2 ^ 32"
    using assms by (cases "unat sz + 4 \<le> 16"; simp add: max_def)+
qed


section \<open>The outcomes of \<open>mcu_malloc\<close>\<close>

text \<open>The statistics \<open>mcu_malloc\<close> keeps.\<close>

definition note_alloc :: "ptr \<Rightarrow> u32 \<Rightarrow> heap \<Rightarrow> heap" where
  "note_alloc r n s =
     (let s = (if high_water_mark s < of_nat r
               then s\<lparr>high_water_mark := of_nat r, high_water_mark_just_updated := True\<rparr> else s);
          s = s\<lparr>cur_alloc_size := cur_alloc_size s + n\<rparr>
      in if max_alloc_size s \<le> cur_alloc_size s
         then s\<lparr>max_alloc_size := cur_alloc_size s\<rparr> else s)"

lemma note_alloc_sel [simp]:
  "mem (note_alloc r n s) = mem s" "heap_start (note_alloc r n s) = heap_start s"
  "cached (note_alloc r n s) = cached s" "cur_alloc_size (note_alloc r n s) = cur_alloc_size s + n"
  "max_alloc_size (note_alloc r n s) = max (max_alloc_size s) (cur_alloc_size s + n)"
  by (simp_all add: note_alloc_def Let_def max_def)

lemma mcu_malloc_eq:
  assumes "sz \<noteq> 0"
  shows "mcu_malloc env sz s =
     (if cached s \<noteq> 0 \<and> request_size sz \<le> get_hdr_chunk_size (mem s) (cached s)
          \<and> get_hdr_chunk_size (mem s) (cached s) - request_size sz \<le> 512
      then Some (hdr_to_payload (cached s), s\<lparr>cached := 0\<rparr>)
      else
        case search_first_fit env (mem s) (request_size sz) of
          None \<Rightarrow> None
        | Some h \<Rightarrow>
            if h = 0 then Some (0, s)
            else
              let (r, m) = alloc_mem env h (request_size sz) (mem s)
              in Some (hdr_to_payload h, note_alloc r (get_hdr_chunk_size m h) (s\<lparr>mem := m\<rparr>)))"
  unfolding mcu_malloc_def alloc_mem_def note_alloc_def Let_def prod.case if_not_P[OF assms] by (rule refl)

lemma find_SomeD: "find P xs = Some x \<Longrightarrow> x \<in> set xs \<and> P x"
  by (induction xs) (auto split: if_splits)

lemma allocated_unique:
  assumes "wfb True bs" "(h, n) \<in> allocated a bs" "(h, n', b) \<in> blks a bs"
  shows "n' = n \<and> b"
  using blks_unique[OF assms(1) _ assms(3), of n True] assms(2) by (simp add: allocated_def)

text \<open>The chunk the search returns is free and long enough.\<close>

lemma search_result:
  assumes M: "mem_ok env a m bs fl" and k: "k < 2 ^ 32"
    and s: "search_first_fit env m (of_nat k) = Some h" "h \<noteq> 0"
  obtains n where "(h, n, False) \<in> blks a bs" "k \<le> n"
proof -
  have F: "free_lists env m fl" and W: "wfb True bs" and T: "hdrs m a True bs"
    using M by (auto simp: mem_ok_def)
  let ?l = "concat (map fl [min (list_index k + 1) 5..<6])"
  have "find (\<lambda>h. of_nat k \<le> get_hdr_chunk_size m h) ?l = Some h"
    using s search_first_fit_find[OF F, of "of_nat k"] by (simp split: option.splits)
  from find_SomeD[OF this] have *: "h \<in> set ?l" "of_nat k \<le> get_hdr_chunk_size m h" by blast+
  from *(1) obtain i where "i < 6" "h \<in> set (fl i)" by auto
  then obtain n where n: "(h, n, False) \<in> blks a bs" using M by (auto simp: mem_ok_def bin_def)
  have "n < 2 ^ 32" using blks_range[OF n] M by (auto simp: mem_ok_def region_ok_def)
  then have "k \<le> n"
    using *(2) size_at[OF T W n] k by (simp add: word_le_nat_alt unat_of_nat32)
  then show ?thesis using that n by blast
qed

lemma search_total:
  assumes "mem_ok env a m bs fl" shows "\<exists>h. search_first_fit env m sz = Some h"
  using search_first_fit_find[of env m fl sz] assms by (simp add: mem_ok_def)

lemma chunk_payload:
  assumes "mem_ok env a m bs fl" "(h, n, b) \<in> blks a bs"
  shows "hdr_to_payload h = h + 4" "payload_to_hdr (h + 4) = h" "8 dvd h + 4" "h \<noteq> 0" "h + n < 2 ^ 32"
    "n < 2 ^ 32"
proof -
  have W: "wfb True bs" and R: "region_ok env a (a + bsum bs)" using assms(1) by (auto simp: mem_ok_def)
  have "8 dvd h - a" "a mod 8 = 4" "a \<le> h" "16 \<le> n" "h + n \<le> a + bsum bs" "a + bsum bs + 4 \<le> 2 ^ 32" "0 < a"
    using blks_aligned[OF W assms(2)] blks_range[OF assms(2)] blks_size[OF W assms(2)] R
    by (auto simp: region_ok_def)
  then show "hdr_to_payload h = h + 4" "payload_to_hdr (h + 4) = h" "8 dvd h + 4" "h \<noteq> 0" "h + n < 2 ^ 32"
    "n < 2 ^ 32"
    by (simp_all add: hdr_to_payload_def payload_to_hdr_def) presburger
qed

lemma malloc_outcome:
  assumes H: "heap_ok env s bs fl" and sz: "sz \<noteq> 0" "unat sz < 2 ^ 31"
  obtains (null) "mcu_malloc env sz s = Some (0, s)"
      "search_first_fit env (mem s) (request_size sz) = Some 0"
  | (chunk) h n s' bs' fl' where "mcu_malloc env sz s = Some (h + 4, s')" "8 dvd h + 4"
      "heap_ok env s' bs' fl'" "heap_start s' = heap_start s" "bsum bs' = bsum bs"
      "live s' bs' = insert (h, n) (live s bs)" "(h, n) \<notin> live s bs" "unat sz + 4 \<le> n"
      "same_payload (live s bs) (mem s) (mem s')"
proof -
  have M: "mem_ok env (heap_start s) (mem s) bs fl" using H by (simp add: heap_ok_def)
  then have W: "wfb True bs" and T: "hdrs (mem s) (heap_start s) True bs" by (auto simp: mem_ok_def)
  obtain k where k: "request_size sz = of_nat k" "8 dvd k" "16 \<le> k" "unat sz + 4 \<le> k" "k < 2 ^ 32"
    using request_size[OF sz(2)] by metis
  let ?hit = "cached s \<noteq> 0 \<and> request_size sz \<le> get_hdr_chunk_size (mem s) (cached s)
          \<and> get_hdr_chunk_size (mem s) (cached s) - request_size sz \<le> 512"
  obtain h where h: "search_first_fit env (mem s) (request_size sz) = Some h"
    using search_total[OF M] by blast
  consider ?hit | "\<not> ?hit" "h = 0" | "\<not> ?hit" "h \<noteq> 0" by blast
  then show ?thesis
  proof cases
    case 1
    then obtain n where n: "(cached s, n, True) \<in> blks (heap_start s) bs" using H by (auto simp: heap_ok_def)
    note c = chunk_payload[OF M n]
    have "k \<le> n" using 1 k size_at[OF T W n] c(6) by (simp add: word_le_nat_alt unat_of_nat32)
    have a0: "a' \<noteq> 0" if "(a', n', True) \<in> blks (heap_start s) bs" for a' n'
      using chunk_payload(4)[OF M that] .
    have "live (s\<lparr>cached := 0\<rparr>) bs = insert (cached s, n) (live s bs)"
      using a0 n by (auto simp: live_def allocated_def dest: blks_unique[OF W n])
    then show ?thesis
      by (intro chunk[of "cached s" "s\<lparr>cached := 0\<rparr>" bs fl n])
         (use 1 H c n k \<open>k \<le> n\<close> in
           \<open>auto simp: mcu_malloc_eq[OF sz(1)] heap_ok_def live_def same_payload_def\<close>)
  next
    case 2
    then show ?thesis using null h by (auto simp: mcu_malloc_eq[OF sz(1)])
  next
    case 3
    obtain n where n: "(h, n, False) \<in> blks (heap_start s) bs" "k \<le> n"
      using search_result[OF M k(5) _ 3(2)] h k(1) by auto
    obtain xs ys where bs: "bs = xs @ (n, False) # ys" "h = heap_start s + bsum xs"
      using blks_split[OF n(1)] by blast
    obtain m' fl' n' bs' where *: "alloc_mem env h (of_nat k) (mem s) = (h + n', m')" "k \<le> n'"
      "mem_ok env (heap_start s) m' bs' fl'" "bsum bs' = bsum bs" "asum bs' = asum bs + n'"
      "allocated (heap_start s) bs' = insert (h, n') (allocated (heap_start s) bs)"
      "same_payload (allocated (heap_start s) bs) (mem s) m'"
      by (rule alloc_mem_ok[OF M bs k(2,3) n(2)])
    have n': "(h, n', True) \<in> blks (heap_start s) bs'" using *(6) by (auto simp: allocated_def)
    have "hdrs m' (heap_start s) True bs'" "wfb True bs'" using *(3) by (auto simp: mem_ok_def)
    then have g: "get_hdr_chunk_size m' h = of_nat n'" using size_at n' by blast
    have nh: "cached s \<noteq> h" if "cached s \<noteq> 0"
      using that H n(1) blks_unique[OF W n(1)] by (auto simp: heap_ok_def)
    have hl: "(h, n') \<notin> live s bs" using n(1) allocated_unique[OF W _ n(1)] by (auto simp: live_def)
    let ?s = "note_alloc (h + n') (of_nat n') (s\<lparr>mem := m'\<rparr>)"
    have "heap_ok env ?s bs' fl'"
      unfolding heap_ok_def
    proof (intro conjI impI)
      assume "cached ?s \<noteq> 0"
      then obtain c where "(cached s, c) \<in> allocated (heap_start s) bs"
        using H by (auto simp: heap_ok_def allocated_def)
      then have "(cached s, c) \<in> allocated (heap_start s) bs'" using *(6) by blast
      then show "\<exists>n. (cached ?s, n, True) \<in> blks (heap_start ?s) bs'" by (auto simp: allocated_def)
    qed (use H *(3,5) in \<open>simp_all add: heap_ok_def\<close>)
    moreover have "live ?s bs' = insert (h, n') (live s bs)"
      using *(6) nh chunk_payload(4)[OF M n(1)] by (auto simp: live_def)
    moreover have "same_payload (live s bs) (mem s) (mem ?s)"
      using *(7) by (auto simp: same_payload_def live_def)
    moreover have "mcu_malloc env sz s = Some (h + 4, ?s)"
      using 3 h k(1) *(1) g chunk_payload(1)[OF M n(1)] by (simp add: mcu_malloc_eq[OF sz(1)] if_not_P)
    ultimately show ?thesis
      using chunk[of h ?s bs' fl' n'] *(2,4) k(4) hl chunk_payload(3)[OF M n(1)] by simp
  qed
qed

end
