(* ===== verification/Heap_Free.thy ===== *)
theory Heap_Free
  imports Heap_Malloc
begin

unbundle bit_operations_syntax

text \<open>
  \<open>mcu_free\<close>: the chunk in the cache slot is merged with its free neighbours, marked free and
  put on the list for its length. The four cases of \<open>merge_neighbor_if_possible\<close> differ only in
  which chunks are merged; \<open>free_finish\<close> is their common second half.
\<close>

section \<open>After the merge\<close>

definition finish_mem :: "heap_env \<Rightarrow> ptr \<Rightarrow> mem \<Rightarrow> mem" where
  "finish_mem env h m =
     (let m = set_this_free h m;
          m = set_ftr_chunk_size (hdr_to_ftr m h) (get_hdr_chunk_size m h) m;
          m = set_left_allocated h m;
          m = set_left_free (hdr_to_right_hdr m h) m
      in link_chunk env (sentinel env (chunk_size_to_list_index (get_hdr_chunk_size m h))) h m)"

definition free_mem :: "heap_env \<Rightarrow> ptr \<Rightarrow> mem \<Rightarrow> mem" where
  "free_mem env h m = (let (h', m') = merge_neighbor_if_possible env h m in finish_mem env h' m')"

lemma mcu_free_eq:
  "mcu_free env p s =
     (if cached s = 0 then s\<lparr>cached := payload_to_hdr p\<rparr>
      else s\<lparr>cached := payload_to_hdr p,
             cur_alloc_size := cur_alloc_size s - get_hdr_chunk_size (mem s) (cached s),
             mem := free_mem env (cached s) (mem s)\<rparr>)"
  by (simp add: mcu_free_def free_mem_def finish_mem_def Let_def split_beta)

definition free_heads :: "ptr \<Rightarrow> chunks \<Rightarrow> ptr set" where
  "free_heads a bs = {v. \<exists>n. (v, n, False) \<in> blks a bs}"

lemma finish_mem_eq:
  assumes "m h = hw N b l" "8 dvd N" "16 \<le> N" "h + N < 2 ^ 32"
    and "m (h + N) = hw nr br c" "4 dvd nr" "nr < 2 ^ 32"
  shows "finish_mem env h m = link_chunk env (sentinel env (list_index N)) h
    (m(h := hw N False True, h + N - 4 := of_nat N, h + N := hw nr br False))"
proof -
  have N: "4 dvd N" "N < 2 ^ 32" "h + N - 4 \<noteq> h" "h + N - 4 \<noteq> h + N" "h + N \<noteq> h"
    using assms dvd_8_4 by auto
  let ?m1 = "m(h := hw N False l)" let ?m2 = "?m1(h + N - 4 := of_nat N)"
  let ?m3 = "m(h := hw N False True, h + N - 4 := of_nat N)"
  have "set_this_free h m = ?m1" using hdr_ops(2)[of m h N b l] assms(1) N by simp
  moreover have "hdr_to_ftr ?m1 h = h + N - 4" "get_hdr_chunk_size ?m1 h = of_nat N"
    using hdr_ops(1,10)[of ?m1 h N False l] N assms by auto
  moreover have "set_left_allocated h ?m2 = ?m3"
    using hdr_ops(4)[of ?m2 h N False l] N by (simp add: fun_upd_twist)
  moreover have "hdr_to_right_hdr ?m3 h = h + N"
    using hdr_ops(9)[of ?m3 h N False True] N assms(4) by simp
  moreover have "set_left_free (h + N) ?m3 = ?m3(h + N := hw nr br False)"
    using hdr_ops(5)[of ?m3 "h + N" nr br c] N assms(5-7) by simp
  moreover have "get_hdr_chunk_size (?m3(h + N := hw nr br False)) h = of_nat N"
    using hdr_ops(1)[of "?m3(h + N := hw nr br False)" h N False True] N by simp
  ultimately show ?thesis
    by (simp add: finish_mem_def Let_def set_ftr_chunk_size_def write32_def)
qed


lemma free_heads_iff: "v \<in> bin a bs i \<Longrightarrow> v \<in> free_heads a bs"
  by (auto simp: bin_def free_heads_def)

lemma free_heads_range: "v \<in> free_heads a bs \<Longrightarrow> wfb l bs \<Longrightarrow> a \<le> v \<and> v + 16 \<le> a + bsum bs"
  by (fastforce simp: free_heads_def dest: blks_range blks_size)

lemma free_heads_append: "free_heads a (xs @ ys) = free_heads a xs \<union> free_heads (a + bsum xs) ys"
  by (auto simp: free_heads_def)

lemma nodes_eq: "nodes env a bs = sentinel env ` {..<6} \<union> free_heads a bs"
  by (simp add: nodes_def free_heads_def)

text \<open>The chunks \<open>mid\<close> become one free chunk of their total length.\<close>

lemma free_finish:
  assumes M: "mem_ok env a m bs fl" and bs: "bs = xs @ mid @ ys" and h: "h = a + bsum xs"
    and N: "bsum mid = N" "16 \<le> N" and l: "lastb True xs" and r: "wfb False ys"
    and L1: "lists_ok env a m1 bs (free_heads h mid) fl1"
    and f1: "\<And>w. w \<notin> link_words env a bs \<Longrightarrow> m1 w = m w"
  obtains fl' where "mem_ok env a (finish_mem env h (m1(h := hw N b' l'))) (xs @ (N, False) # ys) fl'"
    "\<And>w. w \<notin> admin env a bs \<Longrightarrow> w \<notin> admin env a (xs @ (N, False) # ys) \<Longrightarrow>
       finish_mem env h (m1(h := hw N b' l')) w = m w"
proof -
  let ?bs = "xs @ (N, False) # ys"
  have W: "wfb True bs" and R: "region_ok env a (a + bsum bs)" and T: "hdrs m a True (bs @ [guard])"
    using M by (auto simp: mem_ok_def)
  have Wm: "wfb True xs" "wfb True mid" "wfb (lastb True mid) ys" using W bs l by auto
  have N8: "8 dvd N" using wfb_dvd[OF Wm(2)] N by simp
  have W': "wfb True ?bs" using Wm l r N(2) N8 by auto
  have bs': "bsum ?bs = bsum bs" using bs N by simp
  have R': "region_ok env a (a + bsum ?bs)" using R bs' by simp
  have mh: "hdrs m a True (xs @ mid @ ys @ [guard])" using T bs by simp
  obtain mid0 n b where mid: "mid = mid0 @ [(n, b)]" using N by (cases mid rule: rev_cases) auto
  then have hN: "a + bsum (xs @ mid0) + n = h + N" using h N by simp
  have Mx: "mem_ok env a m ((xs @ mid0) @ (n, b) # ys) fl" "(xs @ mid0) @ (n, b) # ys @ [guard] = bs @ [guard]"
    using M bs mid by simp_all
  obtain nr br zs where nx: "ys @ [guard] = (nr, br) # zs" "m (h + N) = hw nr br b" "4 dvd nr" "nr < 2 ^ 32"
    and rest: "\<And>w. w \<in> (if br then {} else {h + N + nr - 4}) \<union> tags (h + N + nr) zs \<Longrightarrow>
       h + N < w \<and> w \<in> tags a (bs @ [guard])"
    by (rule next_hdr[OF Mx(1), unfolded hN Mx(2)]) blast
  have nt: "w \<in> tags a (bs @ [guard]) \<Longrightarrow> w \<notin> link_words env a bs"
    "w \<in> tags a (?bs @ [guard]) \<Longrightarrow> w \<notin> link_words env a ?bs" for w
    using link_words_not_tags[OF R W] link_words_not_tags[OF R' W'] by blast+
  have "h + N \<in> tags (h + N) (ys @ [guard])" unfolding nx(1) by simp
  then have tN: "h + N \<in> tags a (bs @ [guard])" "h + N \<in> tags a (?bs @ [guard])"
    using bs N h by (auto simp: add.assoc)
  have b32: "h + N < 2 ^ 32" using R bs h N by (auto simp: region_ok_def)
  define m2 where "m2 = m1(h := hw N False True, h + N - 4 := of_nat N, h + N := hw nr br False)"
  define m' where "m' = link_chunk env (sentinel env (list_index N)) h m2"
  have F: "finish_mem env h (m1(h := hw N b' l')) = m'"
    using finish_mem_eq[of "m1(h := hw N b' l')" h N b' l' nr br b env] N8 N(2) b32 f1[OF nt(1)[OF tN(1)]] nx
    by (simp add: m2_def m'_def)
  have "lists_ok env a m2 bs (free_heads h mid) fl1"
  proof (rule lists_cong[OF L1])
    fix v assume "v \<in> nodes env a bs" "v \<notin> free_heads h mid \<or> v \<in> sentinel env ` {..<6}"
    then consider "v \<in> sentinel env ` {..<6}" | "v \<in> free_heads a xs" | "v \<in> free_heads (h + N) ys"
      using bs h N by (auto simp: nodes_eq free_heads_append)
    then have "v + 4 < h \<or> h + N \<le> v"
      using R h free_heads_range[OF _ Wm(1), of v a] free_heads_range[OF _ Wm(3), of v "h + N"]
      by cases (auto simp: region_ok_def sentinel_def)
    then show "m2 (v + 4) = m1 (v + 4)" using N(2) by (auto simp: m2_def)
  qed
  then have L2: "lists_ok env a m2 ?bs {h} fl1"
  proof (rule lists_rebin)
    fix i
    have x: "v < h \<and> v \<notin> free_heads h mid" if "v \<in> bin a xs i" for v
      using bin_range[OF that Wm(1)] free_heads_range[OF _ Wm(2), of v h] h by auto
    have y: "h + N \<le> v \<and> v \<notin> free_heads h mid" if "v \<in> bin (h + N) ys i" for v
      using bin_range[OF that Wm(3)] free_heads_range[OF _ Wm(2), of v h] h N by auto
    have "bin a bs i = bin a xs i \<union> bin h mid i \<union> bin (h + N) ys i"
      "bin a ?bs i - {h} = (bin a xs i \<union> bin (h + N) ys i) - {h}"
      using bs h N by (auto simp: add.assoc)
    then show "bin a ?bs i - {h} = bin a bs i - free_heads h mid"
      using x y free_heads_iff[of _ h mid i] N(2) by fastforce
  qed
  have hb: "(h, N, False) \<in> blks a ?bs" using h by simp
  obtain fl' where L': "lists_ok env a m' ?bs {} fl'"
    using link_step(1)[OF L2 W' R' hb] by (auto simp: m'_def)
  have f2: "m' w = m2 w" if "w \<notin> link_words env a ?bs" for w
    using link_step(2)[OF L2 W' R' hb] that by (simp add: m'_def)
  have th: "h \<in> tags a (?bs @ [guard])" "h + N - 4 \<in> tags a (?bs @ [guard])" using h by auto
  have keep: "m' w = m w" if "w \<in> tags a (bs @ [guard])" "w \<in> tags a (?bs @ [guard])"
    "w \<noteq> h" "w \<noteq> h + N" "w \<noteq> h + N - 4" for w
    using f1[OF nt(1)[OF that(1)]] f2[OF nt(2)[OF that(2)]] that(3-5) by (simp add: m2_def)
  have "hdrs m' a True (xs @ [(N, False)] @ (nr, br) # zs)"
  proof (rule hdrs_replace[OF _ h N(1)])
    show "hdrs m a True (xs @ mid @ (nr, br) # zs)" using mh unfolding nx(1) .
    show "hdrs m' h (lastb True xs) [(N, False)]" "m' (h + N) = hw nr br (lastb (lastb True xs) [(N, False)])"
      using f2[OF nt(2)[OF th(1)]] f2[OF nt(2)[OF th(2)]] f2[OF nt(2)[OF tN(2)]] N(2) l by (auto simp: m2_def)
    fix w assume "w \<in> tags a xs"
    then have "w < h" "w \<in> tags a (bs @ [guard])" "w \<in> tags a (?bs @ [guard])"
      using tags_range[OF Wm(1), of w a] bs h by auto
    then show "m' w = m w" using N(2) by (intro keep) auto
  next
    fix w assume w: "w \<in> (if br then {} else {h + N + nr - 4}) \<union> tags (h + N + nr) zs"
    then have "w \<in> tags (h + N) (ys @ [guard])" unfolding nx(1) by auto
    then have "w \<in> tags a (?bs @ [guard])" using h by (auto simp: add.assoc)
    then show "m' w = m w" using rest[OF w] by (intro keep) auto
  qed simp
  then have "mem_ok env a m' ?bs fl'" using R' W' L' nx(1) by (simp add: mem_ok_def lists_ok_def)
  moreover have "m' w = m w" if "w \<notin> admin env a bs" "w \<notin> admin env a ?bs" for w
  proof -
    have "w \<noteq> h" "w \<noteq> h + N" "w \<noteq> h + N - 4" using that th tN by (auto simp: admin_def)
    then show ?thesis using f1[of w] f2[of w] that by (auto simp: admin_def m2_def)
  qed
  ultimately show ?thesis using that[of fl'] F by simp
qed


section \<open>The merge\<close>

text \<open>What the four branches have in common: some chunks around the freed one are off the lists,
  and the header of the leftmost holds the total length.\<close>

definition merged :: "heap_env \<Rightarrow> ptr \<Rightarrow> mem \<Rightarrow> chunks \<Rightarrow> ptr \<Rightarrow> nat \<Rightarrow> ptr \<times> mem
    \<Rightarrow> chunks \<Rightarrow> chunks \<Rightarrow> chunks \<Rightarrow> bool" where
  "merged env a m bs h n res xs mid ys \<longleftrightarrow>
     (let h' = a + bsum xs in
        bs = xs @ mid @ ys \<and> 16 \<le> bsum mid \<and> lastb True xs \<and> wfb False ys \<and>
        allocated h' mid = {(h, n)} \<and> asum mid = n \<and>
        (\<exists>m1 b' l' fl1. res = (h', m1(h' := hw (bsum mid) b' l')) \<and>
           lists_ok env a m1 bs (free_heads h' mid) fl1 \<and>
           (\<forall>w. w \<notin> link_words env a bs \<longrightarrow> m1 w = m w)))"

lemma free_heads_simps [simp]:
  "free_heads a [] = {}"
  "free_heads a ((n, b) # bs) = (if b then {} else {a}) \<union> free_heads (a + n) bs"
  by (auto simp: free_heads_def)

lemma head_not_link:
  assumes "mem_ok env a m bs fl" "(h, n, b) \<in> blks a bs"
  shows "h \<notin> link_words env a bs"
proof -
  have "h \<in> tags a (bs @ [guard])" using blks_split[OF assms(2)] by auto
  then show ?thesis using link_words_not_tags[of env a bs h] assms(1) by (auto simp: mem_ok_def)
qed

lemma left_free:
  assumes M: "mem_ok env a m (xs @ (nl, False) # (n, True) # ys) fl" and g: "g = a + bsum xs" and h: "h = g + nl"
  shows "hdr_to_left_hdr m h = g" "m h = hw n True False"
proof -
  have *: "m h = hw n True False" "m (h - 4) = of_nat nl" "16 \<le> nl" "h + n < 2 ^ 32"
    using M g h by (auto simp: mem_ok_def region_ok_def)
  then show "hdr_to_left_hdr m h = g" "m h = hw n True False"
    using h unat_of_nat32[of nl] by (simp_all add: hdr_to_left_hdr_def hdr_to_left_ftr_def)
qed

lemma merge_none:
  assumes M: "mem_ok env a m bs fl" and bs: "bs = xs @ (n, True) # ys" and h: "h = a + bsum xs"
    and l: "lastb True xs" and r: "wfb False ys"
  shows "merged env a m bs h n (h, m) xs [(n, True)] ys"
proof -
  have "m(h := hw n True True) = m" using mid_facts(5)[OF M bs h] l by (simp add: fun_upd_idem)
  then have "(h, m) = (a + bsum xs, m(a + bsum xs := hw (bsum [(n, True)]) True True))" using h by simp
  then show ?thesis
    using mid_facts[OF M bs h] l r bs h unfolding merged_def Let_def by (auto intro!: exI)
qed

lemma merge_left:
  assumes M: "mem_ok env a m bs fl" and bs: "bs = xs @ (nl, False) # (n, True) # ys" and g: "g = a + bsum xs"
    and h: "h = g + nl" and r: "wfb False ys"
  shows "merged env a m bs h n (unlink_and_merge_left env h m) xs [(nl, False), (n, True)] ys"
proof -
  have bs': "bs = (xs @ [(nl, False)]) @ (n, True) # ys" "h = a + bsum (xs @ [(nl, False)])"
    using bs h g by simp_all
  note G = mid_facts[OF M bs g] and H = mid_facts[OF M bs']
  have W: "wfb True bs" and R: "region_ok env a (a + bsum bs)" using M by (auto simp: mem_ok_def)
  define m1 where "m1 = unlink_chunk env g m"
  obtain fl1 where L1: "lists_ok env a m1 bs {g} fl1"
    using unlink_step(1)[OF G(8) W G(6)] by (auto simp: m1_def)
  have f1: "m1 w = m w" if "w \<notin> link_words env a bs" for w
    using unlink_step(2)[OF G(8) W G(6)] that by (simp add: m1_def)
  have v: "m1 g = hw nl False True" "m1 h = hw n True False"
    using f1[OF head_not_link[OF M G(6)]] f1[OF head_not_link[OF M H(6)]] G(5,7) H(5) by auto
  have lh: "hdr_to_left_hdr m h = g" using left_free(1)[of env a m xs nl n ys fl g h] M bs g h by simp
  have "unlink_and_merge_left env h m = (g, m1(g := hw (nl + n) False True))"
    using v G(1-4,9,10) H(1-4,9,10) lh dvd_add[of 4 nl n]
    by (simp add: unlink_and_merge_left_def Let_def m1_def[symmetric] add.commute flip: of_nat_add)
  then show ?thesis
    using L1 f1 G H r bs h g unfolding merged_def Let_def by (auto intro!: exI)
qed


lemma merge_right:
  assumes M: "mem_ok env a m bs fl" and bs: "bs = xs @ (n, True) # (nr, False) # ys" and h: "h = a + bsum xs"
    and l: "lastb True xs"
  shows "merged env a m bs h n (unlink_and_merge_right env h m) xs [(n, True), (nr, False)] ys"
proof -
  have bs': "bs = (xs @ [(n, True)]) @ (nr, False) # ys" "h + n = a + bsum (xs @ [(n, True)])"
    using bs h by simp_all
  note H = mid_facts[OF M bs h] and G = mid_facts[OF M bs']
  have W: "wfb True bs" and R: "region_ok env a (a + bsum bs)" using M by (auto simp: mem_ok_def)
  define m1 where "m1 = unlink_chunk env (h + n) m"
  obtain fl1 where L1: "lists_ok env a m1 bs {h + n} fl1"
    using unlink_step(1)[OF G(8) W G(6)] by (auto simp: m1_def)
  have f1: "m1 w = m w" if "w \<notin> link_words env a bs" for w
    using unlink_step(2)[OF G(8) W G(6)] that by (simp add: m1_def)
  have v: "m h = hw n True True" "m1 h = hw n True True" "m1 (h + n) = hw nr False True"
    using f1[OF head_not_link[OF M G(6)]] f1[OF head_not_link[OF M H(6)]] G(5) H(5) l by auto
  have "unlink_and_merge_right env h m = (h, m1(h := hw (n + nr) True True))"
    using v G H dvd_add[of 4 n nr]
    by (simp add: unlink_and_merge_right_def Let_def m1_def[symmetric] flip: of_nat_add)
  then show ?thesis
    using L1 f1 G H l bs h W unfolding merged_def Let_def by (auto intro!: exI)
qed

lemma merge_both:
  assumes M: "mem_ok env a m bs fl" and bs: "bs = xs @ (nl, False) # (n, True) # (nr, False) # ys"
    and g: "g = a + bsum xs" and h: "h = g + nl"
  shows "merged env a m bs h n (unlink_and_merge_neighbor env h m) xs
    [(nl, False), (n, True), (nr, False)] ys"
proof -
  let ?r = "h + n"
  have bs': "bs = (xs @ [(nl, False)]) @ (n, True) # (nr, False) # ys" "h = a + bsum (xs @ [(nl, False)])"
    "bs = (xs @ [(nl, False), (n, True)]) @ (nr, False) # ys" "?r = a + bsum (xs @ [(nl, False), (n, True)])"
    using bs h g by simp_all
  note G = mid_facts[OF M bs g] and H = mid_facts[OF M bs'(1,2)] and K = mid_facts[OF M bs'(3,4)]
  have W: "wfb True bs" and R: "region_ok env a (a + bsum bs)" using M by (auto simp: mem_ok_def)
  define m0 where "m0 = unlink_chunk env g m"
  obtain fl0 where L0: "lists_ok env a m0 bs {g} fl0"
    using unlink_step(1)[OF G(8) W G(6)] by (auto simp: m0_def)
  have "?r \<notin> {g}" using h H(2) by simp
  note U = unlink_step[OF L0 W K(6) this]
  define m1 where "m1 = unlink_chunk env ?r m0"
  obtain fl1 where L1: "lists_ok env a m1 bs {?r, g} fl1" using U(1) by (auto simp: m1_def)
  have f1: "m1 w = m w" if "w \<notin> link_words env a bs" for w
    using U(2)[OF that] unlink_step(2)[OF G(8) W G(6)] that by (simp add: m1_def m0_def)
  have v: "m h = hw n True False" "m1 g = hw nl False True" "m1 h = hw n True False" "m1 ?r = hw nr False True"
    using f1[OF head_not_link[OF M G(6)]] f1[OF head_not_link[OF M H(6)]] f1[OF head_not_link[OF M K(6)]]
      G(5,7) H(5) K(5) by auto
  have lh: "hdr_to_left_hdr m h = g"
    using left_free(1)[of env a m xs nl n "(nr, False) # ys" fl g h] M bs g h by simp
  have "unlink_and_merge_neighbor env h m = (g, m1(g := hw (n + nl + nr) False True))"
    using v G(1-4,9,10) H(1-4,9,10) K(1-4,9,10) lh dvd_add[OF dvd_add[OF H(10) G(10)] K(10)]
    by (simp add: unlink_and_merge_neighbor_def Let_def m0_def[symmetric] m1_def[symmetric] flip: of_nat_add)
  then show ?thesis
    using L1 f1 G H bs h g W unfolding merged_def Let_def
    by (auto simp: add.assoc add.left_commute[of n nl] intro!: exI)
qed


lemma lastb_False: "\<not> lastb True xs \<Longrightarrow> \<exists>xs0 n. xs = xs0 @ [(n, False)]"
proof (cases xs rule: rev_cases)
  case (snoc ys y)
  assume "\<not> lastb True xs"
  then show ?thesis using snoc by (cases y) auto
qed simp

lemma merge_ok:
  assumes M: "mem_ok env a m bs fl" and bs: "bs = xs @ (n, True) # ys" and h: "h = a + bsum xs"
  obtains xs' mid ys' where "merged env a m bs h n (merge_neighbor_if_possible env h m) xs' mid ys'"
proof -
  note H = mid_facts[OF M bs h]
  obtain nr br zs where nx: "ys @ [guard] = (nr, br) # zs" "m (h + n) = hw nr br True" "4 dvd nr" "nr < 2 ^ 32"
    by (rule next_hdr[of env a m xs n True ys fl]) (use M bs h in auto)
  have W: "wfb True bs" using M by (simp add: mem_ok_def)
  have left: "is_left_free m h \<longleftrightarrow> \<not> lastb True xs" and right: "is_right_free m h \<longleftrightarrow> \<not> br"
    using H nx by (simp_all add: is_right_free_def)
  have ys: "wfb False ys" if br using that nx(1) W bs by (cases ys) auto
  have ysr: "\<exists>zs. ys = (nr, False) # zs" if "\<not> br" using that nx(1) by (cases ys) auto
  show ?thesis
  proof (cases "lastb True xs")
    case True
    show ?thesis
    proof (cases br)
      case br: True
      from merge_none[OF M bs h True ys[OF br]] show ?thesis
        using that True br left right by (simp add: merge_neighbor_if_possible_def)
    next
      case br: False
      then obtain zs' where "bs = xs @ (n, True) # (nr, False) # zs'" using ysr bs by auto
      from merge_right[OF M this h True] show ?thesis
        using that True br left right by (simp add: merge_neighbor_if_possible_def)
    qed
  next
    case False
    then obtain xs0 nl where xs0: "xs = xs0 @ [(nl, False)]" using lastb_False by blast
    then have g: "h = (a + bsum xs0) + nl" using h by simp
    show ?thesis
    proof (cases br)
      case br: True
      have "bs = xs0 @ (nl, False) # (n, True) # ys" using bs xs0 by simp
      from merge_left[OF M this refl g ys[OF br]] show ?thesis
        using that False br left right by (simp add: merge_neighbor_if_possible_def)
    next
      case br: False
      then obtain zs' where "bs = xs0 @ (nl, False) # (n, True) # (nr, False) # zs'" using ysr bs xs0 by auto
      from merge_both[OF M this refl g] show ?thesis
        using that False br left right by (simp add: merge_neighbor_if_possible_def)
    qed
  qed
qed

section \<open>The outcome of \<open>mcu_free\<close>\<close>

lemma free_mem_ok:
  assumes M: "mem_ok env a m bs fl" and c: "(h, n, True) \<in> blks a bs"
  obtains bs' fl' where "mem_ok env a (free_mem env h m) bs' fl'" "bsum bs' = bsum bs"
    "asum bs = asum bs' + n" "allocated a bs' = allocated a bs - {(h, n)}"
    "same_payload (allocated a bs') m (free_mem env h m)"
proof -
  obtain xs0 ys0 where "bs = xs0 @ (n, True) # ys0" "h = a + bsum xs0" using blks_split[OF c] by blast
  then obtain xs mid ys where mg: "merged env a m bs h n (merge_neighbor_if_possible env h m) xs mid ys"
    using merge_ok[OF M] by blast
  define g where "g = a + bsum xs"
  obtain m1 b' l' fl1 where f: "bs = xs @ mid @ ys" "16 \<le> bsum mid" "lastb True xs" "wfb False ys"
      "allocated g mid = {(h, n)}" "asum mid = n"
      "merge_neighbor_if_possible env h m = (g, m1(g := hw (bsum mid) b' l'))"
      "lists_ok env a m1 bs (free_heads g mid) fl1" "\<And>w. w \<notin> link_words env a bs \<Longrightarrow> m1 w = m w"
    using mg unfolding merged_def Let_def g_def[symmetric] by blast
  let ?bs = "xs @ (bsum mid, False) # ys" and ?m = "finish_mem env g (m1(g := hw (bsum mid) b' l'))"
  obtain fl' where *: "mem_ok env a ?m ?bs fl'"
    "\<And>w. w \<notin> admin env a bs \<Longrightarrow> w \<notin> admin env a ?bs \<Longrightarrow> ?m w = m w"
    using free_finish[OF M f(1) g_def refl f(2,3,4,8,9)] by blast
  have W: "wfb True bs" using M by (simp add: mem_ok_def)
  have nin: "(h, n) \<notin> allocated a xs \<union> allocated (g + bsum mid) ys"
  proof
    have hn: "(h, n, True) \<in> blks g mid" using f(5) by (auto simp: allocated_def)
    have "16 \<le> n" using blks_size[OF W c] by simp
    moreover assume "(h, n) \<in> allocated a xs \<union> allocated (g + bsum mid) ys"
    ultimately show False using blks_range[OF hn] blks_range[of h n True a xs]
        blks_range[of h n True "g + bsum mid" ys] by (auto simp: allocated_def g_def)
  qed
  have al: "allocated a ?bs = allocated a bs - {(h, n)}"
    using nin f(1,5) by (auto simp: g_def)
  have "same_payload (allocated a ?bs) m ?m"
    by (rule same_payloadI[OF M *(1)]) (use al *(2) in auto)
  then show ?thesis using that[of ?bs fl'] * f al by (simp add: free_mem_def)
qed

lemma free_outcome:
  assumes H: "heap_ok env s bs fl" and c: "(h, n) \<in> live s bs"
  obtains bs' fl' where "heap_ok env (mcu_free env (h + 4) s) bs' fl'"
    "heap_start (mcu_free env (h + 4) s) = heap_start s" "bsum bs' = bsum bs"
    "live (mcu_free env (h + 4) s) bs' = live s bs - {(h, n)}"
    "same_payload (live s bs - {(h, n)}) (mem s) (mem (mcu_free env (h + 4) s))"
proof -
  have M: "mem_ok env (heap_start s) (mem s) bs fl" using H by (simp add: heap_ok_def)
  then have W: "wfb True bs" and T: "hdrs (mem s) (heap_start s) True bs" by (auto simp: mem_ok_def)
  have hn: "(h, n, True) \<in> blks (heap_start s) bs" "h \<noteq> cached s" using c by (auto simp: live_def allocated_def)
  note hp = chunk_payload[OF M hn(1)]
  have u: "(h, n') \<in> allocated (heap_start s) bs \<Longrightarrow> n' = n" for n'
    using allocated_unique[OF W _ hn(1)] by blast
  show ?thesis
  proof (cases "cached s = 0")
    case True
    have "live (s\<lparr>cached := h\<rparr>) bs = live s bs - {(h, n)}"
      using u True chunk_payload(4)[OF M] by (auto simp: live_def allocated_def)
    moreover have "mcu_free env (h + 4) s = s\<lparr>cached := h\<rparr>" using True hp(2) by (simp add: mcu_free_eq)
    moreover have "heap_ok env (s\<lparr>cached := h\<rparr>) bs fl" using H hn(1) by (auto simp: heap_ok_def)
    ultimately show ?thesis using that[of bs fl] by (simp add: same_payload_def)
  next
    case False
    then obtain k where k: "(cached s, k, True) \<in> blks (heap_start s) bs" using H by (auto simp: heap_ok_def)
    obtain bs' fl' where *: "mem_ok env (heap_start s) (free_mem env (cached s) (mem s)) bs' fl'"
      "bsum bs' = bsum bs" "asum bs = asum bs' + k"
      "allocated (heap_start s) bs' = allocated (heap_start s) bs - {(cached s, k)}"
      "same_payload (allocated (heap_start s) bs') (mem s) (free_mem env (cached s) (mem s))"
      by (rule free_mem_ok[OF M k])
    let ?s = "mcu_free env (h + 4) s"
    have s': "?s = s\<lparr>cached := h, cur_alloc_size := of_nat (asum bs'), mem := free_mem env (cached s) (mem s)\<rparr>"
      using False hp H *(3) size_at[OF T W k] by (simp add: mcu_free_eq heap_ok_def)
    have uc: "k' = k" if "(cached s, k') \<in> allocated (heap_start s) bs" for k'
      using that allocated_unique[OF W _ k] by blast
    have l: "live ?s bs' = live s bs - {(h, n)}"
      using s' *(4) u uc by (auto simp: live_def)
    have "(h, n) \<in> allocated (heap_start s) bs'" using *(4) hn by (auto simp: allocated_def)
    then have "(h, n, True) \<in> blks (heap_start s) bs'" by (simp add: allocated_def)
    moreover have "(of_nat (asum bs') :: u32) \<le> max_alloc_size s"
    proof -
      have "asum bs < 2 ^ 32" using asum_le_bsum[of bs] M by (auto simp: mem_ok_def region_ok_def)
      then have "(of_nat (asum bs') :: u32) \<le> of_nat (asum bs)"
        using *(3) by (simp add: word_le_nat_alt unat_of_nat32 del: of_nat_add)
      then show ?thesis using H by (auto simp: heap_ok_def)
    qed
    ultimately have "heap_ok env ?s bs' fl'" using *(1) s' by (auto simp: heap_ok_def)
    moreover have "same_payload (live s bs - {(h, n)}) (mem s) (mem ?s)"
      using *(5) l[symmetric] s' by (auto simp: same_payload_def live_def)
    ultimately show ?thesis using that[of bs' fl'] *(2) l s' by simp
  qed
qed

end
