(* ===== verification/Heap_Init.thy ===== *)
theory Heap_Init
  imports Heap_Free
begin

unbundle bit_operations_syntax

text \<open>
  \<open>mcu_heap_init\<close> establishes the heap invariant with a single free chunk between the aligned end
  of the static data and the guard word at the end of the RAM.
\<close>

text \<open>What the linker script and the configuration provide: the sentinels are static data below
  the heap, the RAM ends on a multiple of 8 within the reach of the links, and there is room for
  a chunk.\<close>

definition link_script_ok :: "heap_env \<Rightarrow> u32 \<Rightarrow> bool" where
  "link_script_ok env data_end \<longleftrightarrow>
     4 dvd unat (link_offset env) \<and> unat (link_offset env) \<le> sentinels env \<and> 0 < sentinels env
     \<and> 4 dvd sentinels env \<and> sentinels env + 48 \<le> unat data_end
     \<and> unat data_end + 32 \<le> unat (ram_end env) \<and> 8 dvd unat (ram_end env)
     \<and> unat (ram_end env) \<le> unat (link_offset env) + 2 ^ 18"

section \<open>The sentinels\<close>

lemma init_sentinels_links:
  assumes "\<And>i. i < 6 \<Longrightarrow> linkable env (sentinel env i)" "set idxs \<subseteq> {..<6}" "j < 6"
  shows "NX env (init_sentinels env idxs m) (sentinel env j)
      = (if j \<in> set idxs then sentinel env j else NX env m (sentinel env j)) \<and>
    PV env (init_sentinels env idxs m) (sentinel env j)
      = (if j \<in> set idxs then sentinel env j else PV env m (sentinel env j))"
  using assms(2)
proof (induction idxs arbitrary: m)
  case (Cons i idxs)
  have "sentinel env j = sentinel env i \<longleftrightarrow> j = i" by (auto simp: sentinel_def)
  moreover have "i < 6" "set idxs \<subseteq> {..<6}" using Cons.prems by auto
  moreover have "linkable env (sentinel env i)" "linkable env (sentinel env j)"
    using assms(1,3) \<open>i < 6\<close> by auto
  ultimately show ?case using Cons.IH by (auto simp: Let_def link_simps)
qed simp

lemma init_sentinels_free_lists:
  assumes "\<And>i. i < 6 \<Longrightarrow> linkable env (sentinel env i)"
  shows "free_lists env (init_sentinels env [0..<6] m) (\<lambda>_. [])"
proof -
  have "sentinel env i \<noteq> sentinel env j" if "i \<noteq> j" for i j using that by (auto simp: sentinel_def)
  moreover have "NX env (init_sentinels env [0..<6] m) (sentinel env j) = sentinel env j"
    "PV env (init_sentinels env [0..<6] m) (sentinel env j) = sentinel env j" if "j < 6" for j
    using that init_sentinels_links[of env "[0..<6]" j m] assms by (auto simp: atLeast0LessThan)
  ultimately show ?thesis
    using assms by (auto simp: free_lists_def rings_def ring_nodes_def)
qed

section \<open>Alignment of the heap start\<close>

lemma and_not_3: "(x :: u32) AND NOT 3 = push_bit 2 (drop_bit 2 x)"
proof -
  have 3: "(3 :: u32) = mask 2" by (simp add: mask_eq_exp_minus_1)
  show ?thesis unfolding 3
    by (rule bit_word_eqI)
       (auto simp only: bit_and_iff bit_not_iff bit_mask_iff bit_push_bit_iff bit_drop_bit_eq
         possible_bit_word o_apply not_less le_add_diff_inverse dest: bit_imp_le_length)
qed

lemma unat_and_not_3: "unat ((x :: u32) AND NOT 3) = unat x div 4 * 4"
proof -
  have "unat (drop_bit 2 x) = unat x div 4" by (simp only: unat_drop_bit_eq) (simp add: drop_bit_eq_div)
  moreover have "push_bit 2 (drop_bit 2 x) = of_nat (unat (drop_bit 2 x) * 4)"
    by (simp add: push_bit_eq_mult)
  moreover have "unat x div 4 * 4 < 2 ^ 32"
    using unsigned_less[of x, where ?'a = nat] by (simp add: less_mult_imp_div_less)
  ultimately show ?thesis unfolding and_not_3 by (metis unat_of_nat32)
qed

text \<open>The first two steps of \<open>mcu_heap_init\<close>: round up to a multiple of 4 that is not one of 8.\<close>

definition align_start :: "nat \<Rightarrow> nat" where
  "align_start d = (let e = (d + 3) div 4 * 4 in if e mod 8 = 0 then e + 4 else e)"

lemma align_start: "align_start d mod 8 = 4" "d \<le> align_start d" "align_start d \<le> d + 7"
  unfolding align_start_def Let_def by presburger+

lemma align_code:
  assumes "unat d + 8 < 2 ^ 32"
  shows "\<exists>e x. checked_add d 3 = Some e \<and>
    (if (e AND NOT 3) mod 8 = 0 then checked_add (e AND NOT 3) 4 else Some (e AND NOT 3)) = Some x \<and>
    unat x = align_start (unat d)"
proof -
  have e: "checked_add d 3 = Some (d + 3)" "unat (d + 3) = unat d + 3"
    using assms by (simp_all add: checked_add_def unat_word_ariths)
  let ?e = "(d + 3) AND NOT 3"
  have u: "unat ?e = (unat d + 3) div 4 * 4" unfolding unat_and_not_3 e(2) ..
  have z: "?e mod 8 = 0 \<longleftrightarrow> (unat d + 3) div 4 * 4 mod 8 = 0"
    unfolding u[symmetric] by (simp add: unat_mod flip: unat_eq_0)
  show ?thesis
  proof (cases "?e mod 8 = 0")
    case True
    have "unat ?e + 4 < 2 ^ 32" unfolding u using assms by presburger
    then have "checked_add ?e 4 = Some (?e + 4)" "unat (?e + 4) = unat ?e + 4"
      by (simp_all add: checked_add_def unat_word_ariths)
    then show ?thesis using e True z u by (simp add: align_start_def Let_def)
  next
    case False
    then show ?thesis using e z u by (simp add: align_start_def Let_def)
  qed
qed


section \<open>The initial state\<close>

lemma init_memory:
  assumes R: "region_ok env h (h + n)" and n: "8 dvd n" "16 \<le> n"
  obtains m' fl where
    "(let m = set_free_chunk_hdr_ftr h (of_nat n) (init_sentinels env [0..<6] m0);
          m = set_left_allocated h m;
          guard = hdr_to_right_hdr m h;
          m = clear_hdr guard m;
          m = set_hdr_chunk_size guard 0 m;
          m = set_self_allocated guard m;
          m = set_left_free guard m
      in link_chunk env (sentinel env (list_index n)) h m) = m'"
    "mem_ok env h m' [(n, False)] fl"
proof -
  let ?bs = "[(n, False)]"
  have b: "h + n < 2 ^ 32" "4 dvd n" using R n dvd_8_4 by (auto simp: region_ok_def)
  have ne: "h + n - 4 \<noteq> h" using n(2) by simp
  have W: "wfb True ?bs" and R': "region_ok env h (h + bsum ?bs)" using n R by auto
  define mi where "mi = init_sentinels env [0..<6] m0"
  have F: "free_lists env mi (\<lambda>_. [])"
    unfolding mi_def by (rule init_sentinels_free_lists) (use R in \<open>auto intro: sentinel_linkable\<close>)
  let ?m1 = "mi(h := hw n False False, h + n - 4 := of_nat n)"
  let ?m2 = "mi(h := hw n False True, h + n - 4 := of_nat n)"
  define m3 where "m3 = ?m2(h + n := hw 0 True False)"
  have "set_left_allocated h ?m1 = ?m2" "hdr_to_right_hdr ?m2 h = h + n"
    using hdr_ops(4)[of ?m1 h n False False] hdr_ops(9)[of ?m2 h n False True] b n ne
    by (auto simp: fun_upd_twist)
  moreover have "clear_hdr (h + n) ?m2 = ?m2(h + n := hw 0 False False)"
    by (simp add: clear_hdr_def write32_def hw_0)
  moreover have "set_hdr_chunk_size (h + n) 0 (?m2(h + n := hw 0 False False)) = ?m2(h + n := hw 0 False False)"
    using hdr_ops(6)[of "?m2(h + n := hw 0 False False)" "h + n" 0 False False 0] by simp
  moreover have "set_self_allocated (h + n) (?m2(h + n := hw 0 False False)) = m3" "set_left_free (h + n) m3 = m3"
    using hdr_ops(3)[of "?m2(h + n := hw 0 False False)" "h + n" 0 False False]
      hdr_ops(5)[of m3 "h + n" 0 True False] by (simp_all add: m3_def)
  ultimately have E: "(let m = set_free_chunk_hdr_ftr h (of_nat n) (init_sentinels env [0..<6] m0);
          m = set_left_allocated h m; guard = hdr_to_right_hdr m h; m = clear_hdr guard m;
          m = set_hdr_chunk_size guard 0 m; m = set_self_allocated guard m; m = set_left_free guard m
      in link_chunk env (sentinel env (list_index n)) h m) = link_chunk env (sentinel env (list_index n)) h m3"
    unfolding Let_def mi_def[symmetric] set_free_chunk_hdr_ftr_eq[OF n b(1)] by simp
  have "lists_ok env h m3 ?bs {h} (\<lambda>_. [])"
  proof (rule lists_cong[of env h mi])
    show "lists_ok env h mi ?bs {h} (\<lambda>_. [])" using F by (auto simp: lists_ok_def)
    fix v assume "v \<in> nodes env h ?bs" "v \<notin> {h} \<or> v \<in> sentinel env ` {..<6}"
    then have "v + 4 < h" using R by (auto simp: nodes_def region_ok_def sentinel_def)
    then show "m3 (v + 4) = mi (v + 4)" using n by (auto simp: m3_def)
  qed
  note L = link_step[OF this W R', of n]
  let ?m' = "link_chunk env (sentinel env (list_index n)) h m3"
  obtain fl where fl: "lists_ok env h ?m' ?bs {} fl" using L(1) by auto
  have "?m' w = m3 w" if "w \<in> tags h (?bs @ [guard])" for w
    using L(2) link_words_not_tags[OF R' W] that by auto
  then have "hdrs ?m' h True (?bs @ [guard]) = hdrs m3 h True (?bs @ [guard])" by (rule hdrs_cong)
  moreover have "hdrs m3 h True (?bs @ [guard])" using n by (auto simp: m3_def)
  ultimately show ?thesis using that[OF E, of fl] fl W R' by (simp add: mem_ok_def lists_ok_def)
qed

lemma init_outcome:
  assumes K: "link_script_ok env d" and s: "cached s = 0" "cur_alloc_size s = 0"
  obtains s' fl where "mcu_heap_init env d s = Inr s'" "heap_start s' = align_start (unat d)"
    "heap_ok env s' [(unat (ram_end env) - 4 - align_start (unat d), False)] fl" "cached s' = 0"
proof -
  let ?a = "align_start (unat d)" and ?r = "unat (ram_end env)"
  note al = align_start[of "unat d"]
  have r32: "?r < 2 ^ 32" using unsigned_less[of "ram_end env", where ?'a = nat] by simp
  obtain e x where ex: "checked_add d 3 = Some e"
    "(if (e AND NOT 3) mod 8 = 0 then checked_add (e AND NOT 3) 4 else Some (e AND NOT 3)) = Some x"
    "unat x = ?a"
    using align_code[of d] K r32 by (auto simp: link_script_ok_def)
  define n where "n = ?r - 4 - ?a"
  have k: "?a + 25 \<le> ?r" "8 dvd ?r" using K al by (auto simp: link_script_ok_def)
  have "8 dvd r - 4 - a'" if "8 dvd r" "a' mod 8 = 4" "a' + 4 \<le> r" for r a' :: nat
    using that by presburger
  then have n: "16 \<le> n" "8 dvd n" "?a + n = ?r - 4" "?a \<le> ?r" using k al(1) by (auto simp: n_def)
  have R: "region_ok env ?a (?a + n)" using K al n r32 by (auto simp: region_ok_def link_script_ok_def)
  have x: "x = of_nat ?a" using ex(3) by (metis of_nat_unat ucast_id)
  have sub: "ram_end env - x = of_nat (?r - ?a)" unfolding x using n(4) by (simp add: of_nat_diff)
  have sz: "ram_end env - x - GUARD_SIZE = of_nat n"
    unfolding sub GUARD_SIZE_def using n by (simp add: n_def of_nat_diff)
  obtain m' fl where m': "mem_ok env ?a m' [(n, False)] fl"
    "(let m = set_free_chunk_hdr_ftr ?a (of_nat n) (init_sentinels env [0..<6] (mem s));
          m = set_left_allocated ?a m; guard = hdr_to_right_hdr m ?a; m = clear_hdr guard m;
          m = set_hdr_chunk_size guard 0 m; m = set_self_allocated guard m; m = set_left_free guard m
      in link_chunk env (sentinel env (list_index n)) ?a m) = m'"
    by (rule init_memory[OF R n(2,1)])
  have "\<not> ram_end env < x" "\<not> ram_end env - x < FREE_CHUNK_MIN_SIZE"
    using n ex(3) r32 unfolding sub FREE_CHUNK_MIN_SIZE_def
    by (simp_all add: word_less_nat_alt unat_of_nat32 n_def del: of_nat_diff)
  then have "mcu_heap_init env d s = Inr (s\<lparr>heap_start := ?a, mem := m'\<rparr>)"
    unfolding mcu_heap_init_def ex(1) option.case Let_def ex(2) m'(2)[unfolded Let_def, symmetric]
    using sz ex(3) by simp
  moreover have "heap_ok env (s\<lparr>heap_start := ?a, mem := m'\<rparr>) [(n, False)] fl"
    using m'(1) s by (simp add: heap_ok_def)
  ultimately show ?thesis using that s n_def by auto
qed

end
