(* ===== verification/Alloc_Interface.thy ===== *)
theory Alloc_Interface
  imports Hopter_Prelude
begin

text \<open>
  What the kernel relies on when it allocates: the contract of a memory allocator over a word
  memory, independent of how the heap is organised. \<open>rep s L\<close> says that state \<open>s\<close> represents the
  set \<open>L\<close> of chunks handed out, each a pair of the payload address and the payload length in
  bytes. The clients of the contract are sequences of allocations, frees and
  stores into held chunks.
\<close>

type_synonym payloads = "(ptr \<times> nat) set"

definition pl_disjoint :: "ptr \<times> nat \<Rightarrow> ptr \<times> nat \<Rightarrow> bool" where
  "pl_disjoint c d \<longleftrightarrow> fst c + snd c \<le> fst d \<or> fst d + snd d \<le> fst c"

definition unchanged :: "payloads \<Rightarrow> mem \<Rightarrow> mem \<Rightarrow> bool" where
  "unchanged L m m' \<longleftrightarrow> (\<forall>(p, n) \<in> L. \<forall>w. p \<le> w \<and> w < p + n \<longrightarrow> m' w = m w)"

lemma unchanged_refl [simp]: "unchanged L m m"
  by (simp add: unchanged_def)

lemma unchanged_trans: "unchanged L m m' \<Longrightarrow> unchanged L m' m'' \<Longrightarrow> unchanged L m m''"
  by (fastforce simp: unchanged_def)

lemma unchanged_mono: "unchanged L m m' \<Longrightarrow> L' \<subseteq> L \<Longrightarrow> unchanged L' m m'"
  by (auto simp: unchanged_def)

text \<open>One action of a client that knows the chunks \<open>P\<close> it holds, each with the number of bytes it
  asked for. It allocates, frees a chunk, or stores a word into a chunk within the requested
  bytes; the chunks at the addresses \<open>K\<close> are those it means to keep and only reads.\<close>

inductive client_step ::
  "(u32 \<Rightarrow> 's \<Rightarrow> (ptr \<times> 's) option) \<Rightarrow> (ptr \<Rightarrow> 's \<Rightarrow> 's) \<Rightarrow> (ptr \<Rightarrow> u32 \<Rightarrow> 's \<Rightarrow> 's) \<Rightarrow> ptr set
     \<Rightarrow> 's \<times> payloads \<Rightarrow> 's \<times> payloads \<Rightarrow> bool"
  for alloc dealloc store K where
  allocates: "\<lbrakk>sz \<noteq> 0; unat sz < 2 ^ 31; alloc sz s = Some (p, s'); p \<noteq> 0\<rbrakk> \<Longrightarrow>
     client_step alloc dealloc store K (s, P) (s', insert (p, unat sz) P)"
| fails: "\<lbrakk>sz \<noteq> 0; unat sz < 2 ^ 31; alloc sz s = Some (0, s')\<rbrakk> \<Longrightarrow>
     client_step alloc dealloc store K (s, P) (s', P)"
| frees: "\<lbrakk>p \<in> fst ` P; p \<notin> K\<rbrakk> \<Longrightarrow>
     client_step alloc dealloc store K (s, P) (dealloc p s, {c \<in> P. fst c \<noteq> p})"
| writes: "\<lbrakk>(p, z) \<in> P; p \<notin> K; p \<le> w; w < p + z\<rbrakk> \<Longrightarrow>
     client_step alloc dealloc store K (s, P) (store w v s, P)"

text \<open>The chunks of the allocator behind the chunks a client holds.\<close>

definition held :: "payloads \<Rightarrow> payloads \<Rightarrow> bool" where
  "held P L \<longleftrightarrow> fst ` P = fst ` L \<and> (\<forall>(p, z) \<in> P. \<exists>n. z \<le> n \<and> (p, n) \<in> L)"

locale allocator =
  fixes rep :: "'s \<Rightarrow> payloads \<Rightarrow> bool"
    and memory :: "'s \<Rightarrow> mem"
    and alloc :: "u32 \<Rightarrow> 's \<Rightarrow> (ptr \<times> 's) option"
    and dealloc :: "ptr \<Rightarrow> 's \<Rightarrow> 's"
    and store :: "ptr \<Rightarrow> u32 \<Rightarrow> 's \<Rightarrow> 's"
  assumes rep_chunks: "rep s L \<Longrightarrow> c \<in> L \<Longrightarrow> 8 dvd fst c \<and> fst c \<noteq> 0 \<and> 0 < snd c \<and> fst c + snd c < 2 ^ 32"
    and rep_disjoint: "rep s L \<Longrightarrow> c \<in> L \<Longrightarrow> d \<in> L \<Longrightarrow> c \<noteq> d \<Longrightarrow> pl_disjoint c d"
    and alloc_total: "rep s L \<Longrightarrow> sz \<noteq> 0 \<Longrightarrow> unat sz < 2 ^ 31 \<Longrightarrow> \<exists>p s'. alloc sz s = Some (p, s')"
    and alloc_null: "rep s L \<Longrightarrow> sz \<noteq> 0 \<Longrightarrow> unat sz < 2 ^ 31 \<Longrightarrow> alloc sz s = Some (0, s') \<Longrightarrow> s' = s"
    and alloc_chunk: "rep s L \<Longrightarrow> sz \<noteq> 0 \<Longrightarrow> unat sz < 2 ^ 31 \<Longrightarrow> alloc sz s = Some (p, s') \<Longrightarrow> p \<noteq> 0 \<Longrightarrow>
      \<exists>n. unat sz \<le> n \<and> (p, n) \<notin> L \<and> rep s' (insert (p, n) L) \<and> unchanged L (memory s) (memory s')"
    and dealloc_chunk: "rep s L \<Longrightarrow> (p, n) \<in> L \<Longrightarrow>
      rep (dealloc p s) (L - {(p, n)}) \<and> unchanged (L - {(p, n)}) (memory s) (memory (dealloc p s))"
    and store_chunk: "rep s L \<Longrightarrow> (p, n) \<in> L \<Longrightarrow> p \<le> w \<Longrightarrow> w < p + n \<Longrightarrow>
      rep (store w v s) L \<and> memory (store w v s) = (memory s)(w := v)"
begin

text \<open>Distinct chunks have distinct addresses, so the pointer alone identifies the chunk.\<close>

lemma rep_inj:
  assumes "rep s L" "(p, n) \<in> L" "(p, n') \<in> L" shows "n = n'"
  using rep_disjoint[OF assms(1,2,3)] rep_chunks[OF assms(1,2)] rep_chunks[OF assms(1,3)]
  by (auto simp: pl_disjoint_def)

lemma free_rep:
  assumes "rep s L" "held P L" "p \<in> fst ` P"
  shows "\<exists>n. (p, n) \<in> L \<and> held {c \<in> P. fst c \<noteq> p} (L - {(p, n)})"
proof -
  obtain n where n: "(p, n) \<in> L" using assms(2,3) by (force simp: held_def)
  have "fst c = p \<longleftrightarrow> c = (p, n)" if "c \<in> L" for c
    using rep_inj[OF assms(1) n, of "snd c"] that by (cases c) auto
  then have L: "L - {(p, n)} = {c \<in> L. fst c \<noteq> p}" by blast
  have "fst ` {c \<in> P. fst c \<noteq> p} = fst ` P - {p}" "fst ` {c \<in> L. fst c \<noteq> p} = fst ` L - {p}" by auto
  then have "held {c \<in> P. fst c \<noteq> p} (L - {(p, n)})" using assms(2) unfolding held_def L by auto
  then show ?thesis using n by blast
qed

lemma write_unchanged:
  assumes "rep s L" "(p, n) \<in> L" "p \<le> w" "w < p + n"
  shows "unchanged (L - {(p, n)}) m (m(w := v))"
  unfolding unchanged_def
proof (clarsimp)
  fix q k assume "(q, k) \<in> L" "q \<le> w" "w < q + k" "q = p \<longrightarrow> k \<noteq> n"
  then show "v = m w" using rep_disjoint[OF assms(1,2), of "(q, k)"] assms(3,4) by (auto simp: pl_disjoint_def)
qed

lemma step_rep:
  assumes "client_step alloc dealloc store K (s, P) (s', P')" "rep s L" "held P L"
  shows "\<exists>L'. rep s' L' \<and> held P' L' \<and> {c \<in> L. fst c \<in> K} \<subseteq> L'
    \<and> unchanged {c \<in> L. fst c \<in> K} (memory s) (memory s')"
  using assms(1)
proof (cases rule: client_step.cases)
  case (allocates sz p)
  obtain n where "unat sz \<le> n" "rep s' (insert (p, n) L)" "unchanged L (memory s) (memory s')"
    using alloc_chunk[OF assms(2) allocates(2-5)] by blast
  moreover from this have "held P' (insert (p, n) L)" using assms(3) allocates(1) by (fastforce simp: held_def)
  ultimately show ?thesis using unchanged_mono[of L] by (intro exI[of _ "insert (p, n) L"]) auto
next
  case (fails sz)
  then show ?thesis using alloc_null[OF assms(2) fails(2-4)] assms by auto
next
  case (frees p)
  obtain n where n: "(p, n) \<in> L" "held P' (L - {(p, n)})"
    using free_rep[OF assms(2,3) frees(3)] frees(2) by blast
  have "{c \<in> L. fst c \<in> K} \<subseteq> L - {(p, n)}" using frees(4) by auto
  then show ?thesis
    using n dealloc_chunk[OF assms(2) n(1)] frees(1) by (intro exI[of _ "L - {(p, n)}"]) (auto intro: unchanged_mono)
next
  case (writes p z w v)
  then obtain n where n: "(p, n) \<in> L" "w < p + n" using assms(3) by (fastforce simp: held_def)
  have "{c \<in> L. fst c \<in> K} \<subseteq> L - {(p, n)}" using writes(4) by auto
  then have "unchanged {c \<in> L. fst c \<in> K} (memory s) ((memory s)(w := v))"
    using write_unchanged[OF assms(2) n(1) writes(5) n(2)] by (rule unchanged_mono[rotated])
  then show ?thesis
    using store_chunk[OF assms(2) n(1) writes(5) n(2)] writes(1,2) assms(3) by (intro exI[of _ L]) auto
qed

text \<open>Any number of actions: the state keeps representing the chunks the client holds, and the
  chunks it keeps are still there with their contents.\<close>

lemma steps_rep:
  assumes "(client_step alloc dealloc store K)\<^sup>*\<^sup>* (s, P) (s', P')" "rep s L" "held P L"
  shows "\<exists>L'. rep s' L' \<and> held P' L' \<and> {c \<in> L. fst c \<in> K} \<subseteq> L'
    \<and> unchanged {c \<in> L. fst c \<in> K} (memory s) (memory s')"
  using assms(1)
proof (induction s' P' rule: rtranclp_induct2)
  case refl
  then show ?case using assms(2,3) by auto
next
  case (step s1 P1 s2 P2)
  then obtain L1 where L1: "rep s1 L1" "held P1 L1" "{c \<in> L. fst c \<in> K} \<subseteq> L1"
    "unchanged {c \<in> L. fst c \<in> K} (memory s) (memory s1)" by blast
  obtain L2 where "rep s2 L2" "held P2 L2" "{c \<in> L1. fst c \<in> K} \<subseteq> L2"
    "unchanged {c \<in> L1. fst c \<in> K} (memory s1) (memory s2)"
    using step_rep[OF step.hyps(2) L1(1,2)] by blast
  then show ?case
    using L1(3,4) unchanged_trans unchanged_mono[of "{c \<in> L1. fst c \<in> K}" _ _ "{c \<in> L. fst c \<in> K}"]
    by (intro exI[of _ L2]) blast
qed

end

end
