(* ===== verification/Heap_Correct.thy ===== *)
theory Heap_Correct
  imports Heap_Init Alloc_Interface
begin

unbundle bit_operations_syntax

text \<open>
  The heap as a memory allocator: the interpretation of the allocator contract on \<open>mcu_malloc\<close>
  and \<open>mcu_free\<close>, and the properties of \<open>src/allocator/heap.rs\<close>.
\<close>

section \<open>The contract\<close>

text \<open>The chunks handed out, as the callers see them: payload address and payload length.\<close>

definition payload_of :: "ptr \<times> nat \<Rightarrow> ptr \<times> nat" where
  "payload_of c = (fst c + 4, snd c - 4)"

definition heap_rep :: "heap_env \<Rightarrow> heap \<Rightarrow> payloads \<Rightarrow> bool" where
  "heap_rep env s L \<longleftrightarrow> (\<exists>bs fl. heap_ok env s bs fl \<and> L = payload_of ` live s bs)"

lemma live_facts:
  assumes "heap_ok env s bs fl" "(h, n) \<in> live s bs"
  shows "(h, n, True) \<in> blks (heap_start s) bs" "16 \<le> n" "8 dvd h + 4" "h \<noteq> 0" "wfb True bs"
    "h + n < 2 ^ 32"
proof -
  have M: "mem_ok env (heap_start s) (mem s) bs fl" using assms(1) by (simp add: heap_ok_def)
  then show W: "wfb True bs" by (simp add: mem_ok_def)
  show b: "(h, n, True) \<in> blks (heap_start s) bs" using assms(2) by (auto simp: live_def allocated_def)
  show "16 \<le> n" using blks_size[OF W b] by simp
  show "8 dvd h + 4" "h \<noteq> 0" "h + n < 2 ^ 32" using chunk_payload[OF M b] by auto
qed

lemma payload_of_inj:
  assumes "heap_ok env s bs fl" shows "inj_on payload_of (live s bs)"
  using live_facts(2)[OF assms] by (force simp: inj_on_def payload_of_def)

lemma unchanged_live:
  assumes "same_payload A m m'" "\<And>c. c \<in> A \<Longrightarrow> 4 \<le> snd c"
  shows "unchanged (payload_of ` A) m m'"
  using assms by (fastforce simp: same_payload_def unchanged_def payload_of_def)

lemma live_4: "heap_ok env s bs fl \<Longrightarrow> c \<in> live s bs \<Longrightarrow> 4 \<le> snd c"
  using live_facts(2)[of env s bs fl "fst c" "snd c"] by (cases c) simp

lemma heap_rep_chunks:
  assumes "heap_rep env s L" "c \<in> L"
  shows "8 dvd fst c \<and> fst c \<noteq> 0 \<and> 0 < snd c \<and> fst c + snd c < 2 ^ 32"
proof -
  obtain bs fl h n where H: "heap_ok env s bs fl" "(h, n) \<in> live s bs" "c = payload_of (h, n)"
    using assms by (auto simp: heap_rep_def)
  then show ?thesis using live_facts(2,3,6)[OF H(1,2)] by (auto simp: payload_of_def)
qed

lemma heap_rep_disjoint:
  assumes "heap_rep env s L" "c \<in> L" "d \<in> L" "c \<noteq> d"
  shows "pl_disjoint c d"
proof -
  obtain bs fl h n h' n' where H: "heap_ok env s bs fl" and
    c: "(h, n) \<in> live s bs" "c = payload_of (h, n)" and d: "(h', n') \<in> live s bs" "d = payload_of (h', n')"
    using assms by (auto simp: heap_rep_def)
  then show ?thesis
    using blks_disjoint[OF live_facts(5)[OF H c(1)] live_facts(1)[OF H c(1)] live_facts(1)[OF H d(1)]]
      live_facts(2)[OF H c(1)] live_facts(2)[OF H d(1)] \<open>c \<noteq> d\<close>
    by (auto simp: pl_disjoint_def payload_of_def)
qed

lemma heap_alloc_null:
  assumes "heap_rep env s L" "sz \<noteq> 0" "unat sz < 2 ^ 31"
  shows "\<exists>p s'. mcu_malloc env sz s = Some (p, s')" "mcu_malloc env sz s = Some (0, s') \<Longrightarrow> s' = s"
proof -
  obtain bs fl where H: "heap_ok env s bs fl" using assms(1) by (auto simp: heap_rep_def)
  show "\<exists>p s'. mcu_malloc env sz s = Some (p, s')" "mcu_malloc env sz s = Some (0, s') \<Longrightarrow> s' = s"
    by (rule malloc_outcome[OF H assms(2,3)]; auto)+
qed

lemma heap_alloc_chunk:
  assumes L: "heap_rep env s L" and z: "sz \<noteq> 0" "unat sz < 2 ^ 31"
    and m: "mcu_malloc env sz s = Some (p, s')" and p: "p \<noteq> 0"
  shows "\<exists>n. unat sz \<le> n \<and> (p, n) \<notin> L \<and> heap_rep env s' (insert (p, n) L) \<and> unchanged L (mem s) (mem s')"
proof -
  obtain bs fl where H: "heap_ok env s bs fl" "L = payload_of ` live s bs" using L by (auto simp: heap_rep_def)
  show ?thesis
  proof (rule malloc_outcome[OF H(1) z])
    assume "mcu_malloc env sz s = Some (0, s)"
    then show ?thesis using m p by simp
  next
    fix h n s'' bs' fl'
    assume *: "mcu_malloc env sz s = Some (h + 4, s'')" "heap_ok env s'' bs' fl'"
      "live s'' bs' = insert (h, n) (live s bs)" "(h, n) \<notin> live s bs" "unat sz + 4 \<le> n"
      "same_payload (live s bs) (mem s) (mem s'')"
    then have eq: "p = h + 4" "s'' = s'" using m by auto
    have "payload_of (h, n) \<notin> L"
    proof
      assume "payload_of (h, n) \<in> L"
      then obtain c where "c \<in> live s bs" "payload_of c = payload_of (h, n)" using H(2) by auto
      then show False using inj_onD[OF payload_of_inj[OF *(2)], of c "(h, n)"] *(3,4) by auto
    qed
    moreover have "heap_rep env s' (insert (payload_of (h, n)) L)"
      using *(2,3) eq(2) H(2) unfolding heap_rep_def by (metis image_insert)
    moreover have "unchanged L (mem s) (mem s')"
      using unchanged_live[OF *(6)] live_4[OF H(1)] H(2) eq(2) by blast
    ultimately show ?thesis using *(5) eq(1) by (intro exI[of _ "n - 4"]) (simp add: payload_of_def)
  qed
qed

lemma heap_dealloc:
  assumes "heap_rep env s L" "(p, n) \<in> L"
  shows "heap_rep env (mcu_free env p s) (L - {(p, n)})
    \<and> unchanged (L - {(p, n)}) (mem s) (mem (mcu_free env p s))"
proof -
  obtain bs fl where H: "heap_ok env s bs fl" "L = payload_of ` live s bs"
    using assms(1) by (auto simp: heap_rep_def)
  obtain h k where hk: "(h, k) \<in> live s bs" "p = h + 4" "n = k - 4"
    using assms(2) H(2) by (auto simp: payload_of_def)
  then have c: "(h, n + 4) \<in> live s bs" "p = h + 4" using live_facts(2)[OF H(1) hk(1)] by auto
  have pc: "payload_of (h, n + 4) = (p, n)" using c(2) by (simp add: payload_of_def)
  have im: "payload_of ` (live s bs - {(h, n + 4)}) = L - {(p, n)}"
    using inj_on_image_set_diff[OF payload_of_inj[OF H(1)], of "live s bs" "{(h, n + 4)}"] c(1) H(2) pc by auto
  obtain bs' fl' where *: "heap_ok env (mcu_free env p s) bs' fl'"
    "live (mcu_free env p s) bs' = live s bs - {(h, n + 4)}"
    "same_payload (live s bs - {(h, n + 4)}) (mem s) (mem (mcu_free env p s))"
    using free_outcome[OF H(1) c(1)] c(2) by metis
  show ?thesis
    using *(1,2) unchanged_live[OF *(3)] live_4[OF H(1)] im unfolding heap_rep_def by (metis DiffD1)
qed

text \<open>A store of a client into its own chunk touches neither a boundary tag nor a link.\<close>

definition heap_store :: "ptr \<Rightarrow> u32 \<Rightarrow> heap \<Rightarrow> heap" where
  "heap_store w v s = s\<lparr>mem := (mem s)(w := v)\<rparr>"

lemma mem_ok_store:
  assumes M: "mem_ok env a m bs fl" and c: "(h, n, True) \<in> blks a bs"
    and m': "\<And>w. w < h + 4 \<or> h + n \<le> w \<Longrightarrow> m' w = m w"
  shows "mem_ok env a m' bs fl"
proof -
  have W: "wfb True bs" and R: "region_ok env a (a + bsum bs)" using M by (auto simp: mem_ok_def)
  have r: "a \<le> h" "h + n \<le> a + bsum bs" using blks_range[OF c] by auto
  have "m' w = m w" if "w \<in> tags a (bs @ [guard])" for w
  proof (rule m', rule ccontr)
    assume "\<not> (w < h + 4 \<or> h + n \<le> w)"
    moreover from this have "w \<notin> tags a bs" by (intro inside_not_tag[OF W c]) auto
    ultimately show False using that r by auto
  qed
  then have "hdrs m' a True (bs @ [guard]) = hdrs m a True (bs @ [guard])" by (rule hdrs_cong)
  moreover have "lists_ok env a m' bs {} fl"
  proof (rule lists_cong)
    show "lists_ok env a m bs {} fl" using M by (simp add: mem_ok_def lists_ok_def)
    fix u assume "u \<in> nodes env a bs"
    then consider "u \<in> sentinel env ` {..<6}" | k where "(u, k, False) \<in> blks a bs"
      by (auto simp: nodes_def)
    then have "u + 4 < h + 4 \<or> h + n \<le> u + 4"
    proof cases
      case 1
      then show ?thesis using R r by (auto simp: region_ok_def sentinel_def)
    next
      case 2
      then show ?thesis using blks_disjoint[OF W c 2] blks_size[OF W 2] blks_size[OF W c] by auto
    qed
    then show "m' (u + 4) = m (u + 4)" by (rule m')
  qed
  ultimately show ?thesis using M by (simp add: mem_ok_def lists_ok_def)
qed

lemma heap_rep_fill:
  assumes "heap_rep env s L" "(p, n) \<in> L" "\<And>w. w < p \<or> p + n \<le> w \<Longrightarrow> m' w = mem s w"
  shows "heap_rep env (s\<lparr>mem := m'\<rparr>) L"
proof -
  obtain bs fl h k where H: "heap_ok env s bs fl" "L = payload_of ` live s bs" "(h, k) \<in> live s bs"
      "p = h + 4" "n = k - 4"
    using assms(1,2) by (auto simp: heap_rep_def payload_of_def)
  have "mem_ok env (heap_start s) m' bs fl"
  proof (rule mem_ok_store)
    show "mem_ok env (heap_start s) (mem s) bs fl" using H(1) by (simp add: heap_ok_def)
    show "(h, k, True) \<in> blks (heap_start s) bs" by (rule live_facts(1)[OF H(1,3)])
    show "m' w = mem s w" if "w < h + 4 \<or> h + k \<le> w" for w
      using that H(4,5) live_facts(2)[OF H(1,3)] by (intro assms(3)) auto
  qed
  then have "heap_ok env (s\<lparr>mem := m'\<rparr>) bs fl" using H(1) by (auto simp: heap_ok_def)
  moreover have "live (s\<lparr>mem := m'\<rparr>) bs = live s bs" by (simp add: live_def)
  ultimately show ?thesis using H(2) unfolding heap_rep_def by auto
qed

lemma heap_rep_store:
  "\<lbrakk>heap_rep env s L; (p, n) \<in> L; p \<le> w; w < p + n\<rbrakk> \<Longrightarrow>
    heap_rep env (heap_store w v s) L \<and> mem (heap_store w v s) = (mem s)(w := v)"
  unfolding heap_store_def by (intro conjI heap_rep_fill[of env s L p n]) auto

interpretation hp: allocator "heap_rep env" mem "mcu_malloc env" "mcu_free env" heap_store for env
proof (unfold_locales, goal_cases)
  case 1 then show ?case by (rule heap_rep_chunks)
next
  case 2 then show ?case by (rule heap_rep_disjoint)
next
  case 3 then show ?case by (rule heap_alloc_null(1))
next
  case 4 then show ?case by (rule heap_alloc_null(2))
next
  case 5 then show ?case by (rule heap_alloc_chunk)
next
  case 6 then show ?case by (rule heap_dealloc)
next
  case 7 then show ?case by (rule heap_rep_store)
qed

section \<open>Properties of the heap\<close>

text \<open>A configuration the properties are tried on: the RAM of an STM32F411 with the static data
  ending at \<open>0x20001100\<close>, and the static variables as they are before initialisation.\<close>

definition env0 :: heap_env where
  "env0 = \<lparr>link_offset = 0x20000000, sentinels = 0x20001000, ram_end = 0x20020000\<rparr>"

definition heap0 :: heap where
  "heap0 = \<lparr>mem = (\<lambda>_. 0), heap_start = 0, cached = 0, high_water_mark = 0,
     high_water_mark_just_updated = False, cur_alloc_size = 0, max_alloc_size = 0\<rparr>"

lemma env0_ok: "link_script_ok env0 0x20001100"
  by (simp add: link_script_ok_def env0_def)

lemma heap0_init:
  obtains s fl where "mcu_heap_init env0 0x20001100 heap0 = Inr s"
    "heap_ok env0 s [(0x1EEF8, False)] fl" "cached s = 0" "heap_start s = 0x20001104"
  by (rule init_outcome[OF env0_ok, of heap0]) (auto simp: heap0_def align_start_def env0_def)

lemma init_rep: "heap_ok env s [(n, False)] fl \<Longrightarrow> heap_rep env s {}"
  unfolding heap_rep_def by (intro exI[of _ "[(n, False)]"] exI[of _ fl]) (simp add: live_def)

text \<open>When the search must succeed.\<close>

lemma search_not_null:
  assumes H: "heap_ok env s bs fl" and c: "(h, n, False) \<in> blks (heap_start s) bs"
    and fit: "chunk_size_to_list_index k < list_index n \<or> list_index n = 5 \<and> k \<le> of_nat n"
  shows "search_first_fit env (mem s) k \<noteq> Some 0"
proof -
  have M: "mem_ok env (heap_start s) (mem s) bs fl" using H by (simp add: heap_ok_def)
  then have W: "wfb True bs" and T: "hdrs (mem s) (heap_start s) True bs" and F: "free_lists env (mem s) fl"
    by (auto simp: mem_ok_def)
  let ?l = "concat (map fl [min (chunk_size_to_list_index k + 1) 5..<6])"
  have i6: "list_index n < 6" by (rule list_index_less)
  then have "h \<in> set (fl (list_index n))" using M c by (auto simp: mem_ok_def bin_def)
  then have "h \<in> set ?l" using fit i6 by auto
  moreover have "k \<le> get_hdr_chunk_size (mem s) h"
    using fit list_index_mono_size[of k "of_nat n"] size_at[OF T W c] by auto
  ultimately obtain g where g: "find (\<lambda>h. k \<le> get_hdr_chunk_size (mem s) h) ?l = Some g"
    by (cases "find (\<lambda>h. k \<le> get_hdr_chunk_size (mem s) h) ?l") (auto simp: find_None_iff)
  then have "g \<in> set ?l" by (blast dest: find_SomeD)
  then obtain i where "i < 6" "g \<in> set (fl i)" by auto
  then obtain j where "(g, j, False) \<in> blks (heap_start s) bs" using M by (auto simp: mem_ok_def bin_def)
  then have "g \<noteq> 0" by (rule chunk_payload(4)[OF M])
  then show ?thesis using g search_first_fit_find[OF F, of k] by simp
qed

text \<open>Allocating from a heap whose only free chunk is the last one.\<close>

lemma malloc_tail:
  assumes H: "heap_ok env s (xs @ [(n, False)]) fl" and xs: "\<And>j b. (j, b) \<in> set xs \<Longrightarrow> b"
    and c: "cached s = 0" and z: "sz \<noteq> 0" "request_size sz = of_nat k" "8 dvd k" "16 \<le> k"
    and fit: "k + 12 \<le> n" "list_index n = 5"
  obtains s' fl' where "mcu_malloc env sz s = Some (heap_start s + bsum xs + 4, s')"
    "heap_ok env s' ((xs @ [(k, True)]) @ [(n - k, False)]) fl'" "cached s' = 0" "heap_start s' = heap_start s"
proof -
  let ?bs = "xs @ [(n, False)]"
  define h where "h = heap_start s + bsum xs"
  have M: "mem_ok env (heap_start s) (mem s) ?bs fl" using H by (simp add: heap_ok_def)
  have b: "(h, n, False) \<in> blks (heap_start s) ?bs" by (simp add: h_def)
  have only: "h' = h" if H': "(h', n', False) \<in> blks (heap_start s) ?bs" for h' n'
  proof -
    obtain us vs where s: "?bs = us @ (n', False) # vs" "h' = heap_start s + bsum us" using blks_split[OF H'] by blast
    then have "us = xs"
    proof (cases vs rule: rev_cases)
      case (snoc ws w)
      then have "(n', False) \<in> set xs" using s(1) by (simp add: append_eq_append_conv2)
      then show ?thesis using xs by blast
    qed (use s in simp)
    then show ?thesis using s(2) by (simp add: h_def)
  qed
  have n32: "n < 2 ^ 32" using chunk_payload(6)[OF M b] .
  have k32: "k < 2 ^ 32" using n32 fit(1) by simp
  obtain h' where h': "search_first_fit env (mem s) (of_nat k) = Some h'" using search_total[OF M] by blast
  moreover have "search_first_fit env (mem s) (of_nat k) \<noteq> Some 0"
    using search_not_null[OF H b, of "of_nat k"] fit k32 n32 by (simp add: word_le_nat_alt unat_of_nat32)
  ultimately have "h' \<noteq> 0" by simp
  then have s: "search_first_fit env (mem s) (of_nat k) = Some h" "h \<noteq> 0"
    using search_result[OF M k32 h'] only h' by auto
  obtain m' fl' where a: "alloc_mem env h (of_nat k) (mem s) = (h + k, m')"
      "mem_ok env (heap_start s) m' (xs @ (k, True) # (n - k, False) # []) fl'"
    using alloc_split[OF M refl h_def z(3,4), of thesis] fit(1) by auto
  have g: "get_hdr_chunk_size m' h = of_nat k"
    using a(2) size_at[of m' "heap_start s" True "xs @ [(k, True), (n - k, False)]" True h k True] by (auto simp: mem_ok_def h_def)
  let ?s = "note_alloc (h + k) (of_nat k) (s\<lparr>mem := m'\<rparr>)"
  have "mcu_malloc env sz s = Some (h + 4, ?s)"
    using s a(1) g c chunk_payload(1)[OF M b] by (simp add: mcu_malloc_eq[OF z(1)] z(2))
  moreover have "heap_ok env ?s ((xs @ [(k, True)]) @ [(n - k, False)]) fl'"
    using H a(2) c by (auto simp: heap_ok_def)
  ultimately show ?thesis using that[of ?s fl'] c by (simp add: h_def)
qed

lemma index_samples: "list_index 0x1EEF8 = 5" "chunk_size_to_list_index 104 = 2"
  by (simp_all add: chunk_size_to_list_index_def leading_zeros_def compute_floorlog)

text \<open>C1. Whatever sequence of allocations, frees of held chunks and stores into held chunks a client
  performs, the heap stays well formed and the chunks handed out are exactly those the client
  holds, each at least as long as requested and disjoint from all others; the chunks at the
  addresses \<open>K\<close>, which the client neither frees nor writes, stay allocated and no word of their
  payloads changes.\<close>

theorem heap_calls_safe:
  assumes "heap_rep env s L" "held P L"
    and "(client_step (mcu_malloc env) (mcu_free env) heap_store K)\<^sup>*\<^sup>* (s, P) (s', P')"
  shows "\<exists>L'. heap_rep env s' L' \<and> held P' L' \<and> {c \<in> L. fst c \<in> K} \<subseteq> L'
    \<and> unchanged {c \<in> L. fst c \<in> K} (mem s) (mem s')
    \<and> (\<forall>c \<in> L'. \<forall>d \<in> L'. c = d \<or> pl_disjoint c d)"
  using hp.steps_rep[OF assms(3,1,2)] hp.rep_disjoint by (metis (no_types, lifting))

theorem heap_calls_safe_witness:
  "\<exists>s s' s'' P'. mcu_heap_init env0 0x20001100 heap0 = Inr s
    \<and> client_step (mcu_malloc env0) (mcu_free env0) heap_store {} (s, {}) (s', P') \<and> P' \<noteq> {}
    \<and> client_step (mcu_malloc env0) (mcu_free env0) heap_store {} (s', P') (s'', P')
    \<and> (\<exists>L'. heap_rep env0 s'' L' \<and> held P' L')"
proof -
  let ?step = "client_step (mcu_malloc env0) (mcu_free env0) heap_store {}"
  obtain s fl where s: "mcu_heap_init env0 0x20001100 heap0 = Inr s"
    "heap_ok env0 s [(0x1EEF8, False)] fl" by (rule heap0_init)
  have R: "heap_rep env0 s {}" by (rule init_rep[OF s(2)])
  have nz: "search_first_fit env0 (mem s) (request_size 100) \<noteq> Some 0"
    using search_not_null[OF s(2), of "heap_start s" "0x1EEF8" 104] index_samples
    by (simp add: request_size_eq)
  obtain p s' where m: "mcu_malloc env0 100 s = Some (p, s')" "p \<noteq> 0"
    using malloc_outcome[OF s(2), of 100 thesis] nz by auto
  have 1: "?step (s, {}) (s', {(p, 100)})"
    using client_step.allocates[of 100 "mcu_malloc env0" s p s'] m by simp
  have 2: "?step (s', {(p, 100)}) (heap_store p 7 s', {(p, 100)})" by (rule client_step.writes) auto
  from heap_calls_safe[OF R _ converse_rtranclp_into_rtranclp[of ?step, OF 1 r_into_rtranclp[of ?step, OF 2]]]
  have "\<exists>L'. heap_rep env0 (heap_store p 7 s') L' \<and> held {(p, 100)} L'" by (auto simp: held_def)
  then show ?thesis using s(1) 1 2 by blast
qed

text \<open>C2. On a well-formed heap \<open>mcu_malloc\<close> always returns. It either returns the null pointer and
  leaves the state as it was, or hands out a chunk that was not handed out before: the payload is
  8-byte aligned and holds at least the requested bytes, the heap is well formed again (no two
  free neighbours, every free chunk on the list for its length), and no live payload changed.\<close>

theorem mcu_malloc_spec:
  assumes "heap_ok env s bs fl" "sz \<noteq> 0" "unat sz < 2 ^ 31"
  shows "\<exists>p s'. mcu_malloc env sz s = Some (p, s') \<and>
    (p = 0 \<and> s' = s \<or>
     (\<exists>n bs' fl'. 8 dvd p \<and> 4 < p \<and> unat sz + 4 \<le> n \<and> heap_ok env s' bs' fl' \<and> bsum bs' = bsum bs
       \<and> live s' bs' = insert (p - 4, n) (live s bs) \<and> (p - 4, n) \<notin> live s bs
       \<and> same_payload (live s bs) (mem s) (mem s')))"
proof (rule malloc_outcome[OF assms])
  assume "mcu_malloc env sz s = Some (0, s)"
  then show ?thesis by simp
next
  fix h n s' bs' fl'
  assume *: "mcu_malloc env sz s = Some (h + 4, s')" "8 dvd h + 4" "heap_ok env s' bs' fl'"
    "live s' bs' = insert (h, n) (live s bs)" "(h, n) \<notin> live s bs" "unat sz + 4 \<le> n" "bsum bs' = bsum bs"
    "same_payload (live s bs) (mem s) (mem s')"
  have "h \<noteq> 0" using live_facts(4)[OF *(3), of h n] *(4) by simp
  then show ?thesis using * by (intro exI[of _ "h + 4"] exI[of _ s']) auto
qed

theorem mcu_malloc_spec_witness:
  "\<exists>s p s'. mcu_heap_init env0 0x20001100 heap0 = Inr s \<and> mcu_malloc env0 100 s = Some (p, s')"
proof -
  obtain s fl where s: "mcu_heap_init env0 0x20001100 heap0 = Inr s"
    "heap_ok env0 s [(0x1EEF8, False)] fl" by (rule heap0_init)
  from mcu_malloc_spec[OF s(2), of 100] show ?thesis using s(1) by auto
qed

text \<open>C3. Freeing a live chunk keeps the heap well formed, whichever of the neighbours of the chunk
  leaving the cache slot are free: exactly that chunk stops being live, and the payloads of all
  other live chunks are untouched.\<close>

theorem mcu_free_spec:
  assumes "heap_ok env s bs fl" "(h, n) \<in> live s bs"
  shows "\<exists>bs' fl'. heap_ok env (mcu_free env (h + 4) s) bs' fl' \<and> bsum bs' = bsum bs
    \<and> live (mcu_free env (h + 4) s) bs' = live s bs - {(h, n)}
    \<and> same_payload (live s bs - {(h, n)}) (mem s) (mem (mcu_free env (h + 4) s))"
  using free_outcome[OF assms] by metis

theorem mcu_free_spec_witness:
  "\<exists>s p s' h n bs fl. mcu_heap_init env0 0x20001100 heap0 = Inr s \<and> mcu_malloc env0 100 s = Some (p, s')
    \<and> (h, n) \<in> live s' bs \<and> p = h + 4
    \<and> (\<exists>bs' fl'. heap_ok env0 (mcu_free env0 p s') bs' fl')"
proof -
  obtain s fl where s: "mcu_heap_init env0 0x20001100 heap0 = Inr s"
    "heap_ok env0 s [(0x1EEF8, False)] fl" by (rule heap0_init)
  have "(heap_start s, 0x1EEF8, False) \<in> blks (heap_start s) [(0x1EEF8, False)]" by simp
  moreover have "request_size 100 = 104" by (simp add: request_size_eq)
  ultimately have nz: "search_first_fit env0 (mem s) (request_size 100) \<noteq> Some 0"
    using search_not_null[of env0 s "[(0x1EEF8, False)]" fl "heap_start s" "0x1EEF8" 104] s(2) index_samples
    by simp
  show ?thesis
  proof (rule malloc_outcome[OF s(2), of 100])
    fix h n s' bs fl'
    assume *: "mcu_malloc env0 100 s = Some (h + 4, s')" "heap_ok env0 s' bs fl'"
      "live s' bs = insert (h, n) (live s [(0x1EEF8, False)])"
    then have "(h, n) \<in> live s' bs" by simp
    then show ?thesis using mcu_free_spec[OF *(2), of h n] *(1) s(1) by metis
  qed (use nz in simp_all)
qed

text \<open>C4. With the memory layout the linker script provides, initialisation succeeds and leaves one
  free chunk from the aligned end of the static data to the guard word at the end of the RAM.\<close>

theorem mcu_heap_init_spec:
  assumes "link_script_ok env d" "cached s = 0" "cur_alloc_size s = 0"
  shows "\<exists>s' fl. mcu_heap_init env d s = Inr s' \<and> heap_start s' = align_start (unat d)
    \<and> heap_ok env s' [(unat (ram_end env) - 4 - heap_start s', False)] fl \<and> heap_rep env s' {}"
  using init_outcome[OF assms] init_rep by metis

theorem mcu_heap_init_spec_witness:
  "\<exists>s'. mcu_heap_init env0 0x20001100 heap0 = Inr s' \<and> heap_start s' = 0x20001104 \<and> heap_rep env0 s' {}"
  using mcu_heap_init_spec[OF env0_ok, of heap0] by (auto simp: heap0_def align_start_def)

text \<open>C5. A request is refused only when it has to be: if some free chunk lies on a list above the
  one for the requested length, or is long enough and on the last list, a pointer is returned.\<close>

theorem mcu_malloc_complete:
  assumes "heap_ok env s bs fl" "sz \<noteq> 0" "unat sz < 2 ^ 31"
    and "(h, n, False) \<in> blks (heap_start s) bs"
    and "chunk_size_to_list_index (request_size sz) < list_index n
      \<or> list_index n = 5 \<and> request_size sz \<le> of_nat n"
  shows "\<exists>p s'. mcu_malloc env sz s = Some (p, s') \<and> p \<noteq> 0"
  by (rule malloc_outcome[OF assms(1-3)]) (use search_not_null[OF assms(1,4,5)] in auto)

theorem mcu_malloc_complete_witness:
  "\<exists>s p s'. mcu_heap_init env0 0x20001100 heap0 = Inr s \<and> mcu_malloc env0 100 s = Some (p, s') \<and> p \<noteq> 0"
proof -
  obtain s fl where s: "mcu_heap_init env0 0x20001100 heap0 = Inr s"
    "heap_ok env0 s [(0x1EEF8, False)] fl" by (rule heap0_init)
  have "request_size 100 = 104" by (simp add: request_size_eq)
  then show ?thesis
    using index_samples mcu_malloc_complete[OF s(2), of 100 "heap_start s" "0x1EEF8"] s(1) by auto
qed


text \<open>C6. The search over the linked lists in memory ends on every well-formed heap and is a first
  fit: it returns the first chunk of sufficient length in the concatenation of the lists from the
  request's starting index on, and the null pointer when there is none.\<close>

theorem search_first_fit_spec:
  assumes "heap_ok env s bs fl"
  shows "search_first_fit env (mem s) sz =
    Some (case find (\<lambda>h. sz \<le> get_hdr_chunk_size (mem s) h)
            (concat (map fl [min (chunk_size_to_list_index sz + 1) 5..<6])) of
            None \<Rightarrow> 0 | Some h \<Rightarrow> h)"
  using assms by (intro search_first_fit_find) (simp add: heap_ok_def mem_ok_def)

theorem search_first_fit_spec_witness:
  "\<exists>s. mcu_heap_init env0 0x20001100 heap0 = Inr s \<and> (\<exists>h. search_first_fit env0 (mem s) 104 = Some h \<and> h \<noteq> 0)"
proof -
  obtain s fl where s: "mcu_heap_init env0 0x20001100 heap0 = Inr s"
    "heap_ok env0 s [(0x1EEF8, False)] fl" by (rule heap0_init)
  have "search_first_fit env0 (mem s) 104 \<noteq> Some 0"
    using search_not_null[OF s(2), of "heap_start s" "0x1EEF8" 104] index_samples by simp
  then show ?thesis using search_first_fit_spec[OF s(2), of 104] s(1) by auto
qed

text \<open>Initialisation dies instead of building a heap when fewer than 12 bytes remain between
  the aligned end of the static data and the end of the RAM.\<close>

lemma mcu_heap_init_dies:
  assumes "unat d + 8 < 2 ^ 32" "unat (ram_end env) < align_start (unat d) + 12"
  shows "mcu_heap_init env d s = Inl Die"
proof -
  obtain e x where ex: "checked_add d 3 = Some e"
    "(if (e AND NOT 3) mod 8 = 0 then checked_add (e AND NOT 3) 4 else Some (e AND NOT 3)) = Some x"
    "unat x = align_start (unat d)"
    using align_code[OF assms(1)] by auto
  have "ram_end env - x < FREE_CHUNK_MIN_SIZE" if "\<not> ram_end env < x"
    using that assms(2) ex(3) by (simp add: word_less_nat_alt FREE_CHUNK_MIN_SIZE_def unat_sub word_le_nat_alt)
  then show ?thesis
    unfolding mcu_heap_init_def ex(1) option.case Let_def ex(2) by simp
qed

end
