(* ===== verification/Allocator.thy ===== *)
theory Allocator
  imports Heap_Correct
begin

unbundle bit_operations_syntax

text \<open>
  The global allocator, \<open>src/allocator/mod.rs\<close>, on top of the heap. A call that never returns (a
  failed sanity check, a spin on a flag nobody resets, an exhausted heap) is \<open>None\<close>. The values
  the source reads with \<open>mrs\<close> are the fields of \<open>cpu\<close>.
\<close>

record cpu =
  ipsr :: nat
  control :: u32
  sched_started :: bool

record kalloc =
  kheap :: heap
  initialized :: bool
  active :: bool
  adjusted_high_water_mark :: u32

definition allocator_init :: "heap_env \<Rightarrow> u32 \<Rightarrow> kalloc \<Rightarrow> kalloc res" where
  "allocator_init env start k =
     (if \<not> initialized k then
        bindr (mcu_heap_init env start (kheap k)) (\<lambda>h. Inr (k\<lparr>kheap := h, initialized := True\<rparr>))
      else Inr (k\<lparr>initialized := True\<rparr>))"

text \<open>True when the check lets the caller continue.\<close>

definition die_if_not_in_svc :: "cpu \<Rightarrow> bool" where
  "die_if_not_in_svc c \<longleftrightarrow> (sched_started c \<longrightarrow> ipsr c = 11)"

definition die_if_not_in_svc_or_pendsv :: "cpu \<Rightarrow> bool" where
  "die_if_not_in_svc_or_pendsv c \<longleftrightarrow> (sched_started c \<longrightarrow> ipsr c = 11 \<or> ipsr c = 14)"

text \<open>\<open>stacklets\<close> is \<open>task::get_active_stacklet_count()\<close>.\<close>

definition kernel_malloc :: "heap_env \<Rightarrow> cpu \<Rightarrow> u32 \<Rightarrow> u32 \<Rightarrow> kalloc \<Rightarrow> (ptr \<times> kalloc) option" where
  "kernel_malloc env c stacklets sz k =
     (if \<not> die_if_not_in_svc c \<or> \<not> initialized k \<or> active k then None
      else
        let k = k\<lparr>active := True\<rparr>
        in case mcu_malloc env sz (kheap k) of
             None \<Rightarrow> None
           | Some (p, h) \<Rightarrow>
               let k = k\<lparr>kheap := h, active := False\<rparr>
               in if p = 0 then None
                  else if high_water_mark_just_updated h
                  then Some (p, k\<lparr>kheap := h\<lparr>high_water_mark_just_updated := False\<rparr>,
                         adjusted_high_water_mark := high_water_mark h - 108 * stacklets\<rparr>)
                  else Some (p, k))"

definition kernel_free :: "heap_env \<Rightarrow> cpu \<Rightarrow> ptr \<Rightarrow> kalloc \<Rightarrow> kalloc option" where
  "kernel_free env c p k =
     (if \<not> die_if_not_in_svc_or_pendsv c \<or> \<not> initialized k \<or> active k then None
      else
        let k = k\<lparr>active := True\<rparr>;
            k = k\<lparr>kheap := mcu_free env p (kheap k)\<rparr>
        in Some (k\<lparr>active := False\<rparr>))"

text \<open>\<open>Layout::from_size_align(size, 4)\<close> fails when the size, rounded up to the alignment, exceeds
  \<open>isize::MAX\<close>. The supervisor call traps into handler mode, where bit 1 of CONTROL reads as zero
  and the exception number is 11.\<close>

definition svc_cpu :: "cpu \<Rightarrow> cpu" where
  "svc_cpu c = c\<lparr>ipsr := 11, control := control c AND NOT 2\<rparr>"

definition task_malloc :: "heap_env \<Rightarrow> cpu \<Rightarrow> u32 \<Rightarrow> u32 \<Rightarrow> kalloc \<Rightarrow> (ptr \<times> kalloc) option" where
  "task_malloc env c stacklets sz k =
     (if 2 ^ 31 - 4 < unat sz then None
      else case kernel_malloc env (svc_cpu c) stacklets sz k of
             None \<Rightarrow> None
           | Some (p, k) \<Rightarrow> if p = 0 then None else Some (p, k))"

definition task_free :: "heap_env \<Rightarrow> cpu \<Rightarrow> ptr \<Rightarrow> kalloc \<Rightarrow> kalloc option" where
  "task_free env c p k = kernel_free env (svc_cpu c) p k"

definition alloc_impl :: "heap_env \<Rightarrow> cpu \<Rightarrow> u32 \<Rightarrow> u32 \<Rightarrow> kalloc \<Rightarrow> (ptr \<times> kalloc) option" where
  "alloc_impl env c stacklets sz k =
     (if control c AND 2 = 0 then kernel_malloc env c stacklets sz k else task_malloc env c stacklets sz k)"

definition free_impl :: "heap_env \<Rightarrow> cpu \<Rightarrow> ptr \<Rightarrow> kalloc \<Rightarrow> kalloc option" where
  "free_impl env c p k =
     (if control c AND 2 = 0 then kernel_free env c p k else task_free env c p k)"

section \<open>Properties\<close>

definition kalloc_rep :: "heap_env \<Rightarrow> kalloc \<Rightarrow> payloads \<Rightarrow> bool" where
  "kalloc_rep env k L \<longleftrightarrow> heap_rep env (kheap k) L \<and> initialized k \<and> \<not> active k"

lemma heap_rep_flag: "heap_rep env (h\<lparr>high_water_mark_just_updated := b\<rparr>) L = heap_rep env h L"
  by (simp add: heap_rep_def heap_ok_def live_def)

lemma kernel_malloc_ok:
  assumes R: "kalloc_rep env k L" and sz: "sz \<noteq> 0" "unat sz < 2 ^ 31"
    and m: "kernel_malloc env c n sz k = Some (p, k')"
  shows "p \<noteq> 0 \<and> (\<exists>l. unat sz \<le> l \<and> (p, l) \<notin> L \<and> kalloc_rep env k' (insert (p, l) L)
    \<and> unchanged L (mem (kheap k)) (mem (kheap k')))"
proof -
  have H: "heap_rep env (kheap k) L" "initialized k" "\<not> active k" using R by (auto simp: kalloc_rep_def)
  obtain q h where q: "mcu_malloc env sz (kheap k) = Some (q, h)" "q \<noteq> 0" "p = q"
    and k': "k' = (let k = k\<lparr>kheap := h, active := False\<rparr> in
       if high_water_mark_just_updated h
       then k\<lparr>kheap := h\<lparr>high_water_mark_just_updated := False\<rparr>,
              adjusted_high_water_mark := high_water_mark h - 108 * n\<rparr> else k)"
    using m by (auto simp: kernel_malloc_def Let_def split: if_splits option.splits)
  obtain l where l: "unat sz \<le> l" "(p, l) \<notin> L" "heap_rep env h (insert (p, l) L)"
      "unchanged L (mem (kheap k)) (mem h)"
    using hp.alloc_chunk[OF H(1) sz q(1,2)] q(3) by blast
  then have "kalloc_rep env k' (insert (p, l) L)" "mem (kheap k') = mem h"
    using H k' by (auto simp: kalloc_rep_def Let_def heap_rep_flag)
  then show ?thesis using l q by auto
qed

text \<open>The allocator in use: it is initialised, nobody is inside it, and the caller's mode passes the
  sanity checks.\<close>

lemma task_alloc_ok:
  assumes R: "kalloc_rep env k L" and sz: "sz \<noteq> 0" "unat sz < 2 ^ 31"
    and m: "alloc_impl env c n sz k = Some (p, k')"
  shows "p \<noteq> 0 \<and> (\<exists>l. unat sz \<le> l \<and> (p, l) \<notin> L \<and> kalloc_rep env k' (insert (p, l) L)
    \<and> unchanged L (mem (kheap k)) (mem (kheap k')))"
  using m kernel_malloc_ok[OF R sz, of _ n p k']
  by (auto simp: alloc_impl_def task_malloc_def split: if_splits option.splits)

text \<open>C15. An allocation that returns, from a task or from the kernel, never returns the null pointer:
  it hands out a fresh chunk, keeps the heap well formed and the live payloads as they are, and
  leaves the allocator not active, so that the next call does not spin. A task's request above
  \<open>isize::MAX - 3\<close> bytes never returns. The matching free returns exactly that chunk.\<close>

theorem global_alloc_spec:
  assumes "kalloc_rep env k L" "sz \<noteq> 0" "unat sz < 2 ^ 31"
    and "alloc_impl env c n sz k = Some (p, k')"
  shows "p \<noteq> 0 \<and> (\<exists>l. unat sz \<le> l \<and> (p, l) \<notin> L \<and> kalloc_rep env k' (insert (p, l) L)
      \<and> unchanged L (mem (kheap k)) (mem (kheap k'))
      \<and> (\<forall>c' k''. free_impl env c' p k' = Some k'' \<longrightarrow> kalloc_rep env k'' L))
    \<and> (control c AND 2 \<noteq> 0 \<longrightarrow> unat sz \<le> 2 ^ 31 - 4)"
proof -
  obtain l where p: "p \<noteq> 0" and l: "unat sz \<le> l" "(p, l) \<notin> L" "kalloc_rep env k' (insert (p, l) L)"
      "unchanged L (mem (kheap k)) (mem (kheap k'))"
    using task_alloc_ok[OF assms] by blast
  have H: "heap_rep env (kheap k') (insert (p, l) L)" using l(3) by (simp add: kalloc_rep_def)
  have "kalloc_rep env k'' L" if "free_impl env c' p k' = Some k''" for c' k''
    using that hp.dealloc_chunk[OF H, of p l] l(2,3)
    by (auto simp: free_impl_def task_free_def kernel_free_def kalloc_rep_def Let_def split: if_splits)
  moreover have "control c AND 2 \<noteq> 0 \<longrightarrow> unat sz \<le> 2 ^ 31 - 4"
    using assms(4) by (auto simp: alloc_impl_def task_malloc_def split: if_splits)
  ultimately show ?thesis using p l by blast
qed

definition kalloc0 :: "heap \<Rightarrow> kalloc" where
  "kalloc0 h = \<lparr>kheap = h, initialized = False, active = False, adjusted_high_water_mark = 0\<rparr>"

theorem global_alloc_spec_witness:
  "\<exists>k p k'. allocator_init env0 0x20001100 (kalloc0 heap0) = Inr k
    \<and> alloc_impl env0 \<lparr>ipsr = 0, control = 2, sched_started = True\<rparr> 0 100 k = Some (p, k') \<and> p \<noteq> 0"
proof -
  let ?c = "\<lparr>ipsr = 0, control = 2, sched_started = True\<rparr>"
  obtain s fl where s: "mcu_heap_init env0 0x20001100 heap0 = Inr s"
    "heap_ok env0 s [(0x1EEF8, False)] fl" by (rule heap0_init)
  have rq: "request_size 100 = 104" by (simp add: request_size_eq)
  have "search_first_fit env0 (mem s) (request_size 100) \<noteq> Some 0"
    using search_not_null[OF s(2), of "heap_start s" "0x1EEF8" 104] index_samples rq by simp
  then obtain p h where m: "mcu_malloc env0 100 s = Some (p, h)" "p \<noteq> 0"
    using malloc_outcome[OF s(2), of 100 thesis] by auto
  let ?k = "(kalloc0 s)\<lparr>initialized := True\<rparr>"
  have i: "allocator_init env0 0x20001100 (kalloc0 heap0) = Inr ?k"
    using s(1) by (simp add: allocator_init_def kalloc0_def)
  have r: "kalloc_rep env0 ?k {}" using init_rep[OF s(2)] by (simp add: kalloc_rep_def kalloc0_def)
  obtain q k' where a: "alloc_impl env0 ?c 0 100 ?k = Some (q, k')"
    using m by (cases "high_water_mark_just_updated h")
      (auto simp: alloc_impl_def task_malloc_def kernel_malloc_def svc_cpu_def
        die_if_not_in_svc_def kalloc0_def Let_def)
  from global_alloc_spec[OF r _ _ a] show ?thesis using i a by auto
qed

end
