(* ===== verification/Config.thy ===== *)
theory Config
  imports Hopter_Prelude
begin

unbundle bit_operations_syntax

text \<open>
  The configuration, \<open>src/config\<close>. The constants come from the crate \<open>hopter_conf_params\<close>, which
  the application provides; they are the fields of the record \<open>config\<close>, and the compile-time
  assertions of \<open>config/mod.rs\<close> are the predicate \<open>config_ok\<close>.
\<close>

section \<open>Helpers of the assertions\<close>

definition is_power_of_2 :: "u32 \<Rightarrow> bool" where
  "is_power_of_2 x \<longleftrightarrow> leading_zeros x + trailing_zeros x = 31"

text \<open>The shift distance is taken modulo 32, as the hardware shift of the release profile does.\<close>

definition is_thumb2_allowed_constant :: "u32 \<Rightarrow> bool" where
  "is_thumb2_allowed_constant x \<longleftrightarrow>
     (let shifted = drop_bit (trailing_zeros x mod 32) x;
          bits7_0 = x AND 0xff;
          bits15_8 = drop_bit 8 x AND 0xff;
          bits23_16 = drop_bit 16 x AND 0xff;
          bits31_24 = drop_bit 24 x AND 0xff
      in leading_zeros shifted \<ge> 24
         \<or> bits7_0 = bits23_16 \<and> bits15_8 = 0 \<and> bits31_24 = 0
         \<or> bits15_8 = bits31_24 \<and> bits7_0 = 0 \<and> bits23_16 = 0
         \<or> bits7_0 = bits15_8 \<and> bits15_8 = bits23_16 \<and> bits23_16 = bits31_24)"

section \<open>The constants and their assertions\<close>

record config =
  SYSTICK_FREQUENCY_HZ :: u32
  ALLOW_DYNAMIC_STACK :: bool
  STACKLET_ADDITION_ALLOC_SIZE :: u32
  HOT_SPLIT_PREVENTION_CACHE_SIZE :: nat
  HOT_SPLIT_DETECTION_THRESHOLD :: u32
  MAIN_TASK_INITIAL_STACK_SIZE :: u32
  IDLE_TASK_INITIAL_STACK_SIZE :: u32
  CONTIGUOUS_STACK_BOUNDARY :: u32
  CONTIGUOUS_STACK_BOTTOM :: u32
  RAM_END_ADDR :: u32
  MEM_CHUNK_LINK_OFFSET :: u32
  IRQ_PRIORITY_GRANULARITY :: u8
  IRQ_MAX_PRIORITY :: u8
  IRQ_HIGH_PRIORITY :: u8
  IRQ_NORMAL_PRIORITY :: u8
  IRQ_LOW_PRIORITY :: u8
  IRQ_MIN_PRIORITY :: u8
  SYSTICK_PRIORITY :: u8
  IRQ_ENABLE_BASEPRI_PRIORITY :: u8
  IRQ_DISABLE_BASEPRI_PRIORITY :: u8
  SVC_NORMAL_PRIORITY :: u8
  SVC_RAISED_PRIORITY :: u8
  PENDSV_PRIORITY :: u8
  MAX_TASK_NUMBER :: nat
  ALLOW_TASK_PREEMPTION :: bool
  BREATHING_CONCURRENCY :: nat
  TASK_PRIORITY_LEVELS :: u8
  IDLE_TASK_PRIORITY :: u8
  MAIN_TASK_PRIORITY :: u8
  DEFAULT_TASK_PRIORITY :: u8
  UNWIND_PRIORITY :: u8
  IDLE_TASK_ID :: u8
  MAIN_TASK_ID :: u8
  DEFAULT_TASK_ID :: u8
  TLS_MEM_ADDR :: u32

text \<open>Clock, stack and heap.\<close>

definition stack_config_ok :: "config \<Rightarrow> bool" where
  "stack_config_ok c \<longleftrightarrow>
     SYSTICK_FREQUENCY_HZ c mod 1000 = 0
     \<and> STACKLET_ADDITION_ALLOC_SIZE c mod 8 = 0
     \<and> (MAIN_TASK_INITIAL_STACK_SIZE c > 0 \<or> ALLOW_DYNAMIC_STACK c)
     \<and> (IDLE_TASK_INITIAL_STACK_SIZE c > 0 \<or> ALLOW_DYNAMIC_STACK c)
     \<and> CONTIGUOUS_STACK_BOUNDARY c < CONTIGUOUS_STACK_BOTTOM c
     \<and> CONTIGUOUS_STACK_BOUNDARY c mod 8 = 0"

text \<open>Interrupt priorities, for the targets with a BASEPRI register.\<close>

definition irq_config_ok :: "config \<Rightarrow> bool" where
  "irq_config_ok c \<longleftrightarrow>
     IRQ_MIN_PRIORITY c > IRQ_MAX_PRIORITY c
     \<and> SYSTICK_PRIORITY c \<ge> IRQ_MAX_PRIORITY c \<and> SYSTICK_PRIORITY c \<le> IRQ_MIN_PRIORITY c
     \<and> IRQ_ENABLE_BASEPRI_PRIORITY c = 0
     \<and> IRQ_DISABLE_BASEPRI_PRIORITY c \<le> IRQ_MAX_PRIORITY c
     \<and> SVC_NORMAL_PRIORITY c > IRQ_MIN_PRIORITY c
     \<and> SVC_RAISED_PRIORITY c < SVC_NORMAL_PRIORITY c
     \<and> SVC_RAISED_PRIORITY c < IRQ_DISABLE_BASEPRI_PRIORITY c
     \<and> PENDSV_PRIORITY c \<ge> SVC_NORMAL_PRIORITY c"

text \<open>Tasks.\<close>

definition task_config_ok :: "config \<Rightarrow> bool" where
  "task_config_ok c \<longleftrightarrow>
     is_power_of_2 (of_nat (MAX_TASK_NUMBER c))
     \<and> TASK_PRIORITY_LEVELS c \<ge> 4
     \<and> IDLE_TASK_PRIORITY c < TASK_PRIORITY_LEVELS c
     \<and> MAIN_TASK_PRIORITY c < TASK_PRIORITY_LEVELS c
     \<and> DEFAULT_TASK_PRIORITY c < TASK_PRIORITY_LEVELS c
     \<and> UNWIND_PRIORITY c < IDLE_TASK_PRIORITY c
     \<and> TLS_MEM_ADDR c = 0x20000000
     \<and> is_thumb2_allowed_constant (TLS_MEM_ADDR c)"

definition config_ok :: "config \<Rightarrow> bool" where
  "config_ok c \<longleftrightarrow> stack_config_ok c \<and> irq_config_ok c \<and> task_config_ok c"

text \<open>A configuration that passes every assertion.\<close>

definition config0 :: config where
  "config0 = \<lparr>SYSTICK_FREQUENCY_HZ = 16000000, ALLOW_DYNAMIC_STACK = True, STACKLET_ADDITION_ALLOC_SIZE = 64,
     HOT_SPLIT_PREVENTION_CACHE_SIZE = 4, HOT_SPLIT_DETECTION_THRESHOLD = 4, MAIN_TASK_INITIAL_STACK_SIZE = 0,
     IDLE_TASK_INITIAL_STACK_SIZE = 0, CONTIGUOUS_STACK_BOUNDARY = 0x20000010, CONTIGUOUS_STACK_BOTTOM = 0x20001000,
     RAM_END_ADDR = 0x20020000, MEM_CHUNK_LINK_OFFSET = 0x20000000, IRQ_PRIORITY_GRANULARITY = 16,
     IRQ_MAX_PRIORITY = 32, IRQ_HIGH_PRIORITY = 64, IRQ_NORMAL_PRIORITY = 96, IRQ_LOW_PRIORITY = 112,
     IRQ_MIN_PRIORITY = 128, SYSTICK_PRIORITY = 64, IRQ_ENABLE_BASEPRI_PRIORITY = 0, IRQ_DISABLE_BASEPRI_PRIORITY = 32,
     SVC_NORMAL_PRIORITY = 144, SVC_RAISED_PRIORITY = 16, PENDSV_PRIORITY = 240, MAX_TASK_NUMBER = 16,
     ALLOW_TASK_PREEMPTION = True, BREATHING_CONCURRENCY = 4, TASK_PRIORITY_LEVELS = 16, IDLE_TASK_PRIORITY = 15,
     MAIN_TASK_PRIORITY = 0, DEFAULT_TASK_PRIORITY = 8, UNWIND_PRIORITY = 14, IDLE_TASK_ID = 0, MAIN_TASK_ID = 1,
     DEFAULT_TASK_ID = 2, TLS_MEM_ADDR = 0x20000000\<rparr>"

section \<open>Counting zeros\<close>

lemma trailing_zeros_eq:
  assumes "bit w k" "\<And>i. i < k \<Longrightarrow> \<not> bit w i"
  shows "trailing_zeros w = k"
proof -
  have k: "k < 32" using assms(1) bit_imp_le_length by force
  have "[0..<32] = [0..<k] @ k # [Suc k..<32]"
    using k upt_add_eq_append[of 0 k "32 - k"] by (simp add: upt_conv_Cons)
  then have "takeWhile (\<lambda>i. \<not> bit w i) [0..<32] = [0..<k]"
    using assms takeWhile_append2[of "[0..<k]" "\<lambda>i. \<not> bit w i" "k # [Suc k..<32]"] by simp
  then show ?thesis by (simp add: trailing_zeros_def)
qed

lemma lowest_bit:
  assumes "(w :: u32) \<noteq> 0"
  obtains k where "bit w k" "\<And>i. i < k \<Longrightarrow> \<not> bit w i"
proof -
  have "\<exists>k. bit w k" using assms bit_eq_iff[of w 0] by auto
  then show ?thesis using that LeastI_ex[of "bit w"] not_less_Least[of _ "bit w"] by blast
qed

text \<open>The highest set bit of a non-zero word is 31 minus its leading zeros.\<close>

lemma leading_zeros_bounds:
  assumes "(w :: u32) \<noteq> 0"
  shows "leading_zeros w < 32" "2 ^ (31 - leading_zeros w) \<le> unat w" "unat w < 2 ^ (32 - leading_zeros w)"
proof -
  let ?f = "floorlog 2 (unat w)"
  have pos: "0 < unat w" using assms by (simp add: unat_gt_0)
  have b: "2 ^ (?f - 1) \<le> unat w" "unat w < 2 ^ ?f"
    using floorlog_bounds[of "unat w" 2] pos by auto
  moreover from this have "0 < ?f" using pos by (cases "?f = 0") auto
  ultimately show "leading_zeros w < 32" "2 ^ (31 - leading_zeros w) \<le> unat w" "unat w < 2 ^ (32 - leading_zeros w)"
    using floorlog_u32_le[of w] by (auto simp: leading_zeros_def)
qed

lemma pow2_of_bounds:
  assumes "bit w k" "\<And>i. i < k \<Longrightarrow> \<not> bit (w :: u32) i" "unat w < 2 ^ Suc k"
  shows "w = 2 ^ k"
proof (rule bit_word_eqI)
  fix i assume "i < LENGTH(32)"
  have "bit w i \<Longrightarrow> i \<le> k"
  proof (rule ccontr)
    assume "bit w i" "\<not> i \<le> k"
    then have "bit (unat w) i" by (simp add: bit_unsigned_iff)
    then have "odd (unat w div 2 ^ i)" by (simp add: bit_iff_odd)
    moreover have "unat w < 2 ^ i" using assms(3) \<open>\<not> i \<le> k\<close>
      by (meson less_le_trans not_less_eq_eq one_le_numeral power_increasing)
    ultimately show False by simp
  qed
  moreover have "bit (2 ^ k :: u32) i \<longleftrightarrow> i = k"
    using assms(1) bit_imp_le_length[of w k] by (auto simp: bit_exp_iff)
  ultimately show "bit w i = bit (2 ^ k :: u32) i" using assms(1,2) by (metis linorder_neqE_nat not_less)
qed


lemma leading_zeros_pow2: "k < 32 \<Longrightarrow> leading_zeros (2 ^ k) = 31 - k"
proof -
  assume k: "k < 32"
  have "(2 :: nat) ^ k < 2 ^ 32" using k by (intro power_strict_increasing) auto
  then have "unat (of_nat (2 ^ k) :: u32) = 2 ^ k" by (simp only: unat_of_nat take_bit_nat_eq_self len_num1 len_bit0) simp
  then have u: "unat (2 ^ k :: u32) = 2 ^ k" by simp
  have "floorlog 2 (2 ^ k) = Suc k" using floorlog_power[of 1 2 k] by (simp add: compute_floorlog)
  then show ?thesis using k by (simp add: leading_zeros_def u)
qed

text \<open>The check the build makes on \<open>MAX_TASK_NUMBER\<close>: the sum of leading and trailing zeros is 31
  exactly for the powers of two.\<close>

lemma is_power_of_2_correct: "is_power_of_2 x \<longleftrightarrow> (\<exists>k < 32. x = 2 ^ k)"
proof
  assume p: "is_power_of_2 x"
  have "x \<noteq> 0"
  proof
    assume "x = 0"
    then have "trailing_zeros x = 32" by (simp add: trailing_zeros_def takeWhile_eq_all_conv[THEN iffD2])
    then show False using p by (simp add: is_power_of_2_def)
  qed
  then obtain k where k: "bit x k" "\<And>i. i < k \<Longrightarrow> \<not> bit x i" using lowest_bit by blast
  then have "leading_zeros x + k = 31" using p trailing_zeros_eq[of x k] by (simp add: is_power_of_2_def)
  then have "32 - leading_zeros x = Suc k" by simp
  then have "unat x < 2 ^ Suc k" using leading_zeros_bounds(3)[OF \<open>x \<noteq> 0\<close>] by (simp only:)
  then have "x = 2 ^ k" using pow2_of_bounds[of x k] k by blast
  then show "\<exists>k < 32. x = 2 ^ k" using k(1) bit_imp_le_length[of x k] by auto
next
  assume "\<exists>k < 32. x = 2 ^ k"
  then obtain k where k: "k < 32" "x = 2 ^ k" by blast
  have "trailing_zeros x = k" using k by (intro trailing_zeros_eq) (auto simp: bit_exp_iff)
  then show "is_power_of_2 x" using k leading_zeros_pow2[of k] by (simp add: is_power_of_2_def)
qed

lemma config0_ok: "config_ok config0"
proof -
  have tz: "trailing_zeros (2 ^ k) = k" if "k < 32" for k
    using that by (intro trailing_zeros_eq) (auto simp: bit_exp_iff)
  have z: "trailing_zeros 16 = 4" "trailing_zeros 0x20000000 = 29" using tz[of 4] tz[of 29] by simp_all
  have l: "leading_zeros 16 = 27" "leading_zeros 1 = 31"
    using leading_zeros_pow2[of 4] leading_zeros_pow2[of 0] by simp_all
  have "is_power_of_2 16" by (simp add: is_power_of_2_def z l)
  moreover have "is_thumb2_allowed_constant 0x20000000"
  proof -
    have "drop_bit (29 mod 32) (0x20000000 :: u32) = 1" by simp
    then show ?thesis unfolding is_thumb2_allowed_constant_def Let_def z by (simp only: l) simp
  qed
  ultimately show ?thesis
    by (simp add: config_ok_def stack_config_ok_def irq_config_ok_def task_config_ok_def config0_def)
qed

end
