(* ===== verification/Segmented_Stack.thy ===== *)
theory Segmented_Stack
  imports Allocator Config
begin

unbundle bit_operations_syntax

text \<open>
  Segmented stacks, \<open>src/task/segmented_stack.rs\<close>, with the trap frame of
  \<open>src/interrupt/trap_frame.rs\<close>, for the target armv7em and with the feature \<open>unwind\<close>. Stacklets
  are chunks of the heap; their metadata and the trap frames live in the heap's word memory. A
  call that never returns (\<open>die\<close>, an exhausted heap) is \<open>None\<close>. The addresses of \<open>svc_less_stack\<close>
  and \<open>diverted_unwind\<close> are parameters.
\<close>

record stk_env =
  henv :: heap_env
  conf :: config
  svc_less_stack :: u32
  diverted_unwind :: u32

section \<open>Layout\<close>

text \<open>A trap frame has 8 general purpose and 18 floating point words.\<close>

definition TRAP_FRAME_SIZE :: u32 where "TRAP_FRAME_SIZE = 104"
definition TRAP_FRAME_PAD_SIZE :: u32 where "TRAP_FRAME_PAD_SIZE = 4"
definition R12_PRESERVE_SIZE :: u32 where "R12_PRESERVE_SIZE = 4"

text \<open>\<open>StackletMeta\<close> is four words.\<close>

definition OVERHEAD_SIZE :: u32 where
  "OVERHEAD_SIZE = 16 + TRAP_FRAME_PAD_SIZE + TRAP_FRAME_SIZE + R12_PRESERVE_SIZE"

definition tf_r0 :: "u32 \<Rightarrow> ptr" where "tf_r0 tf = unat tf"
definition tf_r1 :: "u32 \<Rightarrow> ptr" where "tf_r1 tf = unat (tf + 4)"
definition tf_r2 :: "u32 \<Rightarrow> ptr" where "tf_r2 tf = unat (tf + 8)"
definition tf_r3 :: "u32 \<Rightarrow> ptr" where "tf_r3 tf = unat (tf + 12)"
definition tf_lr :: "u32 \<Rightarrow> ptr" where "tf_lr tf = unat (tf + 20)"
definition tf_pc :: "u32 \<Rightarrow> ptr" where "tf_pc tf = unat (tf + 24)"
definition tf_xpsr :: "u32 \<Rightarrow> ptr" where "tf_xpsr tf = unat (tf + 28)"

record stacklet_meta =
  prev_stklet_bound :: u32
  prev_sp :: u32
  extend_cnt :: u32
  count_size :: u32

definition read_meta :: "mem \<Rightarrow> u32 \<Rightarrow> stacklet_meta" where
  "read_meta m p = \<lparr>prev_stklet_bound = m (unat p), prev_sp = m (unat (p + 4)),
     extend_cnt = m (unat (p + 8)), count_size = m (unat (p + 12))\<rparr>"

definition write_meta :: "u32 \<Rightarrow> stacklet_meta \<Rightarrow> mem \<Rightarrow> mem" where
  "write_meta p s m = m(unat p := prev_stklet_bound s, unat (p + 4) := prev_sp s,
     unat (p + 8) := extend_cnt s, unat (p + 12) := count_size s)"

definition bound_to_stklet_ptr :: "u32 \<Rightarrow> u32" where
  "bound_to_stklet_ptr bound = bound - OVERHEAD_SIZE"

definition bound_to_stklet_meta :: "u32 \<Rightarrow> u32" where
  "bound_to_stklet_meta bound = bound - OVERHEAD_SIZE"

definition stklet_ptr_to_bound :: "u32 \<Rightarrow> u32" where
  "stklet_ptr_to_bound p = p + OVERHEAD_SIZE"

section \<open>State\<close>

record task_local_storage =
  stklet_bound :: u32
  nested_drop_cnt :: u32
  unwind_pending :: u32

record task_svc_ctxt =
  sp :: u32
  tls :: task_local_storage

datatype more_stack_reason = Normal | Drop | Unwind

record stack_ctrl_block =
  call_chain_signature :: u32
  hot_split_cause_signatures :: "u32 list"
  add_sizes :: "u32 list"
  round_robin_idx :: nat
  cumulated_size :: u32

text \<open>The parts of the kernel the stack functions use: the allocator with the memory, the two
  counters, and of the current task its control block (if it has dynamic stack extension), its
  stack limit and whether it is being unwound.\<close>

record stk_state =
  ka :: kalloc
  stack_extend_count :: u32
  active_stacklet_count :: u32
  scb :: "stack_ctrl_block option"
  stack_limit :: "u32 option"
  is_unwinding :: bool

definition smem :: "stk_state \<Rightarrow> mem" where
  "smem st = mem (kheap (ka st))"

definition upd_mem :: "(mem \<Rightarrow> mem) \<Rightarrow> stk_state \<Rightarrow> stk_state" where
  "upd_mem f st = st\<lparr>ka := (ka st)\<lparr>kheap := (kheap (ka st))\<lparr>mem := f (smem st)\<rparr>\<rparr>\<rparr>"

text \<open>\<open>copy_nonoverlapping\<close> of a number of words.\<close>

primrec copy_words :: "ptr \<Rightarrow> ptr \<Rightarrow> nat \<Rightarrow> mem \<Rightarrow> mem" where
  "copy_words src dst 0 m = m"
| "copy_words src dst (Suc n) m = (copy_words src dst n m)(dst + 4 * n := m (src + 4 * n))"

section \<open>Hot-split prevention\<close>

definition svc_less_stack_anti_hot_split :: "u32 \<Rightarrow> stack_ctrl_block \<Rightarrow> stack_ctrl_block" where
  "svc_less_stack_anti_hot_split cur_lr s =
     s\<lparr>call_chain_signature := word_rotl 1 (call_chain_signature s XOR cur_lr)\<rparr>"

text \<open>The position of the first cache entry with the given signature.\<close>

definition cache_find :: "u32 \<Rightarrow> stack_ctrl_block \<Rightarrow> nat option" where
  "cache_find sig s =
     (case find (\<lambda>(i, c, a). c = sig)
             (zip [0..<length (hot_split_cause_signatures s)]
               (zip (hot_split_cause_signatures s) (add_sizes s))) of
        None \<Rightarrow> None | Some (i, c, a) \<Rightarrow> Some i)"

text \<open>Returns the frame size, the control block and the extension counter; \<open>None\<close> is an index
  panic.\<close>

definition svc_more_stack_anti_hot_split ::
  "config \<Rightarrow> u32 \<Rightarrow> u32 \<Rightarrow> stack_ctrl_block \<Rightarrow> u32 \<Rightarrow> (u32 \<times> stack_ctrl_block \<times> u32) option" where
  "svc_more_stack_anti_hot_split c cur_lr frame_size s ext =
     (let prev_signature = call_chain_signature s;
          new_signature = word_rotr 1 prev_signature XOR cur_lr;
          s = s\<lparr>call_chain_signature := new_signature\<rparr>;
          frame_size = (case cache_find new_signature s of
              Some i \<Rightarrow> frame_size * add_sizes s ! i | None \<Rightarrow> frame_size);
          ext = ext + 1
      in if ext \<noteq> HOT_SPLIT_DETECTION_THRESHOLD c then Some (frame_size, s, ext)
         else case cache_find prev_signature s of
           Some i \<Rightarrow> Some (frame_size, s\<lparr>add_sizes := (add_sizes s)[i := add_sizes s ! i + 1]\<rparr>, ext)
         | None \<Rightarrow>
             let idx = round_robin_idx s
             in if idx < length (hot_split_cause_signatures s) \<and> idx < length (add_sizes s)
                then
                  let s = s\<lparr>hot_split_cause_signatures := (hot_split_cause_signatures s)[idx := prev_signature],
                            add_sizes := (add_sizes s)[idx := 2]\<rparr>;
                      idx = idx + 1;
                      idx = (if idx mod HOT_SPLIT_PREVENTION_CACHE_SIZE c = 0 then 0 else idx)
                  in Some (frame_size, s\<lparr>round_robin_idx := idx\<rparr>, ext)
                else None)"

section \<open>Stacklets\<close>

text \<open>\<open>alloc::alloc::alloc(Layout::from_size_align(size, 4).unwrap_or_die())\<close> from the kernel.\<close>

definition kalloc_layout :: "stk_env \<Rightarrow> cpu \<Rightarrow> u32 \<Rightarrow> stk_state \<Rightarrow> (ptr \<times> stk_state) option" where
  "kalloc_layout E c sz st =
     (if 2 ^ 31 - 4 < unat sz then None
      else case alloc_impl (henv E) c (active_stacklet_count st) sz (ka st) of
             None \<Rightarrow> None | Some (p, k) \<Rightarrow> if p = 0 then None else Some (p, st\<lparr>ka := k\<rparr>))"

definition alloc_initial_stacklet :: "stk_env \<Rightarrow> cpu \<Rightarrow> u32 \<Rightarrow> stk_state \<Rightarrow> ((u32 \<times> u32) \<times> stk_state) option" where
  "alloc_initial_stacklet E c free_size st =
     (case checked_add free_size OVERHEAD_SIZE of
        None \<Rightarrow> None
      | Some total_size \<Rightarrow>
          case kalloc_layout E c total_size st of
            None \<Rightarrow> None
          | Some (p, st) \<Rightarrow>
              let p = of_nat p;
                  st = upd_mem (write_meta p \<lparr>prev_stklet_bound = 0, prev_sp = 0, extend_cnt = 0, count_size = 0\<rparr>) st
              in if unat total_size > 2 ^ 31 - 1 then None else Some ((p, p + total_size), st))"

definition get_stack_frame_size :: "mem \<Rightarrow> u32 \<Rightarrow> u32" where
  "get_stack_frame_size m pc = ucast (read16 m (unat pc)) * 4"

definition get_stack_arg_size :: "mem \<Rightarrow> u32 \<Rightarrow> u32" where
  "get_stack_arg_size m pc = ucast (read16 m (unat (pc + 2))) * 4"

text \<open>The closure \<open>handle_limit_exceed\<close>: it may pend an unwinding in the TLS, or divert the task's
  program counter and abort the extension.\<close>

definition handle_limit_exceed ::
  "stk_env \<Rightarrow> more_stack_reason \<Rightarrow> task_svc_ctxt \<times> stk_state \<Rightarrow> bool \<times> task_svc_ctxt \<times> stk_state" where
  "handle_limit_exceed E reason = (\<lambda>(ctxt, st).
     if reason = Unwind \<or> is_unwinding st then (False, ctxt, st)
     else if reason = Drop \<or> nested_drop_cnt (tls ctxt) > 0
     then (False, ctxt\<lparr>tls := (tls ctxt)\<lparr>unwind_pending := 1\<rparr>\<rparr>, st)
     else if reason = Normal \<and> \<not> is_unwinding st
     then (True, ctxt, upd_mem (\<lambda>m. m(tf_pc (sp ctxt) := diverted_unwind E)) st)
     else (False, ctxt, st))"

text \<open>The accounting part of \<open>more_stack\<close>, inside \<open>with_cur_task\<close>: the frame size to allocate and
  whether the extension is aborted.\<close>

definition more_stack_account ::
  "stk_env \<Rightarrow> more_stack_reason \<Rightarrow> u32 \<Rightarrow> task_svc_ctxt \<Rightarrow> stk_state
     \<Rightarrow> (u32 \<times> bool \<times> task_svc_ctxt \<times> stk_state) option" where
  "more_stack_account E reason stk_frame_size ctxt st =
     (let cur_meta = bound_to_stklet_meta (stklet_bound (tls ctxt));
          tf = sp ctxt
      in case scb st of
           None \<Rightarrow> Some (stk_frame_size, handle_limit_exceed E reason (ctxt, st))
         | Some s \<Rightarrow>
             case svc_more_stack_anti_hot_split (conf E) (smem st (tf_lr tf)) stk_frame_size s
                    (extend_cnt (read_meta (smem st) cur_meta)) of
               None \<Rightarrow> None
             | Some (stk_frame_size, s, ext) \<Rightarrow>
                 let st = upd_mem (\<lambda>m. m(unat (cur_meta + 8) := ext)) st;
                     updated_size = cumulated_size s + stk_frame_size;
                     st = st\<lparr>scb := Some (s\<lparr>cumulated_size := updated_size\<rparr>)\<rparr>
                 in Some (stk_frame_size,
                      (case stack_limit st of
                         Some limit \<Rightarrow> if updated_size > limit then handle_limit_exceed E reason (ctxt, st)
                                      else (False, ctxt, st)
                       | None \<Rightarrow> (False, ctxt, st))))"

definition tf_frame_size :: "mem \<Rightarrow> u32 \<Rightarrow> u32" where
  "tf_frame_size m tf =
     (if m (tf_xpsr tf) AND push_bit 9 1 \<noteq> 0 then TRAP_FRAME_SIZE + TRAP_FRAME_PAD_SIZE else TRAP_FRAME_SIZE)"

text \<open>The second half of \<open>more_stack\<close>: allocate the stacklet, link it, copy the stack arguments and
  the trap frame, and let the task continue on it.\<close>

definition more_stack_extend ::
  "stk_env \<Rightarrow> cpu \<Rightarrow> u32 \<Rightarrow> u32 \<Rightarrow> task_svc_ctxt \<Rightarrow> stk_state \<Rightarrow> (task_svc_ctxt \<times> stk_state) option" where
  "more_stack_extend E c stk_frame_size stk_arg_size ctxt st =
     (let total_size = stk_frame_size + stk_arg_size + OVERHEAD_SIZE + STACKLET_ADDITION_ALLOC_SIZE (conf E)
      in case kalloc_layout E c total_size st of
           None \<Rightarrow> None
         | Some (p, st) \<Rightarrow>
             let stacklet_ptr = of_nat p;
                 tf = sp ctxt;
                 st = upd_mem (write_meta stacklet_ptr
                        \<lparr>prev_stklet_bound = stklet_bound (tls ctxt), prev_sp = sp ctxt,
                         extend_cnt = 0, count_size = stk_frame_size\<rparr>) st;
                 tf_size = tf_frame_size (smem st) tf;
                 dst_arg_ptr = stacklet_ptr + (total_size - stk_arg_size);
                 src_arg_ptr = sp ctxt + tf_size;
                 st = upd_mem (copy_words (unat src_arg_ptr) (unat dst_arg_ptr) (unat stk_arg_size div 4)) st;
                 new_tf = dst_arg_ptr - TRAP_FRAME_SIZE;
                 st = upd_mem (copy_words (unat tf) (unat new_tf) 26) st;
                 st = upd_mem (\<lambda>m. m(tf_xpsr new_tf := m (tf_xpsr new_tf) AND NOT (push_bit 9 1))) st;
                 ctxt = ctxt\<lparr>tls := (tls ctxt)\<lparr>stklet_bound := stacklet_ptr + OVERHEAD_SIZE\<rparr>, sp := new_tf\<rparr>;
                 st = upd_mem (\<lambda>m. m(tf_pc new_tf := m (tf_pc tf) + 4)) st;
                 st = upd_mem (\<lambda>m. m(tf_lr new_tf := svc_less_stack E)) st
             in Some (ctxt, st\<lparr>active_stacklet_count := active_stacklet_count st + 1\<rparr>))"

definition more_stack ::
  "stk_env \<Rightarrow> cpu \<Rightarrow> more_stack_reason \<Rightarrow> task_svc_ctxt \<Rightarrow> stk_state \<Rightarrow> (task_svc_ctxt \<times> stk_state) option" where
  "more_stack E c reason ctxt st =
     (if \<not> ALLOW_DYNAMIC_STACK (conf E) then None
      else
        let st = st\<lparr>stack_extend_count := stack_extend_count st + 1\<rparr>;
            pc = smem st (tf_pc (sp ctxt));
            stk_frame_size = get_stack_frame_size (smem st) pc;
            stk_arg_size = get_stack_arg_size (smem st) pc
        in case more_stack_account E reason stk_frame_size ctxt st of
             None \<Rightarrow> None
           | Some (stk_frame_size, abort, ctxt, st) \<Rightarrow>
               if abort then Some (ctxt, st)
               else more_stack_extend E c stk_frame_size stk_arg_size ctxt st)"

text \<open>\<open>tf\<close> is the trap frame of the returning function, on the stacklet that is released.\<close>

definition less_stack :: "stk_env \<Rightarrow> cpu \<Rightarrow> u32 \<Rightarrow> task_svc_ctxt \<Rightarrow> stk_state \<Rightarrow> (task_svc_ctxt \<times> stk_state) option" where
  "less_stack E c tf ctxt st =
     (if \<not> ALLOW_DYNAMIC_STACK (conf E) then None
      else
        let meta_ptr = bound_to_stklet_meta (stklet_bound (tls ctxt));
            prev_tf = prev_sp (read_meta (smem st) meta_ptr);
            st = upd_mem (\<lambda>m. m(tf_r0 prev_tf := m (tf_r0 tf))) st;
            st = upd_mem (\<lambda>m. m(tf_r1 prev_tf := m (tf_r1 tf))) st;
            st = upd_mem (\<lambda>m. m(tf_r2 prev_tf := m (tf_r2 tf))) st;
            st = upd_mem (\<lambda>m. m(tf_r3 prev_tf := m (tf_r3 tf))) st;
            st = upd_mem (\<lambda>m. m(tf_pc prev_tf := m (tf_lr prev_tf))) st;
            meta = read_meta (smem st) meta_ptr;
            ctxt = ctxt\<lparr>tls := (tls ctxt)\<lparr>stklet_bound := prev_stklet_bound meta\<rparr>, sp := prev_sp meta\<rparr>;
            st = (case scb st of
                    None \<Rightarrow> st
                  | Some s \<Rightarrow>
                      let s = svc_less_stack_anti_hot_split (smem st (tf_lr prev_tf)) s
                      in st\<lparr>scb := Some (s\<lparr>cumulated_size := cumulated_size s - count_size meta\<rparr>)\<rparr>)
        in case free_impl (henv E) c (unat meta_ptr) (ka st) of
             None \<Rightarrow> None
           | Some k \<Rightarrow> Some (ctxt, st\<lparr>ka := k, active_stacklet_count := active_stacklet_count st - 1\<rparr>))"

text \<open>\<open>land_sp\<close>, \<open>land_r0\<close> and \<open>land_bound\<close> are the fields the source reads from the unwind state
  that \<open>r0\<close> of the trap frame points to.\<close>

definition unwind_land ::
  "stk_env \<Rightarrow> cpu \<Rightarrow> u32 \<Rightarrow> u32 \<Rightarrow> u32 \<Rightarrow> u32 \<Rightarrow> task_svc_ctxt \<Rightarrow> stk_state \<Rightarrow> (task_svc_ctxt \<times> stk_state) option" where
  "unwind_land E c tf land_sp land_r0 land_bound ctxt st =
     (let unwinder_stklet_ptr = bound_to_stklet_ptr (stklet_bound (tls ctxt));
          land_addr = smem st (tf_r1 tf);
          prev_tf = land_sp - TRAP_FRAME_SIZE;
          st = upd_mem (\<lambda>m. m(tf_xpsr prev_tf := m (tf_xpsr tf))) st;
          st = upd_mem (\<lambda>m. m(tf_xpsr prev_tf := m (tf_xpsr prev_tf) AND NOT (push_bit 9 1))) st;
          st = upd_mem (\<lambda>m. m(tf_r0 prev_tf := land_r0)) st;
          st = upd_mem (\<lambda>m. m(tf_pc prev_tf := land_addr)) st;
          ctxt = ctxt\<lparr>tls := (tls ctxt)\<lparr>stklet_bound := land_bound\<rparr>, sp := prev_tf\<rparr>
      in case free_impl (henv E) c (unat unwinder_stklet_ptr) (ka st) of
           None \<Rightarrow> None
         | Some k \<Rightarrow> Some (ctxt, st\<lparr>ka := k\<rparr>))"

end
