(* ===== verification/Stack_Correct.thy ===== *)
theory Stack_Correct
  imports Segmented_Stack
begin

unbundle bit_operations_syntax

text \<open>
  Properties of the segmented stacks: the layout of a new stacklet, that a return through
  \<open>less_stack\<close> undoes the extension by \<open>more_stack\<close>, and the hot-split prevention.
\<close>

section \<open>Stacklets in memory\<close>

lemma copy_words_in: "i < n \<Longrightarrow> copy_words src dst n m (dst + 4 * i) = m (src + 4 * i)"
  by (induction n) (auto simp: less_Suc_eq)

lemma copy_words_out: "(\<And>i. i < n \<Longrightarrow> w \<noteq> dst + 4 * i) \<Longrightarrow> copy_words src dst n m w = m w"
  by (induction n) auto

lemma copy_words_away: "w < dst \<or> dst + 4 * n \<le> w \<Longrightarrow> copy_words src dst n m w = m w"
  by (rule copy_words_out) auto

lemma smem_upd [simp]: "smem (upd_mem f st) = f (smem st)"
  by (simp add: smem_def upd_mem_def)

lemma upd_mem_fields [simp]:
  "scb (upd_mem f st) = scb st" "stack_limit (upd_mem f st) = stack_limit st"
  "is_unwinding (upd_mem f st) = is_unwinding st"
  "active_stacklet_count (upd_mem f st) = active_stacklet_count st"
  "stack_extend_count (upd_mem f st) = stack_extend_count st"
  by (simp_all add: upd_mem_def)

lemma upd_mem_comp [simp]: "upd_mem f (upd_mem g st) = upd_mem (f \<circ> g) st"
  by (simp add: upd_mem_def smem_def)

lemma upd_mem_cong: "f (smem st) = g (smem st) \<Longrightarrow> upd_mem f st = upd_mem g st"
  by (simp add: upd_mem_def)

lemma kalloc_chunk:
  "kalloc_rep env k L \<Longrightarrow> (p, n) \<in> L \<Longrightarrow> 8 dvd p \<and> p \<noteq> 0 \<and> 0 < n \<and> p + n < 2 ^ 32"
  using hp.rep_chunks[of env "kheap k" L "(p, n)"] by (simp add: kalloc_rep_def)

lemma kalloc_disjoint:
  "kalloc_rep env k L \<Longrightarrow> (p, n) \<in> L \<Longrightarrow> (q, l) \<in> L \<Longrightarrow> (p, n) \<noteq> (q, l) \<Longrightarrow> p + n \<le> q \<or> q + l \<le> p"
  using hp.rep_disjoint[of env "kheap k" L "(p, n)" "(q, l)"] by (simp add: kalloc_rep_def pl_disjoint_def)

text \<open>The stack functions only write inside chunks they hold.\<close>

lemma kalloc_upd_mem:
  assumes "kalloc_rep env (ka st) L" "(p, n) \<in> L" "\<And>w. w < p \<or> p + n \<le> w \<Longrightarrow> f (smem st) w = smem st w"
  shows "kalloc_rep env (ka (upd_mem f st)) L"
  using assms heap_rep_fill[of env "kheap (ka st)" L p n "f (smem st)"]
  unfolding kalloc_rep_def upd_mem_def smem_def by simp

lemma unat_add_small: "unat (a :: u32) + unat b < 2 ^ 32 \<Longrightarrow> unat (a + b) = unat a + unat b"
  by (simp add: unat_word_ariths)

lemma unat_of_nat_small: "n < 2 ^ 32 \<Longrightarrow> unat (of_nat n :: u32) = n"
  by (rule unat_of_nat32)

lemma kalloc_layout_ok:
  assumes "kalloc_rep (henv E) (ka st) L" "sz \<noteq> 0" "kalloc_layout E c sz st = Some (p, st')"
  shows "\<exists>l. unat sz \<le> l \<and> (p, l) \<notin> L \<and> kalloc_rep (henv E) (ka st') (insert (p, l) L)
    \<and> unchanged L (smem st) (smem st') \<and> st' = st\<lparr>ka := ka st'\<rparr> \<and> unat sz \<le> 2 ^ 31 - 4"
proof -
  obtain k where k: "alloc_impl (henv E) c (active_stacklet_count st) sz (ka st) = Some (p, k)"
    "st' = st\<lparr>ka := k\<rparr>" "unat sz \<le> 2 ^ 31 - 4"
    using assms(3) by (auto simp: kalloc_layout_def split: if_splits option.splits)
  have "unat sz < 2 ^ 31" using k(3) by simp
  from task_alloc_ok[OF assms(1,2) this k(1)] show ?thesis using k by (auto simp: smem_def)
qed

text \<open>The memory \<open>more_stack\<close> leaves, over natural number addresses: the stacklet at \<open>P\<close>, the new trap
  frame at \<open>N\<close> with the stack arguments above it, the old trap frame at \<open>S\<close>, its arguments at \<open>A\<close>.\<close>

definition stklet_mem :: "ptr \<Rightarrow> ptr \<Rightarrow> ptr \<Rightarrow> ptr \<Rightarrow> nat \<Rightarrow> stacklet_meta \<Rightarrow> u32 \<Rightarrow> mem \<Rightarrow> mem" where
  "stklet_mem P N S A n meta ret m =
     (let m = m(P := prev_stklet_bound meta, P + 4 := prev_sp meta, P + 8 := extend_cnt meta, P + 12 := count_size meta);
          m = copy_words A (N + 104) n m;
          m = copy_words S N 26 m;
          m = m(N + 28 := m (N + 28) AND NOT (push_bit 9 1));
          m = m(N + 24 := m (S + 24) + 4)
      in m(N + 20 := ret))"

lemma stklet_mem_outside:
  "w < P \<or> N + 104 + 4 * n \<le> w \<Longrightarrow> P + 16 \<le> N \<Longrightarrow> stklet_mem P N S A n meta ret m w = m w"
  by (auto simp: stklet_mem_def Let_def copy_words_away)

lemma stklet_mem_meta:
  "P + 16 \<le> N \<Longrightarrow> stklet_mem P N S A n meta ret m P = prev_stklet_bound meta"
  "P + 16 \<le> N \<Longrightarrow> stklet_mem P N S A n meta ret m (P + 4) = prev_sp meta"
  "P + 16 \<le> N \<Longrightarrow> stklet_mem P N S A n meta ret m (P + 8) = extend_cnt meta"
  "P + 16 \<le> N \<Longrightarrow> stklet_mem P N S A n meta ret m (P + 12) = count_size meta"
  by (simp_all add: stklet_mem_def Let_def copy_words_away)

lemma stklet_mem_args:
  assumes "P + 16 \<le> N" "i < n" "A + 4 * n \<le> P \<or> N + 104 + 4 * n \<le> A"
  shows "stklet_mem P N S A n meta ret m (N + 104 + 4 * i) = m (A + 4 * i)"
  using assms by (simp add: stklet_mem_def Let_def copy_words_away copy_words_in) auto

lemma stklet_mem_frame:
  assumes "P + 16 \<le> N" "S + 104 \<le> P \<or> N + 104 + 4 * n \<le> S"
  shows "i < 26 \<Longrightarrow> i \<notin> {5, 6, 7} \<Longrightarrow> stklet_mem P N S A n meta ret m (N + 4 * i) = m (S + 4 * i)"
    and "stklet_mem P N S A n meta ret m (N + 20) = ret"
    and "stklet_mem P N S A n meta ret m (N + 24) = m (S + 24) + 4"
    and "stklet_mem P N S A n meta ret m (N + 28) = m (S + 28) AND NOT (push_bit 9 1)"
proof -
  define m2 where "m2 = copy_words A (N + 104) n (m(P := prev_stklet_bound meta, P + 4 := prev_sp meta, P + 8 := extend_cnt meta, P + 12 := count_size meta))"
  have S: "m2 (S + 4 * i) = m (S + 4 * i)" if "i < 26" for i
    unfolding m2_def using assms that by (subst copy_words_away) auto
  have D: "copy_words S N 26 m2 (N + 4 * i) = m (S + 4 * i)" if "i < 26" for i
    using S[OF that] copy_words_in[OF that] by simp
  have M: "stklet_mem P N S A n meta ret m = (let m = copy_words S N 26 m2; m = m(N + 28 := m (N + 28) AND NOT (push_bit 9 1))
     in m(N + 24 := m (S + 24) + 4, N + 20 := ret))" by (simp add: stklet_mem_def m2_def Let_def)
  show "i < 26 \<Longrightarrow> i \<notin> {5, 6, 7} \<Longrightarrow> stklet_mem P N S A n meta ret m (N + 4 * i) = m (S + 4 * i)"
    unfolding M Let_def using D[of i] by (simp add: fun_upd_other)
  show "stklet_mem P N S A n meta ret m (N + 20) = ret" by (simp add: M Let_def)
  have "copy_words S N 26 m2 (S + 24) = m (S + 24)"
    using S[of 6] copy_words_away[of "S + 24" N 26 S m2] assms by auto
  moreover have "S + 24 \<noteq> N + 28" using assms by auto
  ultimately show "stklet_mem P N S A n meta ret m (N + 24) = m (S + 24) + 4" by (simp add: M Let_def)
  show "stklet_mem P N S A n meta ret m (N + 28) = m (S + 28) AND NOT (push_bit 9 1)"
    using D[of 7] by (simp add: M Let_def)
qed

lemma tf_addr:
  "unat tf + 28 < 2 ^ 32 \<Longrightarrow> tf_r0 tf = unat tf \<and> tf_r1 tf = unat tf + 4 \<and> tf_r2 tf = unat tf + 8
    \<and> tf_r3 tf = unat tf + 12 \<and> tf_lr tf = unat tf + 20 \<and> tf_pc tf = unat tf + 24 \<and> tf_xpsr tf = unat tf + 28"
  by (simp add: tf_r0_def tf_r1_def tf_r2_def tf_r3_def tf_lr_def tf_pc_def tf_xpsr_def unat_add_small)

lemma write_meta_eq:
  "p + 12 < 2 ^ 32 \<Longrightarrow> write_meta (of_nat p) s m = m(p := prev_stklet_bound s, p + 4 := prev_sp s,
     p + 8 := extend_cnt s, p + 12 := count_size s)"
  by (simp add: write_meta_def unat_add_small unat_of_nat_small)

lemma read_meta_eq:
  "p + 12 < 2 ^ 32 \<Longrightarrow> read_meta m (of_nat p) = \<lparr>prev_stklet_bound = m p, prev_sp = m (p + 4),
     extend_cnt = m (p + 8), count_size = m (p + 12)\<rparr>"
  by (simp add: read_meta_def unat_add_small unat_of_nat_small)

definition new_frame :: "stk_env \<Rightarrow> ptr \<Rightarrow> u32 \<Rightarrow> ptr" where
  "new_frame E p f = p + 24 + unat f + unat (STACKLET_ADDITION_ALLOC_SIZE (conf E))"

lemma more_stack_extend_eq:
  fixes E c f a ctxt st
  defines "T \<equiv> f + a + OVERHEAD_SIZE + STACKLET_ADDITION_ALLOC_SIZE (conf E)"
  assumes k: "kalloc_layout E c T st = Some (p, st1)"
    and sz: "unat f + unat a + 128 + unat (STACKLET_ADDITION_ALLOC_SIZE (conf E)) < 2 ^ 31"
    and p: "p + unat T < 2 ^ 32" and S: "unat (sp ctxt) + 108 + unat a < 2 ^ 32"
    and d: "unat (sp ctxt) + 104 \<le> p \<or> p + 16 \<le> unat (sp ctxt)"
  shows "unat T = unat f + unat a + 128 + unat (STACKLET_ADDITION_ALLOC_SIZE (conf E))"
    and "more_stack_extend E c f a ctxt st = Some
      (ctxt\<lparr>tls := (tls ctxt)\<lparr>stklet_bound := of_nat p + OVERHEAD_SIZE\<rparr>, sp := of_nat (new_frame E p f)\<rparr>,
       (upd_mem (stklet_mem p (new_frame E p f) (unat (sp ctxt))
           (unat (sp ctxt) + unat (tf_frame_size (smem st1) (sp ctxt))) (unat a div 4)
           \<lparr>prev_stklet_bound = stklet_bound (tls ctxt), prev_sp = sp ctxt, extend_cnt = 0, count_size = f\<rparr>
           (svc_less_stack E)) st1)\<lparr>active_stacklet_count := active_stacklet_count st1 + 1\<rparr>)"
proof -
  have O: "unat OVERHEAD_SIZE = 128"
    by (simp add: OVERHEAD_SIZE_def TRAP_FRAME_PAD_SIZE_def TRAP_FRAME_SIZE_def R12_PRESERVE_SIZE_def)
  have fa: "unat (f + a) = unat f + unat a" using sz by (intro unat_add_small) simp
  have fao: "unat (f + a + OVERHEAD_SIZE) = unat f + unat a + 128" using sz fa O by (subst unat_add_small) auto
  show T: "unat T = unat f + unat a + 128 + unat (STACKLET_ADDITION_ALLOC_SIZE (conf E))"
    unfolding T_def using sz fao by (subst unat_add_small) auto
  define N where "N = new_frame E p f"
  have pu: "unat (of_nat p :: u32) = p" using p by (intro unat_of_nat_small) simp
  have aT: "a \<le> T" using T by (simp add: word_le_nat_alt)
  have dst: "of_nat p + (T - a) = (of_nat (N + 104) :: u32)"
  proof (rule iffD2[OF word_unat_eq_iff])
    have "unat (T - a) = unat T - unat a" using aT by (rule unat_sub)
    then show "unat (of_nat p + (T - a)) = unat (of_nat (N + 104) :: u32)"
      using T p pu by (simp add: unat_add_small N_def new_frame_def unat_of_nat_small)
  qed
  have N104: "N + 104 < 2 ^ 32" using p T by (simp add: N_def new_frame_def)
  have new: "(of_nat (N + 104) - TRAP_FRAME_SIZE :: u32) = of_nat N" by (simp add: TRAP_FRAME_SIZE_def)
  have Nu: "unat (of_nat N :: u32) = N" using N104 by (intro unat_of_nat_small) simp
  have Nu': "unat (of_nat N + 104 :: u32) = N + 104" using unat_of_nat_small[OF N104] by simp
  have tf: "tf_xpsr (of_nat N) = N + 28" "tf_pc (of_nat N) = N + 24" "tf_lr (of_nat N) = N + 20"
    using tf_addr[of "of_nat N"] Nu N104 by auto
  have tfS: "tf_xpsr (sp ctxt) = unat (sp ctxt) + 28" "tf_pc (sp ctxt) = unat (sp ctxt) + 24"
    using tf_addr[of "sp ctxt"] S by auto
  have tfsz: "unat (tf_frame_size m tf) \<le> 108" for m tf
    by (simp add: tf_frame_size_def TRAP_FRAME_SIZE_def TRAP_FRAME_PAD_SIZE_def)
  have src: "unat (sp ctxt + tf_frame_size m tf) = unat (sp ctxt) + unat (tf_frame_size m tf)" for m tf
    using S tfsz[of m tf] by (intro unat_add_small) linarith
  have tfs: "tf_frame_size (write_meta (of_nat p) meta m) (sp ctxt) = tf_frame_size m (sp ctxt)" for meta m
    using p T d by (auto simp: write_meta_eq tf_frame_size_def tfS)
  have p12: "p + 12 < 2 ^ 32" using p T by simp
  show "more_stack_extend E c f a ctxt st = Some
      (ctxt\<lparr>tls := (tls ctxt)\<lparr>stklet_bound := of_nat p + OVERHEAD_SIZE\<rparr>, sp := of_nat (new_frame E p f)\<rparr>,
       (upd_mem (stklet_mem p (new_frame E p f) (unat (sp ctxt))
           (unat (sp ctxt) + unat (tf_frame_size (smem st1) (sp ctxt))) (unat a div 4)
           \<lparr>prev_stklet_bound = stklet_bound (tls ctxt), prev_sp = sp ctxt, extend_cnt = 0, count_size = f\<rparr>
           (svc_less_stack E)) st1)\<lparr>active_stacklet_count := active_stacklet_count st1 + 1\<rparr>)"
    unfolding N_def[symmetric] more_stack_extend_def T_def[symmetric] Let_def k option.case prod.case dst new
    by (simp add: Nu Nu' src tfs tf tfS)
       (rule arg_cong[OF upd_mem_cong], simp add: stklet_mem_def Let_def write_meta_eq[OF p12] o_def)
qed

section \<open>Accounting\<close>

text \<open>The task runs on the stacklet in the chunk \<open>(q, n)\<close>: its trap frame, with the padding and \<open>a\<close>
  bytes of stack arguments above it, lies over the metadata.\<close>

definition on_stacklet :: "u32 \<Rightarrow> task_svc_ctxt \<Rightarrow> ptr \<Rightarrow> nat \<Rightarrow> bool" where
  "on_stacklet a ctxt q n \<longleftrightarrow> unat (stklet_bound (tls ctxt)) = q + 128 \<and> q + 16 \<le> unat (sp ctxt)
     \<and> unat (sp ctxt) + 108 + unat a \<le> q + n"

lemma overhead: "OVERHEAD_SIZE = 128" "unat OVERHEAD_SIZE = 128"
  by (simp_all add: OVERHEAD_SIZE_def TRAP_FRAME_PAD_SIZE_def TRAP_FRAME_SIZE_def R12_PRESERVE_SIZE_def)

lemma unat_u32_less: "unat (b :: u32) < 2 ^ 32"
  using unsigned_less[of b] by simp

lemma meta_of_bound:
  assumes "unat b = q + 128" shows "bound_to_stklet_meta b = of_nat q" "q + 128 < 2 ^ 32"
proof -
  have "b = of_nat (unat b)" by simp
  then have "b = of_nat (q + 128)" using assms by simp
  then show "bound_to_stklet_meta b = of_nat q" by (simp add: bound_to_stklet_meta_def overhead)
  show "q + 128 < 2 ^ 32" using assms unat_u32_less[of b] by simp
qed

text \<open>What the accounting may change: the extension counter of the current stacklet and, when it
  aborts, the saved program counter.\<close>

lemma handle_limit_exceed_cases:
  assumes "handle_limit_exceed E reason (ctxt, st) = (abort, ctxt1, st1)"
  shows "sp ctxt1 = sp ctxt" "stklet_bound (tls ctxt1) = stklet_bound (tls ctxt)"
    "abort \<Longrightarrow> reason = Normal \<and> \<not> is_unwinding st \<and> ctxt1 = ctxt \<and> nested_drop_cnt (tls ctxt) = 0
       \<and> st1 = upd_mem (\<lambda>m. m(tf_pc (sp ctxt) := diverted_unwind E)) st"
    "\<not> abort \<Longrightarrow> st1 = st"
  using assms by (auto simp: handle_limit_exceed_def word_gt_0 split: if_splits)

lemma anti_hot_split_result:
  assumes "svc_more_stack_anti_hot_split cf lr f s ext = Some (f', s', ext')"
  shows "call_chain_signature s' = word_rotr 1 (call_chain_signature s) XOR lr"
    "cumulated_size s' = cumulated_size s" "f' = f \<or> (\<exists>x \<in> set (add_sizes s). f' = f * x)"
proof -
  have nth: "add_sizes s ! i \<in> set (add_sizes s)" if H: "cache_find sig s = Some i" for i sig
  proof -
    obtain c a where "find (\<lambda>(i, c, a). c = sig) (zip [0..<length (hot_split_cause_signatures s)]
        (zip (hot_split_cause_signatures s) (add_sizes s))) = Some (i, c, a)"
      using H by (auto simp: cache_find_def split: option.splits prod.splits)
    then have "(i, c, a) \<in> set (zip [0..<length (hot_split_cause_signatures s)]
        (zip (hot_split_cause_signatures s) (add_sizes s)))" by (auto simp: find_Some_iff in_set_conv_nth)
    then show ?thesis by (auto simp: in_set_zip)
  qed
  have cf: "cache_find sig (s\<lparr>call_chain_signature := x\<rparr>) = cache_find sig s" for sig x
    by (simp add: cache_find_def)
  show "call_chain_signature s' = word_rotr 1 (call_chain_signature s) XOR lr" "cumulated_size s' = cumulated_size s"
    using assms by (auto simp: svc_more_stack_anti_hot_split_def Let_def split: if_splits option.splits)
  have "f' = (case cache_find (word_rotr 1 (call_chain_signature s) XOR lr) s of
      Some i \<Rightarrow> f * add_sizes s ! i | None \<Rightarrow> f)"
    using assms by (auto simp: svc_more_stack_anti_hot_split_def Let_def cf split: if_splits option.splits)
  then show "f' = f \<or> (\<exists>x \<in> set (add_sizes s). f' = f * x)"
    using nth by (auto split: option.splits)
qed

lemma account_result:
  assumes a: "more_stack_account E reason f ctxt st = Some (f', abort, ctxt1, st1)"
    and b: "unat (stklet_bound (tls ctxt)) = q + 128"
  obtains e where "sp ctxt1 = sp ctxt" "stklet_bound (tls ctxt1) = stklet_bound (tls ctxt)"
    "ka st1 = ka (upd_mem (\<lambda>m. let m = m(q + 8 := e) in if abort then m(tf_pc (sp ctxt) := diverted_unwind E) else m) st)"
    "active_stacklet_count st1 = active_stacklet_count st"
    "abort \<longrightarrow> reason = Normal \<and> nested_drop_cnt (tls ctxt) = 0 \<and> ctxt1 = ctxt"
    "f' = f \<or> (\<exists>s. scb st = Some s \<and> (\<exists>x \<in> set (add_sizes s). f' = f * x))"
    "(case scb st of None \<Rightarrow> scb st1 = None | Some s \<Rightarrow> \<exists>s'. scb st1 = Some s'
       \<and> call_chain_signature s' = word_rotr 1 (call_chain_signature s) XOR smem st (tf_lr (sp ctxt))
       \<and> cumulated_size s' = cumulated_size s + f')"
proof (cases "scb st")
  case None
  then have h: "handle_limit_exceed E reason (ctxt, st) = (abort, ctxt1, st1)" "f' = f"
    using a by (auto simp: more_stack_account_def Let_def)
  then show thesis
    using that[of "smem st (q + 8)"] handle_limit_exceed_cases[OF h(1)] None
    by (cases abort) (auto simp: upd_mem_def smem_def Let_def)
next
  case (Some s)
  have q8: "unat (bound_to_stklet_meta (stklet_bound (tls ctxt)) + 8) = q + 8"
    using meta_of_bound[OF b]
    by (simp add: unat_add_small unat_of_nat_small)
  obtain s2 ext where s2: "svc_more_stack_anti_hot_split (conf E) (smem st (tf_lr (sp ctxt))) f s
      (extend_cnt (read_meta (smem st) (bound_to_stklet_meta (stklet_bound (tls ctxt))))) = Some (f', s2, ext)"
    using a Some by (auto simp: more_stack_account_def Let_def split: option.splits)
  let ?st = "(upd_mem (\<lambda>m. m(q + 8 := ext)) st)\<lparr>scb := Some (s2\<lparr>cumulated_size := cumulated_size s2 + f'\<rparr>)\<rparr>"
  have "handle_limit_exceed E reason (ctxt, ?st) = (abort, ctxt1, st1) \<or> \<not> abort \<and> ctxt1 = ctxt \<and> st1 = ?st"
    using a Some s2 q8 by (auto simp: more_stack_account_def Let_def split: option.splits if_splits)
  then have st1: "st1 = (if abort then upd_mem (\<lambda>m. m(tf_pc (sp ctxt) := diverted_unwind E)) ?st else ?st)"
    and c: "sp ctxt1 = sp ctxt" "stklet_bound (tls ctxt1) = stklet_bound (tls ctxt)"
      "abort \<longrightarrow> reason = Normal \<and> nested_drop_cnt (tls ctxt) = 0 \<and> ctxt1 = ctxt"
    using handle_limit_exceed_cases[of E reason ctxt ?st abort ctxt1 st1] by (cases abort, auto)
  show thesis
    using that[of ext, OF c(1,2) _ _ c(3)] st1 Some anti_hot_split_result[OF s2]
    by (cases abort) (auto simp: upd_mem_def smem_def Let_def)
qed

section \<open>Extending the stack\<close>

lemma half_word_size: "unat (ucast (h :: u16) * 4 :: u32) = unat h * 4" "unat h * 4 \<le> 262140"
proof -
  have h: "unat h < 2 ^ 16" using unsigned_less[of h] by simp
  then show "unat h * 4 \<le> 262140" by simp
  have "unat (ucast h :: u32) = unat h" using h by (simp add: unsigned_ucast_eq take_bit_nat_eq_self)
  then show "unat (ucast h * 4 :: u32) = unat h * 4" using h by (simp add: unat_word_ariths)
qed

lemma size_bounds: "unat (get_stack_frame_size m pc) \<le> 262140" "unat (get_stack_arg_size m pc) \<le> 262140"
  by (simp_all add: get_stack_frame_size_def get_stack_arg_size_def half_word_size)

text \<open>The multipliers of the hot-split cache stay small enough for the sizes not to wrap around.\<close>

definition small_sizes :: "stk_env \<Rightarrow> stk_state \<Rightarrow> bool" where
  "small_sizes E st \<longleftrightarrow> unat (STACKLET_ADDITION_ALLOC_SIZE (conf E)) \<le> 2 ^ 20
     \<and> (\<forall>s. scb st = Some s \<longrightarrow> (\<forall>x \<in> set (add_sizes s). unat x \<le> 4096))"

lemma adjusted_size:
  assumes "f' = f \<or> (\<exists>s. scb st = Some s \<and> (\<exists>x \<in> set (add_sizes s). f' = f * x))"
    and "small_sizes E st" "unat f \<le> 262140"
  shows "\<exists>k \<le> 4096. unat f' = unat f * k \<and> (k = 1 \<or> (\<exists>s. scb st = Some s \<and> k \<in> unat ` set (add_sizes s)))"
  using assms(1)
proof
  assume "f' = f"
  then show ?thesis by (intro exI[of _ 1]) simp
next
  assume "\<exists>s. scb st = Some s \<and> (\<exists>x \<in> set (add_sizes s). f' = f * x)"
  then obtain s x where x: "scb st = Some s" "x \<in> set (add_sizes s)" "f' = f * x" by blast
  then have k: "unat x \<le> 4096" using assms(2) by (auto simp: small_sizes_def)
  have "unat f * unat x \<le> 262140 * 4096" using k assms(3) by (rule mult_le_mono[rotated])
  then have "unat f' = unat f * unat x" using x(3) by (simp add: unat_word_ariths)
  then show ?thesis using x k by (intro exI[of _ "unat x"]) auto
qed

text \<open>What an extension leaves: the stacklet in the fresh chunk \<open>(p, l)\<close> with \<open>f\<close> bytes for the frame.\<close>

definition extended :: "stk_env \<Rightarrow> u32 \<Rightarrow> u32 \<Rightarrow> task_svc_ctxt \<Rightarrow> mem \<Rightarrow> ptr \<Rightarrow> nat \<Rightarrow> task_svc_ctxt \<Rightarrow> mem \<Rightarrow> bool" where
  "extended E f a ctxt m p l ctxt' m' \<longleftrightarrow>
     unat (stklet_bound (tls ctxt')) = p + 128
     \<and> unat (sp ctxt') + 104 = p + 128 + unat f + unat (STACKLET_ADDITION_ALLOC_SIZE (conf E))
     \<and> unat (sp ctxt') + 104 + unat a \<le> p + l
     \<and> m' p = stklet_bound (tls ctxt) \<and> m' (p + 4) = sp ctxt \<and> m' (p + 8) = 0 \<and> m' (p + 12) = f
     \<and> m' (tf_pc (sp ctxt')) = m (tf_pc (sp ctxt)) + 4 \<and> m' (tf_lr (sp ctxt')) = svc_less_stack E
     \<and> m' (tf_xpsr (sp ctxt')) = m (tf_xpsr (sp ctxt)) AND NOT (push_bit 9 1)
     \<and> (\<forall>i < 26. i \<notin> {5, 6, 7} \<longrightarrow> m' (unat (sp ctxt') + 4 * i) = m (unat (sp ctxt) + 4 * i))
     \<and> (\<forall>i < unat a div 4. m' (unat (sp ctxt') + 104 + 4 * i) = m (unat (sp ctxt) + unat (tf_frame_size m (sp ctxt)) + 4 * i))"

lemma tf_frame_size_le: "unat (tf_frame_size m tf) \<le> 108"
  by (simp add: tf_frame_size_def TRAP_FRAME_SIZE_def TRAP_FRAME_PAD_SIZE_def)

lemma stklet_extended:
  fixes E p f a l ctxt m m1
  defines "N \<equiv> new_frame E p f" and "S \<equiv> unat (sp ctxt)"
    and "A \<equiv> unat (sp ctxt) + unat (tf_frame_size m1 (sp ctxt))"
  assumes top: "N + 104 + unat a \<le> p + l" and pl: "p + l < 2 ^ 32" and dis: "p + l \<le> q \<or> q + n \<le> p"
    and S: "q + 16 \<le> S" "S + 108 + unat a \<le> q + n" "q + n < 2 ^ 32"
    and same: "\<And>w. q \<le> w \<Longrightarrow> w < q + n \<Longrightarrow> m1 w = m w"
  shows "extended E f a ctxt m p l
      (ctxt\<lparr>tls := (tls ctxt)\<lparr>stklet_bound := of_nat p + OVERHEAD_SIZE\<rparr>, sp := of_nat N\<rparr>)
      (stklet_mem p N S A (unat a div 4)
         \<lparr>prev_stklet_bound = stklet_bound (tls ctxt), prev_sp = sp ctxt, extend_cnt = 0, count_size = f\<rparr>
         (svc_less_stack E) m1)"
proof -
  have N: "N = p + 24 + unat f + unat (STACKLET_ADDITION_ALLOC_SIZE (conf E))" "p + 16 \<le> N"
    by (simp_all add: N_def new_frame_def)
  have Nu: "unat (of_nat N :: u32) = N" using top pl by (intro unat_of_nat_small) simp
  have tfN: "tf_pc (of_nat N) = N + 24" "tf_lr (of_nat N) = N + 20" "tf_xpsr (of_nat N) = N + 28"
    using tf_addr[of "of_nat N"] top pl Nu by simp_all
  have tfS: "tf_pc (sp ctxt) = S + 24" "tf_xpsr (sp ctxt) = S + 28"
    using tf_addr[of "sp ctxt"] S by (simp_all add: S_def)
  have tfeq: "tf_frame_size m1 (sp ctxt) = tf_frame_size m (sp ctxt)"
    using same[of "S + 28"] S tfS by (simp add: tf_frame_size_def)
  have A: "S \<le> A" "A \<le> S + 108" using tf_frame_size_le[of m1 "sp ctxt"] by (simp_all add: A_def S_def)
  have top4: "N + 104 + 4 * (unat a div 4) \<le> p + l" using top by linarith
  have dSN: "S + 104 \<le> p \<or> N + 104 + 4 * (unat a div 4) \<le> S" using dis S top4 by linarith
  have dA: "A + 4 * (unat a div 4) \<le> p \<or> N + 104 + 4 * (unat a div 4) \<le> A" using dis S top4 A by linarith
  have fr: "m1 (S + 4 * i) = m (S + 4 * i)" if "i < 26" for i using same S that by simp
  have ar: "m1 (A + 4 * i) = m (A + 4 * i)" if "i < unat a div 4" for i using same[of "A + 4 * i"] S A that by simp
  have A_eq: "A = S + unat (tf_frame_size m (sp ctxt))" using tfeq by (simp add: A_def S_def)
  show ?thesis
    unfolding extended_def
    using stklet_mem_meta[OF N(2)] stklet_mem_frame[OF N(2) dSN] stklet_mem_args[OF N(2) _ dA] fr ar
      fr[of 6] fr[of 7] top pl tfN tfS N(1)
    by (simp add: Nu overhead unat_add_small unat_of_nat_small S_def[symmetric] A_eq)
qed

lemma extend_spec:
  assumes R: "kalloc_rep (henv E) (ka st) L" and q: "(q, n) \<in> L" "on_stacklet a ctxt q n"
    and sz: "unat f + unat a + 128 + unat (STACKLET_ADDITION_ALLOC_SIZE (conf E)) < 2 ^ 31"
    and e: "more_stack_extend E c f a ctxt st = Some (ctxt', st')"
  shows "\<exists>p l. (p, l) \<notin> L \<and> kalloc_rep (henv E) (ka st') (insert (p, l) L) \<and> unchanged L (smem st) (smem st')
    \<and> extended E f a ctxt (smem st) p l ctxt' (smem st') \<and> scb st' = scb st
    \<and> active_stacklet_count st' = active_stacklet_count st + 1"
proof -
  let ?T = "f + a + OVERHEAD_SIZE + STACKLET_ADDITION_ALLOC_SIZE (conf E)"
  let ?S = "unat (sp ctxt)"
  obtain p st1 where k: "kalloc_layout E c ?T st = Some (p, st1)"
    using e by (auto simp: more_stack_extend_def Let_def split: option.splits)
  have T: "unat ?T = unat f + unat a + 128 + unat (STACKLET_ADDITION_ALLOC_SIZE (conf E))"
    using sz by (simp add: unat_add_small overhead)
  then have "?T \<noteq> 0" by auto
  from kalloc_layout_ok[OF R this k] obtain l where
    l: "unat ?T \<le> l" "(p, l) \<notin> L" "kalloc_rep (henv E) (ka st1) (insert (p, l) L)"
      "unchanged L (smem st) (smem st1)" "st1 = st\<lparr>ka := ka st1\<rparr>" by blast
  have pl: "p + l < 2 ^ 32" using kalloc_chunk[OF l(3), of p l] by simp
  have apart: "p + l \<le> r \<or> r + k \<le> p" if "(r, k) \<in> L" for r k
    using kalloc_disjoint[OF l(3), of p l r k] l(2) that by (metis insertI1 insertI2)
  have S: "q + 16 \<le> ?S" "?S + 108 + unat a \<le> q + n" "q + n < 2 ^ 32"
    using q(2) kalloc_chunk[OF R q(1)] by (auto simp: on_stacklet_def)
  define F where "F = stklet_mem p (new_frame E p f) ?S (?S + unat (tf_frame_size (smem st1) (sp ctxt))) (unat a div 4)
    \<lparr>prev_stklet_bound = stklet_bound (tls ctxt), prev_sp = sp ctxt, extend_cnt = 0, count_size = f\<rparr> (svc_less_stack E)"
  have Tl: "p + unat ?T < 2 ^ 32" and dS: "?S + 104 \<le> p \<or> p + 16 \<le> ?S" and S3: "?S + 108 + unat a < 2 ^ 32"
    using pl l(1) apart[OF q(1)] S T by auto
  have R': "ctxt' = ctxt\<lparr>tls := (tls ctxt)\<lparr>stklet_bound := of_nat p + OVERHEAD_SIZE\<rparr>, sp := of_nat (new_frame E p f)\<rparr>"
    "st' = (upd_mem F st1)\<lparr>active_stacklet_count := active_stacklet_count st1 + 1\<rparr>"
    using e more_stack_extend_eq(2)[OF k sz Tl S3 dS] by (simp_all add: F_def)
  have m': "smem st' = F (smem st1)" using R'(2) by (simp add: smem_def upd_mem_def)
  have top: "new_frame E p f + 104 + unat a \<le> p + l" "p + 16 \<le> new_frame E p f"
    using T l(1) by (simp_all add: new_frame_def)
  have out: "F m w = m w" if "w < p \<or> p + l \<le> w" for m w
    unfolding F_def by (rule stklet_mem_outside[OF _ top(2)]) (use that top(1) in linarith)
  have "kalloc_rep (henv E) (ka (upd_mem F st1)) (insert (p, l) L)"
    by (rule kalloc_upd_mem[OF l(3), of p l]) (simp_all add: out)
  then have rep: "kalloc_rep (henv E) (ka st') (insert (p, l) L)" using R'(2) by simp
  have "unchanged L (smem st1) (F (smem st1))"
    unfolding unchanged_def by (clarify, rule out) (use apart in fastforce)
  then have unch: "unchanged L (smem st) (smem st')" using l(4) m' by (metis unchanged_trans)
  have "extended E f a ctxt (smem st) p l ctxt' (smem st')"
    unfolding R'(1) m' F_def using l(4) q(1) top(1) pl apart[OF q(1)] S
    by (intro stklet_extended[of E p f a l q n]) (auto simp: unchanged_def)
  moreover have "scb st' = scb st" "active_stacklet_count st' = active_stacklet_count st + 1"
    unfolding R'(2) by (simp, subst l(5), simp)+
  ultimately show ?thesis using l(2) rep unch by blast
qed

lemma extended_cong:
  assumes "extended E f a ctxt1 m1 p l ctxt' m'" "sp ctxt1 = sp ctxt" "stklet_bound (tls ctxt1) = stklet_bound (tls ctxt)"
    and "unat (sp ctxt) + 28 < 2 ^ 32" "\<And>w. unat (sp ctxt) \<le> w \<Longrightarrow> m1 w = m w"
  shows "extended E f a ctxt m p l ctxt' m'"
proof -
  have "tf_frame_size m1 (sp ctxt) = tf_frame_size m (sp ctxt)"
    using assms(4,5) tf_addr[of "sp ctxt"] by (simp add: tf_frame_size_def)
  then have "extended E f a ctxt1 m1 p l ctxt' m' = extended E f a ctxt m p l ctxt' m'"
    using assms(2-5) tf_addr[of "sp ctxt"] unfolding extended_def by simp
  then show ?thesis using assms(1) by simp
qed

lemma more_stack_result:
  assumes R: "kalloc_rep (henv E) (ka st) L" and q: "(q, n) \<in> L" "on_stacklet a ctxt q n"
    and a: "a = get_stack_arg_size (smem st) (smem st (tf_pc (sp ctxt)))"
    and f: "f = get_stack_frame_size (smem st) (smem st (tf_pc (sp ctxt)))"
    and sm: "small_sizes E st"
    and e: "more_stack E c reason ctxt st = Some (ctxt', st')"
  obtains
    (aborted) "reason = Normal" "nested_drop_cnt (tls ctxt) = 0" "ctxt' = ctxt" "kalloc_rep (henv E) (ka st') L"
      "smem st' (tf_pc (sp ctxt)) = diverted_unwind E" "active_stacklet_count st' = active_stacklet_count st"
  | (extended) f' k p l where "unat f' = unat f * k" "k = 1 \<or> (\<exists>s. scb st = Some s \<and> k \<in> unat ` set (add_sizes s))"
      "(p, l) \<notin> L" "kalloc_rep (henv E) (ka st') (insert (p, l) L)"
      "extended E f' a ctxt (smem st) p l ctxt' (smem st')"
      "\<And>r j w. (r, j) \<in> L \<Longrightarrow> r \<le> w \<Longrightarrow> w < r + j \<Longrightarrow> w \<noteq> q + 8 \<Longrightarrow> smem st' w = smem st w"
      "active_stacklet_count st' = active_stacklet_count st + 1"
      "(case scb st of None \<Rightarrow> scb st' = None | Some s \<Rightarrow> \<exists>s'. scb st' = Some s'
         \<and> call_chain_signature s' = word_rotr 1 (call_chain_signature s) XOR smem st (tf_lr (sp ctxt))
         \<and> cumulated_size s' = cumulated_size s + f')"
proof -
  define st0 where "st0 = st\<lparr>stack_extend_count := stack_extend_count st + 1\<rparr>"
  have st0: "smem st0 = smem st" "ka st0 = ka st" "scb st0 = scb st"
      "active_stacklet_count st0 = active_stacklet_count st" by (simp_all add: st0_def smem_def)
  obtain f' abort ctxt1 st1 where acc: "more_stack_account E reason f ctxt st0 = Some (f', abort, ctxt1, st1)"
    and rest: "if abort then Some (ctxt1, st1) = Some (ctxt', st')
       else more_stack_extend E c f' a ctxt1 st1 = Some (ctxt', st')"
    using e by (auto simp: more_stack_def Let_def a f st0_def smem_def split: option.splits if_splits)
  have b: "unat (stklet_bound (tls ctxt)) = q + 128" and S: "q + 16 \<le> unat (sp ctxt)"
      "unat (sp ctxt) + 108 + unat a \<le> q + n" using q(2) by (auto simp: on_stacklet_def)
  have qn: "q + n < 2 ^ 32" using kalloc_chunk[OF R q(1)] by simp
  have pc: "tf_pc (sp ctxt) = unat (sp ctxt) + 24" using tf_addr[of "sp ctxt"] S qn by simp
  obtain ex where A: "sp ctxt1 = sp ctxt" "stklet_bound (tls ctxt1) = stklet_bound (tls ctxt)"
    "ka st1 = ka (upd_mem (\<lambda>m. let m = m(q + 8 := ex) in if abort then m(tf_pc (sp ctxt) := diverted_unwind E) else m) st0)"
    "active_stacklet_count st1 = active_stacklet_count st0"
    "abort \<longrightarrow> reason = Normal \<and> nested_drop_cnt (tls ctxt) = 0 \<and> ctxt1 = ctxt"
    "f' = f \<or> (\<exists>s. scb st0 = Some s \<and> (\<exists>x \<in> set (add_sizes s). f' = f * x))"
    "(case scb st0 of None \<Rightarrow> scb st1 = None | Some s \<Rightarrow> \<exists>s'. scb st1 = Some s'
       \<and> call_chain_signature s' = word_rotr 1 (call_chain_signature s) XOR smem st0 (tf_lr (sp ctxt))
       \<and> cumulated_size s' = cumulated_size s + f')"
    by (rule account_result[OF acc b])
  have R1: "kalloc_rep (henv E) (ka st1) L"
    unfolding A(3) by (rule kalloc_upd_mem[OF _ q(1)]) (use R S pc in \<open>auto simp: st0 Let_def\<close>)
  have m1: "smem st1 = (let m = (smem st)(q + 8 := ex) in if abort then m(tf_pc (sp ctxt) := diverted_unwind E) else m)"
    using A(3) st0 by (simp add: smem_def upd_mem_def)
  show thesis
  proof (cases abort)
    case True
    then show thesis using aborted A R1 rest m1 st0 by (auto simp: Let_def)
  next
    case False
    obtain k where k: "k \<le> 4096" "unat f' = unat f * k" "k = 1 \<or> (\<exists>s. scb st = Some s \<and> k \<in> unat ` set (add_sizes s))"
      using adjusted_size[of f' f st E] A(6) sm size_bounds(1) f st0 by auto
    have "unat f' \<le> 262140 * 4096" using k(1,2) size_bounds(1) f mult_le_mono[of "unat f" 262140 k 4096] by simp
    then have sz: "unat f' + unat a + 128 + unat (STACKLET_ADDITION_ALLOC_SIZE (conf E)) < 2 ^ 31"
      using sm size_bounds(2)[of "smem st" "smem st (tf_pc (sp ctxt))"] a by (simp add: small_sizes_def)
    have on: "on_stacklet a ctxt1 q n" using q(2) A(1,2) by (simp add: on_stacklet_def)
    have ex: "more_stack_extend E c f' a ctxt1 st1 = Some (ctxt', st')" using rest False by simp
    obtain p l where E: "(p, l) \<notin> L" "kalloc_rep (henv E) (ka st') (insert (p, l) L)" "unchanged L (smem st1) (smem st')"
      "extended E f' a ctxt1 (smem st1) p l ctxt' (smem st')" "scb st' = scb st1"
      "active_stacklet_count st' = active_stacklet_count st1 + 1"
      using extend_spec[OF R1 q(1) on sz ex] by blast
    have m1w: "smem st1 w = smem st w" if "w \<noteq> q + 8" for w using m1 False that by simp
    have ext: "extended E f' a ctxt (smem st) p l ctxt' (smem st')"
      using E(4) by (rule extended_cong) (use A(1,2) S qn m1w in auto)
    show thesis
    proof (rule extended[OF k(2,3) E(1,2) ext])
      show "smem st' w = smem st w" if "(r, j) \<in> L" "r \<le> w" "w < r + j" "w \<noteq> q + 8" for r j w
        using E(3) m1w that by (auto simp: unchanged_def)
      show "case scb st of None \<Rightarrow> scb st' = None | Some s \<Rightarrow> \<exists>s'. scb st' = Some s'
         \<and> call_chain_signature s' = word_rotr 1 (call_chain_signature s) XOR smem st (tf_lr (sp ctxt))
         \<and> cumulated_size s' = cumulated_size s + f'" using A(7) unfolding st0 E(5) .
    qed (use E(6) A(4) st0 in simp)
  qed
qed

section \<open>Returning to the previous stacklet\<close>

lemma free_impl_ok:
  assumes "kalloc_rep env k L" "(p, l) \<in> L" "free_impl env c p k = Some k'"
  shows "kalloc_rep env k' (L - {(p, l)}) \<and> unchanged (L - {(p, l)}) (mem (kheap k)) (mem (kheap k'))"
  using assms hp.dealloc_chunk[of env "kheap k" L p l]
  by (auto simp: free_impl_def task_free_def kernel_free_def kalloc_rep_def Let_def split: if_splits)

lemma less_stack_result:
  fixes st ctxt tf p
  defines "m \<equiv> smem st" and "prev \<equiv> smem st (p + 4)"
  assumes R: "kalloc_rep (henv E) (ka st) L" and p: "(p, l) \<in> L" "unat (stklet_bound (tls ctxt)) = p + 128" "16 \<le> l"
    and q: "(q, n) \<in> L" "q \<noteq> p" "q \<le> unat prev" "unat prev + 104 \<le> q + n"
    and tf: "(t, j) \<in> L" "t \<noteq> q" "t \<le> unat tf" "unat tf + 16 \<le> t + j"
    and e: "less_stack E c tf ctxt st = Some (ctxt', st')"
  shows "sp ctxt' = prev" "stklet_bound (tls ctxt') = m p" "nested_drop_cnt (tls ctxt') = nested_drop_cnt (tls ctxt)"
    "kalloc_rep (henv E) (ka st') (L - {(p, l)})"
    "smem st' (tf_r0 prev) = m (tf_r0 tf)" "smem st' (tf_r1 prev) = m (tf_r1 tf)"
    "smem st' (tf_r2 prev) = m (tf_r2 tf)" "smem st' (tf_r3 prev) = m (tf_r3 tf)"
    "smem st' (tf_pc prev) = m (tf_lr prev)"
    "scb st' = map_option (\<lambda>s. s\<lparr>call_chain_signature := word_rotl 1 (call_chain_signature s XOR m (tf_lr prev)),
       cumulated_size := cumulated_size s - m (p + 12)\<rparr>) (scb st)"
    "active_stacklet_count st' = active_stacklet_count st - 1"
proof -
  define F where "F = (\<lambda>m :: mem. let m = m(tf_r0 prev := m (tf_r0 tf)); m = m(tf_r1 prev := m (tf_r1 tf));
     m = m(tf_r2 prev := m (tf_r2 tf)); m = m(tf_r3 prev := m (tf_r3 tf)) in m(tf_pc prev := m (tf_lr prev)))"
  have ch: "p + l < 2 ^ 32" "q + n < 2 ^ 32" "t + j < 2 ^ 32"
    using kalloc_chunk[OF R p(1)] kalloc_chunk[OF R q(1)] kalloc_chunk[OF R tf(1)] by auto
  have pq: "p + l \<le> q \<or> q + n \<le> p" and tq: "t + j \<le> q \<or> q + n \<le> t"
    using kalloc_disjoint[OF R p(1) q(1)] kalloc_disjoint[OF R tf(1) q(1)] q(2) tf(2) by auto
  have A: "tf_r0 prev = unat prev" "tf_r1 prev = unat prev + 4" "tf_r2 prev = unat prev + 8" "tf_r3 prev = unat prev + 12"
      "tf_lr prev = unat prev + 20" "tf_pc prev = unat prev + 24"
    using tf_addr[of prev] q ch by auto
  have B: "tf_r0 tf = unat tf" "tf_r1 tf = unat tf + 4" "tf_r2 tf = unat tf + 8" "tf_r3 tf = unat tf + 12"
    using tf ch by (auto simp: tf_r0_def tf_r1_def tf_r2_def tf_r3_def unat_add_small)
  have Fp: "F x w = x w" if w: "w < q \<or> q + n \<le> w" for x w
  proof -
    have ne: "w \<noteq> unat prev + i" if "i < 104" for i using w q(3,4) that by linarith
    from ne[of 0] ne[of 4] ne[of 8] ne[of 12] ne[of 24] show ?thesis by (simp add: F_def Let_def A)
  qed
  have meta: "bound_to_stklet_meta (stklet_bound (tls ctxt)) = of_nat p" "p + 12 < 2 ^ 32"
    using meta_of_bound[OF p(2)] by auto
  have ps: "prev_sp (read_meta (smem st) (of_nat p)) = prev" by (simp add: read_meta_eq[OF meta(2)] prev_def)
  have "F x (p + i) = x (p + i)" if "i < 16" for x i by (rule Fp) (use pq p(3) that in linarith)
  from this[of 0] this[of 4] this[of 8] this[of 12]
  have rm: "read_meta (F (smem st)) (of_nat p) = read_meta (smem st) (of_nat p)"
    by (simp add: read_meta_eq[OF meta(2)])
  have pu: "unat (of_nat p :: u32) = p" using meta(2) by (intro unat_of_nat_small) simp
  let ?st = "upd_mem F st"
  let ?st2 = "?st\<lparr>scb := map_option (\<lambda>s. s\<lparr>call_chain_signature := word_rotl 1 (call_chain_signature s XOR F m (tf_lr prev)),
       cumulated_size := cumulated_size s - m (p + 12)\<rparr>) (scb st)\<rparr>"
  have st2: "(case scb st of None \<Rightarrow> ?st | Some s \<Rightarrow> ?st\<lparr>scb := Some ((svc_less_stack_anti_hot_split (F m (tf_lr prev)) s)
      \<lparr>cumulated_size := cumulated_size (svc_less_stack_anti_hot_split (F m (tf_lr prev)) s) - m (p + 12)\<rparr>)\<rparr>) = ?st2"
    by (cases "scb st") (auto simp: svc_less_stack_anti_hot_split_def)
  have F5: "upd_mem (\<lambda>m. m(tf_pc prev := m (tf_lr prev))) (upd_mem (\<lambda>m. m(tf_r3 prev := m (tf_r3 tf)))
      (upd_mem (\<lambda>m. m(tf_r2 prev := m (tf_r2 tf))) (upd_mem (\<lambda>m. m(tf_r1 prev := m (tf_r1 tf)))
      (upd_mem (\<lambda>m. m(tf_r0 prev := m (tf_r0 tf))) st)))) = ?st"
    unfolding upd_mem_comp by (rule upd_mem_cong) (simp add: F_def Let_def)
  have mp: "read_meta (smem st) (of_nat p) = \<lparr>prev_stklet_bound = m p, prev_sp = prev, extend_cnt = m (p + 8), count_size = m (p + 12)\<rparr>"
    by (simp add: read_meta_eq[OF meta(2)] prev_def m_def)
  obtain k where k: "free_impl (henv E) c p (ka ?st2) = Some k" and
    res: "ctxt' = ctxt\<lparr>tls := (tls ctxt)\<lparr>stklet_bound := m p\<rparr>, sp := prev\<rparr>"
      "st' = ?st2\<lparr>ka := k, active_stacklet_count := active_stacklet_count st - 1\<rparr>"
  proof -
    have "less_stack E c tf ctxt st = (if \<not> ALLOW_DYNAMIC_STACK (conf E) then None
      else case free_impl (henv E) c p (ka ?st2) of None \<Rightarrow> None
        | Some k \<Rightarrow> Some (ctxt\<lparr>tls := (tls ctxt)\<lparr>stklet_bound := m p\<rparr>, sp := prev\<rparr>,
            ?st2\<lparr>ka := k, active_stacklet_count := active_stacklet_count st - 1\<rparr>))"
      unfolding less_stack_def Let_def meta(1) ps unfolding F5 smem_upd unfolding rm mp pu
      unfolding m_def[symmetric] upd_mem_fields stacklet_meta.select_convs unfolding st2
      by (simp split: option.split)
    then show thesis using e that by (auto split: if_splits option.splits)
  qed
  show "sp ctxt' = prev" "stklet_bound (tls ctxt') = m p" "nested_drop_cnt (tls ctxt') = nested_drop_cnt (tls ctxt)"
    using res(1) by simp_all
  have lr: "F m (tf_lr prev) = m (tf_lr prev)" by (simp add: F_def Let_def A)
  show "scb st' = map_option (\<lambda>s. s\<lparr>call_chain_signature := word_rotl 1 (call_chain_signature s XOR m (tf_lr prev)),
       cumulated_size := cumulated_size s - m (p + 12)\<rparr>) (scb st)"
    "active_stacklet_count st' = active_stacklet_count st - 1" using res(2) lr by simp_all
  have R1: "kalloc_rep (henv E) (ka ?st) L" by (rule kalloc_upd_mem[OF R q(1)]) (rule Fp)
  have free: "kalloc_rep (henv E) k (L - {(p, l)}) \<and> unchanged (L - {(p, l)}) (smem ?st) (mem (kheap k))"
    unfolding smem_def by (rule free_impl_ok[OF R1 p(1), of c]) (use k in simp)
  then show "kalloc_rep (henv E) (ka st') (L - {(p, l)})" using res(2) by simp
  have keep: "smem st' (unat prev + i) = F m (unat prev + i)" if "i < 104" for i
  proof -
    have "(q, n) \<in> L - {(p, l)}" using q(1,2) by simp
    moreover have "q \<le> unat prev + i" "unat prev + i < q + n" using q(3,4) that by auto
    ultimately have "mem (kheap k) (unat prev + i) = smem ?st (unat prev + i)"
      using free unfolding unchanged_def by blast
    then show ?thesis using res(2) by (simp add: m_def smem_def upd_mem_def)
  qed
  have tf_ne: "unat tf + i \<noteq> unat prev + j" if "i < 16" "j < 104" for i j using tf tq q that by linarith
  show "smem st' (tf_r0 prev) = m (tf_r0 tf)" "smem st' (tf_r1 prev) = m (tf_r1 tf)"
    "smem st' (tf_r2 prev) = m (tf_r2 tf)" "smem st' (tf_r3 prev) = m (tf_r3 tf)"
    "smem st' (tf_pc prev) = m (tf_lr prev)"
    using keep[of 0] keep[of 4] keep[of 8] keep[of 12] keep[of 24] tf_ne[of 4 0] tf_ne[of 8 0] tf_ne[of 8 4]
      tf_ne[of 12 0] tf_ne[of 12 4] tf_ne[of 12 8] by (simp_all add: F_def Let_def A B)
qed

section \<open>Properties\<close>

text \<open>A task with dynamic stack extension on its first stacklet, about to call a function that needs
  64 bytes of stack and no stack arguments: the words the prologue keeps behind the supervisor call
  are at \<open>0x20001400\<close>.\<close>

definition env1 :: stk_env where
  "env1 = \<lparr>henv = env0, conf = config0, svc_less_stack = 0x08001001, diverted_unwind = 0x08002001\<rparr>"

definition svc0 :: cpu where
  "svc0 = \<lparr>ipsr = 11, control = 0, sched_started = True\<rparr>"

definition ctxt0 :: task_svc_ctxt where
  "ctxt0 = \<lparr>sp = 0x20001300, tls = \<lparr>stklet_bound = 0x20001188, nested_drop_cnt = 0, unwind_pending = 0\<rparr>\<rparr>"

definition stk0 :: "u32 \<Rightarrow> heap \<Rightarrow> stk_state" where
  "stk0 n h = \<lparr>ka = \<lparr>kheap = h, initialized = True, active = False, adjusted_high_water_mark = 0\<rparr>,
     stack_extend_count = n, active_stacklet_count = 1,
     scb = Some \<lparr>call_chain_signature = 0, hot_split_cause_signatures = [0, 0, 0, 0], add_sizes = [0, 0, 0, 0],
       round_robin_idx = 0, cumulated_size = 0\<rparr>, stack_limit = None, is_unwinding = False\<rparr>"

lemma request_samples: "request_size 1000 = of_nat 1008" "request_size 256 = of_nat 264"
  by (simp_all add: request_size_eq)

lemma list_index_samples: "list_index 0x1EEF8 = 5" "list_index 0x1EB08 = 5"
  by (simp_all add: chunk_size_to_list_index_def leading_zeros_def compute_floorlog)

lemma stk0_heap:
  obtains h fl where "heap_ok env0 h [(1008, True), (0x1EB08, False)] fl" "cached h = 0" "heap_start h = 0x20001104"
    "mem h 0x20001318 = 0x20001400" "mem h 0x20001400 = 16" "mem h 0x20001110 = 0" "mem h 0x20001314 = 0x08000101"
proof -
  obtain s fl where s: "heap_ok env0 s [(0x1EEF8, False)] fl" "cached s = 0" "heap_start s = 0x20001104"
    by (rule heap0_init)
  obtain s1 fl1 where s1: "heap_ok env0 s1 [(1008, True), (0x1EB08, False)] fl1" "cached s1 = 0" "heap_start s1 = 0x20001104"
    by (rule malloc_tail[of env0 s "[]" "0x1EEF8" fl 1000 1008])
       (use s request_samples list_index_samples in simp_all)
  let ?m = "(mem s1)(0x20001318 := 0x20001400, 0x20001400 := 16, 0x20001110 := 0, 0x20001314 := 0x08000101)"
  have "mem_ok env0 (heap_start s1) ?m [(1008, True), (0x1EB08, False)] fl1"
  proof (rule mem_ok_store)
    show "mem_ok env0 (heap_start s1) (mem s1) [(1008, True), (0x1EB08, False)] fl1" using s1(1) by (simp add: heap_ok_def)
    show "(0x20001104, 1008, True) \<in> blks (heap_start s1) [(1008, True), (0x1EB08, False)]" using s1(3) by simp
  qed auto
  then have "heap_ok env0 (s1\<lparr>mem := ?m\<rparr>) [(1008, True), (0x1EB08, False)] fl1" using s1(1,2) by (auto simp: heap_ok_def)
  then show ?thesis using that[of "s1\<lparr>mem := ?m\<rparr>" fl1] s1(2,3) by simp
qed

lemma stk0_rep:
  assumes "heap_ok env0 h [(1008, True), (0x1EB08, False)] fl" "cached h = 0" "heap_start h = 0x20001104"
  shows "kalloc_rep env0 (ka (stk0 n h)) {(0x20001108, 1004)}"
proof -
  have "live h [(1008, True), (0x1EB08, False)] = {(0x20001104, 1008)}"
    using assms(2,3) by (auto simp: live_def allocated_def)
  then have "heap_rep env0 h {(0x20001108, 1004)}"
    unfolding heap_rep_def using assms(1) by (intro exI conjI) (auto simp: payload_of_def)
  then show ?thesis by (simp add: kalloc_rep_def stk0_def)
qed

lemma stk0_sizes:
  assumes "mem h 0x20001318 = 0x20001400" "mem h 0x20001400 = 16"
  shows "smem (stk0 n h) (tf_pc (sp ctxt0)) = 0x20001400" "get_stack_frame_size (smem (stk0 n h)) 0x20001400 = 64"
    "get_stack_arg_size (smem (stk0 n h)) 0x20001400 = 0"
  using assms by (simp_all add: smem_def stk0_def tf_pc_def ctxt0_def get_stack_frame_size_def
      get_stack_arg_size_def read16_def lo16_def hi16_def)

lemma kernel_alloc_some:
  "mcu_malloc env sz (kheap k) = Some (p, h) \<Longrightarrow> p \<noteq> 0 \<Longrightarrow> initialized k \<Longrightarrow> \<not> active k \<Longrightarrow> unat sz \<le> 2 ^ 31 - 4 \<Longrightarrow>
    \<exists>k'. alloc_impl env svc0 n sz k = Some (p, k')"
  by (auto simp: alloc_impl_def svc0_def kernel_malloc_def die_if_not_in_svc_def Let_def)

lemma stk0_account:
  assumes "mem h 0x20001110 = 0" "mem h 0x20001314 = 0x08000101"
  shows "\<exists>s. more_stack_account env1 Normal 64 ctxt0 (stk0 n h) = Some (64, False, ctxt0,
    (upd_mem (\<lambda>m. m(0x20001110 := 1)) (stk0 n h))\<lparr>scb := Some s\<rparr>)"
proof -
  have m: "bound_to_stklet_meta (stklet_bound (tls ctxt0)) = 0x20001108"
    by (simp add: bound_to_stklet_meta_def overhead ctxt0_def)
  have r: "extend_cnt (read_meta (smem (stk0 n h)) 0x20001108) = 0" "smem (stk0 n h) (tf_lr (sp ctxt0)) = 0x08000101"
    using assms by (simp_all add: read_meta_def smem_def stk0_def tf_lr_def ctxt0_def)
  let ?s = "\<lparr>call_chain_signature = 0, hot_split_cause_signatures = [0, 0, 0, 0], add_sizes = [0, 0, 0, 0],
       round_robin_idx = 0, cumulated_size = 0\<rparr>"
  have c: "cache_find 0x08000101 (?s\<lparr>call_chain_signature := 0x08000101\<rparr>) = None" by (simp add: cache_find_def upt_rec)
  have a: "svc_more_stack_anti_hot_split config0 0x08000101 64 ?s 0 = Some (64, ?s\<lparr>call_chain_signature := 0x08000101\<rparr>, 1)"
    using c by (simp add: svc_more_stack_anti_hot_split_def config0_def Let_def)
  have f: "scb (stk0 n h) = Some ?s" "stack_limit (stk0 n h) = None" "conf env1 = config0" by (simp_all add: stk0_def env1_def)
  show ?thesis
    unfolding more_stack_account_def Let_def m r f option.case a prod.case
    by (intro exI[of _ "?s\<lparr>call_chain_signature := 0x08000101, cumulated_size := 64\<rparr>"]) (simp add: f)
qed

lemma more_stack_extend_some:
  assumes "f + a + OVERHEAD_SIZE + STACKLET_ADDITION_ALLOC_SIZE (conf E) = T" "kalloc_layout E c T st = Some (p, st1)"
  shows "\<exists>ctxt' st'. more_stack_extend E c f a ctxt st = Some (ctxt', st') \<and> sp ctxt' = of_nat p + (T - a) - TRAP_FRAME_SIZE"
  unfolding more_stack_extend_def Let_def assms option.case prod.case by simp

lemma stk0_more_stack:
  assumes h: "heap_ok env0 h [(1008, True), (0x1EB08, False)] fl" "cached h = 0" "heap_start h = 0x20001104"
    "mem h 0x20001318 = 0x20001400" "mem h 0x20001400 = 16" "mem h 0x20001110 = 0" "mem h 0x20001314 = 0x08000101"
  shows "\<exists>ctxt' st'. more_stack env1 svc0 Normal ctxt0 (stk0 n h) = Some (ctxt', st') \<and> sp ctxt' \<noteq> sp ctxt0"
proof -
  let ?h = "h\<lparr>mem := (mem h)(0x20001110 := 1)\<rparr>" and ?bs = "[(1008, True), (0x1EB08, False)]"
  have "mem_ok env0 (heap_start h) (mem ?h) ?bs fl"
  proof (rule mem_ok_store)
    show "mem_ok env0 (heap_start h) (mem h) ?bs fl" using h(1) by (simp add: heap_ok_def)
    show "(0x20001104, 1008, True) \<in> blks (heap_start h) ?bs" using h(3) by simp
  qed auto
  then have h': "heap_ok env0 ?h ?bs fl" using h(1,2) by (auto simp: heap_ok_def)
  obtain h2 where m: "mcu_malloc env0 256 ?h = Some (0x200014F8, h2)"
    by (rule malloc_tail[of env0 ?h "[(1008, True)]" "0x1EB08" fl 256 264])
       (use h h' request_samples list_index_samples in simp_all)
  obtain s where acc: "more_stack_account env1 Normal 64 ctxt0 (stk0 (n + 1) h) = Some (64, False, ctxt0,
    (upd_mem (\<lambda>m. m(0x20001110 := 1)) (stk0 (n + 1) h))\<lparr>scb := Some s\<rparr>)" using stk0_account[OF h(6,7)] by blast
  let ?st = "(upd_mem (\<lambda>m. m(0x20001110 := 1)) (stk0 (n + 1) h))\<lparr>scb := Some s\<rparr>"
  have kh: "kheap (ka ?st) = ?h" "initialized (ka ?st)" "\<not> active (ka ?st)"
    by (simp_all add: upd_mem_def smem_def stk0_def)
  obtain k where "alloc_impl env0 svc0 (active_stacklet_count ?st) 256 (ka ?st) = Some (0x200014F8, k)"
    using kernel_alloc_some[of env0 256 "ka ?st" "0x200014F8" h2] m kh by auto
  then have "kalloc_layout env1 svc0 256 ?st = Some (0x200014F8, ?st\<lparr>ka := k\<rparr>)"
    by (simp add: kalloc_layout_def env1_def)
  moreover have "64 + 0 + OVERHEAD_SIZE + STACKLET_ADDITION_ALLOC_SIZE (conf env1) = 256"
    by (simp add: overhead env1_def config0_def)
  ultimately obtain ctxt' st' where e: "more_stack_extend env1 svc0 64 0 ctxt0 ?st = Some (ctxt', st')"
      "sp ctxt' = of_nat 0x200014F8 + (256 - 0) - TRAP_FRAME_SIZE"
    using more_stack_extend_some by blast
  have st0: "(stk0 n h)\<lparr>stack_extend_count := stack_extend_count (stk0 n h) + 1\<rparr> = stk0 (n + 1) h"
    by (simp add: stk0_def)
  have "more_stack env1 svc0 Normal ctxt0 (stk0 n h) = Some (ctxt', st')"
    unfolding more_stack_def Let_def st0 stk0_sizes[OF h(4,5)] acc option.case prod.case
    using e(1) by (simp add: env1_def config0_def)
  then show ?thesis using e(2) by (simp add: ctxt0_def TRAP_FRAME_SIZE_def)
qed


lemma stk0_on_stacklet: "on_stacklet 0 ctxt0 0x20001108 1004" "small_sizes env1 (stk0 n h)"
  by (simp_all add: on_stacklet_def ctxt0_def small_sizes_def env1_def config0_def stk0_def)


text \<open>C18. When the function returns, \<open>less_stack\<close> undoes the extension, whatever ran in between, as long
  as the metadata of the stacklet and the saved return address were kept and inner extensions were
  balanced: the task is back on the old stacklet with the old stack pointer, continues at the
  return address with the return values in its registers, the call chain signature and the
  accounted stack size are what they were before the call, and exactly the stacklet is freed.\<close>

theorem less_stack_undoes_more_stack:
  assumes "kalloc_rep (henv E) (ka st) L" "(q, n) \<in> L" "on_stacklet a ctxt q n" "small_sizes E st"
    and "a = get_stack_arg_size (smem st) (smem st (tf_pc (sp ctxt)))"
    and "more_stack E c reason ctxt st = Some (ctxt1, st1)" "sp ctxt1 \<noteq> sp ctxt"
    and p: "unat (stklet_bound (tls ctxt1)) = p + 128"
    and R2: "kalloc_rep (henv E) (ka st2) L2" "(p, l) \<in> L2" "16 \<le> l" "(q, n) \<in> L2"
    and kept: "stklet_bound (tls ctxt2) = stklet_bound (tls ctxt1)"
      "smem st2 p = smem st1 p" "smem st2 (p + 4) = smem st1 (p + 4)" "smem st2 (p + 12) = smem st1 (p + 12)"
      "smem st2 (tf_lr (sp ctxt)) = smem st (tf_lr (sp ctxt))"
      "map_option (\<lambda>s. (call_chain_signature s, cumulated_size s)) (scb st2)
        = map_option (\<lambda>s. (call_chain_signature s, cumulated_size s)) (scb st1)"
    and tf: "(t, j) \<in> L2" "t \<noteq> q" "t \<le> unat tf" "unat tf + 16 \<le> t + j"
    and e2: "less_stack E c2 tf ctxt2 st2 = Some (ctxt3, st3)"
  shows "sp ctxt3 = sp ctxt \<and> stklet_bound (tls ctxt3) = stklet_bound (tls ctxt)
    \<and> smem st3 (tf_pc (sp ctxt)) = smem st (tf_lr (sp ctxt))
    \<and> smem st3 (tf_r0 (sp ctxt)) = smem st2 (tf_r0 tf) \<and> smem st3 (tf_r1 (sp ctxt)) = smem st2 (tf_r1 tf)
    \<and> map_option (\<lambda>s. (call_chain_signature s, cumulated_size s)) (scb st3)
        = map_option (\<lambda>s. (call_chain_signature s, cumulated_size s)) (scb st)
    \<and> kalloc_rep (henv E) (ka st3) (L2 - {(p, l)})
    \<and> active_stacklet_count st3 = active_stacklet_count st2 - 1"
proof (rule more_stack_result[OF assms(1-3,5) refl assms(4,6)], goal_cases)
  case 1
  then show ?case using assms(7) by simp
next
  case (2 f' k p' l')
  have p': "p' = p" using 2(5) p by (simp add: extended_def)
  have m1: "smem st1 p = stklet_bound (tls ctxt)" "smem st1 (p + 4) = sp ctxt" "smem st1 (p + 12) = f'"
    using 2(5) p' by (auto simp: extended_def)
  have "(q, n) \<noteq> (p', l')" using assms(2) 2(3) by metis
  then have "q \<noteq> p"
    using kalloc_disjoint[OF 2(4), of q n p' l'] kalloc_chunk[OF 2(4), of q n] kalloc_chunk[OF 2(4), of p' l']
      assms(2) p' by auto
  moreover have S: "q \<le> unat (sp ctxt)" "unat (sp ctxt) + 104 \<le> q + n" using assms(3) by (auto simp: on_stacklet_def)
  moreover have b2: "unat (stklet_bound (tls ctxt2)) = p + 128" "smem st2 (p + 4) = sp ctxt" using p kept(1,3) m1 by auto
  ultimately have res: "sp ctxt3 = sp ctxt" "stklet_bound (tls ctxt3) = smem st2 p"
    "kalloc_rep (henv E) (ka st3) (L2 - {(p, l)})" "smem st3 (tf_r0 (sp ctxt)) = smem st2 (tf_r0 tf)"
    "smem st3 (tf_r1 (sp ctxt)) = smem st2 (tf_r1 tf)" "smem st3 (tf_pc (sp ctxt)) = smem st2 (tf_lr (sp ctxt))"
    "scb st3 = map_option (\<lambda>s. s\<lparr>call_chain_signature := word_rotl 1 (call_chain_signature s XOR smem st2 (tf_lr (sp ctxt))),
       cumulated_size := cumulated_size s - smem st2 (p + 12)\<rparr>) (scb st2)"
    "active_stacklet_count st3 = active_stacklet_count st2 - 1"
    using less_stack_result[OF R2(1,2) b2(1) R2(3,4) _ _ _ tf e2] by auto
  have "map_option (\<lambda>s. (call_chain_signature s, cumulated_size s)) (scb st3)
      = map_option (\<lambda>s. (call_chain_signature s, cumulated_size s)) (scb st)"
    using res(7) kept(4,5,6) m1(3) 2(8)
    by (cases "scb st"; cases "scb st1"; cases "scb st2") (auto simp: xor.assoc)
  then show ?case using res kept(2,5) m1 by simp
qed

lemma less_stack_some:
  assumes "ALLOW_DYNAMIC_STACK (conf E)" "initialized (ka st)" "\<not> active (ka st)"
  shows "\<exists>ctxt' st'. less_stack E svc0 tf ctxt st = Some (ctxt', st')"
proof (cases "scb st")
  case None
  then show ?thesis using assms
    by (simp add: less_stack_def Let_def free_impl_def svc0_def kernel_free_def die_if_not_in_svc_or_pendsv_def upd_mem_def)
next
  case (Some s)
  then show ?thesis using assms
    by (simp add: less_stack_def Let_def free_impl_def svc0_def kernel_free_def die_if_not_in_svc_or_pendsv_def upd_mem_def)
qed

theorem less_stack_undoes_more_stack_witness:
  "\<exists>h ctxt1 st1 ctxt3 st3. more_stack env1 svc0 Normal ctxt0 (stk0 0 h) = Some (ctxt1, st1) \<and> sp ctxt1 \<noteq> sp ctxt0
    \<and> less_stack env1 svc0 (sp ctxt1) ctxt1 st1 = Some (ctxt3, st3) \<and> sp ctxt3 = sp ctxt0
    \<and> kalloc_rep env0 (ka st3) {(0x20001108, 1004)}"
proof -
  obtain h fl where h: "heap_ok env0 h [(1008, True), (0x1EB08, False)] fl" "cached h = 0" "heap_start h = 0x20001104"
    "mem h 0x20001318 = 0x20001400" "mem h 0x20001400 = 16" "mem h 0x20001110 = 0" "mem h 0x20001314 = 0x08000101"
    by (rule stk0_heap)
  obtain c1 st1 where m: "more_stack env1 svc0 Normal ctxt0 (stk0 0 h) = Some (c1, st1)" "sp c1 \<noteq> sp ctxt0"
    using stk0_more_stack[OF h] by blast
  have R: "kalloc_rep (henv env1) (ka (stk0 0 h)) {(0x20001108, 1004)}"
    using stk0_rep[OF h(1-3)] by (simp add: env1_def)
  note sz = stk0_sizes[OF h(4,5), of 0]
  have a: "0 = get_stack_arg_size (smem (stk0 0 h)) (smem (stk0 0 h) (tf_pc (sp ctxt0)))" using sz by simp
  obtain f' p l where e: "(p, l) \<notin> {(0x20001108, 1004)}"
    "kalloc_rep (henv env1) (ka st1) (insert (p, l) {(0x20001108, 1004)})"
    "extended env1 f' 0 ctxt0 (smem (stk0 0 h)) p l c1 (smem st1)"
    "\<And>r j w. (r, j) \<in> {(0x20001108 :: nat, 1004 :: nat)} \<Longrightarrow> r \<le> w \<Longrightarrow> w < r + j \<Longrightarrow> w \<noteq> 0x20001108 + 8 \<Longrightarrow> smem st1 w = smem (stk0 0 h) w"
    by (rule more_stack_result[OF R _ stk0_on_stacklet(1) a refl stk0_on_stacklet(2) m(1)]) (use m(2) in auto)
  have x: "unat (stklet_bound (tls c1)) = p + 128" "p \<le> unat (sp c1)" "unat (sp c1) + 104 \<le> p + l"
    using e(3) by (auto simp: extended_def)
  obtain c3 st3 where l: "less_stack env1 svc0 (sp c1) c1 st1 = Some (c3, st3)"
    using less_stack_some[of env1 st1 "sp c1" c1] e(2) by (auto simp: kalloc_rep_def env1_def config0_def)
  have "p \<noteq> 0x20001108" using e(1) kalloc_disjoint[OF e(2), of p l "0x20001108" 1004] kalloc_chunk[OF e(2), of p l] by auto
  moreover have "smem st1 (tf_lr (sp ctxt0)) = smem (stk0 0 h) (tf_lr (sp ctxt0))"
    by (rule e(4)[of "0x20001108" 1004]) (simp_all add: tf_lr_def ctxt0_def)
  ultimately have "sp c3 = sp ctxt0 \<and> kalloc_rep env0 (ka st3) {(0x20001108, 1004)}"
    using less_stack_undoes_more_stack[OF R _ stk0_on_stacklet(1,2) a m x(1) e(2), of l c1 p l "sp c1" svc0 c3 st3] x l m e(1)
    by (auto simp: env1_def)
  then show ?thesis using l m by blast
qed

end
