(* ===== verification/Unw_Table.thy ===== *)
theory Unw_Table
  imports Hopter_Prelude
begin

unbundle bit_operations_syntax

text \<open>
  The exception index and exception table parser, \<open>src/unwind/unw_table.rs\<close>. A byte slice is its
  address with its contents, because a prel31 offset is relative to where it is stored. A slice
  index out of range is a panic. \<open>Result\<close>s with a message are sums with a string on the left.
\<close>

section \<open>Byte slices\<close>

record slice =
  addr :: u32
  bytes :: "u8 list"

definition get8 :: "slice \<Rightarrow> u32 \<Rightarrow> u8 res" where
  "get8 s i = (if unat i < length (bytes s) then Inr (bytes s ! unat i) else Inl Panic)"

definition subslice :: "slice \<Rightarrow> u32 \<Rightarrow> u32 \<Rightarrow> slice res" where
  "subslice s i j =
     (if unat i \<le> unat j \<and> unat j \<le> length (bytes s)
      then Inr \<lparr>addr = addr s + i, bytes = take (unat j - unat i) (drop (unat i) (bytes s))\<rparr>
      else Inl Panic)"

definition tail_slice :: "slice \<Rightarrow> u32 \<Rightarrow> slice res" where
  "tail_slice s i =
     (if unat i \<le> length (bytes s) then Inr \<lparr>addr = addr s + i, bytes = drop (unat i) (bytes s)\<rparr>
      else Inl Panic)"

text \<open>\<open>i32::from_le_bytes\<close>, as the 32 bits it reads.\<close>

fun from_le_bytes :: "u8 list \<Rightarrow> u32" where
  "from_le_bytes [] = 0"
| "from_le_bytes (b # bs) = ucast b OR push_bit 8 (from_le_bytes bs)"

section \<open>Prel31 offsets\<close>

text \<open>The raw bits are an \<open>i32\<close> in the source; here they are the same 32 bits, and the arithmetic
  right shift of \<open>offset_value\<close> is \<open>signed_drop_bit\<close>.\<close>

record prel31 =
  offset_raw :: u32
  self_addr :: u32

definition prel31_from_bytes :: "slice \<Rightarrow> prel31" where
  "prel31_from_bytes s = \<lparr>offset_raw = from_le_bytes (bytes s), self_addr = addr s\<rparr>"

definition offset_value :: "prel31 \<Rightarrow> u32" where
  "offset_value p = signed_drop_bit 1 (push_bit 1 (offset_raw p))"

definition prel31_value :: "prel31 \<Rightarrow> u32" where
  "prel31_value p = self_addr p + offset_value p"

definition prel31_raw :: "prel31 \<Rightarrow> u32" where
  "prel31_raw p = offset_raw p"

definition is_msb_set :: "prel31 \<Rightarrow> bool" where
  "is_msb_set p \<longleftrightarrow> offset_raw p AND 0x80000000 \<noteq> 0"

section \<open>The byte iterator\<close>

record byte_iter =
  iter_bytes :: slice
  pos :: nat

definition byte_iter_from_bytes :: "slice \<Rightarrow> string + byte_iter" where
  "byte_iter_from_bytes s =
     (if length (bytes s) mod 4 \<noteq> 0
      then Inl ''UnwindInstrIter::from_bytes: bytes length not a multiple of 4.''
      else Inr \<lparr>iter_bytes = s, pos = 0\<rparr>)"

definition byte_next :: "byte_iter \<Rightarrow> (u8 option \<times> byte_iter) res" where
  "byte_next it =
     (let bs = bytes (iter_bytes it)
      in if length bs \<le> pos it then Inr (None, it)
         else
           let word_pos = pos it div 4;
               byte_pos = 3 - pos it mod 4
           in if word_pos * 4 + byte_pos < length bs
              then Inr (Some (bs ! (word_pos * 4 + byte_pos)), it\<lparr>pos := pos it + 1\<rparr>)
              else Inl Panic)"

section \<open>Unwind instructions\<close>

datatype unwind_instruction =
    DataPop u32 | DataPush u32 | RegPop u32 | RegToSp u8 | VfpPop u8 u8
  | WregPop | WcgrPop | Finish | Refused | Reserved | Unimplemented | ErrorInstr

definition ERR_MSG :: string where
  "ERR_MSG = ''UnwindInstruction::step_iter: unexpected end of iterator.''"

text \<open>The value of a step is the \<open>Result\<close> the source returns, with the iterator as the step leaves
  it. \<open>need\<close> is \<open>iter.next().ok_or(ERR_MSG)?\<close>.\<close>

type_synonym step_result = "((string + unwind_instruction option) \<times> byte_iter) res"

definition need :: "byte_iter \<Rightarrow> (u8 \<Rightarrow> byte_iter \<Rightarrow> step_result) \<Rightarrow> step_result" where
  "need it k = bindr (byte_next it) (\<lambda>(b, it).
     case b of None \<Rightarrow> Inr (Inl ERR_MSG, it) | Some x \<Rightarrow> k x it)"

text \<open>The loop of the instruction \<open>0xb2\<close>. In the release profile a shift by more than 31 shifts by
  the distance modulo 32. The loop ends because every round consumes a byte.\<close>

function uleb_loop :: "byte_iter \<Rightarrow> u32 \<Rightarrow> nat \<Rightarrow> ((string + u32) \<times> byte_iter) res" where
  "uleb_loop it off sh =
     (case byte_next it of
        Inl e \<Rightarrow> Inl e
      | Inr (None, it) \<Rightarrow> Inr (Inl ERR_MSG, it)
      | Inr (Some byte, it) \<Rightarrow>
          let off = off OR push_bit (sh mod 32) (ucast (byte AND 0x7f))
          in if byte AND 0x80 = 0 then Inr (Inr off, it) else uleb_loop it off (sh + 7))"
  by pat_completeness auto

termination
  by (relation "measure (\<lambda>(it, _, _). length (bytes (iter_bytes it)) - pos it)")
     (auto simp: byte_next_def Let_def split: if_splits)

definition instr :: "unwind_instruction \<Rightarrow> byte_iter \<Rightarrow> step_result" where
  "instr i it = Inr (Inr (Some i), it)"

definition decode_op :: "u8 \<Rightarrow> byte_iter \<Rightarrow> step_result" where
  "decode_op op it =
     (if op AND 0xc0 = 0x00 then instr (DataPop (push_bit 2 (ucast (op AND 0x3f)) + 4)) it
      else if op AND 0xc0 = 0x40 then instr (DataPush (push_bit 2 (ucast (op AND 0x3f)) + 4)) it
      else if op AND 0xf0 = 0x80 then
        need it (\<lambda>op2 it.
          if op = 0x80 \<and> op2 = 0x00 then instr Refused it
          else
            let mask = push_bit 8 (ucast (op AND 0x0f)) OR ucast op2
            in if mask = 0 then instr ErrorInstr it else instr (RegPop (push_bit 4 mask)) it)
      else if op AND 0xf0 = 0x90 then
        (if op = 0x9d \<or> op = 0x9f then instr Reserved it else instr (RegToSp (op AND 0x0f)) it)
      else if op AND 0xf0 = 0xa0 then
        (let end_reg = op AND 0x07;
             mask = push_bit 4 (push_bit (unat (end_reg + 1)) 1 - 1);
             mask = (if op AND 0x08 \<noteq> 0 then mask OR push_bit 14 1 else mask)
         in instr (RegPop mask) it)
      else if op = 0xb0 then instr Finish it
      else if op = 0xb1 then
        need it (\<lambda>op2 it.
          if op2 = 0 \<or> op2 AND 0xf0 \<noteq> 0 then instr Reserved it
          else instr (RegPop (ucast (op2 AND 0x0f))) it)
      else if op = 0xb2 then
        bindr (uleb_loop it 0 0) (\<lambda>(r, it).
          case r of Inl e \<Rightarrow> Inr (Inl e, it) | Inr off \<Rightarrow> instr (DataPop (off * 4 + 0x204)) it)
      else if op = 0xc8 then
        need it (\<lambda>op2 it. instr (VfpPop (drop_bit 4 op2 + 16) ((op2 AND 0x0f) + 1)) it)
      else if op = 0xc9 then
        need it (\<lambda>op2 it. instr (VfpPop (drop_bit 4 op2) ((op2 AND 0x0f) + 1)) it)
      else instr Unimplemented it)"

definition step_iter :: "byte_iter \<Rightarrow> step_result" where
  "step_iter it = bindr (byte_next it) (\<lambda>(b, it).
     case b of None \<Rightarrow> Inr (Inr None, it) | Some op \<Rightarrow> decode_op op it)"

text \<open>\<open>UnwindInstrIter\<close> wraps the byte iterator; an error becomes the \<open>Error\<close> instruction.\<close>

definition instr_next :: "byte_iter \<Rightarrow> (unwind_instruction option \<times> byte_iter) res" where
  "instr_next it = bindr (step_iter it) (\<lambda>(r, it).
     Inr (case r of Inr i \<Rightarrow> i | Inl _ \<Rightarrow> Some ErrorInstr, it))"

section \<open>Index entries\<close>

datatype personality_type = Compact u8 | Generic u32

datatype exidx_content =
    ExTabEntryAddr u32 | CompactEntry personality_type byte_iter | CantUnwind

record exidx_entry =
  func_addr :: u32
  content :: exidx_content

text \<open>\<open>unwrap_or_die\<close> on a \<open>Result\<close>.\<close>

definition unwrap_or_die :: "'e + 'a \<Rightarrow> 'a res" where
  "unwrap_or_die r = (case r of Inl _ \<Rightarrow> Inl Die | Inr x \<Rightarrow> Inr x)"

definition content_from_raw :: "prel31 \<Rightarrow> slice \<Rightarrow> exidx_content res" where
  "content_from_raw p s =
     (if prel31_raw p = 1 then Inr CantUnwind
      else if is_msb_set p then
        let pers_sel = ucast (drop_bit 24 (prel31_raw p AND 0x0f000000))
        in bindr (unwrap_or_die (byte_iter_from_bytes s)) (\<lambda>it.
             bindr (byte_next it) (\<lambda>(_, it). Inr (CompactEntry (Compact pers_sel) it)))
      else Inr (ExTabEntryAddr (prel31_value p)))"

text \<open>The argument is a reference to an array of eight bytes; the halves are the two words.\<close>

definition exidx_from_bytes :: "slice \<Rightarrow> (string + exidx_entry) res" where
  "exidx_from_bytes s =
     bindr (subslice s 0 4) (\<lambda>w0.
     bindr (subslice s 4 8) (\<lambda>w1.
       let func_offset = prel31_from_bytes w0;
           content_prel31 = prel31_from_bytes w1
       in if is_msb_set func_offset then Inr (Inl ''ExIdxEntry::from_bytes: corrupted entry.'')
          else bindr (content_from_raw content_prel31 w1) (\<lambda>c.
                 Inr (Inr \<lparr>func_addr = prel31_value func_offset, content = c\<rparr>))))"

definition can_unwind :: "exidx_entry \<Rightarrow> bool" where
  "can_unwind e = (case content e of ExTabEntryAddr _ \<Rightarrow> True | CompactEntry _ _ \<Rightarrow> True | CantUnwind \<Rightarrow> False)"

definition is_compact :: "exidx_entry \<Rightarrow> bool" where
  "is_compact e = (case content e of CompactEntry _ _ \<Rightarrow> True | _ \<Rightarrow> False)"

definition exidx_unw_instr_iter :: "exidx_entry \<Rightarrow> byte_iter res" where
  "exidx_unw_instr_iter e = (case content e of CompactEntry _ it \<Rightarrow> Inr it | _ \<Rightarrow> Inl Die)"

definition exidx_personality :: "exidx_entry \<Rightarrow> personality_type res" where
  "exidx_personality e = (case content e of CompactEntry p _ \<Rightarrow> Inr p | _ \<Rightarrow> Inl Die)"

definition get_extab_entry_addr :: "exidx_entry \<Rightarrow> u32 res" where
  "get_extab_entry_addr e = (case content e of ExTabEntryAddr a \<Rightarrow> Inr a | _ \<Rightarrow> Inl Die)"

definition get_func_addr :: "exidx_entry \<Rightarrow> u32" where
  "get_func_addr e = func_addr e"

section \<open>Table entries\<close>

record extab_entry =
  personality :: personality_type
  unw_instr_iter :: byte_iter

text \<open>Reading the first bytes of a word that are not instructions: \<open>iter.next()\<close> with the result
  ignored.\<close>

fun skip_bytes :: "nat \<Rightarrow> byte_iter \<Rightarrow> byte_iter res" where
  "skip_bytes 0 it = Inr it"
| "skip_bytes (Suc n) it = bindr (byte_next it) (\<lambda>(_, it). skip_bytes n it)"

definition open_iter :: "slice \<Rightarrow> nat \<Rightarrow> (string + byte_iter) res" where
  "open_iter s n =
     (case byte_iter_from_bytes s of
        Inl e \<Rightarrow> Inr (Inl e)
      | Inr it \<Rightarrow> bindr (skip_bytes n it) (\<lambda>it. Inr (Inr it)))"

definition extab_finish :: "slice \<Rightarrow> personality_type \<Rightarrow> (string + byte_iter) res \<Rightarrow> u32
    \<Rightarrow> (string + extab_entry \<times> slice) res" where
  "extab_finish extab pers r lsda_offset = bindr r (\<lambda>r.
     case r of
       Inl e \<Rightarrow> Inr (Inl e)
     | Inr it \<Rightarrow> bindr (tail_slice extab lsda_offset) (\<lambda>lsda.
         Inr (Inr (\<lparr>personality = pers, unw_instr_iter = it\<rparr>, lsda))))"

definition extab_from_bytes :: "slice \<Rightarrow> u32 \<Rightarrow> (string + extab_entry \<times> slice) res" where
  "extab_from_bytes extab entry_offset =
     (if entry_offset mod 4 \<noteq> 0 then Inr (Inl ''ExTabEntry::from_bytes: offset not multiple of 4.'')
      else bindr (get8 extab (entry_offset + 3)) (\<lambda>raw_pers.
        if raw_pers AND 0x80 = 0x80 then
          let pers_sel = raw_pers AND 0x0f
          in if pers_sel = 1 \<or> pers_sel = 2 then
               bindr (get8 extab (entry_offset + 2)) (\<lambda>b.
                 let extra_word_num = ucast b;
                     lsda_offset = entry_offset + 4 + 4 * extra_word_num
                 in bindr (subslice extab entry_offset lsda_offset) (\<lambda>w.
                      extab_finish extab (Compact pers_sel) (open_iter w 2) lsda_offset))
             else if pers_sel = 0 then
               bindr (subslice extab entry_offset (entry_offset + 4)) (\<lambda>w.
                 extab_finish extab (Compact pers_sel) (open_iter w 1) (entry_offset + 4))
             else Inr (Inl ''ExTabEntry::from_bytes: unexpected compact personality number.'')
        else
          bindr (subslice extab entry_offset (entry_offset + 4)) (\<lambda>w0.
            let pers_offset = prel31_from_bytes w0
            in bindr (get8 extab (entry_offset + 7)) (\<lambda>b.
                 let extra_word_num = ucast b;
                     lsda_offset = entry_offset + 8 + 4 * extra_word_num
                 in bindr (subslice extab (entry_offset + 4) lsda_offset) (\<lambda>w.
                      extab_finish extab (Generic (prel31_value pers_offset)) (open_iter w 1)
                        lsda_offset)))))"

end
