(* ===== verification/Unw_Decode.thy ===== *)
theory Unw_Decode
  imports Unw_Table
begin

unbundle bit_operations_syntax

text \<open>
  Correctness of the table parser: the byte order of the iterator, that decoding never panics and
  always makes progress, that every encodable instruction is decoded to itself, and prel31 offsets.
\<close>

section \<open>Byte order\<close>

text \<open>The order in which Arm stores instruction bytes: words in sequence, each most significant byte
  first.\<close>

fun swap4 :: "u8 list \<Rightarrow> u8 list" where
  "swap4 (a # b # c # d # bs) = d # c # b # a # swap4 bs"
| "swap4 _ = []"

definition iter_ok :: "byte_iter \<Rightarrow> bool" where
  "iter_ok it \<longleftrightarrow> length (bytes (iter_bytes it)) mod 4 = 0 \<and> pos it \<le> length (bytes (iter_bytes it))"

definition rest :: "byte_iter \<Rightarrow> u8 list" where
  "rest it = drop (pos it) (swap4 (bytes (iter_bytes it)))"

lemma swap4_nth:
  "length bs mod 4 = 0 \<Longrightarrow> i < length bs \<Longrightarrow>
     i div 4 * 4 + (3 - i mod 4) < length bs \<and> swap4 bs ! i = bs ! (i div 4 * 4 + (3 - i mod 4))
     \<and> length (swap4 bs) = length bs"
proof (induction bs arbitrary: i rule: swap4.induct)
  case (1 a b c d bs)
  have l: "length bs mod 4 = 0" using "1.prems"(1) by simp
  have len: "length (swap4 bs) = length bs" using "1.IH"[OF l, of 0] by (cases bs) auto
  show ?case
  proof (cases "i < 4")
    case True
    then have "i = 0 \<or> i = 1 \<or> i = 2 \<or> i = 3" by auto
    then show ?thesis by (elim disjE) (simp_all add: len)
  next
    case False
    define j where "j = i - 4"
    have i: "i = Suc (Suc (Suc (Suc j)))" using False by (simp add: j_def)
    have k: "i div 4 * 4 + (3 - i mod 4) = Suc (Suc (Suc (Suc (j div 4 * 4 + (3 - j mod 4)))))"
    proof -
      have "i div 4 = j div 4 + 1" "i mod 4 = j mod 4" unfolding i by presburger+
      moreover have "(q + 1) * 4 + r = Suc (Suc (Suc (Suc (q * 4 + r))))" for q r :: nat by simp
      ultimately show ?thesis by (simp only:)
    qed
    show ?thesis using "1.IH"[OF l, of j] "1.prems"(2) len unfolding k unfolding i by simp
  qed
qed auto

lemma length_swap4: "length bs mod 4 = 0 \<Longrightarrow> length (swap4 bs) = length bs"
  by (induction bs rule: swap4.induct) auto

lemma byte_next_rest:
  assumes "iter_ok it"
  shows "byte_next it = Inr (case rest it of [] \<Rightarrow> (None, it) | b # _ \<Rightarrow> (Some b, it\<lparr>pos := pos it + 1\<rparr>))"
    and "rest it \<noteq> [] \<Longrightarrow> rest (it\<lparr>pos := pos it + 1\<rparr>) = tl (rest it) \<and> iter_ok (it\<lparr>pos := pos it + 1\<rparr>)"
proof -
  let ?bs = "bytes (iter_bytes it)"
  have l: "length ?bs mod 4 = 0" "pos it \<le> length ?bs" using assms by (auto simp: iter_ok_def)
  note len = length_swap4[OF l(1)]
  show "byte_next it = Inr (case rest it of [] \<Rightarrow> (None, it) | b # _ \<Rightarrow> (Some b, it\<lparr>pos := pos it + 1\<rparr>))"
  proof (cases "pos it < length ?bs")
    case True
    then have "rest it = swap4 ?bs ! pos it # drop (Suc (pos it)) (swap4 ?bs)"
      using len by (simp add: rest_def Cons_nth_drop_Suc)
    then show ?thesis using True swap4_nth[OF l(1) True] by (simp add: byte_next_def Let_def)
  next
    case False
    then show ?thesis using len by (simp add: byte_next_def rest_def)
  qed
  show "rest it \<noteq> [] \<Longrightarrow> rest (it\<lparr>pos := pos it + 1\<rparr>) = tl (rest it) \<and> iter_ok (it\<lparr>pos := pos it + 1\<rparr>)"
    using l len by (auto simp: rest_def iter_ok_def tl_drop drop_Suc)
qed

text \<open>Reading from an iterator whose remaining bytes are known.\<close>

definition adv :: "byte_iter \<Rightarrow> byte_iter" where
  "adv it = it\<lparr>pos := pos it + 1\<rparr>"

lemma byte_next_Nil: "iter_ok it \<Longrightarrow> rest it = [] \<Longrightarrow> byte_next it = Inr (None, it)"
  by (simp add: byte_next_rest(1))

lemma byte_next_Cons:
  assumes "iter_ok it" "rest it = b # bs"
  shows "byte_next it = Inr (Some b, adv it)" "iter_ok (adv it)" "rest (adv it) = bs"
  using byte_next_rest[OF assms(1)] assms(2) by (simp_all add: adv_def)

section \<open>Totality and progress\<close>

definition progress :: "byte_iter \<Rightarrow> (('a \<times> byte_iter) res) \<Rightarrow> bool" where
  "progress it r \<longleftrightarrow> (\<exists>x it'. r = Inr (x, it') \<and> iter_ok it' \<and> length (rest it') \<le> length (rest it))"

lemma progressI [intro]: "iter_ok it' \<Longrightarrow> length (rest it') \<le> length (rest it) \<Longrightarrow> progress it (Inr (x, it'))"
  by (auto simp: progress_def)

lemma progress_adv:
  assumes "iter_ok it" "rest it = b # bs" "progress (adv it) r"
  shows "progress it r"
  using assms byte_next_Cons(3)[OF assms(1,2)] by (auto simp: progress_def)

lemma need_progress:
  assumes "iter_ok it" "\<And>x it'. iter_ok it' \<Longrightarrow> progress it' (k x it')"
  shows "progress it (need it k)"
proof (cases "rest it")
  case Nil
  then show ?thesis using assms(1) by (auto simp: need_def byte_next_Nil)
next
  case (Cons b bs)
  note n = byte_next_Cons[OF assms(1) Cons]
  have "progress it (k b (adv it))" by (rule progress_adv[OF assms(1) Cons assms(2)[OF n(2)]])
  then show ?thesis by (simp add: need_def n(1))
qed

lemma uleb_progress: "iter_ok it \<Longrightarrow> progress it (uleb_loop it off sh)"
proof (induction "length (rest it)" arbitrary: it off sh rule: less_induct)
  case less
  show ?case
  proof (cases "rest it")
    case Nil
    then show ?thesis using less.prems by (subst uleb_loop.simps) (auto simp: byte_next_Nil)
  next
    case (Cons b bs)
    note n = byte_next_Cons[OF less.prems Cons]
    have "progress (adv it) (uleb_loop (adv it) x y)" for x y using less.hyps n Cons by simp
    then show ?thesis using n Cons
      by (subst uleb_loop.simps) (auto simp: Let_def intro: progress_adv[OF less.prems Cons])
  qed
qed

lemma instr_progress: "iter_ok it \<Longrightarrow> progress it (instr i it)"
  by (auto simp: instr_def)

lemma progress_if: "progress it x \<Longrightarrow> progress it y \<Longrightarrow> progress it (if b then x else y)"
  by simp

lemma decode_progress: "iter_ok it \<Longrightarrow> progress it (decode_op op it)"
proof -
  assume ok: "iter_ok it"
  have u: "progress it (bindr (uleb_loop it 0 0) (\<lambda>(r, it).
          case r of Inl e \<Rightarrow> Inr (Inl e, it) | Inr off \<Rightarrow> instr (DataPop (off * 4 + 0x204)) it))"
    using uleb_progress[OF ok, of 0 0] by (auto simp: progress_def instr_def split: sum.splits)
  show ?thesis
    unfolding decode_op_def Let_def
    by (intro progress_if need_progress instr_progress ok u) assumption+
qed


section \<open>Prel31\<close>

lemma bit_offset_value:
  "bit (offset_value p) i \<longleftrightarrow> i < 32 \<and> bit (offset_raw p) (min i 30)"
proof -
  have "bit (push_bit 1 (offset_raw p)) j \<longleftrightarrow> 0 < j \<and> j < 32 \<and> bit (offset_raw p) (j - 1)" for j
    by (auto simp only: bit_push_bit_iff possible_bit_word) auto
  then show ?thesis
    unfolding offset_value_def bit_signed_drop_bit_iff by (auto simp: min_def)
qed

text \<open>The 31 low bits of an address difference, with any top bit.\<close>

definition prel31_word :: "bool \<Rightarrow> u32 \<Rightarrow> u32 \<Rightarrow> u32" where
  "prel31_word msb self target = (if msb then 0x80000000 else 0) OR ((target - self) AND 0x7fffffff)"

lemma bit_prel31_word:
  "bit (prel31_word msb self target) i \<longleftrightarrow> (if i = 31 then msb else bit (target - self) i)"
proof -
  have 1: "(0x7fffffff :: u32) = mask 31" by (simp add: mask_eq_exp_minus_1)
  have 2: "(0x80000000 :: u32) = 2 ^ 31" by simp
  show ?thesis unfolding prel31_word_def 1 2
    by (auto simp only: bit_or_iff bit_and_iff bit_mask_iff bit_exp_iff possible_bit_word if_True if_False
        bit_0_eq bot_apply bot_bool_def split: if_splits) (auto dest: bit_imp_le_length)
qed


lemma sign_bits:
  assumes "- (2 ^ 30) \<le> sint (w :: u32)" "sint w < 2 ^ 30"
  shows "bit w 31 = bit w 30"
proof -
  have "sint w div 2 ^ 30 = (if 0 \<le> sint w then 0 else - 1)" "sint w div 2 ^ 31 = (if 0 \<le> sint w then 0 else - 1)"
    using assms by (auto simp: int_div_pos_eq int_div_neg_eq div_pos_pos_trivial intro: div_eq_minus1)
  then have "bit (sint w) 30 = bit (sint w) 31" by (simp add: bit_iff_odd)
  then show ?thesis by (simp add: bit_sint_iff)
qed

lemma prel31_decode:
  assumes "bit (target - self) 31 = bit (target - self) 30"
  shows "prel31_value \<lparr>offset_raw = prel31_word msb self target, self_addr = self\<rparr> = target"
proof -
  have "offset_value \<lparr>offset_raw = prel31_word msb self target, self_addr = self\<rparr> = target - self"
  proof (rule bit_word_eqI)
    fix i assume "i < LENGTH(32)"
    then show "bit (offset_value \<lparr>offset_raw = prel31_word msb self target, self_addr = self\<rparr>) i
        = bit (target - self) i"
      using assms by (cases "i = 31") (auto simp: bit_offset_value bit_prel31_word min_def)
  qed
  then show ?thesis by (simp add: prel31_value_def)
qed

section \<open>ULEB128\<close>

fun uleb128 :: "nat \<Rightarrow> u8 list" where
  "uleb128 n = (if n < 128 then [of_nat n] else of_nat (n mod 128 + 128) # uleb128 (n div 128))"

declare uleb128.simps [simp del]

lemma low7: "list_all (\<lambda>k. (of_nat k :: u8) AND 0x7f = of_nat k \<and> (of_nat (k + 128) :: u8) AND 0x7f = of_nat k
    \<and> (of_nat k :: u8) AND 0x80 = 0 \<and> (of_nat (k + 128) :: u8) AND 0x80 \<noteq> 0) [0..<128]"
  by code_simp

lemma low7_facts:
  assumes "k < 128"
  shows "(of_nat k :: u8) AND 0x7f = of_nat k" "(of_nat (k + 128) :: u8) AND 0x7f = of_nat k"
    "(of_nat k :: u8) AND 0x80 = 0" "(of_nat (k + 128) :: u8) AND 0x80 \<noteq> 0"
    "(ucast (of_nat k :: u8) :: u32) = of_nat k"
proof -
  have "k \<in> set [0..<128]" using assms by simp
  then show "(of_nat k :: u8) AND 0x7f = of_nat k" "(of_nat (k + 128) :: u8) AND 0x7f = of_nat k"
    "(of_nat k :: u8) AND 0x80 = 0" "(of_nat (k + 128) :: u8) AND 0x80 \<noteq> 0"
    using low7 unfolding list_all_iff by blast+
  show "(ucast (of_nat k :: u8) :: u32) = of_nat k"
    using assms by (simp add: unsigned_of_nat take_bit_nat_eq_self)
qed

lemma or_shifted:
  assumes "off < 2 ^ sh" "sh < 32"
  shows "(of_nat off :: u32) OR push_bit sh (of_nat k) = of_nat (off + k * 2 ^ sh)"
proof -
  have "\<not> (bit (of_nat off :: u32) i \<and> bit (push_bit sh (of_nat k) :: u32) i)" for i
  proof
    assume "bit (of_nat off :: u32) i \<and> bit (push_bit sh (of_nat k) :: u32) i"
    then have "bit off i" "sh \<le> i" by (auto simp: bit_push_bit_iff bit_of_nat_iff)
    moreover have "off div 2 ^ i = 0" using assms(1) \<open>sh \<le> i\<close>
      by (meson div_less less_le_trans one_le_numeral power_increasing)
    ultimately show False by (simp add: bit_iff_odd)
  qed
  then have "(of_nat off :: u32) AND push_bit sh (of_nat k) = 0"
    by (intro bit_word_eqI) (simp add: bit_and_iff)
  then have "(of_nat off :: u32) OR push_bit sh (of_nat k) = of_nat off + push_bit sh (of_nat k)"
    by (simp add: disjunctive_add_eq_or)
  then show ?thesis by (simp add: push_bit_eq_mult)
qed

lemma uleb_loop_decodes:
  assumes "iter_ok it" "rest it = uleb128 n @ ts" "off < 2 ^ sh" "sh < 32" "n * 2 ^ sh < 2 ^ 32"
  shows "\<exists>it'. uleb_loop it (of_nat off) sh = Inr (Inr (of_nat (off + n * 2 ^ sh)), it') \<and> iter_ok it' \<and> rest it' = ts"
  using assms
proof (induction n arbitrary: it off sh rule: uleb128.induct)
  case (1 n)
  show ?case
  proof (cases "n < 128")
    case True
    then have r: "rest it = of_nat n # ts" using "1.prems"(2) by (simp add: uleb128.simps)
    show ?thesis
      using byte_next_Cons[OF "1.prems"(1) r] low7_facts[OF True] or_shifted[OF "1.prems"(3,4), of n] "1.prems"(4)
      by (subst uleb_loop.simps) (simp add: Let_def)
  next
    case False
    let ?k = "n mod 128" and ?q = "n div 128"
    have r: "rest it = of_nat (?k + 128) # uleb128 ?q @ ts"
      using "1.prems"(2) False by (subst (asm) uleb128.simps) simp
    note b = byte_next_Cons[OF "1.prems"(1) r] and f = low7_facts[of ?k]
    have "2 ^ (sh + 7) \<le> n * 2 ^ sh" using False by (simp add: power_add)
    then have "(2 :: nat) ^ (sh + 7) < 2 ^ 32" using "1.prems"(5) by simp
    then have sh: "sh + 7 < 32" by (rule power_less_imp_less_exp[rotated]) simp
    have q: "?q * 2 ^ (sh + 7) \<le> n * 2 ^ sh" by (simp add: power_add)
    let ?off = "off + ?k * 2 ^ sh"
    have "off + ?k * 2 ^ sh < 2 ^ sh + 127 * 2 ^ sh"
      using "1.prems"(3) by (intro add_less_le_mono mult_right_mono) simp_all
    then have o7: "?off < 2 ^ (sh + 7)" by (simp add: power_add)
    obtain it' where "uleb_loop (adv it) (of_nat ?off) (sh + 7)
        = Inr (Inr (of_nat (?off + ?q * 2 ^ (sh + 7))), it')" "iter_ok it'" "rest it' = ts"
      using "1.IH"[OF False b(2,3) o7 sh] q "1.prems"(5) by auto
    moreover have "?off + ?q * 2 ^ (sh + 7) = off + n * 2 ^ sh"
      by (simp add: power_add algebra_simps flip: distrib_left)
    ultimately show ?thesis
      using b f or_shifted[OF "1.prems"(3,4), of ?k] "1.prems"(4)
      by (subst uleb_loop.simps) (simp add: Let_def)
  qed
qed


section \<open>Encoding of the instructions\<close>

text \<open>The encodings of the Arm exception handling ABI for the instructions the unwinder applies.\<close>

fun encode_instr :: "unwind_instruction \<Rightarrow> u8 list option" where
  "encode_instr (DataPop sz) =
     (let n = unat sz in
      if 4 dvd n \<and> 4 \<le> n \<and> n \<le> 0x100 then Some [of_nat ((n - 4) div 4)]
      else if 4 dvd n \<and> 0x204 \<le> n then Some (0xb2 # uleb128 ((n - 0x204) div 4)) else None)"
| "encode_instr (DataPush sz) =
     (let n = unat sz in
      if 4 dvd n \<and> 4 \<le> n \<and> n \<le> 0x100 then Some [of_nat (0x40 + (n - 4) div 4)] else None)"
| "encode_instr (RegPop msk) =
     (let n = unat msk in
      if 0 < n \<and> n < 16 then Some [0xb1, of_nat n]
      else if 0 < n \<and> n < 2 ^ 16 \<and> 16 dvd n
      then Some [of_nat (0x80 + n div 16 div 256), of_nat (n div 16 mod 256)] else None)"
| "encode_instr (RegToSp r) =
     (if unat r < 16 \<and> unat r \<noteq> 13 \<and> unat r \<noteq> 15 then Some [of_nat (0x90 + unat r)] else None)"
| "encode_instr Finish = Some [0xb0]"
| "encode_instr Refused = Some [0x80, 0x00]"
| "encode_instr _ = None"

lemma decode_small:
  "list_all (\<lambda>k. (of_nat k :: u8) AND 0xc0 = 0 \<and> (of_nat k :: u8) AND 0x3f = of_nat k
    \<and> (of_nat (0x40 + k) :: u8) AND 0xc0 = 0x40 \<and> (of_nat (0x40 + k) :: u8) AND 0x3f = of_nat k) [0..<64]"
  by code_simp

lemma decode_nibble:
  "list_all (\<lambda>k. (of_nat (0x80 + k) :: u8) AND 0xc0 = 0x80 \<and> (of_nat (0x80 + k) :: u8) AND 0xf0 = 0x80
    \<and> (of_nat (0x80 + k) :: u8) AND 0x0f = of_nat k \<and> (of_nat k :: u8) AND 0xf0 = 0
    \<and> (of_nat k :: u8) AND 0x0f = of_nat k
    \<and> (of_nat (0x90 + k) :: u8) AND 0xc0 = 0x80 \<and> (of_nat (0x90 + k) :: u8) AND 0xf0 = 0x90
    \<and> (of_nat (0x90 + k) :: u8) AND 0x0f = of_nat k \<and> (of_nat (0x80 + k) = (0x80 :: u8)) = (k = 0)
    \<and> ((of_nat (0x90 + k) :: u8) = 0x9d) = (k = 13) \<and> ((of_nat (0x90 + k) :: u8) = 0x9f) = (k = 15)
    \<and> ((of_nat k :: u8) = 0) = (k = 0)) [0..<16]"
  by code_simp

lemma decode_smallD:
  assumes "k < 64"
  shows "(of_nat k :: u8) AND 0xc0 = 0" "(of_nat k :: u8) AND 0x3f = of_nat k"
    "(of_nat (0x40 + k) :: u8) AND 0xc0 = 0x40" "(of_nat (0x40 + k) :: u8) AND 0x3f = of_nat k"
    "(ucast (of_nat k :: u8) :: u32) = of_nat k"
proof -
  have "k \<in> set [0..<64]" using assms by simp
  then show "(of_nat k :: u8) AND 0xc0 = 0" "(of_nat k :: u8) AND 0x3f = of_nat k"
    "(of_nat (0x40 + k) :: u8) AND 0xc0 = 0x40" "(of_nat (0x40 + k) :: u8) AND 0x3f = of_nat k"
    using decode_small unfolding list_all_iff by blast+
  show "(ucast (of_nat k :: u8) :: u32) = of_nat k" using low7_facts(5)[of k] assms by simp
qed

text \<open>One decoded instruction: its bytes are consumed and the following ones are left.\<close>

definition decodes :: "byte_iter \<Rightarrow> unwind_instruction \<Rightarrow> u8 list \<Rightarrow> bool" where
  "decodes it i ts \<longleftrightarrow> (\<exists>it'. step_iter it = Inr (Inr (Some i), it') \<and> iter_ok it' \<and> rest it' = ts)"

lemma step_iter_Cons:
  assumes "iter_ok it" "rest it = op # bs"
  shows "step_iter it = decode_op op (adv it)"
  using byte_next_Cons[OF assms] by (simp add: step_iter_def)

lemma decodes_data:
  assumes "iter_ok it" "k < 64"
  shows "rest it = of_nat k # ts \<Longrightarrow> decodes it (DataPop (of_nat (4 * k + 4))) ts"
    and "rest it = of_nat (0x40 + k) # ts \<Longrightarrow> decodes it (DataPush (of_nat (4 * k + 4))) ts"
proof -
  note d = decode_smallD[OF assms(2)]
  have p: "push_bit 2 (of_nat k :: u32) + 4 = of_nat (4 * k + 4)" by (simp add: push_bit_eq_mult)
  { assume r: "rest it = of_nat k # ts"
    show "decodes it (DataPop (of_nat (4 * k + 4))) ts"
      using d p step_iter_Cons[OF assms(1) r] byte_next_Cons[OF assms(1) r]
      unfolding decodes_def by (simp add: decode_op_def instr_def) }
  assume r: "rest it = of_nat (0x40 + k) # ts"
  show "decodes it (DataPush (of_nat (4 * k + 4))) ts"
    using d(3,4,5) p step_iter_Cons[OF assms(1) r] byte_next_Cons[OF assms(1) r]
    unfolding decodes_def by (simp add: decode_op_def instr_def)
qed


lemma decodes_uleb:
  assumes "iter_ok it" "rest it = 0xb2 # uleb128 n @ ts" "n < 2 ^ 32"
  shows "decodes it (DataPop (of_nat (n * 4 + 0x204))) ts"
proof -
  note b = byte_next_Cons[OF assms(1,2)]
  obtain it' where "uleb_loop (adv it) 0 0 = Inr (Inr (of_nat n), it')" "iter_ok it'" "rest it' = ts"
    using uleb_loop_decodes[OF b(2,3), of 0 0] assms(3) by auto
  then show ?thesis
    using step_iter_Cons[OF assms(1,2)] unfolding decodes_def by (simp add: decode_op_def instr_def)
qed

lemma decode_nibbleD:
  assumes "k < 16"
  shows "(of_nat (0x80 + k) :: u8) AND 0xc0 = 0x80" "(of_nat (0x80 + k) :: u8) AND 0xf0 = 0x80"
    "(of_nat (0x80 + k) :: u8) AND 0x0f = of_nat k" "(of_nat k :: u8) AND 0xf0 = 0"
    "(of_nat k :: u8) AND 0x0f = of_nat k"
    "(of_nat (0x90 + k) :: u8) AND 0xc0 = 0x80" "(of_nat (0x90 + k) :: u8) AND 0xf0 = 0x90"
    "(of_nat (0x90 + k) :: u8) AND 0x0f = of_nat k" "(of_nat (0x80 + k) = (0x80 :: u8)) = (k = 0)"
    "((of_nat (0x90 + k) :: u8) = 0x9d) = (k = 13)" "((of_nat (0x90 + k) :: u8) = 0x9f) = (k = 15)"
    "((of_nat k :: u8) = 0) = (k = 0)" "(ucast (of_nat k :: u8) :: u32) = of_nat k"
proof -
  have "k \<in> set [0..<16]" using assms by simp
  then show "(of_nat (0x80 + k) :: u8) AND 0xc0 = 0x80" "(of_nat (0x80 + k) :: u8) AND 0xf0 = 0x80"
    "(of_nat (0x80 + k) :: u8) AND 0x0f = of_nat k" "(of_nat k :: u8) AND 0xf0 = 0"
    "(of_nat k :: u8) AND 0x0f = of_nat k"
    "(of_nat (0x90 + k) :: u8) AND 0xc0 = 0x80" "(of_nat (0x90 + k) :: u8) AND 0xf0 = 0x90"
    "(of_nat (0x90 + k) :: u8) AND 0x0f = of_nat k" "(of_nat (0x80 + k) = (0x80 :: u8)) = (k = 0)"
    "((of_nat (0x90 + k) :: u8) = 0x9d) = (k = 13)" "((of_nat (0x90 + k) :: u8) = 0x9f) = (k = 15)"
    "((of_nat k :: u8) = 0) = (k = 0)"
    using decode_nibble unfolding list_all_iff by blast+
  show "(ucast (of_nat k :: u8) :: u32) = of_nat k" using low7_facts(5)[of k] assms by simp
qed

lemma decodes_reg_to_sp:
  assumes "iter_ok it" "k < 16" "k \<noteq> 13" "k \<noteq> 15" "rest it = of_nat (0x90 + k) # ts"
  shows "decodes it (RegToSp (of_nat k)) ts"
  using decode_nibbleD(6-11)[OF assms(2)] assms(3,4) step_iter_Cons[OF assms(1,5)] byte_next_Cons[OF assms(1,5)]
  unfolding decodes_def by (simp add: decode_op_def instr_def)

lemma decodes_pop_low:
  assumes "iter_ok it" "k < 16" "0 < k" "rest it = 0xb1 # of_nat k # ts"
  shows "decodes it (RegPop (of_nat k)) ts"
proof -
  note b = byte_next_Cons[OF assms(1,4)] note c = byte_next_Cons[OF b(2,3)]
  show ?thesis
    using decode_nibbleD(4,5,12,13)[OF assms(2)] assms(3) step_iter_Cons[OF assms(1,4)] b c
    unfolding decodes_def by (simp add: decode_op_def instr_def need_def)
qed

lemma decodes_pop_high:
  assumes "iter_ok it" "hi < 16" "lo < 256" "0 < hi + lo" "rest it = of_nat (0x80 + hi) # of_nat lo # ts"
  shows "decodes it (RegPop (of_nat ((hi * 256 + lo) * 16))) ts"
proof -
  note b = byte_next_Cons[OF assms(1,5)] note c = byte_next_Cons[OF b(2,3)]
  note d = decode_nibbleD[OF assms(2)]
  have lo: "(ucast (of_nat lo :: u8) :: u32) = of_nat lo" "((of_nat lo :: u8) = 0) = (lo = 0)"
    using assms(3) by (simp_all add: unsigned_of_nat take_bit_nat_eq_self word_of_nat_eq_0_iff) (auto dest: dvd_imp_le)
  have m: "push_bit 8 (of_nat hi) OR of_nat lo = (of_nat (lo + hi * 256) :: u32)"
    using or_shifted[of lo 8 hi] assms(3) by (simp add: or.commute)
  have "(of_nat (lo + hi * 256) :: u32) \<noteq> 0"
    using assms(2-4) by (simp add: word_of_nat_eq_0_iff del: of_nat_add of_nat_mult) (auto dest: dvd_imp_le)
  moreover have "push_bit 4 (of_nat (lo + hi * 256)) = (of_nat ((hi * 256 + lo) * 16) :: u32)"
    by (simp add: push_bit_eq_mult algebra_simps)
  ultimately show ?thesis
    using d lo m assms(4) step_iter_Cons[OF assms(1,5)] b c
    unfolding decodes_def by (simp add: decode_op_def instr_def need_def Let_def)
qed


section \<open>Properties of the instruction decoder\<close>

lemma decode_not_None: "decode_op op it \<noteq> Inr (Inr None, it')"
proof -
  have i: "instr i jt \<noteq> Inr (Inr None, it')" for i jt by (simp add: instr_def)
  have n: "need jt k \<noteq> Inr (Inr None, it')" if "\<And>x kt. k x kt \<noteq> Inr (Inr None, it')" for jt k
    using that by (auto simp: need_def bindr_Inr split: option.splits)
  have u: "bindr (uleb_loop it 0 0) (\<lambda>(r, it).
          case r of Inl e \<Rightarrow> Inr (Inl e, it) | Inr off \<Rightarrow> instr (DataPop (off * 4 + 0x204)) it) \<noteq> Inr (Inr None, it')"
    by (auto simp: bindr_Inr instr_def split: sum.splits)
  have if_ne: "x \<noteq> z \<Longrightarrow> y \<noteq> z \<Longrightarrow> (if b then x else y) \<noteq> z" for b and x y z :: step_result by simp
  show ?thesis unfolding decode_op_def Let_def by (intro if_ne i n u)
qed

lemma step_iter_progress:
  assumes "iter_ok it" "rest it = b # bs"
  shows "\<exists>r it'. step_iter it = Inr (r, it') \<and> iter_ok it' \<and> length (rest it') < length (rest it) \<and> r \<noteq> Inr None"
proof -
  obtain r it' where *: "decode_op b (adv it) = Inr (r, it')" "iter_ok it'" "length (rest it') \<le> length bs"
    using decode_progress[OF byte_next_Cons(2)[OF assms], of b] byte_next_Cons(3)[OF assms]
    by (auto simp: progress_def)
  then have "r \<noteq> Inr None" using decode_not_None by metis
  then show ?thesis using * step_iter_Cons[OF assms] assms(2) by simp
qed

text \<open>A slice of a table, as the parser opens it.\<close>

definition iter_of :: "u8 list \<Rightarrow> byte_iter" where
  "iter_of bs = \<lparr>iter_bytes = \<lparr>addr = 0, bytes = bs\<rparr>, pos = 0\<rparr>"

text \<open>C10. On the bytes of any table whose length is a multiple of 4 the decoder never indexes out of
  range: at the end it yields nothing, and before the end it yields an instruction or an error and
  consumes at least one byte, so that the iteration over the instructions of a function ends.\<close>

theorem unwind_decode_total:
  assumes "iter_ok it"
  shows "\<exists>r it'. step_iter it = Inr (r, it') \<and> iter_ok it' \<and> (r = Inr None \<longleftrightarrow> rest it = [])
    \<and> (rest it \<noteq> [] \<longrightarrow> length (rest it') < length (rest it))"
proof (cases "rest it")
  case Nil
  then show ?thesis using assms byte_next_Nil[OF assms] by (simp add: step_iter_def)
next
  case (Cons b bs)
  then show ?thesis using step_iter_progress[OF assms Cons] by auto
qed

theorem unwind_decode_total_witness:
  "\<exists>r it'. step_iter (iter_of [0xb0, 0xb0, 0x84, 0x80]) = Inr (r, it') \<and> r \<noteq> Inr None"
proof -
  have "rest (iter_of [0xb0, 0xb0, 0x84, 0x80]) \<noteq> []" by (simp add: rest_def iter_of_def)
  then show ?thesis
    using unwind_decode_total[of "iter_of [0xb0, 0xb0, 0x84, 0x80]"] by (auto simp: iter_ok_def iter_of_def)
qed

lemma encode_decodes:
  assumes ok: "iter_ok it" and e: "encode_instr i = Some bs" and r: "rest it = bs @ ts"
  shows "decodes it i ts"
  using e
proof (cases i)
  case (DataPop sz)
  let ?n = "unat sz"
  have n32: "?n < 2 ^ 32" using unsigned_less[of sz, where ?'a = nat] by simp
  consider (small) "4 dvd ?n" "4 \<le> ?n" "?n \<le> 0x100" "bs = [of_nat ((?n - 4) div 4)]"
    | (large) "4 dvd ?n" "0x204 \<le> ?n" "bs = 0xb2 # uleb128 ((?n - 0x204) div 4)"
    using e DataPop by (auto simp: Let_def split: if_splits)
  then show ?thesis
  proof cases
    case small
    then have "4 * ((?n - 4) div 4) + 4 = ?n" by auto
    then show ?thesis using decodes_data(1)[OF ok, of "(?n - 4) div 4" ts] small r DataPop by simp
  next
    case large
    have "4 dvd ?n - 0x204" by (rule dvd_diff_nat) (use large in simp_all)
    then have "(?n - 0x204) div 4 * 4 + 0x204 = ?n" using large by simp
    then have "DataPop (of_nat ((?n - 0x204) div 4 * 4 + 0x204)) = i" using DataPop by simp
    then show ?thesis using decodes_uleb[OF ok, of "(?n - 0x204) div 4" ts] large r n32 by simp
  qed
next
  case (DataPush sz)
  then have s: "4 dvd unat sz" "4 \<le> unat sz" "unat sz \<le> 0x100" "bs = [of_nat (0x40 + (unat sz - 4) div 4)]"
    using e by (auto simp: Let_def split: if_splits)
  then have "4 * ((unat sz - 4) div 4) + 4 = unat sz" by auto
  then show ?thesis using decodes_data(2)[OF ok, of "(unat sz - 4) div 4" ts] s r DataPush by simp
next
  case (RegPop m)
  let ?n = "unat m"
  consider (low) "0 < ?n" "?n < 16" "bs = [0xb1, of_nat ?n]"
    | (high) "0 < ?n" "?n < 2 ^ 16" "16 dvd ?n"
        "bs = [of_nat (0x80 + ?n div 16 div 256), of_nat (?n div 16 mod 256)]"
    using e RegPop by (auto simp: Let_def split: if_splits)
  then show ?thesis
  proof cases
    case low
    then show ?thesis using decodes_pop_low[OF ok, of ?n ts] r RegPop by simp
  next
    case high
    let ?q = "?n div 16"
    have "?q div 256 < 16" using high(2) by simp
    moreover have "0 < ?q div 256 + ?q mod 256" using high(1,3) by (auto elim!: dvdE)
    moreover have "(?q div 256 * 256 + ?q mod 256) * 16 = ?n" using high(3) by simp
    ultimately show ?thesis
      using decodes_pop_high[OF ok, of "?q div 256" "?q mod 256" ts] high(4) r RegPop by simp
  qed
next
  case (RegToSp k)
  then have "unat k < 16" "unat k \<noteq> 13" "unat k \<noteq> 15" "bs = [of_nat (0x90 + unat k)]"
    using e by (auto split: if_splits)
  then show ?thesis using decodes_reg_to_sp[OF ok, of "unat k" ts] r RegToSp by simp
next
  case Finish
  then have b: "rest it = 0xb0 # ts" using e r by simp
  show ?thesis using Finish step_iter_Cons[OF ok b] byte_next_Cons[OF ok b]
    unfolding decodes_def by (simp add: decode_op_def instr_def)
next
  case Refused
  then have b: "rest it = 0x80 # 0x00 # ts" using e r by simp
  note c = byte_next_Cons[OF ok b] note d = byte_next_Cons[OF c(2,3)]
  show ?thesis using Refused step_iter_Cons[OF ok b] c d
    unfolding decodes_def by (simp add: decode_op_def instr_def need_def)
qed auto

text \<open>A prel31 word written for a target within 1 GiB of it is read back as that target,
  whatever its top bit holds, and the top bit is read back too.\<close>

lemma prel31_roundtrip:
  assumes "- (2 ^ 30) \<le> sint (target - self)" "sint (target - self) < 2 ^ 30"
    and "p = \<lparr>offset_raw = prel31_word msb self target, self_addr = self\<rparr>"
  shows "prel31_value p = target \<and> is_msb_set p = msb"
proof -
  have "is_msb_set p \<longleftrightarrow> bit (offset_raw p) 31"
    using and_exp_eq_0_iff_not_bit[of "offset_raw p" 31] by (simp add: is_msb_set_def)
  then show ?thesis
    using prel31_decode[OF sign_bits[OF assms(1,2)]] assms(3) by (simp add: bit_prel31_word)
qed

section \<open>Index and table entries\<close>

definition to_le_bytes :: "u32 \<Rightarrow> u8 list" where
  "to_le_bytes w = [ucast w, ucast (drop_bit 8 w), ucast (drop_bit 16 w), ucast (drop_bit 24 w)]"

lemma le_roundtrip: "from_le_bytes (to_le_bytes w) = w"
proof (rule bit_word_eqI)
  fix i assume "i < LENGTH(32)"
  then consider "i < 8" | "8 \<le> i" "i < 16" | "16 \<le> i" "i < 24" | "24 \<le> i" "i < 32" by fastforce
  then show "bit (from_le_bytes (to_le_bytes w)) i = bit w i"
    by cases (auto simp: to_le_bytes_def bit_or_iff bit_push_bit_iff bit_ucast_iff bit_drop_bit_eq possible_bit_word)
qed

lemma length_le [simp]: "length (to_le_bytes w) = 4"
  by (simp add: to_le_bytes_def)

lemma subslice_append:
  assumes "bytes s = xs @ ys @ zs" "unat i = length xs" "unat j = length xs + length ys"
  shows "subslice s i j = Inr \<lparr>addr = addr s + i, bytes = ys\<rparr>"
  using assms by (simp add: subslice_def)

lemma get8_append:
  assumes "bytes s = xs @ b # zs" "unat i = length xs"
  shows "get8 s i = Inr b"
  using assms by (simp add: get8_def nth_append)

text \<open>Opening an instruction sequence: the bytes that are not instructions are skipped.\<close>

lemma open_iter_ok:
  assumes "length bs mod 4 = 0" "n \<le> length bs"
  shows "\<exists>it. open_iter \<lparr>addr = a, bytes = bs\<rparr> n = Inr (Inr it) \<and> iter_ok it \<and> rest it = drop n (swap4 bs)"
proof -
  have "\<exists>it'. skip_bytes n it = Inr it' \<and> iter_ok it' \<and> rest it' = drop n (rest it)"
    if "iter_ok it" "n \<le> length (rest it)" for n it
    using that
  proof (induction n arbitrary: it)
    case (Suc n)
    then obtain b bs where r: "rest it = b # bs" by (cases "rest it") auto
    note c = byte_next_Cons[OF Suc.prems(1) r]
    show ?case using Suc.IH[OF c(2)] Suc.prems(2) r c by auto
  qed simp
  from this[of "\<lparr>iter_bytes = \<lparr>addr = a, bytes = bs\<rparr>, pos = 0\<rparr>" n] show ?thesis
    using assms by (auto simp: open_iter_def byte_iter_from_bytes_def iter_ok_def rest_def length_swap4)
qed

lemma exidx_words:
  assumes "bytes s = to_le_bytes w0 @ to_le_bytes w1"
  shows "subslice s 0 4 = Inr \<lparr>addr = addr s, bytes = to_le_bytes w0\<rparr>"
    "subslice s 4 8 = Inr \<lparr>addr = addr s + 4, bytes = to_le_bytes w1\<rparr>"
  using subslice_append[of s "[]" "to_le_bytes w0" "to_le_bytes w1" 0 4]
    subslice_append[of s "to_le_bytes w0" "to_le_bytes w1" "[]" 4 8] assms by simp_all

lemma msb_word: "is_msb_set \<lparr>offset_raw = w, self_addr = a\<rparr> \<longleftrightarrow> bit w 31"
  using and_exp_eq_0_iff_not_bit[of w 31] by (simp add: is_msb_set_def)

lemma compact_content:
  assumes "bit w 31" "w \<noteq> 1"
  shows "\<exists>it. content_from_raw \<lparr>offset_raw = w, self_addr = a\<rparr> \<lparr>addr = a, bytes = to_le_bytes w\<rparr>
      = Inr (CompactEntry (Compact (ucast (drop_bit 24 (w AND 0x0f000000)))) it)
    \<and> iter_ok it \<and> rest it = [ucast (drop_bit 16 w), ucast (drop_bit 8 w), ucast w]"
proof -
  let ?it = "\<lparr>iter_bytes = \<lparr>addr = a, bytes = to_le_bytes w\<rparr>, pos = 0\<rparr>"
  have ok: "iter_ok ?it" by (simp add: iter_ok_def)
  have r: "rest ?it = ucast (drop_bit 24 w) # [ucast (drop_bit 16 w), ucast (drop_bit 8 w), ucast w]"
    by (simp add: rest_def to_le_bytes_def)
  show ?thesis
    using byte_next_Cons[OF ok r] assms msb_word[of w a]
    by (simp add: content_from_raw_def prel31_raw_def unwrap_or_die_def byte_iter_from_bytes_def)
qed

text \<open>An index entry is classified by its second word as the ABI prescribes: the word 1 marks a
  function that cannot be unwound, a set top bit an inline entry whose three low bytes are its
  instructions in order, and anything else is the address of a table entry. The function address
  is the target of the first word. An entry whose first word has its top bit set is an error.\<close>

lemma exidx_entry_decode:
  assumes b: "bytes s = to_le_bytes (prel31_word msb (addr s) f) @ to_le_bytes w"
    and f: "- (2 ^ 30) \<le> sint (f - addr s)" "sint (f - addr s) < 2 ^ 30"
  shows "if msb then exidx_from_bytes s = Inr (Inl ''ExIdxEntry::from_bytes: corrupted entry.'')
    else \<exists>e. exidx_from_bytes s = Inr (Inr e) \<and> get_func_addr e = f
      \<and> (can_unwind e \<longleftrightarrow> w \<noteq> 1) \<and> (is_compact e \<longleftrightarrow> w \<noteq> 1 \<and> bit w 31)
      \<and> (w \<noteq> 1 \<longrightarrow> bit w 31 \<longrightarrow> (\<exists>it. exidx_unw_instr_iter e = Inr it \<and> iter_ok it
            \<and> rest it = [ucast (drop_bit 16 w), ucast (drop_bit 8 w), ucast w]))
      \<and> (w \<noteq> 1 \<longrightarrow> \<not> bit w 31 \<longrightarrow>
            get_extab_entry_addr e = Inr (prel31_value \<lparr>offset_raw = w, self_addr = addr s + 4\<rparr>))"
proof -
  let ?p0 = "\<lparr>offset_raw = prel31_word msb (addr s) f, self_addr = addr s\<rparr>"
  let ?p1 = "\<lparr>offset_raw = w, self_addr = addr s + 4\<rparr>"
  have v: "prel31_value \<lparr>offset_raw = prel31_word b (addr s) f, self_addr = addr s\<rparr> = f" for b
    by (rule prel31_decode[OF sign_bits[OF f]])
  have m: "is_msb_set ?p0 = msb" unfolding msb_word by (simp add: bit_prel31_word)
  have E: "exidx_from_bytes s = (if msb then Inr (Inl ''ExIdxEntry::from_bytes: corrupted entry.'')
      else bindr (content_from_raw ?p1 \<lparr>addr = addr s + 4, bytes = to_le_bytes w\<rparr>) (\<lambda>c.
        Inr (Inr \<lparr>func_addr = f, content = c\<rparr>)))"
    using m v by (simp add: exidx_from_bytes_def exidx_words[OF b] prel31_from_bytes_def le_roundtrip)
  show ?thesis
  proof (cases "w \<noteq> 1 \<and> bit w 31")
    case True
    then show ?thesis using E compact_content[of w "addr s + 4"]
      by (auto simp: get_func_addr_def can_unwind_def is_compact_def exidx_unw_instr_iter_def)
  next
    case False
    then show ?thesis
      using E msb_word[of w "addr s + 4"]
      by (auto simp: content_from_raw_def prel31_raw_def get_func_addr_def can_unwind_def is_compact_def
          get_extab_entry_addr_def)
  qed
qed

lemma top_byte: "(ucast (drop_bit 24 w) :: u8) AND 0x80 = 0x80 \<longleftrightarrow> bit (w :: u32) 31"
proof -
  have e: "(0x80 :: u8) = push_bit 7 1" by simp
  have "x AND 0x80 = 0x80 \<longleftrightarrow> bit x 7" for x :: u8
  proof
    assume "x AND 0x80 = 0x80"
    then have "bit (x AND 0x80) 7" by simp
    then show "bit x 7" by (simp add: bit_and_iff)
  next
    assume b: "bit x 7"
    have "bit (x AND push_bit 7 1) n = bit (push_bit 7 1 :: u8) n" if "n < 8" for n
      unfolding bit_and_iff bit_push_bit_iff bit_1_iff possible_bit_word using b that by (cases "n = 7") auto
    then show "x AND 0x80 = 0x80" unfolding e by (intro bit_word_eqI) simp
  qed
  then show ?thesis by (simp add: bit_ucast_iff bit_drop_bit_eq)
qed

text \<open>A generic table entry: the personality routine is the target of the first word, the top
  byte of the second word counts the further instruction words, the remaining bytes are the
  instructions in order, and the language specific data starts right behind them.\<close>

lemma extab_entry_decode:
  assumes b: "bytes extab = pre @ to_le_bytes pw @ ws @ post"
    and off: "length pre = unat off" "off mod 4 = 0" and pw: "\<not> bit pw 31"
    and ws: "length ws = 4 * (k + 1)" "ws ! 3 = of_nat k" "k < 256"
    and len: "length (bytes extab) < 2 ^ 32"
  shows "\<exists>it. extab_from_bytes extab off = Inr (Inr
      (\<lparr>personality = Generic (prel31_value \<lparr>offset_raw = pw, self_addr = addr extab + off\<rparr>),
        unw_instr_iter = it\<rparr>,
       \<lparr>addr = addr extab + (off + of_nat (8 + 4 * k)), bytes = post\<rparr>))
    \<and> iter_ok it \<and> rest it = tl (swap4 ws)"
proof -
  let ?p = "unat off"
  have L: "?p + 8 + 4 * k + length post < 2 ^ 32" using b off(1) ws(1) len by simp
  have u: "unat (off + of_nat n) = ?p + n" if "?p + n < 2 ^ 32" for n
    using that by (simp add: unat_word_ariths unat_of_nat mod_add_right_eq)
  have u3: "unat (off + 3) = ?p + 3" "unat (off + 4) = ?p + 4" "unat (off + 7) = ?p + 7"
    "unat (off + of_nat (8 + 4 * k)) = ?p + (8 + 4 * k)"
    using u[of 3] u[of 4] u[of 7] u[of "8 + 4 * k"] L by simp_all
  obtain b0 b1 b2 where pwb: "to_le_bytes pw = [b0, b1, b2] @ [ucast (drop_bit 24 pw)]"
    by (simp add: to_le_bytes_def)
  have g3: "get8 extab (off + 3) = Inr (ucast (drop_bit 24 pw))"
    by (rule get8_append[of _ "pre @ [b0, b1, b2]" _ "ws @ post"]) (use b off(1) u3 pwb in simp_all)
  obtain w0 w1 w2 ws' where wsb: "ws = w0 # w1 # w2 # of_nat k # ws'"
    using ws(1,2) by (cases ws; cases "tl ws"; cases "tl (tl ws)"; cases "tl (tl (tl ws))") auto
  have g7: "get8 extab (off + 7) = Inr (of_nat k)"
    by (rule get8_append[of _ "pre @ to_le_bytes pw @ [w0, w1, w2]" _ "ws' @ post"])
       (use b off(1) u3 wsb in simp_all)
  have s0: "subslice extab off (off + 4) = Inr \<lparr>addr = addr extab + off, bytes = to_le_bytes pw\<rparr>"
    by (rule subslice_append[of _ pre _ "ws @ post"]) (use b off(1) u3 in simp_all)
  have lo: "off + 8 + 4 * ucast (of_nat k :: u8) = off + of_nat (8 + 4 * k)"
    using ws(3) by (simp add: unsigned_of_nat take_bit_nat_eq_self algebra_simps)
  have s1: "subslice extab (off + 4) (off + of_nat (8 + 4 * k)) = Inr \<lparr>addr = addr extab + (off + 4), bytes = ws\<rparr>"
    by (rule subslice_append[of _ "pre @ to_le_bytes pw" _ post]) (use b off(1) u3 ws(1) in simp_all)
  obtain it where it: "open_iter \<lparr>addr = addr extab + (off + 4), bytes = ws\<rparr> 1 = Inr (Inr it)" "iter_ok it"
      "rest it = drop 1 (swap4 ws)"
    using open_iter_ok[of ws 1] ws(1) by auto
  have t: "tail_slice extab (off + of_nat (8 + 4 * k))
      = Inr \<lparr>addr = addr extab + (off + of_nat (8 + 4 * k)), bytes = post\<rparr>"
    using u3(4) b off(1) ws(1) by (simp add: tail_slice_def)
  show ?thesis
    using g3 g7 s0 s1 it t off(2) pw top_byte[of pw]
    by (simp add: extab_from_bytes_def Let_def lo extab_finish_def prel31_from_bytes_def le_roundtrip drop_Suc
        del: of_nat_add of_nat_mult)
qed

end
