(* ===== verification/Task_Priority.thy ===== *)
theory Task_Priority
  imports Hopter_Prelude
begin

text \<open>
  Task priorities, \<open>src/task/priority.rs\<close>. Smaller numbers are higher priorities. The variant
  \<open>_Padding\<close> of the source only fixes the size and alignment of the enum; the module never builds
  it and hides the constructors, so it has no counterpart here.
\<close>

datatype task_priority = Intrinsic u8 | Inherited (inherited: u8) (intrinsic: u8)

fun effective_priority :: "task_priority \<Rightarrow> u8" where
  "effective_priority (Intrinsic prio) = prio"
| "effective_priority (Inherited inh intr) = inh"

fun intrinsic_priority :: "task_priority \<Rightarrow> u8" where
  "intrinsic_priority (Intrinsic prio) = prio"
| "intrinsic_priority (Inherited inh intr) = intr"

text \<open>\<open>Err(())\<close> is \<open>None\<close>.\<close>

definition try_inherit_from :: "task_priority \<Rightarrow> task_priority \<Rightarrow> task_priority option" where
  "try_inherit_from this other =
     (if effective_priority this \<le> effective_priority other then None
      else Some (Inherited (effective_priority other) (intrinsic_priority this)))"

definition new_intrinsic :: "u8 \<Rightarrow> task_priority" where
  "new_intrinsic prio = Intrinsic prio"

definition restore_intrinsic :: "task_priority \<Rightarrow> task_priority" where
  "restore_intrinsic this = new_intrinsic (intrinsic_priority this)"

fun change_intrinsic :: "task_priority \<Rightarrow> u8 \<Rightarrow> task_priority" where
  "change_intrinsic (Intrinsic _) prio = Intrinsic prio"
| "change_intrinsic (Inherited inh _) prio = (if inh < prio then Inherited inh prio else Intrinsic prio)"

text \<open>\<open>PartialOrd\<close> and \<open>Ord\<close> compare effective priorities. \<open>unwrap_or_die\<close> of a missing
  result ends the kernel; lemma \<open>prio_cmp_total\<close> below shows that it never does.\<close>

definition prio_partial_cmp :: "task_priority \<Rightarrow> task_priority \<Rightarrow> cmp_ordering option" where
  "prio_partial_cmp this other = Some (word_cmp (effective_priority this) (effective_priority other))"

definition prio_cmp :: "task_priority \<Rightarrow> task_priority \<Rightarrow> cmp_ordering res" where
  "prio_cmp this other = (case prio_partial_cmp this other of None \<Rightarrow> Inl Die | Some c \<Rightarrow> Inr c)"

text \<open>The operators \<open>\<le>\<close> and \<open><\<close> that the other modules use are those of this order: a total
  preorder, in which different priorities may be equivalent.\<close>

instantiation task_priority :: preorder
begin

definition less_eq_task_priority :: "task_priority \<Rightarrow> task_priority \<Rightarrow> bool" where
  "p \<le> q \<longleftrightarrow> effective_priority p \<le> effective_priority q"

definition less_task_priority :: "task_priority \<Rightarrow> task_priority \<Rightarrow> bool" where
  "p < q \<longleftrightarrow> effective_priority p < effective_priority q"

instance
  by standard (auto simp: less_eq_task_priority_def less_task_priority_def)

end

text \<open>\<open>PartialEq\<close> of the source.\<close>

definition prio_eq :: "task_priority \<Rightarrow> task_priority \<Rightarrow> bool" where
  "prio_eq p q \<longleftrightarrow> effective_priority p = effective_priority q"

text \<open>The operators agree with \<open>partial_cmp\<close> the way the default methods of \<open>PartialOrd\<close> derive
  them from it, and so does \<open>==\<close>, as the contract of \<open>PartialOrd\<close> requires.\<close>

lemma prio_order:
  "p \<le> q \<longleftrightarrow> prio_partial_cmp p q \<in> {Some Less, Some Equal}"
  "p < q \<longleftrightarrow> prio_partial_cmp p q = Some Less"
  "prio_eq p q \<longleftrightarrow> prio_partial_cmp p q = Some Equal"
  by (auto simp: prio_partial_cmp_def word_cmp_def prio_eq_def less_eq_task_priority_def less_task_priority_def)

lemma prio_cmp_total: "\<exists>c. prio_cmp p q = Inr c \<and> prio_partial_cmp p q = Some c"
  by (simp add: prio_cmp_def prio_partial_cmp_def)

lemma prio_total: "(p :: task_priority) \<le> q \<or> q < p"
  by (auto simp: less_eq_task_priority_def less_task_priority_def)

lemma prio_eq_iff: "prio_eq p q \<longleftrightarrow> p \<le> q \<and> q \<le> p"
  by (auto simp: prio_eq_def less_eq_task_priority_def)

section \<open>Inheritance\<close>

text \<open>An inherited priority is always higher than the intrinsic one.\<close>

fun prio_wf :: "task_priority \<Rightarrow> bool" where
  "prio_wf (Intrinsic _) \<longleftrightarrow> True"
| "prio_wf (Inherited inh intr) \<longleftrightarrow> inh < intr"

lemma effective_le_intrinsic: "prio_wf p \<Longrightarrow> effective_priority p \<le> intrinsic_priority p"
  by (cases p) auto

text \<open>Priority inheritance: a task inherits exactly when the other task's effective priority is
  higher. It then runs at that priority, keeps its own intrinsic priority, and restoring brings
  back what it had; a change of the intrinsic priority ends an inheritance that is no longer
  higher. All three keep inherited priorities higher than intrinsic ones.\<close>

lemma priority_inheritance:
  assumes "prio_wf this"
  shows "(try_inherit_from this other = None \<longleftrightarrow> this \<le> other)
    \<and> (\<forall>p. try_inherit_from this other = Some p \<longrightarrow>
          prio_wf p \<and> prio_eq p other \<and> p < this \<and> restore_intrinsic p = restore_intrinsic this)
    \<and> prio_wf (restore_intrinsic this) \<and> effective_priority (restore_intrinsic this) = intrinsic_priority this
    \<and> prio_wf (change_intrinsic this prio) \<and> intrinsic_priority (change_intrinsic this prio) = prio
    \<and> effective_priority (change_intrinsic this prio) \<le> prio"
proof -
  have "effective_priority this \<le> intrinsic_priority this" by (rule effective_le_intrinsic[OF assms])
  then show ?thesis
    by (cases this)
       (auto simp: try_inherit_from_def restore_intrinsic_def new_intrinsic_def prio_eq_def
         less_eq_task_priority_def less_task_priority_def)
qed

end
