(* ===== verification/Task_Struct.thy ===== *)
theory Task_Struct
  imports Segmented_Stack Task_Priority
begin

unbundle bit_operations_syntax

text \<open>
  The task struct, \<open>src/task/task_struct.rs\<close>, with the feature \<open>unwind\<close> and for armv7em. An
  \<open>Arc<Task>\<close> is a task identifier, the address of the struct; the struct itself is a record. What
  \<open>Box::new\<close> and \<open>Arc::new\<close> put on the heap is a value of the record or, for the entry closure,
  the address it is put at. The link field belongs to the intrusive lists (theory \<open>Task_List\<close>). An
  operation that dies is \<open>None\<close>.
\<close>

section \<open>Data\<close>

type_synonym tid = nat

datatype task_state = Initializing | Blocked | Ready | Running | Destructing

record task_ctxt =
  ctx_tls :: task_local_storage
  ctx_sp :: u32
  gp_regs :: "u32 list"
  fp_regs :: "u32 list"

definition task_ctxt_default :: task_ctxt where
  "task_ctxt_default = \<lparr>ctx_tls = \<lparr>stklet_bound = 0, nested_drop_cnt = 0, unwind_pending = 0\<rparr>, ctx_sp = 0,
     gp_regs = replicate 8 0, fp_regs = replicate 16 0\<rparr>"

text \<open>The sizes are nonzero (\<open>NonZeroUsize\<close>).\<close>

datatype stack_config = Static u32 | Dynamic "u32 option" "u32 option"

fun stack_config_wf :: "stack_config \<Rightarrow> bool" where
  "stack_config_wf (Static limit) \<longleftrightarrow> limit \<noteq> 0"
| "stack_config_wf (Dynamic initial limit) \<longleftrightarrow> initial \<noteq> Some 0 \<and> limit \<noteq> Some 0"

text \<open>The field \<open>t_ctxt_locked\<close> is the state of the spin lock around the context.\<close>

record task =
  t_ctxt :: task_ctxt
  t_ctxt_locked :: bool
  t_initial_stklet :: u32
  t_stack_config :: stack_config
  t_id :: u8
  t_is_idle :: bool
  t_state :: task_state
  t_is_unwinding :: bool
  t_has_restarted :: bool
  t_concurrent_restartable :: bool
  t_entry_closure :: "u32 option"
  t_downcast_func :: "(u32 \<Rightarrow> u32) option"
  t_restarted_from :: "tid option"
  t_restart_entry_trampoline :: "u32 option"
  t_scb :: "stack_ctrl_block option"
  t_priority :: task_priority
  t_wake_at_tick :: u32

datatype task_build_error = NoStack | NoMoreTask | NoEntry | PriorityNotAllowed

text \<open>The addresses the build functions need besides those of the stack functions.\<close>

record task_env =
  stkenv :: stk_env
  svc_destroy_current_task :: u32

section \<open>Building\<close>

definition task_new :: "config \<Rightarrow> bool \<Rightarrow> task" where
  "task_new c idle = \<lparr>t_ctxt = task_ctxt_default, t_ctxt_locked = False, t_initial_stklet = 0,
     t_stack_config = Dynamic None None, t_id = 0, t_is_idle = idle, t_state = Initializing,
     t_is_unwinding = False, t_has_restarted = False, t_concurrent_restartable = False,
     t_entry_closure = None, t_downcast_func = None, t_restarted_from = None,
     t_restart_entry_trampoline = None, t_scb = None,
     t_priority = new_intrinsic (TASK_PRIORITY_LEVELS c - 1), t_wake_at_tick = - 1\<rparr>"

definition scb_default :: "config \<Rightarrow> stack_ctrl_block" where
  "scb_default c = \<lparr>call_chain_signature = 0,
     hot_split_cause_signatures = replicate (HOT_SPLIT_PREVENTION_CACHE_SIZE c) 0,
     add_sizes = replicate (HOT_SPLIT_PREVENTION_CACHE_SIZE c) 0, round_robin_idx = 0, cumulated_size = 0\<rparr>"

fun stack_alloc_size :: "stack_config \<Rightarrow> u32" where
  "stack_alloc_size (Static limit) = limit"
| "stack_alloc_size (Dynamic initial limit) = (case initial of Some n \<Rightarrow> n | None \<Rightarrow> 0)"

text \<open>The default trap frame, 26 zero words.\<close>

definition write_default_frame :: "u32 \<Rightarrow> mem \<Rightarrow> mem" where
  "write_default_frame p m = fold (\<lambda>i m. m(unat (p + 4 * of_nat i) := 0)) [0..<26] m"

definition write_initial_frame :: "task_env \<Rightarrow> u32 \<Rightarrow> u32 \<Rightarrow> u32 \<Rightarrow> mem \<Rightarrow> mem" where
  "write_initial_frame E closure_ptr trampoline tf m =
     (write_default_frame tf m)
       (tf_xpsr tf := 0x01000000, tf_pc tf := trampoline OR 1,
        tf_lr tf := svc_destroy_current_task E OR 1, tf_r0 tf := closure_ptr)"

definition initialize_common ::
  "task_env \<Rightarrow> cpu \<Rightarrow> u8 \<Rightarrow> u32 \<Rightarrow> u32 \<Rightarrow> stack_config \<Rightarrow> u8 \<Rightarrow> task \<Rightarrow> stk_state
     \<Rightarrow> ((task_build_error + task) \<times> stk_state) option" where
  "initialize_common E c ident closure_ptr trampoline sc priority t st =
     (let cf = conf (stkenv E)
      in if priority \<ge> TASK_PRIORITY_LEVELS cf then Some (Inl PriorityNotAllowed, st)
         else
           let t = (case sc of Static _ \<Rightarrow> t | Dynamic _ _ \<Rightarrow> t\<lparr>t_scb := Some (scb_default cf)\<rparr>)
           in case alloc_initial_stacklet (stkenv E) c (stack_alloc_size sc) st of
                None \<Rightarrow> None
              | Some ((stklet_begin, stklet_end), st) \<Rightarrow>
                  let t = t\<lparr>t_initial_stklet := stklet_begin, t_stack_config := sc\<rparr>;
                      sp = (if t_is_idle t then stklet_end else stklet_end - TRAP_FRAME_SIZE);
                      st = (if t_is_idle t then st
                            else upd_mem (write_initial_frame E closure_ptr trampoline sp) st);
                      ctxt = t_ctxt t;
                      t = t\<lparr>t_ctxt := ctxt\<lparr>ctx_sp := sp,
                             ctx_tls := (ctx_tls ctxt)\<lparr>stklet_bound := stklet_ptr_to_bound stklet_begin\<rparr>\<rparr>\<rparr>;
                      t = t\<lparr>t_id := ident, t_state := Ready, t_priority := new_intrinsic priority\<rparr>
                  in Some (Inr t, st))"

text \<open>An entry closure: the address at which it is boxed and the entry trampoline for its type. The
  arguments of \<open>initialize\<close> are followed by those of \<open>initialize_common\<close>.\<close>

record entry =
  closure_addr :: u32
  closure_downcast :: "u32 \<Rightarrow> u32"
  task_entry :: u32
  restartable_task_entry :: u32

definition initialize ::
  "task_env \<Rightarrow> cpu \<Rightarrow> u8 \<Rightarrow> entry \<Rightarrow> stack_config \<Rightarrow> u8 \<Rightarrow> task \<Rightarrow> stk_state
     \<Rightarrow> ((task_build_error + task) \<times> stk_state) option" where
  "initialize E c ident f sc priority t st =
     initialize_common E c ident (closure_addr f) (task_entry f) sc priority t st"

definition initialize_restartable ::
  "task_env \<Rightarrow> cpu \<Rightarrow> u8 \<Rightarrow> entry \<Rightarrow> stack_config \<Rightarrow> u8 \<Rightarrow> bool \<Rightarrow> task \<Rightarrow> stk_state
     \<Rightarrow> ((task_build_error + task) \<times> stk_state) option" where
  "initialize_restartable E c ident f sc priority allow_concurrent_restart t st =
     (let t = t\<lparr>t_entry_closure := Some (closure_addr f)\<rparr>;
          closure_ptr = closure_downcast f (closure_addr f);
          t = t\<lparr>t_downcast_func := Some (closure_downcast f),
                t_restart_entry_trampoline := Some (restartable_task_entry f),
                t_concurrent_restartable := allow_concurrent_restart\<rparr>
      in initialize_common E c ident closure_ptr (restartable_task_entry f) sc priority t st)"

definition task_build ::
  "task_env \<Rightarrow> cpu \<Rightarrow> u8 \<Rightarrow> entry \<Rightarrow> stack_config \<Rightarrow> u8 \<Rightarrow> stk_state \<Rightarrow> ((task_build_error + task) \<times> stk_state) option" where
  "task_build E c ident f sc priority st =
     initialize E c ident f sc priority (task_new (conf (stkenv E)) False) st"

definition build_restartable ::
  "task_env \<Rightarrow> cpu \<Rightarrow> u8 \<Rightarrow> entry \<Rightarrow> stack_config \<Rightarrow> u8 \<Rightarrow> stk_state \<Rightarrow> ((task_build_error + task) \<times> stk_state) option" where
  "build_restartable E c ident f sc priority st =
     initialize_restartable E c ident f sc priority True (task_new (conf (stkenv E)) False) st"

definition build_restartable_no_concur ::
  "task_env \<Rightarrow> cpu \<Rightarrow> u8 \<Rightarrow> entry \<Rightarrow> stack_config \<Rightarrow> u8 \<Rightarrow> stk_state \<Rightarrow> ((task_build_error + task) \<times> stk_state) option" where
  "build_restartable_no_concur E c ident f sc priority st =
     initialize_restartable E c ident f sc priority False (task_new (conf (stkenv E)) False) st"

text \<open>The panicked task with its identifier; it is returned with \<open>has_restarted\<close> set.\<close>

definition restart_from ::
  "task_env \<Rightarrow> cpu \<Rightarrow> tid \<Rightarrow> task \<Rightarrow> task \<Rightarrow> stk_state \<Rightarrow> (task \<times> task \<times> stk_state) option" where
  "restart_from E c prev_id prev t st =
     (let t = t\<lparr>t_downcast_func := t_downcast_func prev, t_entry_closure := t_entry_closure prev,
                t_restart_entry_trampoline := t_restart_entry_trampoline prev\<rparr>
      in case (t_downcast_func t, t_entry_closure t, t_restart_entry_trampoline t) of
           (Some downcast, Some closure, Some trampoline) \<Rightarrow>
             let closure_ptr = downcast closure;
                 priority = intrinsic_priority (t_priority prev);
                 t = t\<lparr>t_restarted_from := Some prev_id,
                       t_concurrent_restartable := t_concurrent_restartable prev\<rparr>;
                 prev = prev\<lparr>t_has_restarted := True\<rparr>
             in (case initialize_common E c (t_id prev) closure_ptr trampoline (t_stack_config prev) priority t st of
                   Some (Inr t, st) \<Rightarrow> Some (t, prev, st)
                 | _ \<Rightarrow> None)
         | _ \<Rightarrow> None)"

definition build_restarted ::
  "task_env \<Rightarrow> cpu \<Rightarrow> tid \<Rightarrow> task \<Rightarrow> stk_state \<Rightarrow> (task \<times> task \<times> stk_state) option" where
  "build_restarted E c prev_id prev st = restart_from E c prev_id prev (task_new (conf (stkenv E)) False) st"

text \<open>The idle task; \<open>created\<close> is the static flag that it exists already. Its closure is never
  entered.\<close>

definition build_idle ::
  "task_env \<Rightarrow> cpu \<Rightarrow> bool \<Rightarrow> entry \<Rightarrow> stk_state \<Rightarrow> (task \<times> stk_state) option" where
  "build_idle E c created f st =
     (if created then None
      else case initialize E c (IDLE_TASK_ID (conf (stkenv E))) f (Dynamic None None)
                  (IDLE_TASK_PRIORITY (conf (stkenv E))) (task_new (conf (stkenv E)) True) st of
             Some (Inr t, st) \<Rightarrow> Some (t\<lparr>t_state := Running\<rparr>, st)
           | _ \<Rightarrow> None)"

text \<open>\<open>Drop for Task\<close>: release the initial stacklet.\<close>

definition task_drop :: "stk_env \<Rightarrow> cpu \<Rightarrow> task \<Rightarrow> kalloc \<Rightarrow> kalloc option" where
  "task_drop E c t k =
     (if t_initial_stklet t \<noteq> 0 then free_impl (henv E) c (unat (t_initial_stklet t)) k else Some k)"

section \<open>Fields and priorities\<close>

definition set_state :: "task_state \<Rightarrow> task \<Rightarrow> task" where
  "set_state s t = t\<lparr>t_state := s\<rparr>"

definition set_wake_tick :: "u32 \<Rightarrow> task \<Rightarrow> task" where
  "set_wake_tick tick t = t\<lparr>t_wake_at_tick := tick\<rparr>"

definition set_unwind_flag :: "bool \<Rightarrow> task \<Rightarrow> task" where
  "set_unwind_flag b t = t\<lparr>t_is_unwinding := b\<rparr>"

definition is_restartable :: "task \<Rightarrow> bool" where
  "is_restartable t \<longleftrightarrow> t_entry_closure t \<noteq> None"

text \<open>\<open>lock_now_or_die\<close> on the context.\<close>

definition lock_ctxt :: "task \<Rightarrow> task res" where
  "lock_ctxt t = (if t_ctxt_locked t then Inl Die else Inr (t\<lparr>t_ctxt_locked := True\<rparr>))"

definition force_unlock_ctxt :: "task \<Rightarrow> task" where
  "force_unlock_ctxt t = t\<lparr>t_ctxt_locked := False\<rparr>"

definition get_stack_limit :: "task \<Rightarrow> u32 option" where
  "get_stack_limit t = (case t_stack_config t of Static limit \<Rightarrow> Some limit | Dynamic _ limit \<Rightarrow> limit)"

definition change_intrinsic_priority :: "u8 \<Rightarrow> task \<Rightarrow> task" where
  "change_intrinsic_priority prio t = t\<lparr>t_priority := change_intrinsic (t_priority t) prio\<rparr>"

definition ceil_priority_from :: "task \<Rightarrow> task \<Rightarrow> task" where
  "ceil_priority_from other t =
     (case try_inherit_from (t_priority t) (t_priority other) of
        Some p \<Rightarrow> t\<lparr>t_priority := p\<rparr> | None \<Rightarrow> t)"

definition restore_intrinsic_priority :: "task \<Rightarrow> task" where
  "restore_intrinsic_priority t = t\<lparr>t_priority := restore_intrinsic (t_priority t)\<rparr>"

definition should_preempt :: "config \<Rightarrow> task \<Rightarrow> task \<Rightarrow> bool" where
  "should_preempt c this other \<longleftrightarrow> ALLOW_TASK_PREEMPTION c \<and> t_priority this < t_priority other"

end
