(* ===== verification/Task_List.thy ===== *)
theory Task_List
  imports Task_Struct
begin

text \<open>
  Lists of tasks, \<open>src/task/task_list.rs\<close>, and the comparison of ticks of \<open>src/time/mod.rs\<close>. The
  intrusive lists and the lock-free queues are packages outside the repository: their operations
  are the fields of the record \<open>kenv\<close>, arguments of everything below, and what they document is
  the locale \<open>kernel_lib\<close>. All lists share the link fields of the task structs, so the lists form
  one state \<open>'w\<close>; a cursor is a position, the one past the end being the null cursor.
\<close>

section \<open>The packages\<close>

datatype lid = Ready_List | Sleep_List | Wait_List nat

record ('w, 'q) kenv =
  ll_get :: "'w \<Rightarrow> lid \<Rightarrow> nat \<Rightarrow> tid option"
  ll_push_back :: "lid \<Rightarrow> tid \<Rightarrow> 'w \<Rightarrow> 'w res"
  ll_insert_before :: "lid \<Rightarrow> nat \<Rightarrow> tid \<Rightarrow> 'w \<Rightarrow> 'w res"
  ll_remove :: "lid \<Rightarrow> nat \<Rightarrow> 'w \<Rightarrow> tid option \<times> 'w"
  mq_enqueue :: "'q \<Rightarrow> tid \<Rightarrow> 'q option"
  mq_dequeue :: "'q \<Rightarrow> (tid \<times> 'q) option"
  kconf :: config

text \<open>Inserting a task that is linked already panics; otherwise the lists are sequences. The queues
  are FIFO with a capacity of \<open>MAX_TASK_NUMBER\<close>.\<close>

locale kernel_lib =
  fixes E :: "('w, 'q) kenv" and elems :: "'w \<Rightarrow> lid \<Rightarrow> tid list" and queued :: "'q \<Rightarrow> tid list"
  assumes get: "ll_get E w l i = (if i < length (elems w l) then Some (elems w l ! i) else None)"
    and push_back: "(\<forall>k. t \<notin> set (elems w k)) \<Longrightarrow>
      \<exists>w'. ll_push_back E l t w = Inr w' \<and> elems w' = (elems w)(l := elems w l @ [t])"
    and push_back_linked: "t \<in> set (elems w k) \<Longrightarrow> ll_push_back E l t w = Inl Panic"
    and insert_before: "(\<forall>k. t \<notin> set (elems w k)) \<Longrightarrow> i \<le> length (elems w l) \<Longrightarrow>
      \<exists>w'. ll_insert_before E l i t w = Inr w'
        \<and> elems w' = (elems w)(l := take i (elems w l) @ t # drop i (elems w l))"
    and insert_before_linked: "t \<in> set (elems w k) \<Longrightarrow> ll_insert_before E l i t w = Inl Panic"
    and remove: "i < length (elems w l) \<Longrightarrow>
      \<exists>w'. ll_remove E l i w = (Some (elems w l ! i), w')
        \<and> elems w' = (elems w)(l := take i (elems w l) @ drop (Suc i) (elems w l))"
    and enqueue: "length (queued q) < MAX_TASK_NUMBER (kconf E) \<Longrightarrow>
      \<exists>q'. mq_enqueue E q t = Some q' \<and> queued q' = queued q @ [t]"
    and enqueue_full: "MAX_TASK_NUMBER (kconf E) \<le> length (queued q) \<Longrightarrow> mq_enqueue E q t = None"
    and dequeue: "queued q = t # ts \<Longrightarrow> \<exists>q'. mq_dequeue E q = Some (t, q') \<and> queued q' = ts"
    and dequeue_empty: "queued q = [] \<Longrightarrow> mq_dequeue E q = None"

section \<open>Ticks\<close>

definition tick_cmp :: "u32 \<Rightarrow> u32 \<Rightarrow> cmp_ordering" where
  "tick_cmp lhs rhs =
     (let d = sint (lhs - rhs) in if d < 0 then Less else if d = 0 then Equal else Greater)"

section \<open>Operations\<close>

text \<open>The loops run along a list as long as the cursor yields a task.\<close>

partial_function (option) remove_loop ::
  "('w, 'q) kenv \<Rightarrow> lid \<Rightarrow> tid \<Rightarrow> 'w \<Rightarrow> nat \<Rightarrow> (tid option \<times> 'w) option" where
  "remove_loop E l t w i =
     (case ll_get E w l i of
        None \<Rightarrow> Some (None, w)
      | Some candidate_task \<Rightarrow>
          if candidate_task = t then Some (ll_remove E l i w) else remove_loop E l t w (i + 1))"

text \<open>A loop that does not end is \<open>Die\<close>.\<close>

definition or_die :: "'a option \<Rightarrow> 'a res" where
  "or_die r = (case r of None \<Rightarrow> Inl Die | Some x \<Rightarrow> Inr x)"

lemma or_die_simps [simp]: "or_die (Some x) = Inr x" "or_die None = Inl Die"
  by (simp_all add: or_die_def)

lemma or_die_Inr: "or_die r = Inr x \<longleftrightarrow> r = Some x"
  by (cases r) auto

definition remove_task :: "('w, 'q) kenv \<Rightarrow> lid \<Rightarrow> tid \<Rightarrow> 'w \<Rightarrow> (tid option \<times> 'w) res" where
  "remove_task E l t w = or_die (remove_loop E l t w 0)"

partial_function (option) tick_pos ::
  "('w, 'q) kenv \<Rightarrow> (tid \<Rightarrow> task) \<Rightarrow> lid \<Rightarrow> tid \<Rightarrow> 'w \<Rightarrow> nat \<Rightarrow> nat option" where
  "tick_pos E ts l new_task w i =
     (case ll_get E w l i of
        None \<Rightarrow> Some i
      | Some t \<Rightarrow>
          if tick_cmp (t_wake_at_tick (ts new_task)) (t_wake_at_tick (ts t)) = Less then Some i
          else tick_pos E ts l new_task w (i + 1))"

definition push_back_tick_sorted ::
  "('w, 'q) kenv \<Rightarrow> (tid \<Rightarrow> task) \<Rightarrow> lid \<Rightarrow> tid \<Rightarrow> 'w \<Rightarrow> 'w res" where
  "push_back_tick_sorted E ts l new_task w =
     bindr (or_die (tick_pos E ts l new_task w 0)) (\<lambda>i. ll_insert_before E l i new_task w)"

partial_function (option) prio_scan ::
  "('w, 'q) kenv \<Rightarrow> (tid \<Rightarrow> task) \<Rightarrow> lid \<Rightarrow> 'w \<Rightarrow> nat \<Rightarrow> nat \<Rightarrow> task_priority \<Rightarrow> nat option" where
  "prio_scan E ts l w cur_pos max_pos max_prio =
     (case ll_get E w l cur_pos of
        None \<Rightarrow> Some max_pos
      | Some t \<Rightarrow>
          let cur_prio = t_priority (ts t)
          in if cur_prio < max_prio then prio_scan E ts l w (cur_pos + 1) cur_pos cur_prio
             else prio_scan E ts l w (cur_pos + 1) max_pos max_prio)"

definition pop_highest_priority ::
  "('w, 'q) kenv \<Rightarrow> (tid \<Rightarrow> task) \<Rightarrow> lid \<Rightarrow> 'w \<Rightarrow> (tid option \<times> 'w) res" where
  "pop_highest_priority E ts l w =
     (case ll_get E w l 0 of
        None \<Rightarrow> Inr (None, w)
      | Some t \<Rightarrow>
          bindr (or_die (prio_scan E ts l w 1 0 (t_priority (ts t)))) (\<lambda>max_pos.
            Inr (ll_remove E l max_pos w)))"

section \<open>What they do to the sequences\<close>

text \<open>The task that a pop by priority takes: one that no other precedes in priority, the first of
  them.\<close>

definition is_top :: "(tid \<Rightarrow> task) \<Rightarrow> tid list \<Rightarrow> nat \<Rightarrow> bool" where
  "is_top ts xs k \<longleftrightarrow> k < length xs
     \<and> (\<forall>j < k. t_priority (ts (xs ! k)) < t_priority (ts (xs ! j)))
     \<and> (\<forall>j < length xs. t_priority (ts (xs ! k)) \<le> t_priority (ts (xs ! j)))"

text \<open>The position of a task with a new wake-up tick.\<close>

definition tick_before :: "(tid \<Rightarrow> task) \<Rightarrow> tid \<Rightarrow> tid \<Rightarrow> bool" where
  "tick_before ts t u \<longleftrightarrow> tick_cmp (t_wake_at_tick (ts t)) (t_wake_at_tick (ts u)) = Less"

definition insert_tick :: "(tid \<Rightarrow> task) \<Rightarrow> tid \<Rightarrow> tid list \<Rightarrow> tid list" where
  "insert_tick ts t xs = takeWhile (\<lambda>u. \<not> tick_before ts t u) xs @ t # dropWhile (\<lambda>u. \<not> tick_before ts t u) xs"

lemma is_top_min:
  assumes "is_top ts xs k" "x \<in> set xs" shows "t_priority (ts (xs ! k)) \<le> t_priority (ts x)"
  using assms by (auto simp: is_top_def in_set_conv_nth)

lemma drop_nth: "i < length xs \<Longrightarrow> drop i xs = xs ! i # drop (Suc i) xs"
  by (simp add: Cons_nth_drop_Suc)

lemma remove1_nth:
  "i < length xs \<Longrightarrow> t \<notin> set (take i xs) \<Longrightarrow> xs ! i = t \<Longrightarrow> remove1 t xs = take i xs @ drop (Suc i) xs"
  by (metis append_take_drop_id drop_nth remove1.simps(2) remove1_append)

context kernel_lib
begin

lemma remove_loop_eq:
  "i \<le> length (elems w l) \<Longrightarrow> t \<notin> set (take i (elems w l)) \<Longrightarrow>
    \<exists>r w'. remove_loop E l t w i = Some (r, w') \<and>
      (if t \<in> set (elems w l) then r = Some t \<and> elems w' = (elems w)(l := remove1 t (elems w l))
       else r = None \<and> w' = w)"
proof (induction "length (elems w l) - i" arbitrary: i)
  case 0
  then show ?case by (subst remove_loop.simps) (auto simp: get)
next
  case (Suc n)
  then have i: "i < length (elems w l)" by simp
  show ?case
  proof (cases "elems w l ! i = t")
    case True
    obtain w' where "ll_remove E l i w = (Some t, w')"
      "elems w' = (elems w)(l := take i (elems w l) @ drop (Suc i) (elems w l))"
      using remove[OF i] True by auto
    then show ?thesis using True i Suc.prems remove1_nth[OF i Suc.prems(2) True] nth_mem[OF i]
      by (subst remove_loop.simps) (auto simp: get)
  next
    case False
    have "t \<notin> set (take (Suc i) (elems w l))" using Suc.prems False i by (simp add: take_Suc_conv_app_nth)
    then have "\<exists>r w'. remove_loop E l t w (Suc i) = Some (r, w') \<and>
      (if t \<in> set (elems w l) then r = Some t \<and> elems w' = (elems w)(l := remove1 t (elems w l))
       else r = None \<and> w' = w)" using Suc.hyps i by (metis Suc_leI diff_Suc_Suc diff_Suc_1 Suc_diff_Suc)
    then show ?thesis using False i by (subst remove_loop.simps) (simp add: get)
  qed
qed

lemma remove_task_in:
  "t \<in> set (elems w l) \<Longrightarrow>
    \<exists>w'. remove_task E l t w = Inr (Some t, w') \<and> elems w' = (elems w)(l := remove1 t (elems w l))"
  using remove_loop_eq[of 0 w l t] by (auto simp: remove_task_def)

lemma remove_task_out: "t \<notin> set (elems w l) \<Longrightarrow> remove_task E l t w = Inr (None, w)"
  using remove_loop_eq[of 0 w l t] by (auto simp: remove_task_def)

lemma tick_pos_eq:
  "i \<le> length (elems w l) \<Longrightarrow>
    tick_pos E ts l t w i = Some (i + length (takeWhile (\<lambda>u. \<not> tick_before ts t u) (drop i (elems w l))))"
proof (induction "length (elems w l) - i" arbitrary: i)
  case 0
  then show ?case by (subst tick_pos.simps) (simp add: get)
next
  case (Suc n)
  then have i: "i < length (elems w l)" by simp
  have "tick_pos E ts l t w (Suc i) =
    Some (Suc i + length (takeWhile (\<lambda>u. \<not> tick_before ts t u) (drop (Suc i) (elems w l))))"
    using Suc.hyps i by (metis Suc_leI diff_Suc_Suc diff_Suc_1 Suc_diff_Suc)
  then show ?case using i drop_nth[OF i] by (subst tick_pos.simps) (simp add: get tick_before_def)
qed

lemma push_back_tick_sorted_eq:
  assumes "\<forall>k. t \<notin> set (elems w k)"
  shows "\<exists>w'. push_back_tick_sorted E ts l t w = Inr w' \<and> elems w' = (elems w)(l := insert_tick ts t (elems w l))"
proof -
  let ?P = "\<lambda>u. \<not> tick_before ts t u" and ?xs = "elems w l"
  have "length (takeWhile ?P ?xs) \<le> length ?xs" by (rule length_takeWhile_le)
  from insert_before[OF assms this] tick_pos_eq[of 0 w l ts t]
  show ?thesis
    by (auto simp: push_back_tick_sorted_def insert_tick_def takeWhile_eq_take[symmetric] dropWhile_eq_drop[symmetric])
qed

lemma prio_scan_eq:
  "\<lbrakk>p \<le> length (elems w l); k < p; pr = t_priority (ts (elems w l ! k)); is_top ts (take p (elems w l)) k\<rbrakk> \<Longrightarrow>
    \<exists>m. prio_scan E ts l w p k pr = Some m \<and> is_top ts (elems w l) m"
proof (induction "length (elems w l) - p" arbitrary: p k pr)
  case 0
  then show ?case by (subst prio_scan.simps) (simp add: get)
next
  case (Suc n)
  let ?xs = "elems w l"
  have p: "p < length ?xs" using Suc.hyps by simp
  have n: "n = length ?xs - Suc p" using Suc.hyps by simp
  let ?q = "t_priority (ts (?xs ! p))"
  have step: "prio_scan E ts l w p k pr =
      (if ?q < pr then prio_scan E ts l w (Suc p) p ?q else prio_scan E ts l w (Suc p) k pr)"
    using p by (subst prio_scan.simps) (simp add: get Let_def)
  show ?case
  proof (cases "?q < pr")
    case True
    have "is_top ts (take (Suc p) ?xs) p"
      using Suc.prems True p unfolding is_top_def less_task_priority_def less_eq_task_priority_def
      by (auto simp: less_Suc_eq intro: less_le_trans less_imp_le)
    then show ?thesis using Suc.hyps(1)[OF n, of p ?q] p True step by simp
  next
    case False
    have "is_top ts (take (Suc p) ?xs) k"
      using Suc.prems False p unfolding is_top_def less_task_priority_def less_eq_task_priority_def
      by (auto simp: less_Suc_eq)
    then show ?thesis using Suc.hyps(1)[OF n, of k pr] Suc.prems p False step by simp
  qed
qed

lemma pop_highest_empty: "elems w l = [] \<Longrightarrow> pop_highest_priority E ts l w = Inr (None, w)"
  by (simp add: pop_highest_priority_def get)

lemma pop_highest_eq:
  assumes "elems w l \<noteq> []"
  shows "\<exists>k w'. is_top ts (elems w l) k \<and> pop_highest_priority E ts l w = Inr (Some (elems w l ! k), w')
    \<and> elems w' = (elems w)(l := take k (elems w l) @ drop (Suc k) (elems w l))"
proof -
  have "is_top ts (take 1 (elems w l)) 0" using assms by (simp add: is_top_def less_eq_task_priority_def)
  then obtain k where k: "prio_scan E ts l w 1 0 (t_priority (ts (elems w l ! 0))) = Some k" "is_top ts (elems w l) k"
    using prio_scan_eq[of 1 w l 0 "t_priority (ts (elems w l ! 0))" ts] assms by (auto simp: Suc_le_eq)
  then have "k < length (elems w l)" by (simp add: is_top_def)
  from remove[OF this] k assms show ?thesis by (auto simp: pop_highest_priority_def get)
qed

end

section \<open>An instance\<close>

text \<open>Lists of lists and a list as a queue satisfy the laws.\<close>

definition list_env :: "config \<Rightarrow> (lid \<Rightarrow> tid list, tid list) kenv" where
  "list_env c = \<lparr>
     ll_get = (\<lambda>w l i. if i < length (w l) then Some (w l ! i) else None),
     ll_push_back = (\<lambda>l t w. if (\<exists>k. t \<in> set (w k)) then Inl Panic else Inr (w(l := w l @ [t]))),
     ll_insert_before = (\<lambda>l i t w. if (\<exists>k. t \<in> set (w k)) then Inl Panic
        else Inr (w(l := take i (w l) @ t # drop i (w l)))),
     ll_remove = (\<lambda>l i w. if i < length (w l) then (Some (w l ! i), w(l := take i (w l) @ drop (Suc i) (w l)))
        else (None, w)),
     mq_enqueue = (\<lambda>q t. if length q < MAX_TASK_NUMBER c then Some (q @ [t]) else None),
     mq_dequeue = (\<lambda>q. case q of [] \<Rightarrow> None | t # ts \<Rightarrow> Some (t, ts)),
     kconf = c\<rparr>"

lemma kconf_list_env [simp]: "kconf (list_env c) = c"
  by (simp add: list_env_def)

interpretation le: kernel_lib "list_env c" "\<lambda>w. w" "\<lambda>q. q" for c
  by unfold_locales (auto simp: list_env_def)

end
