(* ===== verification/Soft_Lock.thy ===== *)
theory Soft_Lock
  imports Hopter_Prelude
begin

text \<open>
  The soft lock, \<open>src/sync/soft_lock.rs\<close>: access to kernel data shared between one task (the
  scheduler is suspended) and the interrupt handlers that may preempt it. The first part is the
  lock at the granularity of its atomic operations: a stack of execution contexts, the top one
  running, any of which may be preempted by a new one that finishes before the preempted one
  continues. The second part is the lock as the kernel functions use it, with the operations of
  the protected content as arguments.
\<close>

section \<open>Contexts and their steps\<close>

text \<open>Where a context is in \<open>with_access\<close> (\<open>must = False\<close>) or \<open>must_with_full_access\<close>, and in the drop
  of its \<open>AccessGuard\<close>: about to execute the atomic operation the constructor names. In \<open>Spin\<close> it
  is in an endless loop.\<close>

datatype sl_pc =
    Guard (must: bool)
  | Full_Op
  | Pend_Op
  | Pend_Store
  | Swap_Pending
  | Run_Pended
  | Unlock
  | Load_Pending
  | Relock
  | Finished
  | Spin

text \<open>The two flags, the number of operations pended and not yet run, and the contexts, the running
  one first.\<close>

record sl_state =
  sl_pending :: bool
  sl_locked :: bool
  sl_todo :: nat
  sl_ctxts :: "sl_pc list"

definition sl_init :: sl_state where
  "sl_init = \<lparr>sl_pending = False, sl_locked = False, sl_todo = 0, sl_ctxts = []\<rparr>"

text \<open>One atomic operation of the running context.\<close>

fun sl_exec :: "sl_pc \<Rightarrow> sl_state \<Rightarrow> sl_pc \<times> sl_state" where
  "sl_exec (Guard b) s =
     (if \<not> sl_locked s then (Full_Op, s\<lparr>sl_locked := True\<rparr>) else (if b then Spin else Pend_Op, s))"
| "sl_exec Full_Op s = (Swap_Pending, s)"
| "sl_exec Pend_Op s = (Pend_Store, s\<lparr>sl_todo := sl_todo s + 1\<rparr>)"
| "sl_exec Pend_Store s = (Finished, s\<lparr>sl_pending := True\<rparr>)"
| "sl_exec Swap_Pending s = (if sl_pending s then Run_Pended else Unlock, s\<lparr>sl_pending := False\<rparr>)"
| "sl_exec Run_Pended s = (Unlock, s\<lparr>sl_todo := 0\<rparr>)"
| "sl_exec Unlock s = (Load_Pending, s\<lparr>sl_locked := False\<rparr>)"
| "sl_exec Load_Pending s = (if sl_pending s then Relock else Finished, s)"
| "sl_exec Relock s = (if \<not> sl_locked s then (Swap_Pending, s\<lparr>sl_locked := True\<rparr>) else (Spin, s))"
| "sl_exec Finished s = (Finished, s)"
| "sl_exec Spin s = (Spin, s)"

text \<open>A context may preempt at any time; a task, which insists on full access, is only ever at the
  bottom. Contexts end in the reverse order of their arrival.\<close>

inductive sl_step :: "sl_state \<Rightarrow> sl_state \<Rightarrow> bool" where
  enter_task: "sl_ctxts s = [] \<Longrightarrow> sl_step s (s\<lparr>sl_ctxts := [Guard b]\<rparr>)"
| preempt: "sl_step s (s\<lparr>sl_ctxts := Guard False # sl_ctxts s\<rparr>)"
| exec: "\<lbrakk>sl_ctxts s = c # cs; c \<noteq> Finished; sl_exec c (s\<lparr>sl_ctxts := cs\<rparr>) = (c', s')\<rbrakk> \<Longrightarrow>
     sl_step s (s'\<lparr>sl_ctxts := c' # cs\<rparr>)"
| leave: "sl_ctxts s = Finished # cs \<Longrightarrow> sl_step s (s\<lparr>sl_ctxts := cs\<rparr>)"

inductive_cases sl_stepE: "sl_step s s'"

section \<open>Invariant\<close>

definition holds :: "sl_pc \<Rightarrow> bool" where
  "holds c \<longleftrightarrow> c \<in> {Full_Op, Swap_Pending, Run_Pended, Unlock}"

definition owns :: "sl_pc \<Rightarrow> bool" where
  "owns c \<longleftrightarrow> holds c \<or> c \<in> {Load_Pending, Relock}"

text \<open>Of the contexts from the running one down: below a context that has or had the lock nobody
  holds it, below a context that pends somebody does, and nobody spins.\<close>

fun sl_order :: "sl_pc list \<Rightarrow> bool" where
  "sl_order [] = True"
| "sl_order (c # cs) \<longleftrightarrow>
     (owns c \<longrightarrow> \<not> list_ex holds cs)
     \<and> (c \<in> {Pend_Op, Pend_Store} \<longrightarrow> list_ex holds cs)
     \<and> (c = Guard True \<longrightarrow> cs = []) \<and> c \<noteq> Spin
     \<and> sl_order cs"

definition sl_inv :: "sl_state \<Rightarrow> bool" where
  "sl_inv s \<longleftrightarrow> sl_order (sl_ctxts s)
     \<and> (sl_locked s \<longleftrightarrow> list_ex holds (sl_ctxts s))
     \<and> (sl_pending s \<longrightarrow> list_ex owns (sl_ctxts s))
     \<and> (0 < sl_todo s \<longrightarrow> sl_pending s \<or> Pend_Store \<in> set (sl_ctxts s) \<or> Run_Pended \<in> set (sl_ctxts s))"

lemma holds_simps [simp]:
  "holds Full_Op" "holds Swap_Pending" "holds Run_Pended" "holds Unlock" "\<not> holds (Guard b)" "\<not> holds Pend_Op"
  "\<not> holds Pend_Store" "\<not> holds Load_Pending" "\<not> holds Relock" "\<not> holds Finished" "\<not> holds Spin"
  by (simp_all add: holds_def)

lemma owns_simps [simp]:
  "owns Full_Op" "owns Swap_Pending" "owns Run_Pended" "owns Unlock" "\<not> owns (Guard b)" "\<not> owns Pend_Op"
  "\<not> owns Pend_Store" "owns Load_Pending" "owns Relock" "\<not> owns Finished" "\<not> owns Spin"
  by (simp_all add: owns_def)

lemma holds_owns: "list_ex holds cs \<Longrightarrow> list_ex owns cs"
  by (auto simp: list_ex_iff owns_def)

text \<open>Without a holder below, nobody is about to announce or to run a pended operation.\<close>

lemma no_holder_no_pend: "sl_order cs \<Longrightarrow> \<not> list_ex holds cs \<Longrightarrow> Pend_Store \<notin> set cs \<and> Run_Pended \<notin> set cs"
  by (induction cs) (auto simp: list_ex_iff)

lemma exec_inv:
  assumes "sl_inv s" "sl_ctxts s = c # cs" "sl_exec c (s\<lparr>sl_ctxts := cs\<rparr>) = (c', s')"
  shows "sl_inv (s'\<lparr>sl_ctxts := c' # cs\<rparr>)"
proof (cases c)
  case (Guard b)
  then show ?thesis using assms by (auto simp: sl_inv_def split: if_splits dest: holds_owns)
next
  case Swap_Pending
  then show ?thesis using assms no_holder_no_pend[of cs] by (auto simp: sl_inv_def split: if_splits dest: holds_owns)
next
  case Run_Pended
  then show ?thesis using assms no_holder_no_pend[of cs] by (auto simp: sl_inv_def split: if_splits dest: holds_owns)
qed (use assms in \<open>auto simp: sl_inv_def split: if_splits dest: holds_owns\<close>)

lemma step_inv: "sl_step s s' \<Longrightarrow> sl_inv s \<Longrightarrow> sl_inv s'"
proof (induction rule: sl_step.induct)
  case (exec s c cs c' s')
  then show ?case using exec_inv by blast
qed (auto simp: sl_inv_def)

lemma steps_inv: "sl_step\<^sup>*\<^sup>* s s' \<Longrightarrow> sl_inv s \<Longrightarrow> sl_inv s'"
  by (induction rule: rtranclp_induct) (auto intro: step_inv)

lemma init_inv: "sl_inv sl_init"
  by (simp add: sl_inv_def sl_init_def)

lemma order_one_holder: "sl_order cs \<Longrightarrow> length (filter holds cs) \<le> 1"
  by (induction cs) (auto simp: owns_def list_ex_iff filter_empty_conv)

lemma order_no_spin: "sl_order cs \<Longrightarrow> Spin \<notin> set cs"
  by (induction cs) auto

text \<open>C19. However interrupt handlers preempt the holder of a soft lock and each other, at any of its
  atomic operations: at most one context has full access, no context ever spins (neither a task
  that insists on full access nor a holder that takes the lock again), and once all contexts have
  left, the lock is free, no operation is announced as pending and every pended operation has been
  run.\<close>

theorem soft_lock_safe:
  assumes "sl_step\<^sup>*\<^sup>* sl_init s"
  shows "length (filter holds (sl_ctxts s)) \<le> 1 \<and> Spin \<notin> set (sl_ctxts s)
    \<and> (sl_ctxts s = [] \<longrightarrow> \<not> sl_locked s \<and> \<not> sl_pending s \<and> sl_todo s = 0)"
  using steps_inv[OF assms init_inv] order_one_holder[of "sl_ctxts s"] order_no_spin[of "sl_ctxts s"]
  by (auto simp: sl_inv_def)

section \<open>Running a schedule\<close>

text \<open>The steps as a function of a schedule, so that a run can be evaluated.\<close>

datatype sl_event = Enter_Task bool | Preempt | Exec | Leave

fun sl_do :: "sl_event \<Rightarrow> sl_state \<Rightarrow> sl_state option" where
  "sl_do (Enter_Task b) s = (if sl_ctxts s = [] then Some (s\<lparr>sl_ctxts := [Guard b]\<rparr>) else None)"
| "sl_do Preempt s = Some (s\<lparr>sl_ctxts := Guard False # sl_ctxts s\<rparr>)"
| "sl_do Exec s =
     (case sl_ctxts s of [] \<Rightarrow> None
      | c # cs \<Rightarrow> if c = Finished then None
                 else let (c', s') = sl_exec c (s\<lparr>sl_ctxts := cs\<rparr>) in Some (s'\<lparr>sl_ctxts := c' # cs\<rparr>))"
| "sl_do Leave s = (case sl_ctxts s of Finished # cs \<Rightarrow> Some (s\<lparr>sl_ctxts := cs\<rparr>) | _ \<Rightarrow> None)"

fun sl_run :: "sl_event list \<Rightarrow> sl_state \<Rightarrow> sl_state option" where
  "sl_run [] s = Some s"
| "sl_run (e # es) s = (case sl_do e s of None \<Rightarrow> None | Some s \<Rightarrow> sl_run es s)"

lemma sl_do_step: "sl_do e s = Some s' \<Longrightarrow> sl_step s s'"
  by (cases e) (auto split: if_splits list.splits sl_pc.splits prod.splits simp: Let_def
      intro: sl_step.intros)

lemma sl_run_steps: "sl_run es s = Some s' \<Longrightarrow> sl_step\<^sup>*\<^sup>* s s'"
  by (induction es arbitrary: s)
     (auto split: option.splits intro: converse_rtranclp_into_rtranclp dest: sl_do_step)

text \<open>A task takes the lock; an interrupt handler preempts its full access and another one preempts
  it after it has released the lock; then everybody leaves.\<close>

definition sl_schedule :: "sl_event list" where
  "sl_schedule = [Enter_Task True, Exec, Preempt, Exec, Exec, Exec, Leave, Exec, Exec, Exec, Exec,
     Preempt, Exec, Preempt, Exec, Exec, Exec, Leave, Exec, Exec, Exec, Exec, Exec, Leave, Exec, Leave]"

theorem soft_lock_safe_witness:
  "\<exists>s. sl_run sl_schedule sl_init = Some s \<and> sl_ctxts s = [] \<and> \<not> sl_locked s \<and> sl_todo s = 0"
proof -
  define s where "s = sl_init"
  have run: "sl_run sl_schedule sl_init = Some s"
    by (simp add: sl_schedule_def sl_init_def s_def)
  have "sl_ctxts s = []" by (simp add: s_def sl_init_def)
  with soft_lock_safe[OF sl_run_steps[OF run]] run show ?thesis by blast
qed

section \<open>The lock as kernel functions use it\<close>

text \<open>The flags of a lock and the pended operations of its content within a state; an operation on
  the state returns a value and the new state, or a fault. An endless loop is \<open>Die\<close>.\<close>

record 's soft_lock =
  get_pending :: "'s \<Rightarrow> bool"
  set_pending :: "bool \<Rightarrow> 's \<Rightarrow> 's"
  get_locked :: "'s \<Rightarrow> bool"
  set_locked :: "bool \<Rightarrow> 's \<Rightarrow> 's"
  run_pended_op :: "'s \<Rightarrow> 's res"

text \<open>The loop in \<open>AccessGuard::drop\<close>, with a bound on its rounds. A kernel function is modelled
  between two preemptions; then nothing sets the flag between the swap and the load, and the
  first round is the last (lemma \<open>guard_drop_eq\<close>).\<close>

fun drop_loop :: "nat \<Rightarrow> 's soft_lock \<Rightarrow> 's \<Rightarrow> 's res" where
  "drop_loop 0 L s = Inl Die"
| "drop_loop (Suc n) L s =
     (let prev_pending = get_pending L s; s = set_pending L False s
      in bindr (if prev_pending then run_pended_op L s else Inr s) (\<lambda>s.
           let s = set_locked L False s
           in if \<not> get_pending L s then Inr s
              else if \<not> get_locked L s then drop_loop n L (set_locked L True s) else Inl Die))"

definition guard_drop :: "'s soft_lock \<Rightarrow> 's \<Rightarrow> 's res" where
  "guard_drop L s = drop_loop 4 L s"

definition with_access ::
  "'s soft_lock \<Rightarrow> ('s \<Rightarrow> ('r \<times> 's) res) \<Rightarrow> ('s \<Rightarrow> ('r \<times> 's) res) \<Rightarrow> 's \<Rightarrow> ('r \<times> 's) res" where
  "with_access L full pend s =
     (if \<not> get_locked L s
      then bindr (full (set_locked L True s)) (\<lambda>(r, s). bindr (guard_drop L s) (\<lambda>s. Inr (r, s)))
      else bindr (pend s) (\<lambda>(r, s). Inr (r, set_pending L True s)))"

definition must_with_full_access :: "'s soft_lock \<Rightarrow> ('s \<Rightarrow> ('r \<times> 's) res) \<Rightarrow> 's \<Rightarrow> ('r \<times> 's) res" where
  "must_with_full_access L full s =
     (if \<not> get_locked L s
      then bindr (full (set_locked L True s)) (\<lambda>(r, s). bindr (guard_drop L s) (\<lambda>s. Inr (r, s)))
      else Inl Die)"

text \<open>What the content of a lock promises: the flags are independent of each other, and running the
  pended operations leaves the flags of this lock alone.\<close>

locale soft_lock_content =
  fixes L :: "'s soft_lock"
  assumes pending_pending [simp]: "get_pending L (set_pending L b s) = b"
    and pending_locked [simp]: "get_pending L (set_locked L b s) = get_pending L s"
    and locked_locked [simp]: "get_locked L (set_locked L b s) = b"
    and locked_pending [simp]: "get_locked L (set_pending L b s) = get_locked L s"
    and run_keeps: "run_pended_op L s = Inr s' \<Longrightarrow> get_pending L s' = get_pending L s"
begin

lemma guard_drop_eq:
  "guard_drop L s =
     bindr (if get_pending L s then run_pended_op L (set_pending L False s) else Inr (set_pending L False s))
       (\<lambda>s. Inr (set_locked L False s))"
  by (auto simp: guard_drop_def numeral_eq_Suc Let_def bindr_def split: sum.splits dest!: run_keeps)

lemma with_access_full:
  "\<not> get_locked L s \<Longrightarrow> with_access L full pend s = must_with_full_access L full s"
  by (simp add: with_access_def must_with_full_access_def)

lemma must_full_eq:
  "\<lbrakk>\<not> get_locked L s; full (set_locked L True s) = Inr (r, s1); \<not> get_pending L s1\<rbrakk> \<Longrightarrow>
     must_with_full_access L full s = Inr (r, set_locked L False (set_pending L False s1))"
  by (simp add: must_with_full_access_def guard_drop_eq)

lemma with_access_pend:
  "\<lbrakk>get_locked L s; pend s = Inr (r, s1)\<rbrakk> \<Longrightarrow>
     with_access L full pend s = Inr (r, set_pending L True s1)"
  by (simp add: with_access_def)

lemma must_full_unlocks:
  "\<lbrakk>must_with_full_access L full s = Inr (r, s')\<rbrakk> \<Longrightarrow> \<not> get_locked L s \<and> \<not> get_locked L s'"
  by (auto simp: must_with_full_access_def guard_drop_eq bindr_Inr split: if_splits)

end

end
