(* ===== verification/Scheduler.thy ===== *)
theory Scheduler
  imports Task_List Soft_Lock
begin

text \<open>
  The scheduler: \<open>src/schedule/scheduler.rs\<close>, \<open>src/schedule/current.rs\<close>, the yield and the PendSV
  handler of \<open>src/interrupt/context_switch.rs\<close>, \<open>src/sync/refcell_sched_safe.rs\<close> and
  \<open>src/task/current.rs\<close>. The static variables of these modules and of \<open>src/time/mod.rs\<close> are the
  record \<open>kstate\<close>. An operation is a function from the state to a value and the new state, or to a
  fault. The spin locks around the lists and around \<open>CUR_TASK\<close>, which the source has as a sanity
  check for accesses that the soft locks and the suspension of the scheduler already exclude, are
  left out.
\<close>

section \<open>State\<close>

datatype idle_event = Idle_Begin nat | Idle_End nat

record ('w, 'q) kstate =
  tasks :: "tid \<Rightarrow> task"
  lists :: 'w
  cur_task :: "tid option"
  insert_buffer :: 'q
  rq_pending :: bool
  rq_locked :: bool
  exist_task_num :: u32
  cur_task_idle :: bool
  started :: bool
  suspend_cnt :: u32
  pending_ctxt_switch :: bool
  idle_callbacks :: nat
  idle_events :: "idle_event list"
  ticks :: u32
  delete_buffer :: 'q
  time_to_wakeup :: bool
  sq_pending :: bool
  sq_locked :: bool
  pendsv :: bool
  in_isr :: bool

definition upd_task :: "tid \<Rightarrow> (task \<Rightarrow> task) \<Rightarrow> ('w, 'q) kstate \<Rightarrow> ('w, 'q) kstate" where
  "upd_task t f s = s\<lparr>tasks := (tasks s)(t := f (tasks s t))\<rparr>"

section \<open>Suspension and the current task\<close>

text \<open>\<open>SCB::set_pendsv\<close>; the handler runs when no interrupt handler does.\<close>

definition yield_current_task :: "('w, 'q) kstate \<Rightarrow> ('w, 'q) kstate" where
  "yield_current_task s = s\<lparr>pendsv := True\<rparr>"

definition suspend :: "('w, 'q) kstate \<Rightarrow> ('w, 'q) kstate" where
  "suspend s = s\<lparr>suspend_cnt := suspend_cnt s + 1\<rparr>"

definition resume :: "('w, 'q) kstate \<Rightarrow> ('w, 'q) kstate" where
  "resume s =
     (let s = s\<lparr>suspend_cnt := suspend_cnt s - 1\<rparr>
      in if suspend_cnt s = 0 \<and> pending_ctxt_switch s then yield_current_task s else s)"

definition is_suspended :: "('w, 'q) kstate \<Rightarrow> bool" where
  "is_suspended s \<longleftrightarrow> suspend_cnt s > 0"

definition with_suspended_scheduler ::
  "(('w, 'q) kstate \<Rightarrow> ('r \<times> ('w, 'q) kstate) res) \<Rightarrow> ('w, 'q) kstate \<Rightarrow> ('r \<times> ('w, 'q) kstate) res" where
  "with_suspended_scheduler op s = bindr (op (suspend s)) (\<lambda>(r, s). Inr (r, resume s))"

text \<open>For both \<open>Arc<Task>\<close> and \<open>&Task\<close>.\<close>

definition with_cur_task_explicit_sched_suspend ::
  "(tid \<Rightarrow> ('w, 'q) kstate \<Rightarrow> ('r \<times> ('w, 'q) kstate) res) \<Rightarrow> ('w, 'q) kstate \<Rightarrow> ('r \<times> ('w, 'q) kstate) res" where
  "with_cur_task_explicit_sched_suspend op s = (case cur_task s of Some t \<Rightarrow> op t s | None \<Rightarrow> Inl Die)"

definition with_cur_task ::
  "(tid \<Rightarrow> ('w, 'q) kstate \<Rightarrow> ('r \<times> ('w, 'q) kstate) res) \<Rightarrow> ('w, 'q) kstate \<Rightarrow> ('r \<times> ('w, 'q) kstate) res" where
  "with_cur_task op s = with_suspended_scheduler (with_cur_task_explicit_sched_suspend op) s"

text \<open>Make a task current: unlock the context of the old one, lock that of the new one. The \<open>Arc\<close> of
  the old task is replaced.\<close>

definition update_cur_task :: "tid \<Rightarrow> ('w, 'q) kstate \<Rightarrow> ('w, 'q) kstate res" where
  "update_cur_task t s =
     (let s = (case cur_task s of Some c \<Rightarrow> upd_task c force_unlock_ctxt s | None \<Rightarrow> s)
      in bindr (lock_ctxt (tasks s t)) (\<lambda>x. Inr (s\<lparr>tasks := (tasks s)(t := x), cur_task := Some t\<rparr>)))"

section \<open>The ready queue\<close>

text \<open>Empty the insert buffer into the ready list.\<close>

partial_function (option) run_pended_loop ::
  "('w, 'q) kenv \<Rightarrow> tid \<Rightarrow> ('w, 'q) kstate \<Rightarrow> ('w, 'q) kstate res option" where
  "run_pended_loop E c s =
     (case mq_dequeue E (insert_buffer s) of
        None \<Rightarrow> Some (Inr s)
      | Some (t, q) \<Rightarrow>
          let s = s\<lparr>insert_buffer := q\<rparr>;
              s = (if should_preempt (kconf E) (tasks s t) (tasks s c) then s\<lparr>pending_ctxt_switch := True\<rparr> else s);
              s = upd_task t (set_state Ready) s
          in (case ll_push_back E Ready_List t (lists s) of
                Inl e \<Rightarrow> Some (Inl e)
              | Inr w \<Rightarrow> run_pended_loop E c (s\<lparr>lists := w\<rparr>)))"

definition rq_run_pended_op :: "('w, 'q) kenv \<Rightarrow> ('w, 'q) kstate \<Rightarrow> ('w, 'q) kstate res" where
  "rq_run_pended_op E s =
     bindr (with_cur_task (\<lambda>c s. bindr (bindr (or_die (run_pended_loop E c s)) (\<lambda>s. s)) (\<lambda>s. Inr ((), s))) s)
       (\<lambda>(_, s). Inr s)"

definition ready_queue :: "('w, 'q) kenv \<Rightarrow> ('w, 'q) kstate soft_lock" where
  "ready_queue E = \<lparr>get_pending = rq_pending, set_pending = (\<lambda>b s. s\<lparr>rq_pending := b\<rparr>),
     get_locked = rq_locked, set_locked = (\<lambda>b s. s\<lparr>rq_locked := b\<rparr>), run_pended_op = rq_run_pended_op E\<rparr>"

text \<open>The two branches of \<open>insert_task_to_ready_queue\<close>.\<close>

definition insert_full :: "('w, 'q) kenv \<Rightarrow> tid \<Rightarrow> ('w, 'q) kstate \<Rightarrow> (unit \<times> ('w, 'q) kstate) res" where
  "insert_full E t s =
     bindr (if started s
            then with_cur_task_explicit_sched_suspend (\<lambda>c s.
                   Inr ((), if should_preempt (kconf E) (tasks s t) (tasks s c)
                            then s\<lparr>pending_ctxt_switch := True\<rparr> else s)) s
            else Inr ((), s))
       (\<lambda>(_, s).
          let s = upd_task t (set_state Ready) s
          in bindr (ll_push_back E Ready_List t (lists s)) (\<lambda>w. Inr ((), s\<lparr>lists := w\<rparr>)))"

definition insert_pend :: "('w, 'q) kenv \<Rightarrow> tid \<Rightarrow> ('w, 'q) kstate \<Rightarrow> (unit \<times> ('w, 'q) kstate) res" where
  "insert_pend E t s = bindr (or_die (mq_enqueue E (insert_buffer s) t)) (\<lambda>q. Inr ((), s\<lparr>insert_buffer := q\<rparr>))"

definition accept_task :: "('w, 'q) kenv \<Rightarrow> tid \<Rightarrow> ('w, 'q) kstate \<Rightarrow> (unit \<times> ('w, 'q) kstate) res" where
  "accept_task E t = with_suspended_scheduler (with_access (ready_queue E) (insert_full E t) (insert_pend E t))"

section \<open>Choosing the next task\<close>

text \<open>What happens to the task that leaves the CPU.\<close>

definition clean_up_current :: "('w, 'q) kenv \<Rightarrow> tid \<Rightarrow> ('w, 'q) kstate \<Rightarrow> (unit \<times> ('w, 'q) kstate) res" where
  "clean_up_current E c s =
     (case t_state (tasks s c) of
        Running \<Rightarrow>
          let s = upd_task c (set_state Ready) s
          in bindr (ll_push_back E Ready_List c (lists s)) (\<lambda>w. Inr ((), s\<lparr>lists := w\<rparr>))
      | Blocked \<Rightarrow> Inr ((), s)
      | Destructing \<Rightarrow> Inr ((), s)
      | Ready \<Rightarrow> Inr ((), s)
      | Initializing \<Rightarrow> Inl Die)"

text \<open>The callbacks, under a lock that suspends the scheduler.\<close>

definition run_idle_callbacks :: "bool \<Rightarrow> bool \<Rightarrow> ('w, 'q) kstate \<Rightarrow> ('w, 'q) kstate" where
  "run_idle_callbacks was_idle next_idle s =
     (let s = suspend s;
          s = (if was_idle then s\<lparr>idle_events := idle_events s @ map Idle_End [0..<idle_callbacks s]\<rparr> else s);
          s = (if next_idle then s\<lparr>idle_events := idle_events s @ map Idle_Begin [0..<idle_callbacks s]\<rparr> else s)
      in resume s)"

definition pick_full :: "('w, 'q) kenv \<Rightarrow> ('w, 'q) kstate \<Rightarrow> (unit \<times> ('w, 'q) kstate) res" where
  "pick_full E s =
     bindr (with_cur_task_explicit_sched_suspend (clean_up_current E) s) (\<lambda>(_, s).
     bindr (pop_highest_priority E (tasks s) Ready_List (lists s)) (\<lambda>(r, w).
     bindr (or_die r) (\<lambda>next_task.
       let s = upd_task next_task (set_state Running) (s\<lparr>lists := w\<rparr>);
           next_idle = t_is_idle (tasks s next_task);
           was_idle = cur_task_idle s;
           s = run_idle_callbacks was_idle next_idle (s\<lparr>cur_task_idle := next_idle\<rparr>)
       in bindr (update_cur_task next_task s) (\<lambda>s. Inr ((), s\<lparr>pending_ctxt_switch := False\<rparr>)))))"

definition pick_next :: "('w, 'q) kenv \<Rightarrow> ('w, 'q) kstate \<Rightarrow> (unit \<times> ('w, 'q) kstate) res" where
  "pick_next E s =
     (if suspend_cnt s > 0 then Inl Die
      else with_suspended_scheduler (must_with_full_access (ready_queue E) (pick_full E)) s)"

text \<open>The PendSV handler, on armv7em: hardware clears the pending bit when it enters the handler.\<close>

definition pendsv_handler :: "('w, 'q) kenv \<Rightarrow> u32 \<Rightarrow> ('w, 'q) kstate \<Rightarrow> (unit \<times> ('w, 'q) kstate) res" where
  "pendsv_handler E ex_ret_lr s =
     (let s = s\<lparr>pendsv := False\<rparr> in if ex_ret_lr \<noteq> 0xffffffed then Inl Die else pick_next E s)"

definition drop_current_task_from_svc :: "('w, 'q) kstate \<Rightarrow> (unit \<times> ('w, 'q) kstate) res" where
  "drop_current_task_from_svc s =
     bindr (with_cur_task (\<lambda>c s. Inr ((), upd_task c (set_state Destructing) s)) s) (\<lambda>(_, s).
       Inr ((), s\<lparr>pendsv := True\<rparr>))"

section \<open>Task quota\<close>

text \<open>The loop ends with the first exchange when nothing preempts it; \<open>None\<close> is \<open>Err(())\<close>.\<close>

definition request_task_quota :: "config \<Rightarrow> ('w, 'q) kstate \<Rightarrow> (unit option \<times> ('w, 'q) kstate)" where
  "request_task_quota c s =
     (if unat (exist_task_num s) < MAX_TASK_NUMBER c
      then (Some (), s\<lparr>exist_task_num := exist_task_num s + 1\<rparr>) else (None, s))"

definition quota_drop :: "('w, 'q) kstate \<Rightarrow> ('w, 'q) kstate" where
  "quota_drop s = s\<lparr>exist_task_num := exist_task_num s - 1\<rparr>"

section \<open>Operations on the current task\<close>

definition yield_current :: "('w, 'q) kstate \<Rightarrow> ('w, 'q) kstate" where
  "yield_current s = (if \<not> is_suspended s then yield_current_task s else s)"

text \<open>\<open>None\<close> is \<open>Err(())\<close>.\<close>

definition change_current_priority ::
  "config \<Rightarrow> u8 \<Rightarrow> ('w, 'q) kstate \<Rightarrow> (unit option \<times> ('w, 'q) kstate) res" where
  "change_current_priority c prio s =
     (if prio \<ge> TASK_PRIORITY_LEVELS c - 1 then Inr (None, s)
      else bindr (with_cur_task (\<lambda>t s. Inr ((), upd_task t (change_intrinsic_priority prio) s)) s) (\<lambda>(_, s).
             Inr (Some (), yield_current_task s)))"

definition get_current_id :: "('w, 'q) kstate \<Rightarrow> (u8 \<times> ('w, 'q) kstate) res" where
  "get_current_id s = with_cur_task (\<lambda>t s. Inr (t_id (tasks s t), s)) s"

end
