(* ===== verification/Sched_Correct.thy ===== *)
theory Sched_Correct
  imports Scheduler
begin

text \<open>
  Correctness of the scheduler: its invariant, the insertion of ready tasks with and without
  contention, and the choice of the next task.
\<close>

section \<open>Invariant\<close>

text \<open>A task is in at most one list, at most once.\<close>

definition lists_ok :: "(lid \<Rightarrow> tid list) \<Rightarrow> bool" where
  "lists_ok xs \<longleftrightarrow> (\<forall>l. distinct (xs l)) \<and> (\<forall>l k. l \<noteq> k \<longrightarrow> set (xs l) \<inter> set (xs k) = {})"

definition unlinked :: "(lid \<Rightarrow> tid list) \<Rightarrow> tid \<Rightarrow> bool" where
  "unlinked xs t \<longleftrightarrow> (\<forall>l. t \<notin> set (xs l))"

text \<open>With the current task \<open>c\<close> and the sequences \<open>xs\<close>: exactly the current task has its context locked;
  the ready list holds tasks in state \<open>Ready\<close> and the other lists hold blocked tasks; a running
  current task is in no list; one that was made ready again before it left the CPU is in the ready
  list; and an idle task is ready or running.\<close>

definition sched_ok :: "(lid \<Rightarrow> tid list) \<Rightarrow> tid \<Rightarrow> ('w, 'q) kstate \<Rightarrow> bool" where
  "sched_ok xs c s \<longleftrightarrow> cur_task s = Some c \<and> started s \<and> lists_ok xs
     \<and> (\<forall>t. t_ctxt_locked (tasks s t) \<longleftrightarrow> t = c)
     \<and> (\<forall>t \<in> set (xs Ready_List). t_state (tasks s t) = Ready)
     \<and> (\<forall>l t. l \<noteq> Ready_List \<longrightarrow> t \<in> set (xs l) \<longrightarrow> t_state (tasks s t) = Blocked)
     \<and> (t_state (tasks s c) = Running \<longrightarrow> unlinked xs c)
     \<and> (t_state (tasks s c) = Ready \<longrightarrow> c \<in> set (xs Ready_List))
     \<and> t_state (tasks s c) \<noteq> Initializing
     \<and> (\<exists>i. t_is_idle (tasks s i) \<and> (i \<in> set (xs Ready_List) \<or> i = c \<and> t_state (tasks s c) = Running))
     \<and> cur_task_idle s = t_is_idle (tasks s c)"

text \<open>Nobody holds the ready queue, and nothing is pended.\<close>

definition rq_free :: "('q \<Rightarrow> tid list) \<Rightarrow> ('w, 'q) kstate \<Rightarrow> bool" where
  "rq_free queued s \<longleftrightarrow> \<not> rq_locked s \<and> \<not> rq_pending s \<and> queued (insert_buffer s) = []"

text \<open>Mark tasks as ready.\<close>

definition ready_all :: "tid list \<Rightarrow> (tid \<Rightarrow> task) \<Rightarrow> tid \<Rightarrow> task" where
  "ready_all us ts = (\<lambda>t. if t \<in> set us then set_state Ready (ts t) else ts t)"

definition preempts :: "config \<Rightarrow> (tid \<Rightarrow> task) \<Rightarrow> tid \<Rightarrow> tid list \<Rightarrow> bool" where
  "preempts cf ts c us \<longleftrightarrow> (\<exists>u \<in> set us. should_preempt cf (ts u) (ts c))"

lemma set_state_simps [simp]:
  "t_state (set_state x t) = x" "t_priority (set_state x t) = t_priority t" "t_is_idle (set_state x t) = t_is_idle t"
  "t_ctxt_locked (set_state x t) = t_ctxt_locked t" "t_wake_at_tick (set_state x t) = t_wake_at_tick t"
  "set_state x (set_state y t) = set_state x t"
  by (simp_all add: set_state_def)

lemma should_preempt_cong:
  "t_priority a = t_priority a' \<Longrightarrow> t_priority b = t_priority b' \<Longrightarrow> should_preempt cf a b = should_preempt cf a' b'"
  by (simp add: should_preempt_def)

lemma ready_all_fields [simp]:
  "t_priority (ready_all us ts t) = t_priority (ts t)" "t_is_idle (ready_all us ts t) = t_is_idle (ts t)"
  "t_ctxt_locked (ready_all us ts t) = t_ctxt_locked (ts t)"
  "t_state (ready_all us ts t) = (if t \<in> set us then Ready else t_state (ts t))"
  by (simp_all add: ready_all_def)

lemma ready_all_simps [simp]:
  "ready_all [] ts = ts" "ready_all vs (ready_all us ts) = ready_all (us @ vs) ts"
  by (auto simp: ready_all_def)

lemma ready_all_one: "ready_all [t] ts = ts(t := set_state Ready (ts t))"
  by (auto simp: ready_all_def)

lemma ready_all_Cons: "ready_all us (ts(u := set_state Ready (ts u))) = ready_all (u # us) ts"
  by (auto simp: ready_all_def)

lemma preempts_ready [simp]: "preempts cf (ready_all vs ts) c us = preempts cf ts c us"
  by (simp add: preempts_def should_preempt_def)

lemma preempts_simps [simp]:
  "\<not> preempts cf ts c []"
  "preempts cf ts c (u # us) \<longleftrightarrow> should_preempt cf (ts u) (ts c) \<or> preempts cf ts c us"
  by (simp_all add: preempts_def)

lemma upd_task_simps [simp]:
  "tasks (upd_task t f s) = (tasks s)(t := f (tasks s t))" "lists (upd_task t f s) = lists s"
  "cur_task (upd_task t f s) = cur_task s" "insert_buffer (upd_task t f s) = insert_buffer s"
  "rq_pending (upd_task t f s) = rq_pending s" "rq_locked (upd_task t f s) = rq_locked s"
  "started (upd_task t f s) = started s" "suspend_cnt (upd_task t f s) = suspend_cnt s"
  "pending_ctxt_switch (upd_task t f s) = pending_ctxt_switch s" "cur_task_idle (upd_task t f s) = cur_task_idle s"
  by (simp_all add: upd_task_def)

lemma lists_ok_append: "lists_ok xs \<Longrightarrow> unlinked xs t \<Longrightarrow> lists_ok (xs(l := xs l @ [t]))"
  unfolding lists_ok_def unlinked_def by (auto simp: disjoint_iff)

lemma unlinked_append: "unlinked (xs(l := xs l @ [u])) t \<longleftrightarrow> unlinked xs t \<and> t \<noteq> u"
  unfolding unlinked_def by (metis fun_upd_apply rotate1.simps(2) set_ConsD set_rotate1 in_set_conv_decomp append_assoc Un_iff set_append)

lemma resume_eq:
  "suspend_cnt x = n + 1 \<Longrightarrow>
    resume x = x\<lparr>suspend_cnt := n, pendsv := pendsv x \<or> n = 0 \<and> pending_ctxt_switch x\<rparr>"
  by (cases x) (auto simp: resume_def Let_def yield_current_task_def)

lemma suspend_fields [simp]:
  "suspend_cnt (suspend s) = suspend_cnt s + 1" "tasks (suspend s) = tasks s" "lists (suspend s) = lists s"
  "cur_task (suspend s) = cur_task s" "insert_buffer (suspend s) = insert_buffer s" "rq_pending (suspend s) = rq_pending s"
  "rq_locked (suspend s) = rq_locked s" "started (suspend s) = started s" "pendsv (suspend s) = pendsv s"
  "pending_ctxt_switch (suspend s) = pending_ctxt_switch s" "in_isr (suspend s) = in_isr s" "ticks (suspend s) = ticks s"
  "sq_locked (suspend s) = sq_locked s" "sq_pending (suspend s) = sq_pending s" "delete_buffer (suspend s) = delete_buffer s"
  "time_to_wakeup (suspend s) = time_to_wakeup s" "cur_task_idle (suspend s) = cur_task_idle s"
  by (simp_all add: suspend_def)

lemma resume_fields [simp]:
  "tasks (resume s) = tasks s" "lists (resume s) = lists s"
  "cur_task (resume s) = cur_task s" "insert_buffer (resume s) = insert_buffer s" "rq_pending (resume s) = rq_pending s"
  "rq_locked (resume s) = rq_locked s" "started (resume s) = started s"
  "pending_ctxt_switch (resume s) = pending_ctxt_switch s" "in_isr (resume s) = in_isr s" "ticks (resume s) = ticks s"
  "sq_locked (resume s) = sq_locked s" "sq_pending (resume s) = sq_pending s" "delete_buffer (resume s) = delete_buffer s"
  "time_to_wakeup (resume s) = time_to_wakeup s" "cur_task_idle (resume s) = cur_task_idle s"
  "suspend_cnt (resume s) = suspend_cnt s - 1"
  by (simp_all add: resume_def Let_def yield_current_task_def)

section \<open>The ready queue as a soft lock\<close>

lemma run_pended_loop_keeps:
  "run_pended_loop E c s = Some r \<Longrightarrow> (\<forall>s'. r = Inr s' \<longrightarrow> rq_pending s' = rq_pending s \<and> sq_pending s' = sq_pending s)"
  by (erule run_pended_loop.raw_induct[where P = "\<lambda>E c s r. \<forall>s'. r = Inr s' \<longrightarrow> rq_pending s' = rq_pending s
        \<and> sq_pending s' = sq_pending s", rotated])
     (fastforce simp: Let_def upd_task_def split: option.splits sum.splits if_splits)

lemma rq_run_pended_keeps:
  "rq_run_pended_op E s = Inr s' \<Longrightarrow> rq_pending s' = rq_pending s \<and> sq_pending s' = sq_pending s"
  by (auto simp: rq_run_pended_op_def with_cur_task_def with_suspended_scheduler_def
      with_cur_task_explicit_sched_suspend_def bindr_Inr or_die_def split: option.splits dest!: run_pended_loop_keeps)

interpretation rq: soft_lock_content "ready_queue E" for E
  by unfold_locales (auto simp: ready_queue_def rq_run_pended_keeps)

lemma ready_queue_simps [simp]:
  "get_pending (ready_queue E) = rq_pending" "set_pending (ready_queue E) = (\<lambda>b s. s\<lparr>rq_pending := b\<rparr>)"
  "get_locked (ready_queue E) = rq_locked" "set_locked (ready_queue E) = (\<lambda>b s. s\<lparr>rq_locked := b\<rparr>)"
  "run_pended_op (ready_queue E) = rq_run_pended_op E"
  by (simp_all add: ready_queue_def)

text \<open>A sequence of insertions.\<close>

fun accept_all :: "('w, 'q) kenv \<Rightarrow> tid list \<Rightarrow> ('w, 'q) kstate \<Rightarrow> ('w, 'q) kstate res" where
  "accept_all E [] s = Inr s"
| "accept_all E (t # ts) s = bindr (accept_task E t s) (\<lambda>(_, s). accept_all E ts s)"

text \<open>The ready list when the current task \<open>c\<close> has left the CPU.\<close>

definition candidates :: "(lid \<Rightarrow> tid list) \<Rightarrow> tid \<Rightarrow> ('w, 'q) kstate \<Rightarrow> tid list" where
  "candidates xs c s = xs Ready_List @ (if t_state (tasks s c) = Running then [c] else [])"

lemma lists_ok_upd_mono:
  "lists_ok xs \<Longrightarrow> distinct ys \<Longrightarrow> set ys \<subseteq> set (xs l) \<Longrightarrow> lists_ok (xs(l := ys))"
  unfolding lists_ok_def by (auto simp: disjoint_iff)

lemma remove_nth:
  assumes "distinct ys" "k < length ys"
  shows "distinct (take k ys @ drop (Suc k) ys)" "set (take k ys @ drop (Suc k) ys) = set ys - {ys ! k}"
proof -
  have s: "ys = take k ys @ ys ! k # drop (Suc k) ys" using assms(2) by (simp add: id_take_nth_drop)
  have d: "distinct (take k ys @ ys ! k # drop (Suc k) ys)" using assms(1) s by simp
  then show "distinct (take k ys @ drop (Suc k) ys)" by auto
  have "set ys = set (take k ys @ ys ! k # drop (Suc k) ys)" using s by simp
  then show "set (take k ys @ drop (Suc k) ys) = set ys - {ys ! k}" using d by auto
qed

section \<open>Draining the insert buffer\<close>

context kernel_lib
begin

lemma push_unlinked:
  assumes "unlinked (elems w) t"
  obtains w' where "ll_push_back E l t w = Inr w'" "elems w' = (elems w)(l := elems w l @ [t])"
  using push_back[of t w l] assms by (auto simp: unlinked_def)

lemma run_pended_loop_eq:
  "\<lbrakk>queued (insert_buffer s) = us; distinct us; \<forall>u \<in> set us. unlinked (elems (lists s)) u\<rbrakk> \<Longrightarrow>
    \<exists>w q. run_pended_loop E c s = Some (Inr (s\<lparr>tasks := ready_all us (tasks s), lists := w, insert_buffer := q,
        pending_ctxt_switch := pending_ctxt_switch s \<or> preempts (kconf E) (tasks s) c us\<rparr>))
      \<and> elems w = (elems (lists s))(Ready_List := elems (lists s) Ready_List @ us) \<and> queued q = []"
proof (induction us arbitrary: s)
  case Nil
  then show ?case by (subst run_pended_loop.simps) (auto simp: dequeue_empty intro!: exI[of _ "insert_buffer s"] exI[of _ "lists s"])
next
  case (Cons u us)
  obtain q where q: "mq_dequeue E (insert_buffer s) = Some (u, q)" "queued q = us" using dequeue[OF Cons.prems(1)] by auto
  obtain w where w: "ll_push_back E Ready_List u (lists s) = Inr w"
    "elems w = (elems (lists s))(Ready_List := elems (lists s) Ready_List @ [u])"
    using Cons.prems(3) by (auto intro: push_unlinked)
  let ?p = "pending_ctxt_switch s \<or> should_preempt (kconf E) (tasks s u) (tasks s c)"
  define s1 where "s1 = s\<lparr>insert_buffer := q, pending_ctxt_switch := ?p,
    tasks := (tasks s)(u := set_state Ready (tasks s u)), lists := w\<rparr>"
  have step: "run_pended_loop E c s = run_pended_loop E c s1"
    by (subst run_pended_loop.simps) (simp add: q w Let_def upd_task_def s1_def)
  have "\<forall>x \<in> set us. unlinked (elems (lists s1)) x" "queued (insert_buffer s1) = us"
    using Cons.prems w(2) q(2) by (auto simp: unlinked_append s1_def)
  with Cons.IH[of s1] Cons.prems(2)
  obtain w2 q2 where r: "run_pended_loop E c s1 = Some (Inr (s1\<lparr>tasks := ready_all us (tasks s1), lists := w2, insert_buffer := q2,
        pending_ctxt_switch := pending_ctxt_switch s1 \<or> preempts (kconf E) (tasks s1) c us\<rparr>))"
      "elems w2 = (elems (lists s1))(Ready_List := elems (lists s1) Ready_List @ us)" "queued q2 = []" by force
  have "preempts (kconf E) (tasks s1) c us = preempts (kconf E) (tasks s) c us"
    by (auto simp: preempts_def should_preempt_def s1_def)
  moreover have "elems w2 = (elems (lists s))(Ready_List := elems (lists s) Ready_List @ u # us)"
    using r(2) w(2) by (simp add: s1_def)
  ultimately show ?case unfolding step r(1)
    by (intro exI[of _ w2] exI[of _ q2] conjI) (simp_all add: s1_def ready_all_Cons disj_assoc r(3))
qed

lemma rq_run_pended_op_eq:
  assumes "cur_task s = Some c" "queued (insert_buffer s) = us" "distinct us" "\<forall>u \<in> set us. unlinked (elems (lists s)) u"
  shows "\<exists>w q. rq_run_pended_op E s = Inr (resume (suspend s\<lparr>tasks := ready_all us (tasks s), lists := w, insert_buffer := q,
        pending_ctxt_switch := pending_ctxt_switch s \<or> preempts (kconf E) (tasks s) c us\<rparr>))
      \<and> elems w = (elems (lists s))(Ready_List := elems (lists s) Ready_List @ us) \<and> queued q = []"
proof -
  have "\<exists>w q. run_pended_loop E c (suspend s) = Some (Inr ((suspend s)\<lparr>tasks := ready_all us (tasks s), lists := w, insert_buffer := q,
        pending_ctxt_switch := pending_ctxt_switch s \<or> preempts (kconf E) (tasks s) c us\<rparr>))
      \<and> elems w = (elems (lists s))(Ready_List := elems (lists s) Ready_List @ us) \<and> queued q = []"
    using run_pended_loop_eq[of "suspend s" us c] assms by (simp add: suspend_def)
  then obtain w q where *: "run_pended_loop E c (suspend s) = Some (Inr ((suspend s)\<lparr>tasks := ready_all us (tasks s), lists := w,
        insert_buffer := q, pending_ctxt_switch := pending_ctxt_switch s \<or> preempts (kconf E) (tasks s) c us\<rparr>))"
      "elems w = (elems (lists s))(Ready_List := elems (lists s) Ready_List @ us)" "queued q = []" by auto
  have "cur_task (suspend s) = Some c" using assms(1) by (simp add: suspend_def)
  then show ?thesis using *
    by (intro exI[of _ w] exI[of _ q])
       (simp add: rq_run_pended_op_def with_cur_task_def with_suspended_scheduler_def with_cur_task_explicit_sched_suspend_def)
qed

section \<open>Inserting ready tasks\<close>

text \<open>The state after tasks \<open>us\<close> have been made ready while \<open>c\<close> is current.\<close>

lemma accept_task_direct:
  assumes "cur_task s = Some c" "started s" "\<not> rq_locked s" "\<not> rq_pending s" "unlinked (elems (lists s)) t"
  shows "\<exists>w. accept_task E t s = Inr ((), s\<lparr>tasks := ready_all [t] (tasks s), lists := w,
        pending_ctxt_switch := pending_ctxt_switch s \<or> preempts (kconf E) (tasks s) c [t],
        pendsv := pendsv s \<or> suspend_cnt s = 0 \<and> (pending_ctxt_switch s \<or> preempts (kconf E) (tasks s) c [t])\<rparr>)
      \<and> elems w = (elems (lists s))(Ready_List := elems (lists s) Ready_List @ [t])"
proof -
  obtain w where w: "ll_push_back E Ready_List t (lists s) = Inr w"
    "elems w = (elems (lists s))(Ready_List := elems (lists s) Ready_List @ [t])"
    using push_unlinked[OF assms(5)] by blast
  let ?p = "pending_ctxt_switch s \<or> preempts (kconf E) (tasks s) c [t]"
  have "insert_full E t ((suspend s)\<lparr>rq_locked := True\<rparr>) =
    Inr ((), (suspend s)\<lparr>rq_locked := True, tasks := ready_all [t] (tasks s), lists := w, pending_ctxt_switch := ?p\<rparr>)"
    using assms w(1)
    by (simp add: insert_full_def with_cur_task_explicit_sched_suspend_def upd_task_def suspend_def Let_def ready_all_one)
  then have "must_with_full_access (ready_queue E) (insert_full E t) (suspend s) =
    Inr ((), (suspend s)\<lparr>rq_locked := False, rq_pending := False, tasks := ready_all [t] (tasks s), lists := w, pending_ctxt_switch := ?p\<rparr>)"
    using assms by (simp add: must_with_full_access_def rq.guard_drop_eq)
  then show ?thesis using assms w(2)
    by (intro exI[of _ w]) (simp add: accept_task_def with_suspended_scheduler_def rq.with_access_full resume_eq suspend_def)
qed

lemma accept_task_pended:
  assumes "rq_locked s" "length (queued (insert_buffer s)) < MAX_TASK_NUMBER (kconf E)"
  shows "\<exists>q. accept_task E t s = Inr ((), s\<lparr>insert_buffer := q, rq_pending := True,
        pendsv := pendsv s \<or> suspend_cnt s = 0 \<and> pending_ctxt_switch s\<rparr>)
      \<and> queued q = queued (insert_buffer s) @ [t]"
proof -
  obtain q where q: "mq_enqueue E (insert_buffer s) t = Some q" "queued q = queued (insert_buffer s) @ [t]"
    using enqueue[OF assms(2)] by blast
  then show ?thesis using assms
    by (intro exI[of _ q])
       (simp add: accept_task_def with_suspended_scheduler_def with_access_def insert_pend_def resume_eq suspend_def)
qed

lemma accept_all_direct:
  "\<lbrakk>cur_task s = Some c; started s; \<not> rq_locked s; \<not> rq_pending s; suspend_cnt s \<noteq> 0; distinct us;
    \<forall>u \<in> set us. unlinked (elems (lists s)) u\<rbrakk> \<Longrightarrow>
   \<exists>w. accept_all E us s = Inr (s\<lparr>tasks := ready_all us (tasks s), lists := w,
        pending_ctxt_switch := pending_ctxt_switch s \<or> preempts (kconf E) (tasks s) c us\<rparr>)
      \<and> elems w = (elems (lists s))(Ready_List := elems (lists s) Ready_List @ us)"
proof (induction us arbitrary: s)
  case Nil
  then show ?case by (intro exI[of _ "lists s"]) simp
next
  case (Cons u us)
  from accept_task_direct[of s c u] Cons.prems obtain w where w:
    "accept_task E u s = Inr ((), s\<lparr>tasks := ready_all [u] (tasks s), lists := w,
        pending_ctxt_switch := pending_ctxt_switch s \<or> preempts (kconf E) (tasks s) c [u]\<rparr>)"
    "elems w = (elems (lists s))(Ready_List := elems (lists s) Ready_List @ [u])" by auto
  define s1 where "s1 = s\<lparr>tasks := ready_all [u] (tasks s), lists := w,
        pending_ctxt_switch := pending_ctxt_switch s \<or> preempts (kconf E) (tasks s) c [u]\<rparr>"
  have "\<forall>x \<in> set us. unlinked (elems (lists s1)) x"
    using Cons.prems w(2) by (auto simp: unlinked_append s1_def)
  with Cons.IH[of s1] Cons.prems obtain w2 where r: "accept_all E us s1 = Inr (s1\<lparr>tasks := ready_all us (tasks s1), lists := w2,
        pending_ctxt_switch := pending_ctxt_switch s1 \<or> preempts (kconf E) (tasks s1) c us\<rparr>)"
      "elems w2 = (elems (lists s1))(Ready_List := elems (lists s1) Ready_List @ us)" by (force simp: s1_def)
  have "accept_all E (u # us) s = accept_all E us s1" using w(1) by (simp add: s1_def)
  then show ?case using r w(2) by (intro exI[of _ w2]) (simp add: s1_def disj_assoc)
qed

lemma accept_all_pended:
  "\<lbrakk>rq_locked s; suspend_cnt s \<noteq> 0; length (queued (insert_buffer s)) + length us \<le> MAX_TASK_NUMBER (kconf E); us \<noteq> [] \<rbrakk> \<Longrightarrow>
   \<exists>q. accept_all E us s = Inr (s\<lparr>insert_buffer := q, rq_pending := True\<rparr>) \<and> queued q = queued (insert_buffer s) @ us"
proof (induction us arbitrary: s)
  case (Cons u us)
  from accept_task_pended[of s u] Cons.prems obtain q where q:
    "accept_task E u s = Inr ((), s\<lparr>insert_buffer := q, rq_pending := True\<rparr>)" "queued q = queued (insert_buffer s) @ [u]"
    by auto
  show ?case
  proof (cases "us = []")
    case True
    then show ?thesis using q by (intro exI[of _ q]) simp
  next
    case False
    with Cons.IH[of "s\<lparr>insert_buffer := q, rq_pending := True\<rparr>"] Cons.prems q obtain q2 where
      "accept_all E us (s\<lparr>insert_buffer := q, rq_pending := True\<rparr>) = Inr (s\<lparr>insert_buffer := q2, rq_pending := True\<rparr>)"
      "queued q2 = queued (insert_buffer s) @ u # us" by force
    then show ?thesis using q by (intro exI[of _ q2]) simp
  qed
qed simp

text \<open>Pended insertions, run by the holder when it drops its guard, are the direct ones.\<close>

lemma deferred_eq_direct:
  assumes "cur_task s = Some c" "started s" "rq_locked s" "\<not> rq_pending s" "queued (insert_buffer s) = []"
    "suspend_cnt s \<noteq> 0" "distinct us" "\<forall>u \<in> set us. unlinked (elems (lists s)) u"
    "length us \<le> MAX_TASK_NUMBER (kconf E)" "us \<noteq> []"
  shows "\<exists>s1 s2 s3. accept_all E us s = Inr s1 \<and> guard_drop (ready_queue E) s1 = Inr s2
    \<and> accept_all E us (s\<lparr>rq_locked := False\<rparr>) = Inr s3
    \<and> elems (lists s2) = elems (lists s3) \<and> s2 = s3\<lparr>lists := lists s2, insert_buffer := insert_buffer s2\<rparr>
    \<and> queued (insert_buffer s2) = [] \<and> elems (lists s3) Ready_List = elems (lists s) Ready_List @ us
    \<and> pending_ctxt_switch s3 = (pending_ctxt_switch s \<or> preempts (kconf E) (tasks s) c us)"
proof -
  obtain q where q: "accept_all E us s = Inr (s\<lparr>insert_buffer := q, rq_pending := True\<rparr>)" "queued q = us"
    using accept_all_pended[of s us] assms by auto
  let ?s = "s\<lparr>insert_buffer := q, rq_pending := False\<rparr>"
  obtain w q2 where r: "rq_run_pended_op E ?s = Inr (resume (suspend ?s\<lparr>tasks := ready_all us (tasks s), lists := w, insert_buffer := q2,
        pending_ctxt_switch := pending_ctxt_switch s \<or> preempts (kconf E) (tasks s) c us\<rparr>))"
      "elems w = (elems (lists s))(Ready_List := elems (lists s) Ready_List @ us)" "queued q2 = []"
    using rq_run_pended_op_eq[of ?s c us] assms q(2) by auto
  obtain w3 where d: "accept_all E us (s\<lparr>rq_locked := False\<rparr>) = Inr (s\<lparr>rq_locked := False, tasks := ready_all us (tasks s), lists := w3,
        pending_ctxt_switch := pending_ctxt_switch s \<or> preempts (kconf E) (tasks s) c us\<rparr>)"
      "elems w3 = (elems (lists s))(Ready_List := elems (lists s) Ready_List @ us)"
    using accept_all_direct[of "s\<lparr>rq_locked := False\<rparr>" c us] assms by auto
  let ?s2 = "s\<lparr>rq_pending := False, rq_locked := False, tasks := ready_all us (tasks s), lists := w, insert_buffer := q2,
        pending_ctxt_switch := pending_ctxt_switch s \<or> preempts (kconf E) (tasks s) c us\<rparr>"
  have "guard_drop (ready_queue E) (s\<lparr>insert_buffer := q, rq_pending := True\<rparr>) = Inr ?s2"
    using r(1) assms(6) by (simp add: rq.guard_drop_eq resume_eq suspend_def)
  then show ?thesis using q d r(2,3) assms(4) by (intro exI conjI) (assumption | simp)+
qed

section \<open>The next task\<close>

lemma clean_up_eq:
  assumes "sched_ok (elems (lists s)) c s"
  shows "\<exists>w. with_cur_task_explicit_sched_suspend (clean_up_current E) s =
      Inr ((), s\<lparr>tasks := (if t_state (tasks s c) = Running then ready_all [c] (tasks s) else tasks s), lists := w\<rparr>)
    \<and> elems w = (elems (lists s))(Ready_List := candidates (elems (lists s)) c s)"
proof (cases "t_state (tasks s c) = Running")
  case True
  then have "unlinked (elems (lists s)) c" using assms by (simp add: sched_ok_def)
  then obtain w where "ll_push_back E Ready_List c (lists s) = Inr w"
    "elems w = (elems (lists s))(Ready_List := elems (lists s) Ready_List @ [c])" by (rule push_unlinked)
  then show ?thesis using True assms
    by (intro exI[of _ w]) (simp add: with_cur_task_explicit_sched_suspend_def clean_up_current_def Let_def sched_ok_def
        upd_task_def ready_all_one candidates_def)
next
  case False
  then show ?thesis using assms
    by (intro exI[of _ "lists s"]) (auto simp: with_cur_task_explicit_sched_suspend_def clean_up_current_def sched_ok_def
        candidates_def split: task_state.splits)
qed

lemma candidates_ok:
  assumes "sched_ok xs c s"
  shows "candidates xs c s \<noteq> []" "lists_ok (xs(Ready_List := candidates xs c s))"
    "t \<in> set (candidates xs c s) \<Longrightarrow> t_state (tasks s t) = Ready \<or> t = c \<and> t_state (tasks s c) = Running"
    "\<exists>i \<in> set (candidates xs c s). t_is_idle (tasks s i)"
  using assms lists_ok_append[of xs c Ready_List] by (auto simp: sched_ok_def candidates_def)

end

text \<open>The state in which \<open>n\<close> of the sequence \<open>ys\<close> is made current.\<close>

lemma sched_ok_switch:
  fixes s s' :: "('w, 'q) kstate"
  assumes S: "sched_ok xs c s" and ys: "ys = candidates xs c s" "k < length ys" and n: "n = ys ! k"
    and s': "cur_task s' = Some n" "started s'" "cur_task_idle s' = t_is_idle (tasks s n)"
      "\<And>t. t_is_idle (tasks s' t) = t_is_idle (tasks s t)" "\<And>t. t_ctxt_locked (tasks s' t) \<longleftrightarrow> t = n"
      "\<And>t. t_state (tasks s' t) = (if t = n then Running else if t = c \<and> t_state (tasks s c) = Running then Ready
         else t_state (tasks s t))"
  shows "sched_ok (xs(Ready_List := take k ys @ drop (Suc k) ys)) n s'"
proof -
  have L: "lists_ok (xs(Ready_List := ys))" using S ys lists_ok_append[of xs c Ready_List]
    by (auto simp: sched_ok_def candidates_def)
  then have d: "distinct ys" unfolding lists_ok_def by (metis fun_upd_same)
  let ?zs = "take k ys @ drop (Suc k) ys"
  have zs: "distinct ?zs" "set ?zs = set ys - {n}" using remove_nth[OF d ys(2)] n by auto
  have n_in: "n \<in> set ys" using ys(2) n by simp
  have l: "lists_ok (xs(Ready_List := ?zs))"
    using lists_ok_upd_mono[OF L zs(1), of Ready_List] zs(2) by auto
  have dis: "t \<notin> set ys" if "l \<noteq> Ready_List" "t \<in> set (xs l)" for l t
  proof -
    have "set ((xs(Ready_List := ys)) l) \<inter> set ((xs(Ready_List := ys)) Ready_List) = {}"
      using L that(1) unfolding lists_ok_def by blast
    then show ?thesis using that by auto
  qed
  have "unlinked (xs(Ready_List := ?zs)) n" using zs(2) dis n_in unfolding unlinked_def
    by (metis Diff_iff fun_upd_apply insertI1)
  moreover have "t_state (tasks s' t) = Ready" if "t \<in> set ?zs" for t
    using that zs(2) S ys(1) s'(6)[of t] by (auto simp: sched_ok_def candidates_def split: if_splits)
  moreover have "t_state (tasks s' t) = Blocked" if "l \<noteq> Ready_List" "t \<in> set (xs l)" for l t
  proof -
    have "t \<noteq> n" "t_state (tasks s t) = Blocked" using dis[OF that] n_in that S unfolding sched_ok_def by auto
    then show ?thesis using s'(6)[of t] by auto
  qed
  moreover have "\<exists>i. t_is_idle (tasks s' i) \<and> (i \<in> set ?zs \<or> i = n \<and> t_state (tasks s' n) = Running)"
  proof -
    obtain i where "i \<in> set ys" "t_is_idle (tasks s i)" using S ys by (auto simp: sched_ok_def candidates_def)
    then show ?thesis using zs(2) s'(4,6)[of i] by auto
  qed
  ultimately show ?thesis using l s' unfolding sched_ok_def by simp
qed

lemma run_idle_callbacks_eq:
  "suspend_cnt s \<noteq> 0 \<Longrightarrow> \<exists>ev. run_idle_callbacks b b' s = s\<lparr>idle_events := idle_events s @ ev\<rparr>
    \<and> ev = (if b then map Idle_End [0..<idle_callbacks s] else []) @ (if b' then map Idle_Begin [0..<idle_callbacks s] else [])"
  by (cases s) (simp add: run_idle_callbacks_def Let_def suspend_def resume_eq)

lemma update_cur_task_eq:
  assumes "cur_task s = Some c" "\<And>t. t_ctxt_locked (tasks s t) \<longleftrightarrow> t = c"
  shows "update_cur_task n s = Inr (s\<lparr>cur_task := Some n,
    tasks := (\<lambda>t. (tasks s t)\<lparr>t_ctxt_locked := (t = n)\<rparr>)\<rparr>)"
proof -
  have "(tasks s t)\<lparr>t_ctxt_locked := False\<rparr> = tasks s t" if "t \<noteq> c" for t
    using assms(2)[of t] that by (cases "tasks s t") simp
  then show ?thesis using assms
    by (auto simp: update_cur_task_def Let_def lock_ctxt_def force_unlock_ctxt_def upd_task_def fun_eq_iff)
qed

context kernel_lib
begin

lemma pick_full_eq:
  assumes S: "sched_ok (elems (lists s)) c s" and sus: "suspend_cnt s \<noteq> 0"
  shows "\<exists>k s'. is_top (tasks s) (candidates (elems (lists s)) c s) k \<and> pick_full E s = Inr ((), s')
    \<and> elems (lists s') = (elems (lists s))(Ready_List :=
        take k (candidates (elems (lists s)) c s) @ drop (Suc k) (candidates (elems (lists s)) c s))
    \<and> sched_ok (elems (lists s')) (candidates (elems (lists s)) c s ! k) s'
    \<and> t_state (tasks s' (candidates (elems (lists s)) c s ! k)) = Running
    \<and> \<not> pending_ctxt_switch s' \<and> (\<forall>t. t_priority (tasks s' t) = t_priority (tasks s t))
    \<and> rq_pending s' = rq_pending s \<and> rq_locked s' = rq_locked s \<and> suspend_cnt s' = suspend_cnt s
    \<and> insert_buffer s' = insert_buffer s \<and> pendsv s' = pendsv s"
proof -
  let ?ys = "candidates (elems (lists s)) c s"
  define ts1 where "ts1 = (if t_state (tasks s c) = Running then ready_all [c] (tasks s) else tasks s)"
  have ts1: "t_is_idle (ts1 t) = t_is_idle (tasks s t)" "t_priority (ts1 t) = t_priority (tasks s t)"
    "t_ctxt_locked (ts1 t) = t_ctxt_locked (tasks s t)"
    "t_state (ts1 t) = (if t = c \<and> t_state (tasks s c) = Running then Ready else t_state (tasks s t))" for t
    by (auto simp: ts1_def)
  obtain w where w: "with_cur_task_explicit_sched_suspend (clean_up_current E) s = Inr ((), s\<lparr>tasks := ts1, lists := w\<rparr>)"
    "elems w = (elems (lists s))(Ready_List := ?ys)" using clean_up_eq[OF S] unfolding ts1_def by blast
  have ne: "elems w Ready_List \<noteq> []" using candidates_ok(1)[OF S] w(2) by simp
  obtain k w' where k: "is_top ts1 (elems w Ready_List) k"
    "pop_highest_priority E ts1 Ready_List w = Inr (Some (elems w Ready_List ! k), w')"
    "elems w' = (elems w)(Ready_List := take k (elems w Ready_List) @ drop (Suc k) (elems w Ready_List))"
    using pop_highest_eq[OF ne] by blast
  have top: "is_top (tasks s) ?ys k" using k(1) w(2) by (simp add: is_top_def ts1)
  define n where "n = ?ys ! k"
  define s1 where "s1 = s\<lparr>lists := w', tasks := ts1(n := set_state Running (ts1 n)), cur_task_idle := t_is_idle (tasks s n)\<rparr>"
  obtain ev where ev: "run_idle_callbacks (cur_task_idle s) (t_is_idle (tasks s n)) s1 = s1\<lparr>idle_events := idle_events s1 @ ev\<rparr>"
    using run_idle_callbacks_eq[of s1] sus by (auto simp: s1_def)
  let ?s2 = "s1\<lparr>idle_events := idle_events s1 @ ev, cur_task := Some n,
    tasks := (\<lambda>t. (tasks s1 t)\<lparr>t_ctxt_locked := (t = n)\<rparr>)\<rparr>"
  have "update_cur_task n (s1\<lparr>idle_events := idle_events s1 @ ev\<rparr>) = Inr ?s2"
    using S by (subst update_cur_task_eq[of _ c]) (auto simp: s1_def sched_ok_def ts1)
  then have r: "pick_full E s = Inr ((), ?s2\<lparr>pending_ctxt_switch := False\<rparr>)"
    using k w ev by (simp add: pick_full_def Let_def upd_task_def s1_def n_def[symmetric] ts1)
  have e: "elems (lists ?s2) = (elems (lists s))(Ready_List := take k ?ys @ drop (Suc k) ?ys)"
    using k(3) w(2) by (simp add: s1_def)
  have "sched_ok ((elems (lists s))(Ready_List := take k ?ys @ drop (Suc k) ?ys)) n (?s2\<lparr>pending_ctxt_switch := False\<rparr>)"
    using S top by (intro sched_ok_switch[OF S refl _ n_def]) (auto simp: s1_def is_top_def sched_ok_def ts1)
  then show ?thesis using e r top by (intro exI[of _ k] exI[of _ "?s2\<lparr>pending_ctxt_switch := False\<rparr>"])
    (auto simp: n_def[symmetric] s1_def ts1)
qed

lemma pick_next_eq:
  assumes S: "sched_ok (elems (lists s)) c s" and F: "rq_free queued s" "suspend_cnt s = 0"
  shows "\<exists>k s'. is_top (tasks s) (candidates (elems (lists s)) c s) k \<and> pick_next E s = Inr ((), s')
    \<and> elems (lists s') = (elems (lists s))(Ready_List :=
        take k (candidates (elems (lists s)) c s) @ drop (Suc k) (candidates (elems (lists s)) c s))
    \<and> sched_ok (elems (lists s')) (candidates (elems (lists s)) c s ! k) s'
    \<and> t_state (tasks s' (candidates (elems (lists s)) c s ! k)) = Running
    \<and> rq_free queued s' \<and> suspend_cnt s' = 0 \<and> \<not> pending_ctxt_switch s' \<and> pendsv s' = pendsv s
    \<and> (\<forall>t. t_priority (tasks s' t) = t_priority (tasks s t))"
proof -
  let ?s = "(suspend s)\<lparr>rq_locked := True\<rparr>" and ?ys = "candidates (elems (lists s)) c s"
  have S1: "sched_ok (elems (lists ?s)) c ?s" using S by (simp add: sched_ok_def suspend_def)
  have c: "candidates (elems (lists ?s)) c ?s = ?ys" by (simp add: candidates_def)
  have sc: "suspend_cnt ?s = 1" using F(2) by (simp add: suspend_def)
  from pick_full_eq[OF S1] obtain k s' where k: "is_top (tasks ?s) ?ys k" "pick_full E ?s = Inr ((), s')"
    "elems (lists s') = (elems (lists ?s))(Ready_List := take k ?ys @ drop (Suc k) ?ys)"
    "sched_ok (elems (lists s')) (?ys ! k) s'" "\<not> pending_ctxt_switch s'" "\<forall>t. t_priority (tasks s' t) = t_priority (tasks ?s t)"
    "rq_pending s' = rq_pending ?s" "suspend_cnt s' = suspend_cnt ?s" "insert_buffer s' = insert_buffer ?s" "pendsv s' = pendsv ?s"
    "t_state (tasks s' (?ys ! k)) = Running"
    unfolding c using sc by auto
  define s2 where "s2 = s'\<lparr>suspend_cnt := 0, rq_locked := False, rq_pending := False, pendsv := pendsv s'\<rparr>"
  have "pick_next E s = Inr ((), s2)"
    using k(2,5,7,8) F sc unfolding s2_def
    by (simp add: pick_next_def with_suspended_scheduler_def must_with_full_access_def rq.guard_drop_eq rq_free_def resume_eq)
  moreover have "sched_ok (elems (lists s2)) (?ys ! k) s2" using k(4) by (simp add: s2_def sched_ok_def)
  ultimately show ?thesis using k F(1) by (intro exI[of _ k] exI[of _ s2]) (simp add: s2_def rq_free_def)
qed

end

lemma sched_ok_accept:
  assumes S: "sched_ok xs c s" and t: "unlinked xs t" "t = c \<longrightarrow> t_state (tasks s c) = Blocked"
    and s': "tasks s' = ready_all [t] (tasks s)" "cur_task s' = cur_task s" "started s' = started s"
      "cur_task_idle s' = cur_task_idle s"
  shows "sched_ok (xs(Ready_List := xs Ready_List @ [t])) c s'"
proof -
  let ?xs = "xs(Ready_List := xs Ready_List @ [t])"
  have st: "t_state (tasks s' u) = (if u = t then Ready else t_state (tasks s u))" for u by (simp add: s')
  have "\<forall>l u. l \<noteq> Ready_List \<longrightarrow> u \<in> set (?xs l) \<longrightarrow> t_state (tasks s' u) = Blocked"
    using S t(1) unfolding sched_ok_def unlinked_def st by (metis fun_upd_other)
  moreover have "\<forall>u \<in> set (?xs Ready_List). t_state (tasks s' u) = Ready"
    using S unfolding sched_ok_def st by auto
  moreover have "t_state (tasks s' c) = Running \<longrightarrow> unlinked ?xs c"
    using S t by (auto simp: sched_ok_def st unlinked_append)
  moreover have "t_state (tasks s' c) = Ready \<longrightarrow> c \<in> set (?xs Ready_List)" "t_state (tasks s' c) \<noteq> Initializing"
    using S by (auto simp: sched_ok_def st)
  moreover have "\<exists>i. t_is_idle (tasks s' i) \<and> (i \<in> set (?xs Ready_List) \<or> i = c \<and> t_state (tasks s' c) = Running)"
  proof -
    obtain i where "t_is_idle (tasks s i)" "i \<in> set (xs Ready_List) \<or> i = c \<and> t_state (tasks s c) = Running"
      using S unfolding sched_ok_def by blast
    then show ?thesis using t(2) by (intro exI[of _ i]) (auto simp: st s')
  qed
  ultimately show ?thesis using S lists_ok_append[of xs t Ready_List] t(1) unfolding sched_ok_def s'(2-4)
    by (simp add: s'(1))
qed

section \<open>Properties\<close>

text \<open>Popping a task from a list returns nothing exactly when the list is empty. Otherwise it takes
  out a task whose priority no other task of the list exceeds, the frontmost of them, and keeps
  the order of the others and the other lists.\<close>

lemma pop_highest_priority_spec:
  assumes "kernel_lib E elems queued"
  shows "(elems w l = [] \<longrightarrow> pop_highest_priority E ts l w = Inr (None, w))
    \<and> (elems w l \<noteq> [] \<longrightarrow> (\<exists>us t vs w'. elems w l = us @ t # vs
        \<and> pop_highest_priority E ts l w = Inr (Some t, w') \<and> elems w' = (elems w)(l := us @ vs)
        \<and> (\<forall>u \<in> set us. t_priority (ts t) < t_priority (ts u))
        \<and> (\<forall>v \<in> set vs. t_priority (ts t) \<le> t_priority (ts v))))"
proof (intro conjI impI)
  assume "elems w l = []"
  then show "pop_highest_priority E ts l w = Inr (None, w)" by (rule kernel_lib.pop_highest_empty[OF assms])
next
  assume "elems w l \<noteq> []"
  then obtain k w' where k: "is_top ts (elems w l) k" "pop_highest_priority E ts l w = Inr (Some (elems w l ! k), w')"
    "elems w' = (elems w)(l := take k (elems w l) @ drop (Suc k) (elems w l))"
    using kernel_lib.pop_highest_eq[OF assms] by blast
  have len: "k < length (elems w l)" using k(1) by (simp add: is_top_def)
  have us: "\<forall>u \<in> set (take k (elems w l)). t_priority (ts (elems w l ! k)) < t_priority (ts u)"
    using k(1) by (auto simp: is_top_def in_set_conv_nth)
  have vs: "\<forall>v \<in> set (drop (Suc k) (elems w l)). t_priority (ts (elems w l ! k)) \<le> t_priority (ts v)"
    using is_top_min[OF k(1)] by (auto dest: in_set_dropD)
  show "\<exists>us t vs w'. elems w l = us @ t # vs
        \<and> pop_highest_priority E ts l w = Inr (Some t, w') \<and> elems w' = (elems w)(l := us @ vs)
        \<and> (\<forall>u \<in> set us. t_priority (ts t) < t_priority (ts u))
        \<and> (\<forall>v \<in> set vs. t_priority (ts t) \<le> t_priority (ts v))"
    using id_take_nth_drop[OF len] k(2,3) us vs by blast
qed

text \<open>Sample tasks: 0 is the idle task, 1 runs, 2 and 3 share a higher priority.\<close>

definition prio0 :: "tid \<Rightarrow> u8" where
  "prio0 t = (if t = 0 then 15 else if t = 1 then 8 else 3)"

definition task0 :: "tid \<Rightarrow> task" where
  "task0 t = (task_new config0 (t = 0))\<lparr>t_priority := Intrinsic (prio0 t),
     t_state := if t = 1 then Running else if t < 4 then Ready else Initializing, t_ctxt_locked := (t = 1)\<rparr>"

definition lists0 :: "lid \<Rightarrow> tid list" where
  "lists0 = (\<lambda>_. [])(Ready_List := [0, 2, 3])"

definition k0 :: "(lid \<Rightarrow> tid list, tid list) kstate" where
  "k0 = \<lparr>tasks = task0, lists = lists0, cur_task = Some 1, insert_buffer = [], rq_pending = False, rq_locked = False,
     exist_task_num = 4, cur_task_idle = False, started = True, suspend_cnt = 0, pending_ctxt_switch = False,
     idle_callbacks = 0, idle_events = [], ticks = 100, delete_buffer = [], time_to_wakeup = False, sq_pending = False,
     sq_locked = False, pendsv = False, in_isr = False\<rparr>"

lemma config0_tasks [simp]: "MAX_TASK_NUMBER config0 = 16" "ALLOW_TASK_PREEMPTION config0" "TASK_PRIORITY_LEVELS config0 = 16"
  by (simp_all add: config0_def)

lemma k0_fields [simp]:
  "lists k0 = lists0" "tasks k0 = task0" "cur_task k0 = Some 1" "insert_buffer k0 = []" "\<not> rq_pending k0" "\<not> rq_locked k0"
  "started k0" "suspend_cnt k0 = 0" "\<not> pending_ctxt_switch k0" "\<not> in_isr k0" "\<not> sq_locked k0" "\<not> sq_pending k0"
  "delete_buffer k0 = []" "ticks k0 = 100" "\<not> time_to_wakeup k0" "\<not> pendsv k0"
  by (simp_all add: k0_def)

lemma k0_sched_ok: "sched_ok (lists k0) 1 k0"
  by (auto simp: sched_ok_def lists_ok_def unlinked_def k0_def lists0_def task0_def task_new_def)

lemma accept_task_result:
  assumes "kernel_lib E elems queued" "sched_ok (elems (lists s)) c s" "rq_free queued s"
    and "unlinked (elems (lists s)) t" "t = c \<longrightarrow> t_state (tasks s c) = Blocked"
  shows "\<exists>s'. accept_task E t s = Inr ((), s') \<and> sched_ok (elems (lists s')) c s' \<and> rq_free queued s'
    \<and> elems (lists s') = (elems (lists s))(Ready_List := elems (lists s) Ready_List @ [t])
    \<and> tasks s' = (tasks s)(t := set_state Ready (tasks s t)) \<and> suspend_cnt s' = suspend_cnt s
    \<and> pending_ctxt_switch s' = (pending_ctxt_switch s \<or> should_preempt (kconf E) (tasks s t) (tasks s c))
    \<and> pendsv s' = (pendsv s \<or> suspend_cnt s = 0 \<and> pending_ctxt_switch s')"
proof -
  have "cur_task s = Some c" "started s" "\<not> rq_locked s" "\<not> rq_pending s"
    using assms(2,3) by (auto simp: sched_ok_def rq_free_def)
  from kernel_lib.accept_task_direct[OF assms(1) this assms(4)] obtain w where w:
    "accept_task E t s = Inr ((), s\<lparr>tasks := ready_all [t] (tasks s), lists := w,
        pending_ctxt_switch := pending_ctxt_switch s \<or> preempts (kconf E) (tasks s) c [t],
        pendsv := pendsv s \<or> suspend_cnt s = 0 \<and> (pending_ctxt_switch s \<or> preempts (kconf E) (tasks s) c [t])\<rparr>)"
    "elems w = (elems (lists s))(Ready_List := elems (lists s) Ready_List @ [t])" by blast
  define s' where "s' = s\<lparr>tasks := ready_all [t] (tasks s), lists := w,
        pending_ctxt_switch := pending_ctxt_switch s \<or> preempts (kconf E) (tasks s) c [t],
        pendsv := pendsv s \<or> suspend_cnt s = 0 \<and> (pending_ctxt_switch s \<or> preempts (kconf E) (tasks s) c [t])\<rparr>"
  have "sched_ok (elems (lists s')) c s'"
    using sched_ok_accept[OF assms(2,4,5), of s'] w(2) by (simp add: s'_def)
  then show ?thesis using w assms(3)
    by (intro exI[of _ s']) (simp add: s'_def rq_free_def ready_all_one)
qed

text \<open>Making a task ready while nobody else uses the ready queue: the task, which must not be in any
  list, is appended to the ready list in state \<open>Ready\<close>; a context switch is requested if the task
  has a higher priority than the current one, and PendSV is raised at once unless the scheduler
  is suspended by an outer function. The invariant of the scheduler is kept.\<close>

lemma accept_task_spec:
  assumes "kernel_lib E elems queued" "sched_ok (elems (lists s)) c s" "rq_free queued s"
    and "unlinked (elems (lists s)) t" "t = c \<longrightarrow> t_state (tasks s c) = Blocked"
  shows "\<exists>s'. accept_task E t s = Inr ((), s') \<and> sched_ok (elems (lists s')) c s' \<and> rq_free queued s'
    \<and> elems (lists s') = (elems (lists s))(Ready_List := elems (lists s) Ready_List @ [t])
    \<and> tasks s' = (tasks s)(t := set_state Ready (tasks s t)) \<and> suspend_cnt s' = suspend_cnt s
    \<and> pending_ctxt_switch s' = (pending_ctxt_switch s \<or> should_preempt (kconf E) (tasks s t) (tasks s c))
    \<and> pendsv s' = (pendsv s \<or> suspend_cnt s = 0 \<and> pending_ctxt_switch s')"
  using accept_task_result[OF assms] .

text \<open>C22. Tasks that interrupt handlers make ready while a preempted context holds the ready queue go
  to the insert buffer; when the holder drops its guard, the ready list, the tasks, the request
  for a context switch and every other part of the state are what they would be had the handlers
  inserted them directly. Nothing is lost and the order is kept.\<close>

theorem deferred_insert_refines_direct:
  assumes "kernel_lib E elems queued" "sched_ok (elems (lists s)) c s"
    and "rq_locked s" "\<not> rq_pending s" "queued (insert_buffer s) = []" "suspend_cnt s \<noteq> 0"
    and "distinct us" "\<forall>u \<in> set us. unlinked (elems (lists s)) u" "length us \<le> MAX_TASK_NUMBER (kconf E)" "us \<noteq> []"
  shows "\<exists>s1 s2 s3. accept_all E us s = Inr s1 \<and> guard_drop (ready_queue E) s1 = Inr s2
    \<and> accept_all E us (s\<lparr>rq_locked := False\<rparr>) = Inr s3
    \<and> elems (lists s2) = elems (lists s3) \<and> s2 = s3\<lparr>lists := lists s2, insert_buffer := insert_buffer s2\<rparr>
    \<and> queued (insert_buffer s2) = [] \<and> elems (lists s3) Ready_List = elems (lists s) Ready_List @ us
    \<and> pending_ctxt_switch s3 = (pending_ctxt_switch s \<or> preempts (kconf E) (tasks s) c us)"
  by (rule kernel_lib.deferred_eq_direct[OF assms(1)]) (use assms in \<open>auto simp: sched_ok_def\<close>)

theorem deferred_insert_refines_direct_witness:
  "\<exists>s1 s2. accept_all (list_env config0) [5, 4] (k0\<lparr>rq_locked := True, suspend_cnt := 1\<rparr>) = Inr s1 \<and> rq_pending s1
    \<and> guard_drop (ready_queue (list_env config0)) s1 = Inr s2 \<and> lists s2 Ready_List = [0, 2, 3, 5, 4]"
proof -
  let ?s = "k0\<lparr>rq_locked := True, suspend_cnt := 1\<rparr>"
  have ok: "sched_ok (lists ?s) 1 ?s" using k0_sched_ok by (simp add: sched_ok_def)
  have un: "\<forall>u \<in> set [5, 4]. unlinked (lists ?s) u" by (simp add: unlinked_def lists0_def)
  have fl: "rq_locked ?s" "\<not> rq_pending ?s" "insert_buffer ?s = []" "suspend_cnt ?s \<noteq> 0" "distinct [5, 4 :: tid]"
    "length [5, 4 :: tid] \<le> MAX_TASK_NUMBER (kconf (list_env config0))" "[5, 4 :: tid] \<noteq> []" by simp_all
  obtain s1 s2 and s3 :: "(lid \<Rightarrow> tid list, tid list) kstate" where r: "accept_all (list_env config0) [5, 4] ?s = Inr s1"
    "guard_drop (ready_queue (list_env config0)) s1 = Inr s2" "lists s2 = lists s3"
    "lists s3 Ready_List = lists ?s Ready_List @ [5, 4]"
    using deferred_insert_refines_direct[OF le.kernel_lib_axioms[of config0] ok fl(1-5) un fl(6,7)] by blast
  moreover have "rq_pending s1"
    using r(1) le.accept_all_pended[of ?s "[5, 4]" config0] fl by (auto simp del: accept_all.simps)
  ultimately show ?thesis by (intro exI[of _ s1] exI[of _ s2]) (simp add: lists0_def del: accept_all.simps)
qed

text \<open>C23. Choosing the next task always succeeds when the scheduler is not suspended: the current task
  goes to the end of the ready list if it was running, and the frontmost task of the highest
  priority among the ready ones is taken out of the list and becomes current and running, with its
  context, and only its context, locked. The request for a context switch is cleared and the
  invariant is kept; in particular an idle task is always there. If the scheduler is suspended, it
  dies.\<close>

theorem pick_next_spec:
  assumes "kernel_lib E elems queued" "sched_ok (elems (lists s)) c s" "rq_free queued s"
  shows "(suspend_cnt s = 0 \<longrightarrow> (\<exists>us n vs s'. candidates (elems (lists s)) c s = us @ n # vs
      \<and> pick_next E s = Inr ((), s') \<and> cur_task s' = Some n \<and> t_state (tasks s' n) = Running
      \<and> (\<forall>u \<in> set us. t_priority (tasks s n) < t_priority (tasks s u))
      \<and> (\<forall>v \<in> set vs. t_priority (tasks s n) \<le> t_priority (tasks s v))
      \<and> elems (lists s') = (elems (lists s))(Ready_List := us @ vs)
      \<and> sched_ok (elems (lists s')) n s' \<and> rq_free queued s' \<and> suspend_cnt s' = 0 \<and> \<not> pending_ctxt_switch s'))
    \<and> (suspend_cnt s \<noteq> 0 \<longrightarrow> pick_next E s = Inl Die)"
proof (intro conjI impI)
  assume "suspend_cnt s = 0"
  from kernel_lib.pick_next_eq[OF assms this] obtain k s' where k: "is_top (tasks s) (candidates (elems (lists s)) c s) k"
    "pick_next E s = Inr ((), s')" "elems (lists s') = (elems (lists s))(Ready_List :=
        take k (candidates (elems (lists s)) c s) @ drop (Suc k) (candidates (elems (lists s)) c s))"
    "sched_ok (elems (lists s')) (candidates (elems (lists s)) c s ! k) s'" "rq_free queued s'" "suspend_cnt s' = 0"
    "\<not> pending_ctxt_switch s'" "t_state (tasks s' (candidates (elems (lists s)) c s ! k)) = Running" by blast
  let ?ys = "candidates (elems (lists s)) c s"
  have len: "k < length ?ys" using k(1) by (simp add: is_top_def)
  have us: "\<forall>u \<in> set (take k ?ys). t_priority (tasks s (?ys ! k)) < t_priority (tasks s u)"
    using k(1) by (auto simp: is_top_def in_set_conv_nth)
  have vs: "\<forall>v \<in> set (drop (Suc k) ?ys). t_priority (tasks s (?ys ! k)) \<le> t_priority (tasks s v)"
    using is_top_min[OF k(1)] by (auto dest: in_set_dropD)
  have cur: "cur_task s' = Some (?ys ! k)" using k(4) by (simp add: sched_ok_def)
  show "\<exists>us n vs s'. ?ys = us @ n # vs
      \<and> pick_next E s = Inr ((), s') \<and> cur_task s' = Some n \<and> t_state (tasks s' n) = Running
      \<and> (\<forall>u \<in> set us. t_priority (tasks s n) < t_priority (tasks s u))
      \<and> (\<forall>v \<in> set vs. t_priority (tasks s n) \<le> t_priority (tasks s v))
      \<and> elems (lists s') = (elems (lists s))(Ready_List := us @ vs)
      \<and> sched_ok (elems (lists s')) n s' \<and> rq_free queued s' \<and> suspend_cnt s' = 0 \<and> \<not> pending_ctxt_switch s'"
    using id_take_nth_drop[OF len] k cur us vs by blast
next
  assume "suspend_cnt s \<noteq> 0"
  then show "pick_next E s = Inl Die" by (simp add: pick_next_def word_gt_0)
qed

theorem pick_next_spec_witness:
  "\<exists>s'. pick_next (list_env config0) k0 = Inr ((), s') \<and> cur_task s' = Some 2 \<and> lists s' Ready_List = [0, 3, 1]"
proof -
  have cand: "candidates (lists k0) 1 k0 = [0, 2, 3, 1]" by (simp add: candidates_def k0_def lists0_def task0_def)
  obtain us n vs s' where r: "[0, 2, 3, 1] = us @ n # vs" "pick_next (list_env config0) k0 = Inr ((), s')" "cur_task s' = Some n"
    "\<forall>u \<in> set us. t_priority (task0 n) < t_priority (task0 u)" "\<forall>v \<in> set vs. t_priority (task0 n) \<le> t_priority (task0 v)"
    "lists s' = (lists k0)(Ready_List := us @ vs)"
    using pick_next_spec[OF le.kernel_lib_axioms[of config0] k0_sched_ok] unfolding cand
    by (auto simp: rq_free_def)
  from r(1,4,5) have "us = [0] \<and> n = 2 \<and> vs = [3, 1]"
    by (cases us; cases "tl us"; cases "tl (tl us)"; cases "tl (tl (tl us))")
       (auto simp: task0_def prio0_def less_eq_task_priority_def less_task_priority_def split: if_splits)
  then show ?thesis using r by auto
qed

text \<open>Histories of quotas: a request that may be refused, and the drop of a quota that is held.\<close>

datatype quota_event = Request | Release

fun quota_run :: "config \<Rightarrow> quota_event list \<Rightarrow> nat \<times> ('w, 'q) kstate \<Rightarrow> nat \<times> ('w, 'q) kstate" where
  "quota_run c [] hs = hs"
| "quota_run c (Request # es) (h, s) =
     (case request_task_quota c s of
        (Some _, s) \<Rightarrow> quota_run c es (h + 1, s) | (None, s) \<Rightarrow> quota_run c es (h, s))"
| "quota_run c (Release # es) (h, s) =
     (if 0 < h then quota_run c es (h - 1, quota_drop s) else quota_run c es (h, s))"

lemma quota_run_bound:
  "\<lbrakk>MAX_TASK_NUMBER c < 2 ^ 32; quota_run c es (h, s) = (h', s'); unat (exist_task_num s) = h; h \<le> MAX_TASK_NUMBER c\<rbrakk> \<Longrightarrow>
    unat (exist_task_num s') = h' \<and> h' \<le> MAX_TASK_NUMBER c"
proof (induction c es "(h, s)" arbitrary: h s rule: quota_run.induct)
  case (2 c es h s)
  show ?case
  proof (cases "h < MAX_TASK_NUMBER c")
    case True
    have "unat (exist_task_num s + 1) = h + 1" using 2(3,5) True by (simp add: unat_word_ariths)
    then show ?thesis using 2 True by (auto simp: request_task_quota_def)
  next
    case False
    then show ?thesis using 2 by (auto simp: request_task_quota_def)
  qed
next
  case (3 c es h s)
  have "unat (exist_task_num s - 1) = h - 1" if "0 < h"
    using 3(5) that by (simp add: unat_sub word_le_nat_alt)
  then show ?case using 3 by (auto simp: quota_drop_def split: if_splits)
qed simp

text \<open>C24. However requests for quotas and drops of held quotas follow each other, the counter of
  existing tasks is the number of held quotas, never exceeds \<open>MAX_TASK_NUMBER\<close> and never wraps; a
  request is refused exactly when the maximum is reached.\<close>

theorem task_quota_bounded:
  assumes "MAX_TASK_NUMBER c < 2 ^ 32" "exist_task_num s = 0" "quota_run c es (0, s) = (h, s')"
  shows "unat (exist_task_num s') = h \<and> h \<le> MAX_TASK_NUMBER c
    \<and> (fst (request_task_quota c s') = None \<longleftrightarrow> h = MAX_TASK_NUMBER c)"
  using quota_run_bound[OF assms(1,3)] assms(2) by (auto simp: request_task_quota_def)

theorem task_quota_bounded_witness:
  "\<exists>s'. quota_run (config0\<lparr>MAX_TASK_NUMBER := 2\<rparr>) [Request, Request, Request, Release, Request] (0, k0\<lparr>exist_task_num := 0\<rparr>) = (2, s')
    \<and> exist_task_num s' = 2 \<and> fst (request_task_quota (config0\<lparr>MAX_TASK_NUMBER := 2\<rparr>) s') = None"
proof -
  let ?c = "config0\<lparr>MAX_TASK_NUMBER := 2\<rparr>" and ?s = "k0\<lparr>exist_task_num := 0\<rparr>"
  have r: "quota_run ?c [Request, Request, Request, Release, Request] (0, ?s) = (2, k0\<lparr>exist_task_num := 2\<rparr>)"
    by (simp add: request_task_quota_def quota_drop_def)
  show ?thesis using task_quota_bounded[OF _ _ r] r by simp
qed

text \<open>Changing the priority of the current task: a priority of \<open>TASK_PRIORITY_LEVELS - 1\<close> or more is
  refused with the state unchanged; otherwise the intrinsic priority is changed and PendSV is
  raised, also while the scheduler is suspended, and then the PendSV handler dies.\<close>

lemma change_current_priority_spec:
  assumes "cur_task s = Some t"
  shows "(TASK_PRIORITY_LEVELS c - 1 \<le> prio \<longrightarrow> change_current_priority c prio s = Inr (None, s))
    \<and> (prio < TASK_PRIORITY_LEVELS c - 1 \<longrightarrow>
        change_current_priority c prio s =
          Inr (Some (), s\<lparr>tasks := (tasks s)(t := change_intrinsic_priority prio (tasks s t)), pendsv := True\<rparr>)
        \<and> (suspend_cnt s \<noteq> 0 \<longrightarrow>
             bindr (change_current_priority c prio s) (\<lambda>(_, s). pendsv_handler E lr s) = Inl Die))"
  using assms
  by (auto simp: change_current_priority_def with_cur_task_def with_suspended_scheduler_def resume_eq
      with_cur_task_explicit_sched_suspend_def yield_current_task_def upd_task_def suspend_def pendsv_handler_def
      pick_next_def Let_def word_gt_0)

end
