(* ===== verification/Time.thy ===== *)
theory Time
  imports Sched_Correct
begin

text \<open>
  Time, \<open>src/time/mod.rs\<close>, and the SysTick handler of \<open>src/interrupt/systick.rs\<close>: the tick counter,
  the queue of sleeping tasks behind a soft lock, \<open>sleep_ms\<close> and the interval barrier. A call that
  blocks is modelled up to the point where it raises PendSV.
\<close>

section \<open>The sleep queue\<close>

text \<open>The cursor stays at the front: removing a task moves it to the next one.\<close>

partial_function (option) wake_loop ::
  "('w, 'q) kenv \<Rightarrow> u32 \<Rightarrow> ('w, 'q) kstate \<Rightarrow> ('w, 'q) kstate res option" where
  "wake_loop E cur_tick s =
     (case ll_get E (lists s) Sleep_List 0 of
        None \<Rightarrow> Some (Inr s)
      | Some t \<Rightarrow>
          if tick_cmp (t_wake_at_tick (tasks s t)) cur_tick \<noteq> Greater then
            (case ll_remove E Sleep_List 0 (lists s) of
               (None, w) \<Rightarrow> Some (Inl Die)
             | (Some t, w) \<Rightarrow>
                 (case accept_task E t (s\<lparr>lists := w\<rparr>) of
                    Inl e \<Rightarrow> Some (Inl e)
                  | Inr (u, s) \<Rightarrow> wake_loop E cur_tick s))
          else Some (Inr s))"

partial_function (option) delete_loop ::
  "('w, 'q) kenv \<Rightarrow> ('w, 'q) kstate \<Rightarrow> ('w, 'q) kstate res option" where
  "delete_loop E s =
     (case mq_dequeue E (delete_buffer s) of
        None \<Rightarrow> Some (Inr s)
      | Some (t, q) \<Rightarrow>
          (case remove_task E Sleep_List t (lists s) of
             Inl e \<Rightarrow> Some (Inl e)
           | Inr (None, w) \<Rightarrow> delete_loop E (s\<lparr>delete_buffer := q, lists := w\<rparr>)
           | Inr (Some t, w) \<Rightarrow>
               (case accept_task E t (s\<lparr>delete_buffer := q, lists := w\<rparr>) of
                  Inl e \<Rightarrow> Some (Inl e)
                | Inr (u, s) \<Rightarrow> delete_loop E s)))"

definition wake_expired_tasks :: "('w, 'q) kenv \<Rightarrow> ('w, 'q) kstate \<Rightarrow> (unit \<times> ('w, 'q) kstate) res" where
  "wake_expired_tasks E s =
     bindr (bindr (or_die (wake_loop E (ticks s) s)) (\<lambda>s. s)) (\<lambda>s.
     bindr (bindr (or_die (delete_loop E s)) (\<lambda>s. s)) (\<lambda>s. Inr ((), s)))"

definition sq_run_pended_op :: "('w, 'q) kenv \<Rightarrow> ('w, 'q) kstate \<Rightarrow> ('w, 'q) kstate res" where
  "sq_run_pended_op E s =
     (if time_to_wakeup s
      then bindr (wake_expired_tasks E s) (\<lambda>(_, s). Inr (s\<lparr>time_to_wakeup := False\<rparr>)) else Inr s)"

definition sleep_queue :: "('w, 'q) kenv \<Rightarrow> ('w, 'q) kstate soft_lock" where
  "sleep_queue E = \<lparr>get_pending = sq_pending, set_pending = (\<lambda>b s. s\<lparr>sq_pending := b\<rparr>),
     get_locked = sq_locked, set_locked = (\<lambda>b s. s\<lparr>sq_locked := b\<rparr>), run_pended_op = sq_run_pended_op E\<rparr>"

definition advance_tick :: "('w, 'q) kstate \<Rightarrow> ('w, 'q) kstate" where
  "advance_tick s = s\<lparr>ticks := ticks s + 1\<rparr>"

definition wake_sleeping_tasks :: "('w, 'q) kenv \<Rightarrow> ('w, 'q) kstate \<Rightarrow> (unit \<times> ('w, 'q) kstate) res" where
  "wake_sleeping_tasks E =
     with_suspended_scheduler (with_access (sleep_queue E) (wake_expired_tasks E)
       (\<lambda>s. Inr ((), s\<lparr>time_to_wakeup := True\<rparr>)))"

definition systick_handler :: "('w, 'q) kenv \<Rightarrow> ('w, 'q) kstate \<Rightarrow> (unit \<times> ('w, 'q) kstate) res" where
  "systick_handler E s = wake_sleeping_tasks E (advance_tick s)"

definition add_task_to_sleep_queue ::
  "('w, 'q) kenv \<Rightarrow> tid \<Rightarrow> u32 \<Rightarrow> ('w, 'q) kstate \<Rightarrow> (unit \<times> ('w, 'q) kstate) res" where
  "add_task_to_sleep_queue E t wake_at_tick =
     with_suspended_scheduler (must_with_full_access (sleep_queue E) (\<lambda>s.
       let s = upd_task t (set_wake_tick wake_at_tick) s
       in bindr (push_back_tick_sorted E (tasks s) Sleep_List t (lists s)) (\<lambda>w. Inr ((), s\<lparr>lists := w\<rparr>))))"

definition remove_task_from_sleep_queue_allow_isr ::
  "('w, 'q) kenv \<Rightarrow> tid \<Rightarrow> ('w, 'q) kstate \<Rightarrow> (unit \<times> ('w, 'q) kstate) res" where
  "remove_task_from_sleep_queue_allow_isr E t =
     with_suspended_scheduler (with_access (sleep_queue E)
       (\<lambda>s. bindr (remove_task E Sleep_List t (lists s)) (\<lambda>(r, w).
              case r of None \<Rightarrow> Inr ((), s\<lparr>lists := w\<rparr>) | Some t \<Rightarrow> accept_task E t (s\<lparr>lists := w\<rparr>)))
       (\<lambda>s. bindr (or_die (mq_enqueue E (delete_buffer s) t)) (\<lambda>q. Inr ((), s\<lparr>delete_buffer := q\<rparr>))))"

section \<open>Sleeping\<close>

datatype sleep_error = TooLong

text \<open>The inner function \<open>add_cur_task_to_sleep_queue\<close>.\<close>

definition add_cur_task_to_sleep_queue ::
  "('w, 'q) kenv \<Rightarrow> u32 \<Rightarrow> ('w, 'q) kstate \<Rightarrow> (unit \<times> ('w, 'q) kstate) res" where
  "add_cur_task_to_sleep_queue E wake_at_tick s =
     (if is_suspended s \<or> in_isr s then Inl Panic
      else with_cur_task (\<lambda>c s. add_task_to_sleep_queue E c wake_at_tick (upd_task c (set_state Blocked) s)) s)"

definition sleep_ms_unchecked :: "('w, 'q) kenv \<Rightarrow> u32 \<Rightarrow> ('w, 'q) kstate \<Rightarrow> (unit \<times> ('w, 'q) kstate) res" where
  "sleep_ms_unchecked E ms s =
     (let wake_at_tick = ticks s + ms
      in if tick_cmp (ticks s) wake_at_tick = Less
         then bindr (add_cur_task_to_sleep_queue E wake_at_tick s) (\<lambda>(_, s). Inr ((), yield_current_task s))
         else Inr ((), s))"

definition sleep_ms ::
  "('w, 'q) kenv \<Rightarrow> u32 \<Rightarrow> ('w, 'q) kstate \<Rightarrow> ((sleep_error + unit) \<times> ('w, 'q) kstate) res" where
  "sleep_ms E ms s =
     (if ms > 0x7fffffff then Inr (Inl TooLong, s)
      else bindr (sleep_ms_unchecked E ms s) (\<lambda>(_, s). Inr (Inr (), s)))"

record interval_barrier =
  interval_ms :: u32
  next_tick_to_wake :: u32

definition barrier_new :: "u32 \<Rightarrow> ('w, 'q) kstate \<Rightarrow> sleep_error + interval_barrier" where
  "barrier_new ms s =
     (if ms > 0x7fffffff then Inl TooLong
      else Inr \<lparr>interval_ms = ms, next_tick_to_wake = ticks s + ms\<rparr>)"

definition barrier_wait ::
  "('w, 'q) kenv \<Rightarrow> interval_barrier \<Rightarrow> ('w, 'q) kstate \<Rightarrow> (interval_barrier \<times> ('w, 'q) kstate) res" where
  "barrier_wait E b s =
     (let cur_tick = ticks s
      in bindr (if tick_cmp cur_tick (next_tick_to_wake b) = Less
                then sleep_ms_unchecked E (next_tick_to_wake b - cur_tick) s else Inr ((), s)) (\<lambda>(_, s).
           Inr (b\<lparr>next_tick_to_wake := next_tick_to_wake b + interval_ms b\<rparr>, s)))"

section \<open>What the scheduler calls leave alone\<close>

lemma accept_task_keeps:
  assumes "accept_task E t s = Inr (r, s')" shows "sq_pending s' = sq_pending s"
  using assms
  by (auto simp: accept_task_def with_suspended_scheduler_def with_access_def insert_full_def insert_pend_def bindr_Inr
      with_cur_task_explicit_sched_suspend_def upd_task_def Let_def rq.guard_drop_eq
      split: if_splits option.splits dest!: rq_run_pended_keeps)

lemma wake_loop_keeps:
  "wake_loop E c s = Some r \<Longrightarrow> \<forall>s'. r = Inr s' \<longrightarrow> sq_pending s' = sq_pending s"
  by (erule wake_loop.raw_induct[where P = "\<lambda>E c s r. \<forall>s'. r = Inr s' \<longrightarrow> sq_pending s' = sq_pending s", rotated])
     (fastforce split: option.splits sum.splits if_splits prod.splits dest: accept_task_keeps)

lemma delete_loop_keeps:
  "delete_loop E s = Some r \<Longrightarrow> \<forall>s'. r = Inr s' \<longrightarrow> sq_pending s' = sq_pending s"
  by (erule delete_loop.raw_induct[where P = "\<lambda>E s r. \<forall>s'. r = Inr s' \<longrightarrow> sq_pending s' = sq_pending s", rotated])
     (fastforce split: option.splits sum.splits if_splits prod.splits dest: accept_task_keeps)

lemma sq_run_pended_keeps: "sq_run_pended_op E s = Inr s' \<Longrightarrow> sq_pending s' = sq_pending s"
  by (auto simp: sq_run_pended_op_def wake_expired_tasks_def bindr_Inr or_die_Inr split: if_splits
      dest!: wake_loop_keeps delete_loop_keeps)

interpretation sq: soft_lock_content "sleep_queue E" for E
  by unfold_locales (auto simp: sleep_queue_def sq_run_pended_keeps)

lemma sleep_queue_simps [simp]:
  "get_pending (sleep_queue E) = sq_pending" "set_pending (sleep_queue E) = (\<lambda>b s. s\<lparr>sq_pending := b\<rparr>)"
  "get_locked (sleep_queue E) = sq_locked" "set_locked (sleep_queue E) = (\<lambda>b s. s\<lparr>sq_locked := b\<rparr>)"
  "run_pended_op (sleep_queue E) = sq_run_pended_op E"
  by (simp_all add: sleep_queue_def)

end
