(* ===== verification/Time_Correct.thy ===== *)
theory Time_Correct
  imports Time
begin

text \<open>
  Correctness of time: ticks compare as absolute times do while they are close enough, the sleep
  queue stays sorted, the SysTick handler wakes exactly the tasks whose time has come, and the
  interval barrier does not drift. An absolute time is an integer; the tick counter and the
  wake-up ticks are absolute times modulo \<open>2 ^ 32\<close>.
\<close>

section \<open>Ticks and absolute times\<close>

lemma sint_of_int32: "- (2 ^ 31) \<le> d \<Longrightarrow> d < 2 ^ 31 \<Longrightarrow> sint (of_int d :: u32) = d"
  by (simp add: signed_of_int signed_take_bit_int_eq_self)

lemma tick_cmp_of_int:
  assumes "- (2 ^ 31) \<le> a - b" "a - b < 2 ^ 31"
  shows "tick_cmp (of_int a) (of_int b) = (if a < b then Less else if a = b then Equal else Greater)"
proof -
  have "sint (of_int a - of_int b :: u32) = a - b"
    using sint_of_int32[OF assms] by simp
  then show ?thesis by (simp add: tick_cmp_def Let_def)
qed

text \<open>The comparison that the comment of \<open>tick_cmp\<close> derives it from: both ticks relative to the current
  one.\<close>

definition tick_cmp_rel :: "u32 \<Rightarrow> u32 \<Rightarrow> u32 \<Rightarrow> cmp_ordering" where
  "tick_cmp_rel cur_tick lhs rhs =
     (let l = sint (lhs - cur_tick); r = sint (rhs - cur_tick)
      in if l < r then Less else if l = r then Equal else Greater)"

lemma of_int_sint_diff: "(of_int (sint (a - c)) :: u32) - of_int (sint (b - c)) = a - b"
  by simp

lemma tick_cmp_rel_eq:
  assumes "- (2 ^ 31) \<le> sint (lhs - cur) - sint (rhs - cur)" "sint (lhs - cur) - sint (rhs - cur) < 2 ^ 31"
  shows "tick_cmp lhs rhs = tick_cmp_rel cur lhs rhs"
proof -
  have "sint (lhs - rhs) = sint (lhs - cur) - sint (rhs - cur)"
    using sint_of_int32[OF assms] of_int_sint_diff[of lhs cur rhs] by simp
  then show ?thesis by (auto simp: tick_cmp_def tick_cmp_rel_def Let_def)
qed

section \<open>The invariant of the sleep queue\<close>

text \<open>At time \<open>now\<close>: the sleeping tasks are sorted by the times they are due, and these lie less than
  \<open>2 ^ 31\<close> ticks in the future.\<close>

definition sleep_ok :: "(tid \<Rightarrow> int) \<Rightarrow> int \<Rightarrow> tid list \<Rightarrow> ('w, 'q) kstate \<Rightarrow> bool" where
  "sleep_ok due now xs s \<longleftrightarrow> ticks s = of_int now \<and> sorted_wrt (\<lambda>a b. due a \<le> due b) xs
     \<and> (\<forall>t \<in> set xs. t_wake_at_tick (tasks s t) = of_int (due t) \<and> now < due t \<and> due t < now + 2 ^ 31)"

text \<open>Nobody holds the sleep queue, and nothing is pended.\<close>

definition sq_free :: "('q \<Rightarrow> tid list) \<Rightarrow> ('w, 'q) kstate \<Rightarrow> bool" where
  "sq_free queued s \<longleftrightarrow> \<not> sq_locked s \<and> \<not> sq_pending s \<and> queued (delete_buffer s) = [] \<and> \<not> time_to_wakeup s"

text \<open>Moving tasks from another list to the ready list.\<close>

lemma sched_ok_move:
  assumes S: "sched_ok xs c s" and l: "l \<noteq> Ready_List" "distinct (us @ vs)" "set (us @ vs) = set (xs l)"
    and s': "tasks s' = ready_all us (tasks s)" "cur_task s' = cur_task s" "started s' = started s"
      "cur_task_idle s' = cur_task_idle s"
  shows "sched_ok (xs(l := vs, Ready_List := xs Ready_List @ us)) c s'"
proof -
  let ?xs = "xs(l := vs, Ready_List := xs Ready_List @ us)"
  have st: "t_state (tasks s' u) = (if u \<in> set us then Ready else t_state (tasks s u))" for u by (simp add: s')
  have L: "lists_ok xs" using S by (simp add: sched_ok_def)
  have sub: "set us \<subseteq> set (xs l)" "set vs \<subseteq> set (xs l)" "set us \<inter> set vs = {}" using l(2,3) by auto
  have dis: "set us \<inter> set (xs k) = {}" if "k \<noteq> l" for k
    using L sub(1) that unfolding lists_ok_def by blast
  have "distinct (?xs k)" for k
    using L l dis[of Ready_List] unfolding lists_ok_def by (auto simp: disjoint_iff)
  moreover have "set (?xs j) \<inter> set (?xs k) = {}" if "j \<noteq> k" for j k
  proof -
    have d: "set (xs j) \<inter> set (xs k) = {}" "j \<noteq> l \<Longrightarrow> set (xs j) \<inter> set (xs l) = {}" "k \<noteq> l \<Longrightarrow> set (xs k) \<inter> set (xs l) = {}"
      using L that unfolding lists_ok_def by auto
    show ?thesis using that l(1) sub d dis[of j] dis[of k] by (auto split: if_splits)
  qed
  ultimately have "lists_ok ?xs" unfolding lists_ok_def by blast
  moreover have "\<forall>k u. k \<noteq> Ready_List \<longrightarrow> u \<in> set (?xs k) \<longrightarrow> t_state (tasks s' u) = Blocked"
  proof (intro allI impI)
    fix k u assume k: "k \<noteq> Ready_List" "u \<in> set (?xs k)"
    then have "u \<in> set (xs k)" "u \<notin> set us" using sub dis[of k] by (auto split: if_splits)
    then show "t_state (tasks s' u) = Blocked" using S k(1) by (simp add: st sched_ok_def)
  qed
  moreover have "\<forall>u \<in> set (?xs Ready_List). t_state (tasks s' u) = Ready" using S by (auto simp: st sched_ok_def)
  moreover have "t_state (tasks s' c) = Running \<longrightarrow> unlinked ?xs c"
  proof
    assume "t_state (tasks s' c) = Running"
    then have "unlinked xs c" "c \<notin> set us" using S by (auto simp: st sched_ok_def split: if_splits)
    then show "unlinked ?xs c" using sub(2) unfolding unlinked_def by auto
  qed
  moreover have "t_state (tasks s' c) = Ready \<longrightarrow> c \<in> set (?xs Ready_List)" "t_state (tasks s' c) \<noteq> Initializing"
    using S by (auto simp: sched_ok_def st)
  moreover have "\<exists>i. t_is_idle (tasks s' i) \<and> (i \<in> set (?xs Ready_List) \<or> i = c \<and> t_state (tasks s' c) = Running)"
  proof -
    obtain i where "t_is_idle (tasks s i)" "i \<in> set (xs Ready_List) \<or> i = c \<and> t_state (tasks s c) = Running"
      using S unfolding sched_ok_def by blast
    then show ?thesis by (intro exI[of _ i]) (auto simp: st s')
  qed
  ultimately show ?thesis using S unfolding sched_ok_def s'(2-4) by (simp add: s'(1))
qed

lemma ready_all_wake [simp]: "t_wake_at_tick (ready_all us ts t) = t_wake_at_tick (ts t)"
  by (simp add: ready_all_def)

context kernel_lib
begin

lemma wake_loop_eq:
  "\<lbrakk>elems (lists s) Sleep_List = us @ vs; lists_ok (elems (lists s));
    \<forall>u \<in> set us. tick_cmp (t_wake_at_tick (tasks s u)) now \<noteq> Greater;
    vs \<noteq> [] \<longrightarrow> tick_cmp (t_wake_at_tick (tasks s (hd vs))) now = Greater;
    cur_task s = Some c; started s; \<not> rq_locked s; \<not> rq_pending s; suspend_cnt s \<noteq> 0\<rbrakk> \<Longrightarrow>
   \<exists>w. wake_loop E now s = Some (Inr (s\<lparr>tasks := ready_all us (tasks s), lists := w,
        pending_ctxt_switch := pending_ctxt_switch s \<or> preempts (kconf E) (tasks s) c us\<rparr>))
     \<and> elems w = (elems (lists s))(Sleep_List := vs, Ready_List := elems (lists s) Ready_List @ us)"
proof (induction us arbitrary: s)
  case Nil
  show ?case using Nil.prems
    by (subst wake_loop.simps)
       (auto simp: get hd_conv_nth fun_eq_iff intro!: exI[of _ "lists s"] split: if_splits)
next
  case (Cons u us)
  have len: "0 < length (elems (lists s) Sleep_List)" using Cons.prems by simp
  obtain w where w: "ll_remove E Sleep_List 0 (lists s) = (Some u, w)"
    "elems w = (elems (lists s))(Sleep_List := us @ vs)" using remove[OF len] Cons.prems(1) by auto
  have "distinct (u # us @ vs)" "\<forall>k. k \<noteq> Sleep_List \<longrightarrow> u \<notin> set (elems (lists s) k)"
    using Cons.prems(1,2) unfolding lists_ok_def by (metis append_Cons, fastforce)
  then have un: "unlinked (elems (lists (s\<lparr>lists := w\<rparr>))) u" using w(2) by (auto simp: unlinked_def)
  obtain w1 where a: "accept_task E u (s\<lparr>lists := w\<rparr>) = Inr ((), s\<lparr>tasks := ready_all [u] (tasks s), lists := w1,
        pending_ctxt_switch := pending_ctxt_switch s \<or> preempts (kconf E) (tasks s) c [u]\<rparr>)"
    "elems w1 = (elems w)(Ready_List := elems w Ready_List @ [u])"
    using accept_task_direct[OF _ _ _ _ un, of c] Cons.prems by auto
  define s1 where "s1 = s\<lparr>tasks := ready_all [u] (tasks s), lists := w1,
        pending_ctxt_switch := pending_ctxt_switch s \<or> preempts (kconf E) (tasks s) c [u]\<rparr>"
  have step: "wake_loop E now s = wake_loop E now s1"
    using Cons.prems w(1) a(1) by (subst wake_loop.simps) (simp add: get s1_def)
  have e1: "elems (lists s1) = (elems (lists s))(Sleep_List := us @ vs, Ready_List := elems (lists s) Ready_List @ [u])"
    using a(2) w(2) by (auto simp: s1_def)
  have "lists_ok (elems w)" unfolding w(2)
    using lists_ok_upd_mono[OF Cons.prems(2), of "us @ vs" Sleep_List] Cons.prems(1) \<open>distinct (u # us @ vs)\<close> by auto
  then have ok1: "lists_ok (elems (lists s1))"
    using lists_ok_append[of "elems w" u Ready_List] un a(2) by (simp add: s1_def)
  have "\<exists>w. wake_loop E now s1 = Some (Inr (s1\<lparr>tasks := ready_all us (tasks s1), lists := w,
        pending_ctxt_switch := pending_ctxt_switch s1 \<or> preempts (kconf E) (tasks s1) c us\<rparr>))
     \<and> elems w = (elems (lists s1))(Sleep_List := vs, Ready_List := elems (lists s1) Ready_List @ us)"
  proof (rule Cons.IH)
    show "elems (lists s1) Sleep_List = us @ vs" unfolding e1 by simp
    show "lists_ok (elems (lists s1))" by (rule ok1)
  qed (use Cons.prems(3-) in \<open>simp_all add: s1_def\<close>)
  then obtain w2 where r: "wake_loop E now s1 = Some (Inr (s1\<lparr>tasks := ready_all us (tasks s1), lists := w2,
        pending_ctxt_switch := pending_ctxt_switch s1 \<or> preempts (kconf E) (tasks s1) c us\<rparr>))"
    "elems w2 = (elems (lists s1))(Sleep_List := vs, Ready_List := elems (lists s1) Ready_List @ us)" by blast
  show ?case unfolding step r(1)
    by (intro exI[of _ w2]) (use r(2) in \<open>simp add: e1 fun_eq_iff\<close>, simp add: s1_def disj_assoc)
qed

lemma delete_loop_empty: "queued (delete_buffer s) = [] \<Longrightarrow> delete_loop E s = Some (Inr s)"
  by (subst delete_loop.simps) (simp add: dequeue_empty)

lemma wake_sleeping_eq:
  assumes "elems (lists s) Sleep_List = us @ vs" "sched_ok (elems (lists s)) c s" "rq_free queued s" "sq_free queued s"
    and "\<forall>u \<in> set us. tick_cmp (t_wake_at_tick (tasks s u)) (ticks s) \<noteq> Greater"
    and "vs \<noteq> [] \<longrightarrow> tick_cmp (t_wake_at_tick (tasks s (hd vs))) (ticks s) = Greater"
    and "suspend_cnt s \<noteq> - 1"
  shows "\<exists>w. wake_sleeping_tasks E s = Inr ((), s\<lparr>tasks := ready_all us (tasks s), lists := w,
        pending_ctxt_switch := pending_ctxt_switch s \<or> preempts (kconf E) (tasks s) c us,
        pendsv := pendsv s \<or> suspend_cnt s = 0 \<and> (pending_ctxt_switch s \<or> preempts (kconf E) (tasks s) c us)\<rparr>)
     \<and> elems w = (elems (lists s))(Sleep_List := vs, Ready_List := elems (lists s) Ready_List @ us)"
proof -
  let ?s = "(suspend s)\<lparr>sq_locked := True\<rparr>" and ?p = "pending_ctxt_switch s \<or> preempts (kconf E) (tasks s) c us"
  have nz: "suspend_cnt s + 1 \<noteq> 0" using assms(7) by (metis add.commute add_eq_0_iff2 eq_neg_iff_add_eq_0)
  from wake_loop_eq[of ?s us vs "ticks s" c] assms nz obtain w where w:
    "wake_loop E (ticks s) ?s = Some (Inr (?s\<lparr>tasks := ready_all us (tasks s), lists := w, pending_ctxt_switch := ?p\<rparr>))"
    "elems w = (elems (lists s))(Sleep_List := vs, Ready_List := elems (lists s) Ready_List @ us)"
    by (auto simp: sched_ok_def rq_free_def)
  have "wake_expired_tasks E ?s = Inr ((), ?s\<lparr>tasks := ready_all us (tasks s), lists := w, pending_ctxt_switch := ?p\<rparr>)"
    using w(1) assms(4) by (simp add: wake_expired_tasks_def delete_loop_empty sq_free_def)
  then have "wake_sleeping_tasks E s = Inr ((), s\<lparr>tasks := ready_all us (tasks s), lists := w,
        pending_ctxt_switch := ?p, pendsv := pendsv s \<or> suspend_cnt s = 0 \<and> ?p\<rparr>)"
    using assms(4)
    by (simp add: wake_sleeping_tasks_def with_suspended_scheduler_def with_access_def sq.guard_drop_eq resume_eq sq_free_def suspend_def)
  then show ?thesis using w(2) by blast
qed

end

section \<open>Sorted insertion\<close>

lemma sorted_insert:
  assumes "sorted_wrt (\<lambda>a b. due a \<le> (due b :: int)) xs" "\<forall>u \<in> set xs. due' u = due u" "due' t = d"
  shows "sorted_wrt (\<lambda>a b. due' a \<le> due' b) (takeWhile (\<lambda>u. \<not> d < due u) xs @ t # dropWhile (\<lambda>u. \<not> d < due u) xs)"
proof -
  let ?P = "\<lambda>u. \<not> d < due u"
  have s: "sorted_wrt (\<lambda>a b. due a \<le> due b) (takeWhile ?P xs @ dropWhile ?P xs)" using assms(1) by simp
  have tw: "due u \<le> d" if "u \<in> set (takeWhile ?P xs)" for u using set_takeWhileD[OF that] by simp
  have dw: "d < due u" if "u \<in> set (dropWhile ?P xs)" for u
  proof (cases "dropWhile ?P xs")
    case (Cons y ys)
    then have "d < due y" using hd_dropWhile[of ?P xs] by auto
    moreover have "due y \<le> due u" using s that Cons by (auto simp: sorted_wrt_append)
    ultimately show ?thesis by simp
  next
    case Nil
    then show ?thesis using that by (simp only: list.set empty_iff)
  qed
  have cong: "sorted_wrt (\<lambda>a b. due' a \<le> due' b) ys = sorted_wrt (\<lambda>a b. due a \<le> due b) ys" if "set ys \<subseteq> set xs" for ys
    using that assms(2) by (induction ys) (auto simp: subset_iff)
  have sub: "set (takeWhile ?P xs) \<subseteq> set xs" "set (dropWhile ?P xs) \<subseteq> set xs" by (auto dest: set_takeWhileD set_dropWhileD)
  have eq: "due' u = due u" if "u \<in> set (takeWhile ?P xs) \<union> set (dropWhile ?P xs)" for u using that sub assms(2) by blast
  have le: "due' u \<le> d" if "u \<in> set (takeWhile ?P xs)" for u using tw[OF that] eq[of u] that by simp
  have ge: "d < due' u" if "u \<in> set (dropWhile ?P xs)" for u using dw[OF that] eq[of u] that by simp
  have lg: "due' x \<le> due' b" if "x \<in> set (takeWhile ?P xs)" "b \<in> set (dropWhile ?P xs)" for x b
    using le[OF that(1)] ge[OF that(2)] by simp
  show ?thesis
    using s le ge lg assms(3) unfolding sorted_wrt_append cong[OF sub(1)] cong[OF sub(2)] sorted_wrt.simps
    by (auto intro: less_imp_le order_trans)
qed

lemma insert_tick_set: "set (insert_tick ts t xs) = insert t (set xs)"
proof -
  let ?P = "\<lambda>u. \<not> tick_before ts t u"
  have "set xs = set (takeWhile ?P xs) \<union> set (dropWhile ?P xs)" by (metis set_append takeWhile_dropWhile_id)
  then show ?thesis unfolding insert_tick_def by auto
qed

lemma insert_tick_distinct: "distinct xs \<Longrightarrow> t \<notin> set xs \<Longrightarrow> distinct (insert_tick ts t xs)"
proof -
  assume a: "distinct xs" "t \<notin> set xs"
  let ?P = "\<lambda>u. \<not> tick_before ts t u"
  have "distinct (takeWhile ?P xs @ dropWhile ?P xs)" using a by simp
  then have "distinct (takeWhile ?P xs)" "distinct (dropWhile ?P xs)" "set (takeWhile ?P xs) \<inter> set (dropWhile ?P xs) = {}"
    unfolding distinct_append by auto
  then show ?thesis using a unfolding insert_tick_def by (auto dest: set_takeWhileD set_dropWhileD)
qed

lemma insert_tick_due:
  assumes "\<forall>u \<in> set xs. t_wake_at_tick (ts u) = of_int (due u) \<and> now < due u \<and> due u < now + 2 ^ 31"
    and "t_wake_at_tick (ts t) = of_int d" "now < d" "d < now + 2 ^ 31"
  shows "insert_tick ts t xs = takeWhile (\<lambda>u. \<not> d < due u) xs @ t # dropWhile (\<lambda>u. \<not> d < due u) xs"
proof -
  have "(\<not> tick_before ts t u) = (\<not> d < due u)" if "u \<in> set xs" for u
  proof -
    have "t_wake_at_tick (ts u) = of_int (due u)" "now < due u" "due u < now + 2 ^ 31" using assms(1) that by auto
    then show ?thesis using assms(2-4) tick_cmp_of_int[of d "due u"] by (simp add: tick_before_def)
  qed
  then have "takeWhile (\<lambda>u. \<not> tick_before ts t u) xs = takeWhile (\<lambda>u. \<not> d < due u) xs"
    "dropWhile (\<lambda>u. \<not> tick_before ts t u) xs = dropWhile (\<lambda>u. \<not> d < due u) xs"
    by (auto intro!: takeWhile_cong dropWhile_cong)
  then show ?thesis by (simp add: insert_tick_def)
qed

text \<open>The current task blocks in a list.\<close>

lemma sched_ok_block:
  assumes S: "sched_ok xs c s" and c: "t_state (tasks s c) = Running" "\<not> t_is_idle (tasks s c)"
    and l: "l \<noteq> Ready_List" "distinct ys" "set ys = insert c (set (xs l))"
    and s': "t_state (tasks s' c) = Blocked" "\<And>t. t \<noteq> c \<Longrightarrow> tasks s' t = tasks s t"
      "t_ctxt_locked (tasks s' c) = t_ctxt_locked (tasks s c)" "t_is_idle (tasks s' c) = t_is_idle (tasks s c)"
      "cur_task s' = cur_task s" "started s' = started s" "cur_task_idle s' = cur_task_idle s"
  shows "sched_ok (xs(l := ys)) c s'"
proof -
  have un: "unlinked xs c" using S c(1) by (simp add: sched_ok_def)
  have L: "lists_ok xs" using S by (simp add: sched_ok_def)
  then have "lists_ok (xs(l := ys))" using l un unfolding lists_ok_def unlinked_def by (auto simp: disjoint_iff)
  moreover have st: "t_state (tasks s' t) = (if t = c then Blocked else t_state (tasks s t))" for t using s' by simp
  moreover have "t_ctxt_locked (tasks s' t) \<longleftrightarrow> t = c" for t using S s'(2,3) unfolding sched_ok_def by (cases "t = c") auto
  moreover have "\<forall>t \<in> set ((xs(l := ys)) Ready_List). t_state (tasks s' t) = Ready"
    using S l(1) un unfolding sched_ok_def unlinked_def st by auto
  moreover have "\<forall>k t. k \<noteq> Ready_List \<longrightarrow> t \<in> set ((xs(l := ys)) k) \<longrightarrow> t_state (tasks s' t) = Blocked"
    using S l(1,3) unfolding sched_ok_def st by (auto split: if_splits)
  moreover have "\<exists>i. t_is_idle (tasks s' i) \<and> i \<in> set ((xs(l := ys)) Ready_List)"
  proof -
    obtain i where i: "t_is_idle (tasks s i)" "i \<in> set (xs Ready_List) \<or> i = c" using S unfolding sched_ok_def by blast
    then have "i \<noteq> c" using c(2) by auto
    then show ?thesis using i l(1) s'(2)[of i] by (intro exI[of _ i]) auto
  qed
  ultimately show ?thesis using S s' unfolding sched_ok_def by auto
qed

context kernel_lib
begin

lemma add_to_sleep_eq:
  assumes "\<not> sq_locked s" "\<not> sq_pending s" "unlinked (elems (lists s)) t"
  shows "\<exists>w. add_task_to_sleep_queue E t tick s = Inr ((), s\<lparr>tasks := (tasks s)(t := set_wake_tick tick (tasks s t)), lists := w,
        pendsv := pendsv s \<or> suspend_cnt s = 0 \<and> pending_ctxt_switch s\<rparr>)
     \<and> elems w = (elems (lists s))(Sleep_List :=
        insert_tick ((tasks s)(t := set_wake_tick tick (tasks s t))) t (elems (lists s) Sleep_List))"
proof -
  let ?ts = "(tasks s)(t := set_wake_tick tick (tasks s t))"
  obtain w where w: "push_back_tick_sorted E ?ts Sleep_List t (lists s) = Inr w"
    "elems w = (elems (lists s))(Sleep_List := insert_tick ?ts t (elems (lists s) Sleep_List))"
    using push_back_tick_sorted_eq[of t "lists s" ?ts Sleep_List] assms(3) by (auto simp: unlinked_def)
  have "add_task_to_sleep_queue E t tick s = Inr ((), s\<lparr>tasks := ?ts, lists := w,
        pendsv := pendsv s \<or> suspend_cnt s = 0 \<and> pending_ctxt_switch s\<rparr>)"
    using assms(1,2) w(1)
    by (simp add: add_task_to_sleep_queue_def with_suspended_scheduler_def must_with_full_access_def sq.guard_drop_eq
        upd_task_def suspend_def Let_def resume_eq)
  then show ?thesis using w(2) by blast
qed

lemma add_cur_to_sleep_eq:
  assumes "cur_task s = Some c" "\<not> sq_locked s" "\<not> sq_pending s" "unlinked (elems (lists s)) c"
    and "suspend_cnt s = 0" "\<not> in_isr s"
  shows "\<exists>w. add_cur_task_to_sleep_queue E tick s = Inr ((), s\<lparr>tasks := (tasks s)(c := set_wake_tick tick (set_state Blocked (tasks s c))),
        lists := w, pendsv := pendsv s \<or> pending_ctxt_switch s\<rparr>)
     \<and> elems w = (elems (lists s))(Sleep_List :=
        insert_tick ((tasks s)(c := set_wake_tick tick (set_state Blocked (tasks s c)))) c (elems (lists s) Sleep_List))"
proof -
  let ?s = "upd_task c (set_state Blocked) (suspend s)"
  let ?ts = "(tasks s)(c := set_wake_tick tick (set_state Blocked (tasks s c)))"
  obtain w where w: "add_task_to_sleep_queue E c tick ?s = Inr ((), ?s\<lparr>tasks := ?ts, lists := w\<rparr>)"
    "elems w = (elems (lists s))(Sleep_List := insert_tick ?ts c (elems (lists s) Sleep_List))"
    using add_to_sleep_eq[of ?s c tick] assms by (auto simp: upd_task_def suspend_def)
  have "add_cur_task_to_sleep_queue E tick s = Inr ((), s\<lparr>tasks := ?ts, lists := w, pendsv := pendsv s \<or> pending_ctxt_switch s\<rparr>)"
    using assms w(1)
    by (simp add: add_cur_task_to_sleep_queue_def is_suspended_def with_cur_task_def with_suspended_scheduler_def
        with_cur_task_explicit_sched_suspend_def resume_eq upd_task_def suspend_def)
  then show ?thesis using w(2) by blast
qed

end

section \<open>Properties\<close>

text \<open>Comparing two ticks by the sign of their difference is comparing them relative to the
  current tick, as long as the two lie less than \<open>2 ^ 31\<close> apart. The condition is needed: with the
  current tick 0, the tick \<open>2 ^ 31 - 1\<close> compares as earlier than the tick -1 of the past.\<close>

lemma tick_cmp_relative:
  "(\<bar>sint (lhs - cur) - sint (rhs - cur)\<bar> < 2 ^ 31 \<longrightarrow> tick_cmp lhs rhs = tick_cmp_rel cur lhs rhs)
    \<and> tick_cmp 0x7fffffff (- 1) = Less \<and> tick_cmp_rel 0 0x7fffffff (- 1) = Greater"
  using tick_cmp_rel_eq[of lhs cur rhs] by (auto simp: tick_cmp_def tick_cmp_rel_def Let_def)

text \<open>C27. A SysTick interrupt that finds the sleep queue free wakes exactly the sleeping tasks that are
  due now, in the order of the queue: they are appended to the ready list in state \<open>Ready\<close>. The
  others keep sleeping, sorted and due in the future; the invariants of the scheduler and of the
  sleep queue are kept.\<close>

theorem systick_wakes_due_tasks:
  assumes "kernel_lib E elems queued" "sched_ok (elems (lists s)) c s" "rq_free queued s" "sq_free queued s"
    and "sleep_ok due now (elems (lists s) Sleep_List) s" "suspend_cnt s \<noteq> - 1"
  shows "\<exists>us vs s'. systick_handler E s = Inr ((), s') \<and> elems (lists s) Sleep_List = us @ vs
    \<and> (\<forall>u \<in> set us. due u = now + 1 \<and> t_state (tasks s' u) = Ready) \<and> (\<forall>v \<in> set vs. now + 1 < due v)
    \<and> elems (lists s') = (elems (lists s))(Sleep_List := vs, Ready_List := elems (lists s) Ready_List @ us)
    \<and> sched_ok (elems (lists s')) c s' \<and> rq_free queued s' \<and> sq_free queued s'
    \<and> sleep_ok due (now + 1) (elems (lists s') Sleep_List) s' \<and> suspend_cnt s' = suspend_cnt s"
proof -
  let ?xs = "elems (lists s) Sleep_List" and ?P = "\<lambda>u. due u \<le> now + 1" and ?s = "advance_tick s"
  define us vs where "us = takeWhile ?P ?xs" and "vs = dropWhile ?P ?xs"
  have split: "?xs = us @ vs" by (simp add: us_def vs_def)
  have K: "t_wake_at_tick (tasks s t) = of_int (due t)" "now < due t" "due t < now + 2 ^ 31" if "t \<in> set ?xs" for t
    using assms(5) that by (auto simp: sleep_ok_def)
  have now': "ticks ?s = of_int (now + 1)" using assms(5) by (simp add: sleep_ok_def advance_tick_def)
  have cmp: "tick_cmp (t_wake_at_tick (tasks s t)) (ticks ?s) =
      (if due t < now + 1 then Less else if due t = now + 1 then Equal else Greater)" if "t \<in> set ?xs" for t
    unfolding K(1)[OF that] now' using K(2,3)[OF that] by (intro tick_cmp_of_int) auto
  have us: "due u = now + 1" if "u \<in> set us" for u
    using set_takeWhileD[of u ?P ?xs] K(2)[of u] that unfolding us_def by auto
  have sv: "sorted_wrt (\<lambda>a b. due a \<le> due b) vs" using assms(5) unfolding sleep_ok_def split by (simp add: sorted_wrt_append)
  have hd: "now + 1 < due (hd vs)" if "vs \<noteq> []" using hd_dropWhile[of ?P ?xs] that unfolding vs_def by auto
  have vs: "now + 1 < due v" if "v \<in> set vs" for v
    using hd sv that by (cases vs) auto
  have "tasks ?s = tasks s" by (simp add: advance_tick_def)
  have eq: "\<exists>w. wake_sleeping_tasks E ?s = Inr ((), ?s\<lparr>tasks := ready_all us (tasks ?s), lists := w,
        pending_ctxt_switch := pending_ctxt_switch ?s \<or> preempts (kconf E) (tasks ?s) c us,
        pendsv := pendsv ?s \<or> suspend_cnt ?s = 0 \<and> (pending_ctxt_switch ?s \<or> preempts (kconf E) (tasks ?s) c us)\<rparr>)
     \<and> elems w = (elems (lists ?s))(Sleep_List := vs, Ready_List := elems (lists ?s) Ready_List @ us)"
  proof (rule kernel_lib.wake_sleeping_eq[OF assms(1)])
    show "elems (lists ?s) Sleep_List = us @ vs" using split by (simp add: advance_tick_def)
    show "\<forall>u \<in> set us. tick_cmp (t_wake_at_tick (tasks ?s u)) (ticks ?s) \<noteq> Greater"
      unfolding \<open>tasks ?s = tasks s\<close> using cmp us split by auto
    show "vs \<noteq> [] \<longrightarrow> tick_cmp (t_wake_at_tick (tasks ?s (hd vs))) (ticks ?s) = Greater"
      unfolding \<open>tasks ?s = tasks s\<close> using cmp[of "hd vs"] hd split by (metis hd_in_set in_set_conv_decomp append_assoc less_asym order_less_irrefl Un_iff set_append)
  qed (use assms in \<open>auto simp: advance_tick_def sched_ok_def rq_free_def sq_free_def\<close>)
  then obtain w s' where s': "s' = ?s\<lparr>tasks := ready_all us (tasks ?s), lists := w,
        pending_ctxt_switch := pending_ctxt_switch ?s \<or> preempts (kconf E) (tasks ?s) c us,
        pendsv := pendsv ?s \<or> suspend_cnt ?s = 0 \<and> (pending_ctxt_switch ?s \<or> preempts (kconf E) (tasks ?s) c us)\<rparr>"
    and r: "systick_handler E s = Inr ((), s')"
    and w: "elems w = (elems (lists s))(Sleep_List := vs, Ready_List := elems (lists s) Ready_List @ us)"
    by (auto simp: systick_handler_def advance_tick_def)
  have f: "tasks s' = ready_all us (tasks s)" "cur_task s' = cur_task s" "started s' = started s" "cur_task_idle s' = cur_task_idle s"
    "lists s' = w" "ticks s' = of_int (now + 1)" "suspend_cnt s' = suspend_cnt s"
    using now' by (simp_all add: s' advance_tick_def)
  have d: "distinct (us @ vs)" using assms(2) split unfolding sched_ok_def lists_ok_def by metis
  have "sched_ok (elems (lists s')) c s'" unfolding f(5) w
    by (rule sched_ok_move[OF assms(2) _ d _ f(1-4)]) (simp_all add: split)
  moreover have "sleep_ok due (now + 1) vs s'"
    unfolding sleep_ok_def f using sv vs K split by fastforce
  moreover have "rq_free queued s'" "sq_free queued s'" using assms(3,4) by (simp_all add: s' rq_free_def sq_free_def advance_tick_def)
  ultimately show ?thesis using r split w us vs f by (intro exI[of _ us] exI[of _ vs] exI[of _ s']) simp
qed

text \<open>Sample: tasks 4 and 5 sleep until 101 and 150, at time 100.\<close>

definition due0 :: "tid \<Rightarrow> int" where
  "due0 t = (if t = 4 then 101 else 150)"

definition ks0 :: "(lid \<Rightarrow> tid list, tid list) kstate" where
  "ks0 = k0\<lparr>lists := lists0(Sleep_List := [4, 5]),
     tasks := task0(4 := (task0 4)\<lparr>t_state := Blocked, t_wake_at_tick := 101\<rparr>,
                    5 := (task0 5)\<lparr>t_state := Blocked, t_wake_at_tick := 150\<rparr>)\<rparr>"

lemma ks0_ok:
  "sched_ok (lists ks0) 1 ks0" "rq_free (\<lambda>q. q) ks0" "sq_free (\<lambda>q. q) ks0" "sleep_ok due0 100 (lists ks0 Sleep_List) ks0"
  by (auto simp: sched_ok_def lists_ok_def unlinked_def ks0_def k0_def lists0_def task0_def task_new_def rq_free_def sq_free_def
      sleep_ok_def due0_def split: if_splits intro!: exI[of _ "0 :: tid"])

theorem systick_wakes_due_tasks_witness:
  "\<exists>s'. systick_handler (list_env config0) ks0 = Inr ((), s') \<and> lists s' Ready_List = [0, 2, 3, 4] \<and> lists s' Sleep_List = [5]"
proof -
  have "suspend_cnt ks0 \<noteq> - 1" by (simp add: ks0_def)
  from systick_wakes_due_tasks[OF le.kernel_lib_axioms[of config0] ks0_ok this]
  obtain us vs s' where r: "systick_handler (list_env config0) ks0 = Inr ((), s')" "lists ks0 Sleep_List = us @ vs"
    "\<forall>u \<in> set us. due0 u = 100 + 1 \<and> t_state (tasks s' u) = Ready" "\<forall>v \<in> set vs. 100 + 1 < due0 v"
    "lists s' = (lists ks0)(Sleep_List := vs, Ready_List := lists ks0 Ready_List @ us)" by blast
  have "us @ vs = [4, 5]" using r(2) by (simp add: ks0_def)
  then have "us = [4] \<and> vs = [5]" using r(3,4) by (cases us; cases "tl us") (auto simp: due0_def)
  then show ?thesis using r(1,5) by (auto simp: ks0_def lists0_def)
qed

text \<open>C28. \<open>sleep_ms\<close>: more than \<open>i32::MAX\<close> milliseconds are refused with the state unchanged, zero
  milliseconds return at once, and a sleep with the scheduler suspended or in an interrupt handler
  panics. Otherwise the running task, which is not the idle task, is blocked, due after \<open>ms\<close> ticks,
  and put at its place in the sorted sleep queue, and PendSV is raised; both invariants are kept.\<close>

theorem sleep_ms_spec:
  assumes "kernel_lib E elems queued" "sched_ok (elems (lists s)) c s" "sq_free queued s"
    and "t_state (tasks s c) = Running" "\<not> t_is_idle (tasks s c)"
    and "sleep_ok due now (elems (lists s) Sleep_List) s"
  shows "(ms > 0x7fffffff \<longrightarrow> sleep_ms E ms s = Inr (Inl TooLong, s))
    \<and> (ms = 0 \<longrightarrow> sleep_ms E ms s = Inr (Inr (), s))
    \<and> (0 < ms \<and> ms \<le> 0x7fffffff \<and> (suspend_cnt s \<noteq> 0 \<or> in_isr s) \<longrightarrow> sleep_ms E ms s = Inl Panic)
    \<and> (0 < ms \<and> ms \<le> 0x7fffffff \<and> suspend_cnt s = 0 \<and> \<not> in_isr s \<longrightarrow>
        (\<exists>s' due'. sleep_ms E ms s = Inr (Inr (), s') \<and> due' = due(c := now + uint ms)
          \<and> t_state (tasks s' c) = Blocked \<and> pendsv s' \<and> set (elems (lists s') Sleep_List) = insert c (set (elems (lists s) Sleep_List))
          \<and> sched_ok (elems (lists s')) c s' \<and> sleep_ok due' now (elems (lists s') Sleep_List) s'))"
proof (intro conjI impI)
  have tick: "tick_cmp (ticks s) (ticks s + ms) = (if ms = 0 then Equal else Less)" if "ms \<le> 0x7fffffff"
  proof -
    have m: "uint ms < 2 ^ 31" "0 \<le> uint ms" using that by (simp_all add: word_le_def)
    have "ticks s = of_int now" "ticks s + ms = of_int (now + uint ms)"
      using assms(6) by (simp_all add: sleep_ok_def)
    then show ?thesis using tick_cmp_of_int[of now "now + uint ms"] m word_gt_0[of ms]
      by (cases "ms = 0") (auto simp: word_less_def)
  qed
  show "sleep_ms E ms s = Inr (Inl TooLong, s)" if "ms > 0x7fffffff" using that by (simp add: sleep_ms_def)
  show "sleep_ms E ms s = Inr (Inr (), s)" if "ms = 0" using that tick by (simp add: sleep_ms_def sleep_ms_unchecked_def Let_def)
  show "sleep_ms E ms s = Inl Panic" if "0 < ms \<and> ms \<le> 0x7fffffff \<and> (suspend_cnt s \<noteq> 0 \<or> in_isr s)"
  proof -
    have "add_cur_task_to_sleep_queue E (ticks s + ms) s = Inl Panic"
      using that by (auto simp: add_cur_task_to_sleep_queue_def is_suspended_def word_gt_0)
    then show ?thesis using that tick by (auto simp: sleep_ms_def sleep_ms_unchecked_def Let_def word_gt_0)
  qed
  assume ms: "0 < ms \<and> ms \<le> 0x7fffffff \<and> suspend_cnt s = 0 \<and> \<not> in_isr s"
  let ?t = "now + uint ms" and ?xs = "elems (lists s) Sleep_List"
  let ?ts = "(tasks s)(c := set_wake_tick (ticks s + ms) (set_state Blocked (tasks s c)))"
  have un: "unlinked (elems (lists s)) c" using assms(2,4) by (simp add: sched_ok_def)
  obtain w where w: "add_cur_task_to_sleep_queue E (ticks s + ms) s = Inr ((), s\<lparr>tasks := ?ts, lists := w,
      pendsv := pendsv s \<or> pending_ctxt_switch s\<rparr>)"
    "elems w = (elems (lists s))(Sleep_List := insert_tick ?ts c ?xs)"
    using kernel_lib.add_cur_to_sleep_eq[OF assms(1), of s c "ticks s + ms"] un assms(2,3) ms by (auto simp: sched_ok_def sq_free_def)
  define s' where "s' = s\<lparr>tasks := ?ts, lists := w, pendsv := True\<rparr>"
  have r: "sleep_ms E ms s = Inr (Inr (), s')"
    using w(1) ms tick by (auto simp: sleep_ms_def sleep_ms_unchecked_def Let_def yield_current_task_def s'_def word_gt_0)
  have c: "c \<notin> set ?xs" using un by (simp add: unlinked_def)
  have m: "0 < uint ms" "uint ms < 2 ^ 31" using ms by (auto simp: word_le_def word_less_def)
  have K: "t_wake_at_tick (?ts u) = of_int (due u) \<and> now < due u \<and> due u < now + 2 ^ 31" if "u \<in> set ?xs" for u
    using assms(6) that c by (auto simp: sleep_ok_def)
  have wc: "t_wake_at_tick (?ts c) = of_int ?t" using assms(6) by (simp add: sleep_ok_def set_wake_tick_def)
  have ins: "insert_tick ?ts c ?xs = takeWhile (\<lambda>u. \<not> ?t < due u) ?xs @ c # dropWhile (\<lambda>u. \<not> ?t < due u) ?xs"
    using K wc m by (intro insert_tick_due[of _ _ _ now]) auto
  have so: "sorted_wrt (\<lambda>a b. (due(c := ?t)) a \<le> (due(c := ?t)) b) (insert_tick ?ts c ?xs)"
    unfolding ins by (rule sorted_insert) (use assms(6) c in \<open>auto simp: sleep_ok_def\<close>)
  have "sleep_ok (due(c := ?t)) now (insert_tick ?ts c ?xs) s'"
    using so K wc m assms(6) c unfolding sleep_ok_def insert_tick_set by (auto simp: s'_def)
  moreover have "elems (lists s') = (elems (lists s))(Sleep_List := insert_tick ?ts c ?xs)" using w(2) by (simp add: s'_def)
  then have "sched_ok (elems (lists s')) c s'"
    by (simp only:, intro sched_ok_block[OF assms(2,4,5)])
       (use insert_tick_distinct[OF _ c] assms(2) in \<open>auto simp: s'_def insert_tick_set set_wake_tick_def set_state_def sched_ok_def lists_ok_def\<close>)
  ultimately show "\<exists>s' due'. sleep_ms E ms s = Inr (Inr (), s') \<and> due' = due(c := ?t)
          \<and> t_state (tasks s' c) = Blocked \<and> pendsv s' \<and> set (elems (lists s') Sleep_List) = insert c (set ?xs)
          \<and> sched_ok (elems (lists s')) c s' \<and> sleep_ok due' now (elems (lists s') Sleep_List) s'"
    using r w(2) by (intro exI[of _ s'] exI[of _ "due(c := ?t)"]) (simp add: s'_def insert_tick_set set_wake_tick_def)
qed

theorem sleep_ms_spec_witness:
  "\<exists>s'. sleep_ms (list_env config0) 20 ks0 = Inr (Inr (), s') \<and> pendsv s' \<and> set (lists s' Sleep_List) = {1, 4, 5}
    \<and> sorted_wrt (\<lambda>a b. (due0(1 := 120)) a \<le> (due0(1 := 120)) b) (lists s' Sleep_List)"
proof -
  have p: "t_state (tasks ks0 1) = Running" "\<not> t_is_idle (tasks ks0 1)" "suspend_cnt ks0 = 0" "\<not> in_isr ks0"
    "lists ks0 Sleep_List = [4, 5]" by (simp_all add: ks0_def task0_def task_new_def)
  have ms: "0 < (20 :: u32) \<and> (20 :: u32) \<le> 0x7fffffff \<and> suspend_cnt ks0 = 0 \<and> \<not> in_isr ks0" using p by simp
  obtain s' where "sleep_ms (list_env config0) 20 ks0 = Inr (Inr (), s')" "pendsv s'"
    "set (lists s' Sleep_List) = insert 1 (set (lists ks0 Sleep_List))"
    "sleep_ok (due0(1 := 100 + uint (20 :: u32))) 100 (lists s' Sleep_List) s'"
    using sleep_ms_spec[OF le.kernel_lib_axioms[of config0] ks0_ok(1,3) p(1,2) ks0_ok(4), of 20] ms by blast
  moreover from this(4) have "sorted_wrt (\<lambda>a b. (due0(1 := 100 + uint (20 :: u32))) a \<le> (due0(1 := 100 + uint (20 :: u32))) b) (lists s' Sleep_List)"
    unfolding sleep_ok_def by blast
  moreover have "100 + uint (20 :: u32) = 120" by simp
  ultimately show ?thesis using p(5) by (intro exI[of _ s']) (simp only: list.set simp_thms)
qed



text \<open>A task that waits at the barrier in states \<open>ss\<close>, one after the other.\<close>

fun barrier_waits ::
  "('w, 'q) kenv \<Rightarrow> interval_barrier \<Rightarrow> ('w, 'q) kstate list \<Rightarrow> (interval_barrier \<times> ('w, 'q) kstate list) res" where
  "barrier_waits E b [] = Inr (b, [])"
| "barrier_waits E b (s # ss) =
     bindr (barrier_wait E b s) (\<lambda>(b, s). bindr (barrier_waits E b ss) (\<lambda>(b, ss). Inr (b, s # ss)))"

lemma barrier_waits_next:
  "barrier_waits E b ss = Inr (b', ss') \<Longrightarrow> length ss' = length ss \<and> interval_ms b' = interval_ms b
    \<and> next_tick_to_wake b' = next_tick_to_wake b + of_nat (length ss) * interval_ms b"
proof (induction ss arbitrary: b ss')
  case (Cons s ss)
  then obtain b1 s1 ss1 where "barrier_wait E b s = Inr (b1, s1)" "barrier_waits E b1 ss = Inr (b', ss1)" "ss' = s1 # ss1"
    by (auto simp: bindr_Inr)
  moreover from this(1) have "b1 = b\<lparr>next_tick_to_wake := next_tick_to_wake b + interval_ms b\<rparr>"
    by (auto simp: barrier_wait_def Let_def bindr_Inr)
  ultimately show ?case using Cons.IH[of b1 ss1] by (simp add: algebra_simps)
qed simp

text \<open>C30. The interval barrier does not drift: after any number of waits, whenever they happen and
  however long the task is delayed, the next wake-up tick is the creation tick plus a multiple of
  the interval, modulo \<open>2 ^ 32\<close>; an interval above \<open>i32::MAX\<close> is refused. A wait that comes too late
  does not block.\<close>

theorem barrier_no_drift:
  assumes "ms \<le> 0x7fffffff"
  shows "\<exists>b. barrier_new ms s = Inr b
    \<and> (\<forall>ss b' ss'. barrier_waits E b ss = Inr (b', ss') \<longrightarrow> next_tick_to_wake b' = ticks s + of_nat (length ss + 1) * ms)
    \<and> (\<forall>s1. tick_cmp (ticks s1) (next_tick_to_wake b) \<noteq> Less \<longrightarrow>
         barrier_wait E b s1 = Inr (b\<lparr>next_tick_to_wake := next_tick_to_wake b + ms\<rparr>, s1))"
proof -
  let ?b = "\<lparr>interval_ms = ms, next_tick_to_wake = ticks s + ms\<rparr>"
  have "barrier_new ms s = Inr ?b" using assms by (simp add: barrier_new_def)
  moreover have "next_tick_to_wake b' = ticks s + of_nat (length ss + 1) * ms" if "barrier_waits E ?b ss = Inr (b', ss')" for ss b' ss'
    using barrier_waits_next[OF that] by (simp add: algebra_simps)
  moreover have "barrier_wait E ?b s1 = Inr (?b\<lparr>next_tick_to_wake := next_tick_to_wake ?b + ms\<rparr>, s1)"
    if "tick_cmp (ticks s1) (next_tick_to_wake ?b) \<noteq> Less" for s1
    using that by (simp add: barrier_wait_def Let_def)
  ultimately show ?thesis by blast
qed

theorem barrier_no_drift_witness:
  "\<exists>b. barrier_new 10 ks0 = Inr b \<and>
    barrier_wait (list_env config0) b (ks0\<lparr>ticks := 117\<rparr>) = Inr (b\<lparr>next_tick_to_wake := 120\<rparr>, ks0\<lparr>ticks := 117\<rparr>)"
  using barrier_no_drift[of 10 ks0 "list_env config0"]
  by (auto simp: barrier_new_def ks0_def tick_cmp_def Let_def)

end
