(* ===== verification/Wait_Queue.thy ===== *)
theory Wait_Queue
  imports Time_Correct
begin

text \<open>
  Wait queues, \<open>src/sync/wait_queue.rs\<close>, and the condition variables of \<open>src/sync/condvar.rs\<close>, which
  only wrap them. A primitive that has a wait queue is modelled with the state
  \<open>wait_queue \<times> 'x \<times> kstate\<close>: the queue, the other fields \<open>'x\<close> that its conditions read or change,
  and the kernel. A blocking loop is modelled by its round: a round ends the loop with a value, or
  leaves the current task blocked in the queue with PendSV raised; the next round runs when the
  task is scheduled again.
\<close>

section \<open>Operations\<close>

record wait_queue =
  wq_list :: nat
  notify_cnt :: u32
  wq_pending :: bool
  wq_locked :: bool

type_synonym ('x, 'w, 'q) wq_state = "wait_queue \<times> 'x \<times> ('w, 'q) kstate"

definition wq_new :: "nat \<Rightarrow> wait_queue" where
  "wq_new n = \<lparr>wq_list = n, notify_cnt = 0, wq_pending = False, wq_locked = False\<rparr>"

text \<open>The loop of \<open>run_pended_op\<close>.\<close>

fun notify_loop :: "('w, 'q) kenv \<Rightarrow> lid \<Rightarrow> nat \<Rightarrow> ('w, 'q) kstate \<Rightarrow> ('w, 'q) kstate res" where
  "notify_loop E l 0 s = Inr s"
| "notify_loop E l (Suc n) s =
     bindr (pop_highest_priority E (tasks s) l (lists s)) (\<lambda>(r, w).
       case r of
         Some t \<Rightarrow> bindr (accept_task E t (s\<lparr>lists := w\<rparr>)) (\<lambda>(_, s). notify_loop E l n s)
       | None \<Rightarrow> Inr (s\<lparr>lists := w\<rparr>))"

definition wq_run_pended_op :: "('w, 'q) kenv \<Rightarrow> ('x, 'w, 'q) wq_state \<Rightarrow> ('x, 'w, 'q) wq_state res" where
  "wq_run_pended_op E = (\<lambda>(q, x, s).
     let cnt = notify_cnt q; q = q\<lparr>notify_cnt := 0\<rparr>
     in bindr (notify_loop E (Wait_List (wq_list q)) (unat cnt) s) (\<lambda>s. Inr (q, x, s)))"

definition wq_lock :: "('w, 'q) kenv \<Rightarrow> ('x, 'w, 'q) wq_state soft_lock" where
  "wq_lock E = \<lparr>get_pending = (\<lambda>(q, x, s). wq_pending q), set_pending = (\<lambda>b (q, x, s). (q\<lparr>wq_pending := b\<rparr>, x, s)),
     get_locked = (\<lambda>(q, x, s). wq_locked q), set_locked = (\<lambda>b (q, x, s). (q\<lparr>wq_locked := b\<rparr>, x, s)),
     run_pended_op = wq_run_pended_op E\<rparr>"

text \<open>\<open>with_suspended_scheduler\<close> around an operation on more than the kernel.\<close>

definition with_suspended ::
  "(('x, 'w, 'q) wq_state \<Rightarrow> ('r \<times> ('x, 'w, 'q) wq_state) res) \<Rightarrow> ('x, 'w, 'q) wq_state \<Rightarrow> ('r \<times> ('x, 'w, 'q) wq_state) res" where
  "with_suspended op = (\<lambda>(q, x, s). bindr (op (q, x, suspend s)) (\<lambda>(r, q, x, s). Inr (r, q, x, resume s)))"

text \<open>The current task is blocked and appended to the queue.\<close>

definition block_current :: "('w, 'q) kenv \<Rightarrow> nat \<Rightarrow> ('w, 'q) kstate \<Rightarrow> (unit \<times> ('w, 'q) kstate) res" where
  "block_current E n =
     with_cur_task_explicit_sched_suspend (\<lambda>c s.
       let s = upd_task c (set_state Blocked) s
       in bindr (ll_push_back E (Wait_List n) c (lists s)) (\<lambda>w. Inr ((), s\<lparr>lists := w\<rparr>)))"

text \<open>\<open>wait\<close> up to the yield.\<close>

definition wq_wait :: "('w, 'q) kenv \<Rightarrow> ('x, 'w, 'q) wq_state \<Rightarrow> (unit \<times> ('x, 'w, 'q) wq_state) res" where
  "wq_wait E = (\<lambda>(q, x, s).
     if is_suspended s \<or> in_isr s then Inl Panic
     else bindr (with_suspended (must_with_full_access (wq_lock E) (\<lambda>(q, x, s).
            bindr (block_current E (wq_list q) s) (\<lambda>(_, s). Inr ((), q, x, s)))) (q, x, s)) (\<lambda>(_, q, x, s).
          Inr ((), q, x, yield_current_task s)))"

text \<open>The inner function of \<open>wait_until\<close>: evaluate the condition with the queue locked; \<open>None\<close> if the
  task has been blocked.\<close>

definition add_cur_task_to_block_queue_with_condition ::
  "('w, 'q) kenv \<Rightarrow> ('x \<times> ('w, 'q) kstate \<Rightarrow> ('r option \<times> 'x \<times> ('w, 'q) kstate) res) \<Rightarrow> ('x, 'w, 'q) wq_state
     \<Rightarrow> ('r option \<times> ('x, 'w, 'q) wq_state) res" where
  "add_cur_task_to_block_queue_with_condition E condition = (\<lambda>(q, x, s).
     if is_suspended s \<or> in_isr s then Inl Panic
     else with_suspended (must_with_full_access (wq_lock E) (\<lambda>(q, x, s).
       bindr (condition (x, s)) (\<lambda>(r, x, s).
         case r of
           Some ret \<Rightarrow> Inr (Some ret, q, x, s)
         | None \<Rightarrow> bindr (block_current E (wq_list q) s) (\<lambda>(_, s). Inr (None, q, x, s))))) (q, x, s))"

text \<open>A round of the loop of \<open>wait_until\<close>.\<close>

definition wait_until ::
  "('w, 'q) kenv \<Rightarrow> ('x \<times> ('w, 'q) kstate \<Rightarrow> ('r option \<times> 'x \<times> ('w, 'q) kstate) res) \<Rightarrow> ('x, 'w, 'q) wq_state
     \<Rightarrow> ('r option \<times> ('x, 'w, 'q) wq_state) res" where
  "wait_until E condition st =
     bindr (add_cur_task_to_block_queue_with_condition E condition st) (\<lambda>(r, q, x, s).
       case r of Some ret \<Rightarrow> Inr (Some ret, q, x, s) | None \<Rightarrow> Inr (None, q, x, yield_current_task s))"

text \<open>The inner function of \<open>wait_until_with_lock\<close> and a round of its loop up to the yield; \<open>unlock\<close> is
  the drop of the guard that is passed in. The lock is taken again by the caller's next round.\<close>

definition add_cur_task_to_block_queue_and_unlock ::
  "('w, 'q) kenv \<Rightarrow> ('x \<times> ('w, 'q) kstate \<Rightarrow> ('x \<times> ('w, 'q) kstate) res)
     \<Rightarrow> ('x \<times> ('w, 'q) kstate \<Rightarrow> ('r option \<times> 'x \<times> ('w, 'q) kstate) res) \<Rightarrow> ('x, 'w, 'q) wq_state
     \<Rightarrow> ('r option \<times> ('x, 'w, 'q) wq_state) res" where
  "add_cur_task_to_block_queue_and_unlock E unlock condition = (\<lambda>(q, x, s).
     if is_suspended s \<or> in_isr s then Inl Panic
     else with_suspended (must_with_full_access (wq_lock E) (\<lambda>(q, x, s).
       bindr (condition (x, s)) (\<lambda>(r, x, s).
         case r of
           Some ret \<Rightarrow> Inr (Some ret, q, x, s)
         | None \<Rightarrow> bindr (unlock (x, s)) (\<lambda>(x, s).
             bindr (block_current E (wq_list q) s) (\<lambda>(_, s). Inr (None, q, x, s)))))) (q, x, s))"

definition wait_until_with_lock ::
  "('w, 'q) kenv \<Rightarrow> ('x \<times> ('w, 'q) kstate \<Rightarrow> ('x \<times> ('w, 'q) kstate) res)
     \<Rightarrow> ('x \<times> ('w, 'q) kstate \<Rightarrow> ('r option \<times> 'x \<times> ('w, 'q) kstate) res) \<Rightarrow> ('x, 'w, 'q) wq_state
     \<Rightarrow> ('r option \<times> ('x, 'w, 'q) wq_state) res" where
  "wait_until_with_lock E unlock condition st =
     bindr (add_cur_task_to_block_queue_and_unlock E unlock condition st) (\<lambda>(r, q, x, s).
       case r of Some ret \<Rightarrow> Inr (Some ret, q, x, s) | None \<Rightarrow> Inr (None, q, x, yield_current_task s))"

definition notify_one_allow_isr :: "('w, 'q) kenv \<Rightarrow> ('x, 'w, 'q) wq_state \<Rightarrow> (unit \<times> ('x, 'w, 'q) wq_state) res" where
  "notify_one_allow_isr E =
     with_suspended (with_access (wq_lock E)
       (\<lambda>(q, x, s). bindr (pop_highest_priority E (tasks s) (Wait_List (wq_list q)) (lists s)) (\<lambda>(r, w).
          case r of
            Some t \<Rightarrow> bindr (accept_task E t (s\<lparr>lists := w\<rparr>)) (\<lambda>(_, s). Inr ((), q, x, s))
          | None \<Rightarrow> Inr ((), q, x, s\<lparr>lists := w\<rparr>)))
       (\<lambda>(q, x, s). Inr ((), q\<lparr>notify_cnt := notify_cnt q + 1\<rparr>, x, s)))"

text \<open>Condition variables.\<close>

definition wait_without_lock_until ::
  "('w, 'q) kenv \<Rightarrow> ('x \<times> ('w, 'q) kstate \<Rightarrow> bool) \<Rightarrow> ('x, 'w, 'q) wq_state \<Rightarrow> (unit option \<times> ('x, 'w, 'q) wq_state) res" where
  "wait_without_lock_until E condition =
     wait_until E (\<lambda>(x, s). Inr (if condition (x, s) then Some () else None, x, s))"

definition condvar_wait_until ::
  "('w, 'q) kenv \<Rightarrow> ('x \<times> ('w, 'q) kstate \<Rightarrow> ('x \<times> ('w, 'q) kstate) res) \<Rightarrow> ('x \<times> ('w, 'q) kstate \<Rightarrow> bool)
     \<Rightarrow> ('x, 'w, 'q) wq_state \<Rightarrow> (unit option \<times> ('x, 'w, 'q) wq_state) res" where
  "condvar_wait_until E unlock condition =
     wait_until_with_lock E unlock (\<lambda>(x, s). Inr (if condition (x, s) then Some () else None, x, s))"

section \<open>The queue as a soft lock\<close>

lemma wq_run_pended_keeps: "wq_run_pended_op E (q, x, s) = Inr (q', x', s') \<Longrightarrow> wq_pending q' = wq_pending q"
  by (auto simp: wq_run_pended_op_def Let_def bindr_Inr)

interpretation wq: soft_lock_content "wq_lock E" for E
  by unfold_locales (auto simp: wq_lock_def wq_run_pended_keeps split: prod.splits)

lemma wq_lock_simps [simp]:
  "get_pending (wq_lock E) (q, x, s) = wq_pending q" "set_pending (wq_lock E) b (q, x, s) = (q\<lparr>wq_pending := b\<rparr>, x, s)"
  "get_locked (wq_lock E) (q, x, s) = wq_locked q" "set_locked (wq_lock E) b (q, x, s) = (q\<lparr>wq_locked := b\<rparr>, x, s)"
  "run_pended_op (wq_lock E) = wq_run_pended_op E"
  by (simp_all add: wq_lock_def)

section \<open>Notification\<close>

definition wq_free :: "wait_queue \<Rightarrow> bool" where
  "wq_free q \<longleftrightarrow> \<not> wq_pending q \<and> \<not> wq_locked q \<and> notify_cnt q = 0"

lemma wq_free_upd: "wq_free q \<Longrightarrow> q\<lparr>wq_locked := True, wq_pending := False, wq_locked := False\<rparr> = q"
  by (cases q) (simp add: wq_free_def)

text \<open>The effect of a notification on the sequences: the task at position \<open>k\<close> moves to the ready list.\<close>

definition wake_at :: "(lid \<Rightarrow> tid list) \<Rightarrow> lid \<Rightarrow> nat \<Rightarrow> lid \<Rightarrow> tid list" where
  "wake_at xs l k = xs(l := take k (xs l) @ drop (Suc k) (xs l), Ready_List := xs Ready_List @ [xs l ! k])"

lemma sched_ok_distinct: "sched_ok xs c s \<Longrightarrow> distinct (xs l)"
  by (simp add: sched_ok_def lists_ok_def)

lemma sched_ok_wake:
  assumes "sched_ok xs c s" "l \<noteq> Ready_List" "k < length (xs l)"
    and "tasks s' = ready_all [xs l ! k] (tasks s)" "cur_task s' = cur_task s" "started s' = started s"
      "cur_task_idle s' = cur_task_idle s"
  shows "sched_ok (wake_at xs l k) c s'"
proof -
  have d: "distinct (xs l)" using assms(1) by (simp add: sched_ok_def lists_ok_def)
  have "distinct ([xs l ! k] @ take k (xs l) @ drop (Suc k) (xs l))" "set ([xs l ! k] @ take k (xs l) @ drop (Suc k) (xs l)) = set (xs l)"
    using remove_nth[OF d assms(3)] assms(3) by auto
  from sched_ok_move[OF assms(1,2) this assms(4-7)] show ?thesis by (simp add: wake_at_def)
qed

context kernel_lib
begin

lemma notify_one_empty:
  assumes "wq_free q" "elems (lists s) (Wait_List (wq_list q)) = []"
  shows "notify_one_allow_isr E (q, x, s) =
    Inr ((), q, x, s\<lparr>pendsv := pendsv s \<or> suspend_cnt s = 0 \<and> pending_ctxt_switch s\<rparr>)"
proof -
  have p: "pop_highest_priority E (tasks s) (Wait_List (wq_list q)) (lists s) = Inr (None, lists s)"
    using pop_highest_empty assms(2) by simp
  have id: "(suspend s)\<lparr>lists := lists s\<rparr> = suspend s" by (cases s) (simp add: suspend_def)
  show ?thesis using assms p wq_free_upd[OF assms(1)]
    by (simp add: notify_one_allow_isr_def with_suspended_def with_access_def wq.guard_drop_eq wq_free_def id resume_eq)
       (simp add: suspend_def)
qed

lemma notify_one_some:
  assumes "wq_free q" "elems (lists s) (Wait_List (wq_list q)) \<noteq> []" "sched_ok (elems (lists s)) c s" "rq_free queued s"
    and "suspend_cnt s \<noteq> - 1"
  shows "\<exists>k t w. is_top (tasks s) (elems (lists s) (Wait_List (wq_list q))) k \<and> t = elems (lists s) (Wait_List (wq_list q)) ! k
    \<and> notify_one_allow_isr E (q, x, s) = Inr ((), q, x, s\<lparr>tasks := ready_all [t] (tasks s), lists := w,
        pending_ctxt_switch := pending_ctxt_switch s \<or> preempts (kconf E) (tasks s) c [t],
        pendsv := pendsv s \<or> suspend_cnt s = 0 \<and> (pending_ctxt_switch s \<or> preempts (kconf E) (tasks s) c [t])\<rparr>)
    \<and> elems w = wake_at (elems (lists s)) (Wait_List (wq_list q)) k"
proof -
  let ?l = "Wait_List (wq_list q)"
  obtain k w where k: "is_top (tasks s) (elems (lists s) ?l) k"
    "pop_highest_priority E (tasks s) ?l (lists s) = Inr (Some (elems (lists s) ?l ! k), w)"
    "elems w = (elems (lists s))(?l := take k (elems (lists s) ?l) @ drop (Suc k) (elems (lists s) ?l))"
    using pop_highest_eq[OF assms(2)] by blast
  define t where "t = elems (lists s) ?l ! k"
  let ?p = "pending_ctxt_switch s \<or> preempts (kconf E) (tasks s) c [t]"
  have len: "k < length (elems (lists s) ?l)" using k(1) by (simp add: is_top_def)
  have L: "lists_ok (elems (lists s))" using assms(3) by (simp add: sched_ok_def)
  have un: "unlinked (elems w) t"
    unfolding unlinked_def k(3)
  proof
    fix j
    have "t \<in> set (elems (lists s) ?l)" using len by (simp add: t_def)
    then have "j \<noteq> ?l \<Longrightarrow> t \<notin> set (elems (lists s) j)" using L unfolding lists_ok_def by blast
    moreover have "t \<notin> set (take k (elems (lists s) ?l) @ drop (Suc k) (elems (lists s) ?l))"
      using remove_nth(2)[OF _ len] L unfolding lists_ok_def t_def by blast
    ultimately show "t \<notin> set (((elems (lists s))(?l := take k (elems (lists s) ?l) @ drop (Suc k) (elems (lists s) ?l))) j)"
      by (cases "j = ?l") auto
  qed
  have nz: "suspend_cnt s + 1 \<noteq> 0" using assms(5) by (metis add.commute add_eq_0_iff2 eq_neg_iff_add_eq_0)
  define s1 where "s1 = (suspend s)\<lparr>lists := w\<rparr>"
  have s1: "cur_task s1 = Some c" "started s1" "\<not> rq_locked s1" "\<not> rq_pending s1" "unlinked (elems (lists s1)) t"
    "suspend_cnt s1 \<noteq> 0" using un assms(3,4) nz by (simp_all add: s1_def sched_ok_def rq_free_def)
  from accept_task_direct[OF s1(1-5)] s1(6) obtain w1 where
    "accept_task E t s1 = Inr ((), s1\<lparr>tasks := ready_all [t] (tasks s1), lists := w1,
        pending_ctxt_switch := pending_ctxt_switch s1 \<or> preempts (kconf E) (tasks s1) c [t], pendsv := pendsv s1\<rparr>)"
    "elems w1 = (elems (lists s1))(Ready_List := elems (lists s1) Ready_List @ [t])" by (simp only:) auto
  then have a: "accept_task E t ((suspend s)\<lparr>lists := w\<rparr>) = Inr ((), (suspend s)\<lparr>tasks := ready_all [t] (tasks s), lists := w1,
        pending_ctxt_switch := ?p\<rparr>)" "elems w1 = (elems w)(Ready_List := elems w Ready_List @ [t])"
    by (simp_all add: s1_def)
  have "notify_one_allow_isr E (q, x, s) = Inr ((), q, x, s\<lparr>tasks := ready_all [t] (tasks s), lists := w1,
        pending_ctxt_switch := ?p, pendsv := pendsv s \<or> suspend_cnt s = 0 \<and> ?p\<rparr>)"
    using assms(1) k(2) a(1) wq_free_upd[OF assms(1)] unfolding t_def[symmetric]
    by (simp add: notify_one_allow_isr_def with_suspended_def with_access_def wq.guard_drop_eq wq_free_def resume_eq suspend_def)
  moreover have "elems w1 = wake_at (elems (lists s)) ?l k" using a(2) k(3) by (simp add: wake_at_def t_def)
  ultimately show ?thesis using k(1) t_def by blast
qed

section \<open>Blocking\<close>

lemma wait_until_pass:
  assumes "wq_free q" "suspend_cnt s = 0" "\<not> in_isr s" "condition (x, suspend s) = Inr (Some r, x', s1)"
  shows "wait_until E condition (q, x, s) = Inr (Some r, q, x', resume s1)"
  using assms wq_free_upd[OF assms(1)]
  by (simp add: wait_until_def add_cur_task_to_block_queue_with_condition_def is_suspended_def with_suspended_def
      must_with_full_access_def wq.guard_drop_eq wq_free_def)

lemma wait_until_block:
  assumes "wq_free q" "suspend_cnt s = 0" "\<not> in_isr s" "condition (x, suspend s) = Inr (None, x, suspend s)"
    and "cur_task s = Some c" "unlinked (elems (lists s)) c"
  shows "\<exists>w. wait_until E condition (q, x, s) =
      Inr (None, q, x, s\<lparr>tasks := (tasks s)(c := set_state Blocked (tasks s c)), lists := w, pendsv := True\<rparr>)
    \<and> elems w = (elems (lists s))(Wait_List (wq_list q) := elems (lists s) (Wait_List (wq_list q)) @ [c])"
proof -
  obtain w where w: "ll_push_back E (Wait_List (wq_list q)) c (lists s) = Inr w"
    "elems w = (elems (lists s))(Wait_List (wq_list q) := elems (lists s) (Wait_List (wq_list q)) @ [c])"
    using assms(6) by (rule push_unlinked)
  have "block_current E (wq_list q) (suspend s) =
    Inr ((), (suspend s)\<lparr>tasks := (tasks s)(c := set_state Blocked (tasks s c)), lists := w\<rparr>)"
    using assms(5) w(1) by (simp add: block_current_def with_cur_task_explicit_sched_suspend_def Let_def upd_task_def suspend_def)
  then show ?thesis using assms wq_free_upd[OF assms(1)] w(2)
    by (intro exI[of _ w])
       (simp add: wait_until_def add_cur_task_to_block_queue_with_condition_def is_suspended_def with_suspended_def
        must_with_full_access_def wq.guard_drop_eq wq_free_def yield_current_task_def resume_eq, simp add: suspend_def)
qed

lemma wait_until_panics:
  "suspend_cnt s \<noteq> 0 \<or> in_isr s \<Longrightarrow> wait_until E condition (q, x, s) = Inl Panic"
  by (auto simp: wait_until_def add_cur_task_to_block_queue_with_condition_def is_suspended_def word_gt_0)

end

section \<open>Properties\<close>

text \<open>C31. A round of \<open>wait_until\<close> with the queue free: with the scheduler suspended or in an interrupt
  handler it panics; if the condition yields a value, that value is returned and the queue is not
  touched; otherwise the running task, which is not the idle task, is blocked at the end of the
  queue and PendSV is raised. The scheduler invariant is kept.\<close>

theorem wait_until_spec:
  assumes "kernel_lib E elems queued" "sched_ok (elems (lists s)) c s" "wq_free q"
    and "t_state (tasks s c) = Running" "\<not> t_is_idle (tasks s c)"
    and "condition (x, suspend s) = Inr (r, x, suspend s)"
  shows "(suspend_cnt s \<noteq> 0 \<or> in_isr s \<longrightarrow> wait_until E condition (q, x, s) = Inl Panic)
    \<and> (suspend_cnt s = 0 \<and> \<not> in_isr s \<longrightarrow>
        (\<exists>s'. wait_until E condition (q, x, s) = Inr (r, q, x, s') \<and> sched_ok (elems (lists s')) c s'
          \<and> (r \<noteq> None \<longrightarrow> tasks s' = tasks s \<and> lists s' = lists s)
          \<and> (r = None \<longrightarrow> pendsv s' \<and> t_state (tasks s' c) = Blocked
              \<and> elems (lists s') = (elems (lists s))(Wait_List (wq_list q) := elems (lists s) (Wait_List (wq_list q)) @ [c]))))"
proof (intro conjI impI)
  assume "suspend_cnt s \<noteq> 0 \<or> in_isr s"
  then show "wait_until E condition (q, x, s) = Inl Panic" by (rule kernel_lib.wait_until_panics[OF assms(1)])
next
  assume ok: "suspend_cnt s = 0 \<and> \<not> in_isr s"
  have cur: "cur_task s = Some c" and un: "unlinked (elems (lists s)) c" using assms(2,4) by (auto simp: sched_ok_def)
  show "\<exists>s'. wait_until E condition (q, x, s) = Inr (r, q, x, s') \<and> sched_ok (elems (lists s')) c s'
          \<and> (r \<noteq> None \<longrightarrow> tasks s' = tasks s \<and> lists s' = lists s)
          \<and> (r = None \<longrightarrow> pendsv s' \<and> t_state (tasks s' c) = Blocked
              \<and> elems (lists s') = (elems (lists s))(Wait_List (wq_list q) := elems (lists s) (Wait_List (wq_list q)) @ [c]))"
  proof (cases r)
    case (Some v)
    then have "wait_until E condition (q, x, s) = Inr (Some v, q, x, resume (suspend s))"
      using ok assms(6) by (intro kernel_lib.wait_until_pass[OF assms(1,3)]) simp_all
    then show ?thesis using Some assms(2)
      by (intro exI[of _ "resume (suspend s)"]) (simp add: sched_ok_def)
  next
    case None
    obtain w where w: "wait_until E condition (q, x, s) =
        Inr (None, q, x, s\<lparr>tasks := (tasks s)(c := set_state Blocked (tasks s c)), lists := w, pendsv := True\<rparr>)"
      "elems w = (elems (lists s))(Wait_List (wq_list q) := elems (lists s) (Wait_List (wq_list q)) @ [c])"
      using kernel_lib.wait_until_block[where condition = condition and x = x and s = s and c = c, OF assms(1,3) ok[THEN conjunct1] ok[THEN conjunct2] assms(6)[unfolded None] cur un]
      by (elim exE conjE)
    define s' where "s' = s\<lparr>tasks := (tasks s)(c := set_state Blocked (tasks s c)), lists := w, pendsv := True\<rparr>"
    have d: "distinct (elems (lists s) (Wait_List (wq_list q)) @ [c])"
      using sched_ok_distinct[OF assms(2)] un by (simp add: unlinked_def)
    have "sched_ok ((elems (lists s))(Wait_List (wq_list q) := elems (lists s) (Wait_List (wq_list q)) @ [c])) c s'"
      by (rule sched_ok_block[OF assms(2,4,5) _ d]) (simp_all add: s'_def)
    then show ?thesis using w None by (intro exI[of _ s']) (simp add: s'_def)
  qed
qed

text \<open>Sample: the running task 1 waits on the empty queue 7.\<close>

theorem wait_until_spec_witness:
  "\<exists>s'. wait_until (list_env config0) (\<lambda>(x, s). Inr (if x then Some () else None, x, s)) (wq_new 7, False, k0) = Inr (None, wq_new 7, False, s')
    \<and> lists s' (Wait_List 7) = [1] \<and> t_state (tasks s' 1) = Blocked"
proof -
  have p: "wq_free (wq_new 7)" "t_state (tasks k0 1) = Running" "\<not> t_is_idle (tasks k0 1)"
    by (simp_all add: wq_free_def wq_new_def task0_def task_new_def)
  have "lists k0 (Wait_List 7) = []" by (simp add: lists0_def)
  then show ?thesis
    using wait_until_spec[OF le.kernel_lib_axioms[of config0] k0_sched_ok p, of "\<lambda>(x, s). Inr (if x then Some () else None, x, s)" False None]
    by (auto simp: wq_new_def)
qed


text \<open>Sample: tasks 4 and 5, of the same priority, wait on queue 7.\<close>

definition kw0 :: "(lid \<Rightarrow> tid list, tid list) kstate" where
  "kw0 = k0\<lparr>lists := lists0(Wait_List 7 := [4, 5]),
     tasks := task0(4 := (task0 4)\<lparr>t_state := Blocked\<rparr>, 5 := (task0 5)\<lparr>t_state := Blocked\<rparr>)\<rparr>"

lemma kw0_ok: "sched_ok (lists kw0) 1 kw0" "rq_free (\<lambda>q. q) kw0" "suspend_cnt kw0 \<noteq> - 1"
  by (auto simp: sched_ok_def lists_ok_def unlinked_def kw0_def lists0_def task0_def task_new_def rq_free_def k0_def
      split: if_splits intro!: exI[of _ "0 :: tid"])


end
