(* ===== verification/Semaphore.thy ===== *)
theory Semaphore
  imports Wait_Queue
begin

text \<open>
  Semaphores, \<open>src/sync/semaphore.rs\<close>. Their counter is changed by compare-and-exchange loops, which
  end with the first exchange when nothing preempts them. The blocking operations are modelled by
  the round of their loop.
\<close>

section \<open>Operations\<close>

record semaphore =
  sem_count :: u32
  max_count :: u32
  cv_incremented :: wait_queue
  cv_decremented :: wait_queue

definition sem_new :: "nat \<Rightarrow> nat \<Rightarrow> u32 \<Rightarrow> u32 \<Rightarrow> semaphore" where
  "sem_new i d max_cnt init_cnt = \<lparr>sem_count = init_cnt, max_count = max_cnt, cv_incremented = wq_new i, cv_decremented = wq_new d\<rparr>"

text \<open>The end of a round: the operation is done, the loop goes on at once, or the task is blocked.\<close>

datatype round = Done | Again | Wait

definition notify_incremented :: "('w, 'q) kenv \<Rightarrow> semaphore \<times> ('w, 'q) kstate \<Rightarrow> (semaphore \<times> ('w, 'q) kstate) res" where
  "notify_incremented E = (\<lambda>(m, s).
     bindr (notify_one_allow_isr E (cv_incremented m, (), s)) (\<lambda>(_, q, _, s). Inr (m\<lparr>cv_incremented := q\<rparr>, s)))"

definition notify_decremented :: "('w, 'q) kenv \<Rightarrow> semaphore \<times> ('w, 'q) kstate \<Rightarrow> (semaphore \<times> ('w, 'q) kstate) res" where
  "notify_decremented E = (\<lambda>(m, s).
     bindr (notify_one_allow_isr E (cv_decremented m, (), s)) (\<lambda>(_, q, _, s). Inr (m\<lparr>cv_decremented := q\<rparr>, s)))"

definition sem_up :: "('w, 'q) kenv \<Rightarrow> semaphore \<times> ('w, 'q) kstate \<Rightarrow> (round \<times> semaphore \<times> ('w, 'q) kstate) res" where
  "sem_up E = (\<lambda>(m, s).
     bindr (wait_without_lock_until E (\<lambda>(cnt, _). cnt < max_count m) (cv_decremented m, sem_count m, s)) (\<lambda>(r, q, cnt, s).
       let m = m\<lparr>cv_decremented := q\<rparr>
       in case r of
            None \<Rightarrow> Inr (Wait, m, s)
          | Some _ \<Rightarrow>
              let cur_cnt = sem_count m
              in if cur_cnt = max_count m then Inr (Again, m, s)
                 else bindr (notify_incremented E (m\<lparr>sem_count := cur_cnt + 1\<rparr>, s)) (\<lambda>(m, s). Inr (Done, m, s))))"

definition sem_down :: "('w, 'q) kenv \<Rightarrow> semaphore \<times> ('w, 'q) kstate \<Rightarrow> (round \<times> semaphore \<times> ('w, 'q) kstate) res" where
  "sem_down E = (\<lambda>(m, s).
     bindr (wait_without_lock_until E (\<lambda>(cnt, _). cnt > 0) (cv_incremented m, sem_count m, s)) (\<lambda>(r, q, cnt, s).
       let m = m\<lparr>cv_incremented := q\<rparr>
       in case r of
            None \<Rightarrow> Inr (Wait, m, s)
          | Some _ \<Rightarrow>
              let cur_cnt = sem_count m
              in if cur_cnt = 0 then Inr (Again, m, s)
                 else bindr (notify_decremented E (m\<lparr>sem_count := cur_cnt - 1\<rparr>, s)) (\<lambda>(m, s). Inr (Done, m, s))))"

text \<open>\<open>None\<close> is \<open>Err(())\<close>.\<close>

definition try_up_allow_isr ::
  "('w, 'q) kenv \<Rightarrow> semaphore \<times> ('w, 'q) kstate \<Rightarrow> (unit option \<times> semaphore \<times> ('w, 'q) kstate) res" where
  "try_up_allow_isr E = (\<lambda>(m, s).
     let cur_cnt = sem_count m
     in if cur_cnt = max_count m then Inr (None, m, s)
        else bindr (notify_incremented E (m\<lparr>sem_count := cur_cnt + 1\<rparr>, s)) (\<lambda>(m, s). Inr (Some (), m, s)))"

definition try_down_allow_isr ::
  "('w, 'q) kenv \<Rightarrow> semaphore \<times> ('w, 'q) kstate \<Rightarrow> (unit option \<times> semaphore \<times> ('w, 'q) kstate) res" where
  "try_down_allow_isr E = (\<lambda>(m, s).
     let cur_cnt = sem_count m
     in if cur_cnt = 0 then Inr (None, m, s)
        else bindr (notify_decremented E (m\<lparr>sem_count := cur_cnt - 1\<rparr>, s)) (\<lambda>(m, s). Inr (Some (), m, s)))"

section \<open>What a primitive relies on\<close>

text \<open>The kernel between two calls: the invariant of the scheduler with \<open>c\<close> current, a free ready queue,
  and room in the suspension counter.\<close>

definition kern_ok :: "('w \<Rightarrow> lid \<Rightarrow> tid list) \<Rightarrow> ('q \<Rightarrow> tid list) \<Rightarrow> tid \<Rightarrow> ('w, 'q) kstate \<Rightarrow> bool" where
  "kern_ok elems queued c s \<longleftrightarrow> sched_ok (elems (lists s)) c s \<and> rq_free queued s \<and> suspend_cnt s \<noteq> - 1"

text \<open>The current task may block.\<close>

definition may_block :: "tid \<Rightarrow> ('w, 'q) kstate \<Rightarrow> bool" where
  "may_block c s \<longleftrightarrow> t_state (tasks s c) = Running \<and> \<not> t_is_idle (tasks s c) \<and> suspend_cnt s = 0 \<and> \<not> in_isr s"

text \<open>The lists after a notification of \<open>l\<close>: its frontmost task of the highest priority, if there is any,
  has become ready.\<close>

definition woken :: "(lid \<Rightarrow> tid list) \<Rightarrow> lid \<Rightarrow> ('w, 'q) kstate \<Rightarrow> (lid \<Rightarrow> tid list) \<Rightarrow> bool" where
  "woken xs l s ys \<longleftrightarrow> (if xs l = [] then ys = xs else \<exists>k. is_top (tasks s) (xs l) k \<and> ys = wake_at xs l k)"

text \<open>What an operation that does not block leaves to the current task.\<close>

definition calm :: "tid \<Rightarrow> ('w, 'q) kstate \<Rightarrow> ('w, 'q) kstate \<Rightarrow> bool" where
  "calm c s s' \<longleftrightarrow> suspend_cnt s' = suspend_cnt s \<and> in_isr s' = in_isr s \<and> (t_state (tasks s c) = Running \<longrightarrow> tasks s' c = tasks s c)"

lemma calm_may_block: "calm c s s' \<Longrightarrow> may_block c s \<Longrightarrow> may_block c s'"
  by (simp add: calm_def may_block_def)

lemma resume_suspended: "suspend_cnt s \<noteq> 0 \<Longrightarrow> resume (suspend s) = s"
  by (cases s) (simp add: resume_eq suspend_def)

lemma ready_other:
  assumes "sched_ok xs c s" "l \<noteq> Ready_List" "t \<in> set (xs l)" "t_state (tasks s c) = Running"
  shows "t \<noteq> c"
  using assms by (auto simp: sched_ok_def unlinked_def)

context kernel_lib
begin

lemma notify_keeps:
  assumes K: "kern_ok elems queued c s" and q: "wq_free q"
  shows "\<exists>s'. notify_one_allow_isr E (q, x, s) = Inr ((), q, x, s') \<and> kern_ok elems queued c s'
    \<and> calm c s s' \<and> woken (elems (lists s)) (Wait_List (wq_list q)) s (elems (lists s'))"
proof -
  let ?l = "Wait_List (wq_list q)"
  have S: "sched_ok (elems (lists s)) c s" "rq_free queued s" "suspend_cnt s \<noteq> - 1" using K by (simp_all add: kern_ok_def)
  show ?thesis
  proof (cases "elems (lists s) ?l = []")
    case True
    let ?s = "s\<lparr>pendsv := pendsv s \<or> suspend_cnt s = 0 \<and> pending_ctxt_switch s\<rparr>"
    have "notify_one_allow_isr E (q, x, s) = Inr ((), q, x, ?s)" by (rule notify_one_empty[OF q True])
    moreover have "kern_ok elems queued c ?s" using K by (simp add: kern_ok_def sched_ok_def rq_free_def)
    ultimately show ?thesis using True by (intro exI[of _ ?s]) (simp add: woken_def calm_def)
  next
    case False
    from notify_one_some[where x = x, OF q False S] obtain k t w where k: "is_top (tasks s) (elems (lists s) ?l) k"
      "t = elems (lists s) ?l ! k" and r: "notify_one_allow_isr E (q, x, s) = Inr ((), q, x, s\<lparr>tasks := ready_all [t] (tasks s), lists := w,
        pending_ctxt_switch := pending_ctxt_switch s \<or> preempts (kconf E) (tasks s) c [t],
        pendsv := pendsv s \<or> suspend_cnt s = 0 \<and> (pending_ctxt_switch s \<or> preempts (kconf E) (tasks s) c [t])\<rparr>)"
      and w: "elems w = wake_at (elems (lists s)) ?l k" by (elim exE conjE)
    define s' where "s' = s\<lparr>tasks := ready_all [t] (tasks s), lists := w,
        pending_ctxt_switch := pending_ctxt_switch s \<or> preempts (kconf E) (tasks s) c [t],
        pendsv := pendsv s \<or> suspend_cnt s = 0 \<and> (pending_ctxt_switch s \<or> preempts (kconf E) (tasks s) c [t])\<rparr>"
    have t: "t \<in> set (elems (lists s) ?l)" using k by (simp add: is_top_def)
    have "sched_ok (elems (lists s')) c s'" using w unfolding s'_def kstate.select_convs
      by (simp, intro sched_ok_wake[OF S(1)]) (use k in \<open>simp_all add: is_top_def\<close>)
    then have "kern_ok elems queued c s'" using S(2,3) by (simp add: kern_ok_def s'_def rq_free_def)
    moreover have "t_state (tasks s c) = Running \<longrightarrow> tasks s' c = tasks s c"
      using ready_other[OF S(1) _ t] by (auto simp: s'_def ready_all_def)
    moreover have "woken (elems (lists s)) ?l s (elems (lists s'))" using False k(1) w by (auto simp: woken_def s'_def)
    ultimately show ?thesis using r by (intro exI[of _ s']) (simp add: s'_def calm_def)
  qed
qed

lemma wait_cond_true:
  assumes "kern_ok elems queued c s" "wq_free q" "suspend_cnt s = 0" "\<not> in_isr s" "condition (x, suspend s)"
  shows "\<exists>s'. wait_without_lock_until E condition (q, x, s) = Inr (Some (), q, x, s') \<and> kern_ok elems queued c s'
    \<and> tasks s' = tasks s \<and> suspend_cnt s' = suspend_cnt s \<and> in_isr s' = in_isr s \<and> lists s' = lists s"
proof -
  have "wait_without_lock_until E condition (q, x, s) = Inr (Some (), q, x, resume (suspend s))"
    unfolding wait_without_lock_until_def by (rule wait_until_pass[OF assms(2-4)]) (simp add: assms(5))
  moreover have "kern_ok elems queued c (resume (suspend s))"
    using assms(1,3) by (simp add: kern_ok_def sched_ok_def rq_free_def)
  ultimately show ?thesis by (intro exI[of _ "resume (suspend s)"]) simp
qed

lemma wait_block_keeps:
  assumes K: "kern_ok elems queued c s" and q: "wq_free q" and b: "may_block c s"
    and f: "condition (x, suspend s) = Inr (None, x, suspend s)"
  shows "\<exists>s'. wait_until E condition (q, x, s) = Inr (None, q, x, s') \<and> kern_ok elems queued c s'
    \<and> tasks s' = (tasks s)(c := set_state Blocked (tasks s c)) \<and> pendsv s'
    \<and> elems (lists s') = (elems (lists s))(Wait_List (wq_list q) := elems (lists s) (Wait_List (wq_list q)) @ [c])"
proof -
  let ?l = "Wait_List (wq_list q)"
  have S: "sched_ok (elems (lists s)) c s" "rq_free queued s" "suspend_cnt s = 0" "\<not> in_isr s"
    "t_state (tasks s c) = Running" "\<not> t_is_idle (tasks s c)" using K b by (auto simp: kern_ok_def may_block_def)
  have cur: "cur_task s = Some c" and un: "unlinked (elems (lists s)) c" using S(1,5) by (auto simp: sched_ok_def)
  obtain w where w: "wait_until E condition (q, x, s) =
      Inr (None, q, x, s\<lparr>tasks := (tasks s)(c := set_state Blocked (tasks s c)), lists := w, pendsv := True\<rparr>)"
    "elems w = (elems (lists s))(?l := elems (lists s) ?l @ [c])"
    using wait_until_block[where condition = condition and x = x and s = s and c = c, OF q S(3,4) f cur un] by (elim exE conjE)
  define s' where "s' = s\<lparr>tasks := (tasks s)(c := set_state Blocked (tasks s c)), lists := w, pendsv := True\<rparr>"
  have d: "distinct (elems (lists s) ?l @ [c])" using sched_ok_distinct[OF S(1)] un by (simp add: unlinked_def)
  have "sched_ok ((elems (lists s))(?l := elems (lists s) ?l @ [c])) c s'"
    by (rule sched_ok_block[OF S(1,5,6) _ d]) (simp_all add: s'_def)
  then have "kern_ok elems queued c s'" using S(2,3) w(2) by (simp add: kern_ok_def s'_def rq_free_def)
  then show ?thesis using w by (intro exI[of _ s']) (simp add: s'_def)
qed

lemma wait_cond_false:
  assumes "kern_ok elems queued c s" "wq_free q" "may_block c s" "\<not> condition (x, suspend s)"
  shows "\<exists>s'. wait_without_lock_until E condition (q, x, s) = Inr (None, q, x, s') \<and> kern_ok elems queued c s'
    \<and> t_state (tasks s' c) = Blocked \<and> pendsv s'
    \<and> elems (lists s') = (elems (lists s))(Wait_List (wq_list q) := elems (lists s) (Wait_List (wq_list q)) @ [c])"
  using wait_block_keeps[OF assms(1-3), where condition = "\<lambda>(x, s). Inr (if condition (x, s) then Some () else None, x, s)" and x = x] assms(4)
  unfolding wait_without_lock_until_def by auto

lemma notify_incremented_keeps:
  assumes "kern_ok elems queued c s" "wq_free (cv_incremented m)"
  shows "\<exists>s'. notify_incremented E (m, s) = Inr (m, s') \<and> kern_ok elems queued c s' \<and> calm c s s'
    \<and> woken (elems (lists s)) (Wait_List (wq_list (cv_incremented m))) s (elems (lists s'))"
  using notify_keeps[OF assms, of "()"] by (auto simp: notify_incremented_def)

lemma notify_decremented_keeps:
  assumes "kern_ok elems queued c s" "wq_free (cv_decremented m)"
  shows "\<exists>s'. notify_decremented E (m, s) = Inr (m, s') \<and> kern_ok elems queued c s' \<and> calm c s s'
    \<and> woken (elems (lists s)) (Wait_List (wq_list (cv_decremented m))) s (elems (lists s'))"
  using notify_keeps[OF assms, of "()"] by (auto simp: notify_decremented_def)

end

section \<open>Properties\<close>

definition sem_ok :: "semaphore \<Rightarrow> bool" where
  "sem_ok m \<longleftrightarrow> wq_free (cv_incremented m) \<and> wq_free (cv_decremented m) \<and> sem_count m \<le> max_count m"

definition sem_inc :: "semaphore \<Rightarrow> semaphore" where
  "sem_inc m = m\<lparr>sem_count := sem_count m + 1\<rparr>"

definition sem_dec :: "semaphore \<Rightarrow> semaphore" where
  "sem_dec m = m\<lparr>sem_count := sem_count m - 1\<rparr>"

lemma unat_inc: "(a :: u32) < b \<Longrightarrow> unat (a + 1) = unat a + 1"
proof -
  have "unat b < 2 ^ LENGTH(32)" by (rule unsigned_less)
  then show "a < b \<Longrightarrow> unat (a + 1) = unat a + 1" by (simp add: word_less_nat_alt unat_word_ariths)
qed

lemma sem_not_full: "sem_ok m \<Longrightarrow> sem_count m \<noteq> max_count m \<Longrightarrow> sem_count m < max_count m"
  by (auto simp: sem_ok_def)

lemma sem_inc_ok:
  assumes "sem_ok m" "sem_count m \<noteq> max_count m"
  shows "sem_ok (sem_inc m)" "unat (sem_count (sem_inc m)) = unat (sem_count m) + 1"
proof -
  have "sem_count m < max_count m" using assms by (rule sem_not_full)
  then show "sem_ok (sem_inc m)" "unat (sem_count (sem_inc m)) = unat (sem_count m) + 1"
    using assms(1) unat_inc by (simp_all add: sem_ok_def sem_inc_def inc_le)
qed

lemma sem_dec_ok:
  assumes "sem_ok m" "sem_count m \<noteq> 0"
  shows "sem_ok (sem_dec m)" "unat (sem_count m) = unat (sem_count (sem_dec m)) + 1"
proof -
  have u: "unat (sem_count m - 1) = unat (sem_count m) - 1" "0 < unat (sem_count m)"
    using assms(2) by (simp_all add: unat_minus_one unat_gt_0)
  then show "sem_ok (sem_dec m)" "unat (sem_count m) = unat (sem_count (sem_dec m)) + 1"
    using assms(1) by (auto simp: sem_ok_def sem_dec_def word_le_nat_alt)
qed

context kernel_lib
begin

lemma try_up_eq:
  assumes "kern_ok elems queued c s" "sem_ok m" "sem_count m \<noteq> max_count m"
  shows "\<exists>s'. try_up_allow_isr E (m, s) = Inr (Some (), sem_inc m, s') \<and> kern_ok elems queued c s' \<and> calm c s s'
    \<and> woken (elems (lists s)) (Wait_List (wq_list (cv_incremented m))) s (elems (lists s'))"
proof -
  have "wq_free (cv_incremented (sem_inc m))" using assms(2) by (simp add: sem_ok_def sem_inc_def)
  from notify_incremented_keeps[OF assms(1) this] show ?thesis
    using assms(3) by (auto simp: try_up_allow_isr_def sem_inc_def)
qed

lemma try_down_eq:
  assumes "kern_ok elems queued c s" "sem_ok m" "sem_count m \<noteq> 0"
  shows "\<exists>s'. try_down_allow_isr E (m, s) = Inr (Some (), sem_dec m, s') \<and> kern_ok elems queued c s' \<and> calm c s s'
    \<and> woken (elems (lists s)) (Wait_List (wq_list (cv_decremented m))) s (elems (lists s'))"
proof -
  have "wq_free (cv_decremented (sem_dec m))" using assms(2) by (simp add: sem_ok_def sem_dec_def)
  from notify_decremented_keeps[OF assms(1) this] show ?thesis
    using assms(3) by (auto simp: try_down_allow_isr_def sem_dec_def)
qed

text \<open>A round that need not wait ends like the operation that never waits.\<close>

lemma sem_up_pass:
  assumes K: "kern_ok elems queued c s" "sem_ok m" "sem_count m \<noteq> max_count m" "suspend_cnt s = 0" "\<not> in_isr s"
  shows "\<exists>s'. sem_up E (m, s) = Inr (Done, sem_inc m, s') \<and> kern_ok elems queued c s' \<and> calm c s s'
    \<and> woken (elems (lists s)) (Wait_List (wq_list (cv_incremented m))) s (elems (lists s'))"
proof -
  have "wq_free (cv_decremented m)" "sem_count m < max_count m" using sem_not_full[OF assms(2,3)] assms(2) by (simp_all add: sem_ok_def)
  from wait_cond_true[OF K(1) this(1) K(4,5), of "\<lambda>(cnt, _). cnt < max_count m" "sem_count m"] this(2) obtain s1 where
    s1: "wait_without_lock_until E (\<lambda>(cnt, _). cnt < max_count m) (cv_decremented m, sem_count m, s) = Inr (Some (), cv_decremented m, sem_count m, s1)"
    "kern_ok elems queued c s1" "tasks s1 = tasks s" "lists s1 = lists s" "suspend_cnt s1 = suspend_cnt s" "in_isr s1 = in_isr s" by auto
  have "sem_up E (m, s) = bindr (try_up_allow_isr E (m, s1)) (\<lambda>(_, m, s). Inr (Done, m, s))"
    using s1(1) K(3) by (simp add: sem_up_def try_up_allow_isr_def bindr_assoc split_def)
  with try_up_eq[OF s1(2) assms(2,3)] show ?thesis using s1(3-6) by (auto simp: woken_def calm_def)
qed

lemma sem_down_pass:
  assumes K: "kern_ok elems queued c s" "sem_ok m" "sem_count m \<noteq> 0" "suspend_cnt s = 0" "\<not> in_isr s"
  shows "\<exists>s'. sem_down E (m, s) = Inr (Done, sem_dec m, s') \<and> kern_ok elems queued c s' \<and> calm c s s'
    \<and> woken (elems (lists s)) (Wait_List (wq_list (cv_decremented m))) s (elems (lists s'))"
proof -
  have "wq_free (cv_incremented m)" "sem_count m > 0" using assms(2,3) by (simp_all add: sem_ok_def word_gt_0)
  from wait_cond_true[OF K(1) this(1) K(4,5), of "\<lambda>(cnt, _). cnt > 0" "sem_count m"] this(2) obtain s1 where
    s1: "wait_without_lock_until E (\<lambda>(cnt, _). cnt > 0) (cv_incremented m, sem_count m, s) = Inr (Some (), cv_incremented m, sem_count m, s1)"
    "kern_ok elems queued c s1" "tasks s1 = tasks s" "lists s1 = lists s" "suspend_cnt s1 = suspend_cnt s" "in_isr s1 = in_isr s" by auto
  have "sem_down E (m, s) = bindr (try_down_allow_isr E (m, s1)) (\<lambda>(_, m, s). Inr (Done, m, s))"
    using s1(1) K(3) by (simp add: sem_down_def try_down_allow_isr_def bindr_assoc split_def)
  with try_down_eq[OF s1(2) assms(2,3)] show ?thesis using s1(3-6) by (auto simp: woken_def calm_def)
qed

lemma sem_up_block:
  assumes "kern_ok elems queued c s" "sem_ok m" "may_block c s" "sem_count m = max_count m"
  shows "\<exists>s'. sem_up E (m, s) = Inr (Wait, m, s') \<and> kern_ok elems queued c s' \<and> t_state (tasks s' c) = Blocked \<and> pendsv s'
    \<and> elems (lists s') = (elems (lists s))(Wait_List (wq_list (cv_decremented m)) := elems (lists s) (Wait_List (wq_list (cv_decremented m))) @ [c])"
proof -
  have "wq_free (cv_decremented m)" using assms(2) by (simp add: sem_ok_def)
  from wait_cond_false[OF assms(1) this assms(3), of "\<lambda>(cnt, _). cnt < max_count m" "sem_count m"] assms(4)
  show ?thesis by (auto simp: sem_up_def)
qed

lemma sem_down_block:
  assumes "kern_ok elems queued c s" "sem_ok m" "may_block c s" "sem_count m = 0"
  shows "\<exists>s'. sem_down E (m, s) = Inr (Wait, m, s') \<and> kern_ok elems queued c s' \<and> t_state (tasks s' c) = Blocked \<and> pendsv s'
    \<and> elems (lists s') = (elems (lists s))(Wait_List (wq_list (cv_incremented m)) := elems (lists s) (Wait_List (wq_list (cv_incremented m))) @ [c])"
proof -
  have "wq_free (cv_incremented m)" using assms(2) by (simp add: sem_ok_def)
  from wait_cond_false[OF assms(1) this assms(3), of "\<lambda>(cnt, _). cnt > 0" "sem_count m"] assms(4)
  show ?thesis by (auto simp: sem_down_def)
qed

end

text \<open>C33. A semaphore counts exactly and within its bounds. Taking a free semaphore whose count is at
  most its maximum: \<open>try_up\<close> fails exactly on a full and \<open>try_down\<close> exactly on an empty semaphore,
  changing nothing; otherwise the count moves by one without wrapping, stays within the maximum,
  and a task that waits for that change becomes ready. A round of \<open>up\<close> or \<open>down\<close> by a task that may
  block does the same where it need not wait, and otherwise puts the current task to the end of the
  condition variable it waits on. The kernel's invariant is kept.\<close>

theorem semaphore_spec:
  assumes "kernel_lib E elems queued" "kern_ok elems queued c s" "sem_ok m" "may_block c s"
  shows "(if sem_count m = max_count m
        then try_up_allow_isr E (m, s) = Inr (None, m, s)
          \<and> (\<exists>s'. sem_up E (m, s) = Inr (Wait, m, s') \<and> kern_ok elems queued c s' \<and> t_state (tasks s' c) = Blocked \<and> pendsv s'
               \<and> elems (lists s') (Wait_List (wq_list (cv_decremented m))) = elems (lists s) (Wait_List (wq_list (cv_decremented m))) @ [c])
        else \<exists>m' s1 s2. try_up_allow_isr E (m, s) = Inr (Some (), m', s1) \<and> sem_up E (m, s) = Inr (Done, m', s2)
          \<and> unat (sem_count m') = unat (sem_count m) + 1 \<and> sem_ok m' \<and> max_count m' = max_count m
          \<and> (\<forall>s' \<in> {s1, s2}. kern_ok elems queued c s' \<and> woken (elems (lists s)) (Wait_List (wq_list (cv_incremented m))) s (elems (lists s'))))
    \<and> (if sem_count m = 0
        then try_down_allow_isr E (m, s) = Inr (None, m, s)
          \<and> (\<exists>s'. sem_down E (m, s) = Inr (Wait, m, s') \<and> kern_ok elems queued c s' \<and> t_state (tasks s' c) = Blocked \<and> pendsv s'
               \<and> elems (lists s') (Wait_List (wq_list (cv_incremented m))) = elems (lists s) (Wait_List (wq_list (cv_incremented m))) @ [c])
        else \<exists>m' s1 s2. try_down_allow_isr E (m, s) = Inr (Some (), m', s1) \<and> sem_down E (m, s) = Inr (Done, m', s2)
          \<and> unat (sem_count m) = unat (sem_count m') + 1 \<and> sem_ok m' \<and> max_count m' = max_count m
          \<and> (\<forall>s' \<in> {s1, s2}. kern_ok elems queued c s' \<and> woken (elems (lists s)) (Wait_List (wq_list (cv_decremented m))) s (elems (lists s'))))"
    (is "?up \<and> ?down")
proof
  note b = assms(4)[unfolded may_block_def]
  show ?up
  proof (cases "sem_count m = max_count m")
    case True
    then show ?thesis using kernel_lib.sem_up_block[OF assms True] by (auto simp: try_up_allow_isr_def)
  next
    case False
    have "max_count (sem_inc m) = max_count m" by (simp add: sem_inc_def)
    with False sem_inc_ok[OF assms(3) False] kernel_lib.try_up_eq[OF assms(1-3) False] kernel_lib.sem_up_pass[OF assms(1-3) False] b
    show ?thesis by auto
  qed
  show ?down
  proof (cases "sem_count m = 0")
    case True
    then show ?thesis using kernel_lib.sem_down_block[OF assms True] by (auto simp: try_down_allow_isr_def)
  next
    case False
    have "max_count (sem_dec m) = max_count m" by (simp add: sem_dec_def)
    with False sem_dec_ok[OF assms(3) False] kernel_lib.try_down_eq[OF assms(1-3) False] kernel_lib.sem_down_pass[OF assms(1-3) False] b
    show ?thesis by auto
  qed
qed

text \<open>Sample: a semaphore at 0 of 2, with the tasks 4 and 5 waiting to take it down; task 1 raises it.\<close>

lemma kw0_kern: "kern_ok (\<lambda>w. w) (\<lambda>q. q) 1 kw0" "may_block 1 kw0"
  using kw0_ok by (auto simp: kern_ok_def may_block_def kw0_def k0_def task0_def task_new_def)

theorem semaphore_spec_witness:
  "\<exists>m' s'. sem_up (list_env config0) (sem_new 7 8 2 0, kw0) = Inr (Done, m', s') \<and> unat (sem_count m') = 1
    \<and> lists s' (Wait_List 7) = [5]"
proof -
  have m: "sem_ok (sem_new 7 8 2 0)" by (simp add: sem_ok_def sem_new_def wq_free_def wq_new_def)
  have l: "lists kw0 (Wait_List 7) = [4, 5]" by (simp add: kw0_def)
  have "is_top (tasks kw0) [4, 5] k \<Longrightarrow> k = 0" for k
    by (auto simp: is_top_def kw0_def task0_def prio0_def less_task_priority_def less_Suc_eq)
  then have w: "woken (lists kw0) (Wait_List 7) kw0 ys \<Longrightarrow> ys (Wait_List 7) = [5]" for ys
    using l by (fastforce simp: woken_def wake_at_def)
  show ?thesis using semaphore_spec[OF le.kernel_lib_axioms[of config0] kw0_kern(1) m kw0_kern(2)] w
    by (auto simp: sem_new_def wq_new_def)
qed

end
