(* ===== verification/Channel.thy ===== *)
theory Channel
  imports Semaphore
begin

text \<open>
  Channels, \<open>src/sync/channel.rs\<close>: a bounded buffer guarded by two semaphores. The buffer is the
  queue of a package outside the repository: its operations are the record \<open>mpmc\<close>, what it documents
  is the locale \<open>bounded_queue\<close>.
\<close>

section \<open>The buffer\<close>

record ('a, 'b) mpmc =
  mp_enqueue :: "'b \<Rightarrow> 'a \<Rightarrow> 'b option"
  mp_dequeue :: "'b \<Rightarrow> ('a \<times> 'b) option"

locale bounded_queue =
  fixes Q :: "('a, 'b) mpmc" and contents :: "'b \<Rightarrow> 'a list" and N :: nat
  assumes mp_enqueue: "length (contents b) < N \<Longrightarrow> \<exists>b'. mp_enqueue Q b x = Some b' \<and> contents b' = contents b @ [x]"
    and mp_enqueue_full: "N \<le> length (contents b) \<Longrightarrow> mp_enqueue Q b x = None"
    and mp_dequeue: "contents b = x # xs \<Longrightarrow> \<exists>b'. mp_dequeue Q b = Some (x, b') \<and> contents b' = xs"
    and mp_dequeue_empty: "contents b = [] \<Longrightarrow> mp_dequeue Q b = None"

text \<open>The buffers of the scheduler and of the sleep queue are such queues.\<close>

sublocale kernel_lib \<subseteq> mq: bounded_queue "\<lparr>mp_enqueue = mq_enqueue E, mp_dequeue = mq_dequeue E\<rparr>" queued "MAX_TASK_NUMBER (kconf E)"
  by unfold_locales (simp_all add: enqueue enqueue_full dequeue dequeue_empty)

definition list_mpmc :: "nat \<Rightarrow> ('a, 'a list) mpmc" where
  "list_mpmc N = \<lparr>mp_enqueue = (\<lambda>b x. if length b < N then Some (b @ [x]) else None),
     mp_dequeue = (\<lambda>b. case b of [] \<Rightarrow> None | x # xs \<Rightarrow> Some (x, xs))\<rparr>"

interpretation lq: bounded_queue "list_mpmc N" "\<lambda>b. b" N for N
  by unfold_locales (simp_all add: list_mpmc_def)

section \<open>Operations\<close>

record 'b channel =
  ch_buffer :: 'b
  sem_empty :: semaphore
  sem_occupied :: semaphore

text \<open>\<open>n\<close> is the first of the four wait lists of the channel, \<open>b\<close> a new buffer.\<close>

definition channel_new :: "nat \<Rightarrow> u32 \<Rightarrow> 'b \<Rightarrow> 'b channel" where
  "channel_new n N b = \<lparr>ch_buffer = b, sem_empty = sem_new n (n + 1) N N, sem_occupied = sem_new (n + 2) (n + 3) N 0\<rparr>"

definition on_empty ::
  "(semaphore \<times> ('w, 'q) kstate \<Rightarrow> ('r \<times> semaphore \<times> ('w, 'q) kstate) res) \<Rightarrow> 'b channel \<times> ('w, 'q) kstate
     \<Rightarrow> ('r \<times> 'b channel \<times> ('w, 'q) kstate) res" where
  "on_empty op = (\<lambda>(ch, s). bindr (op (sem_empty ch, s)) (\<lambda>(r, m, s). Inr (r, ch\<lparr>sem_empty := m\<rparr>, s)))"

definition on_occupied ::
  "(semaphore \<times> ('w, 'q) kstate \<Rightarrow> ('r \<times> semaphore \<times> ('w, 'q) kstate) res) \<Rightarrow> 'b channel \<times> ('w, 'q) kstate
     \<Rightarrow> ('r \<times> 'b channel \<times> ('w, 'q) kstate) res" where
  "on_occupied op = (\<lambda>(ch, s). bindr (op (sem_occupied ch, s)) (\<lambda>(r, m, s). Inr (r, ch\<lparr>sem_occupied := m\<rparr>, s)))"

text \<open>The accesses to the buffer, with \<open>unwrap_or_die\<close>.\<close>

definition ch_enqueue :: "('a, 'b) mpmc \<Rightarrow> 'a \<Rightarrow> 'b channel \<Rightarrow> 'b channel res" where
  "ch_enqueue Q data ch = bindr (or_die (mp_enqueue Q (ch_buffer ch) data)) (\<lambda>b. Inr (ch\<lparr>ch_buffer := b\<rparr>))"

definition ch_dequeue :: "('a, 'b) mpmc \<Rightarrow> 'b channel \<Rightarrow> ('a \<times> 'b channel) res" where
  "ch_dequeue Q ch = bindr (or_die (mp_dequeue Q (ch_buffer ch))) (\<lambda>(data, b). Inr (data, ch\<lparr>ch_buffer := b\<rparr>))"

text \<open>Where a blocking operation is after a run up to its end or to the next wait: complete, in the
  loop of its first or in the loop of its second semaphore operation.\<close>

datatype 'r progress = Complete 'r | In_First round | In_Second 'r round

definition push ::
  "('a, 'b) mpmc \<Rightarrow> ('w, 'q) kenv \<Rightarrow> 'a \<Rightarrow> 'b channel \<times> ('w, 'q) kstate \<Rightarrow> (unit progress \<times> 'b channel \<times> ('w, 'q) kstate) res" where
  "push Q E data st =
     bindr (on_empty (sem_down E) st) (\<lambda>(r, ch, s).
       if r \<noteq> Done then Inr (In_First r, ch, s)
       else bindr (ch_enqueue Q data ch) (\<lambda>ch.
         bindr (on_occupied (sem_up E) (ch, s)) (\<lambda>(r, st).
           Inr (if r = Done then Complete () else In_Second () r, st))))"

definition pop ::
  "('a, 'b) mpmc \<Rightarrow> ('w, 'q) kenv \<Rightarrow> 'b channel \<times> ('w, 'q) kstate \<Rightarrow> ('a progress \<times> 'b channel \<times> ('w, 'q) kstate) res" where
  "pop Q E st =
     bindr (on_occupied (sem_down E) st) (\<lambda>(r, ch, s).
       if r \<noteq> Done then Inr (In_First r, ch, s)
       else bindr (ch_dequeue Q ch) (\<lambda>(data, ch).
         bindr (on_empty (sem_up E) (ch, s)) (\<lambda>(r, st).
           Inr (if r = Done then Complete data else In_Second data r, st))))"

definition try_pop_allow_isr ::
  "('a, 'b) mpmc \<Rightarrow> ('w, 'q) kenv \<Rightarrow> 'b channel \<times> ('w, 'q) kstate \<Rightarrow> ('a option \<times> 'b channel \<times> ('w, 'q) kstate) res" where
  "try_pop_allow_isr Q E st =
     bindr (on_occupied (try_down_allow_isr E) st) (\<lambda>(r, ch, s).
       if r = None then Inr (None, ch, s)
       else bindr (ch_dequeue Q ch) (\<lambda>(data, ch).
         bindr (on_empty (try_up_allow_isr E) (ch, s)) (\<lambda>(r, st).
           bindr (or_die r) (\<lambda>_. Inr (Some data, st)))))"

text \<open>\<open>Inl data\<close> of the inner sum is \<open>Err(data)\<close>.\<close>

definition try_push_allow_isr ::
  "('a, 'b) mpmc \<Rightarrow> ('w, 'q) kenv \<Rightarrow> 'a \<Rightarrow> 'b channel \<times> ('w, 'q) kstate \<Rightarrow> (('a + unit) \<times> 'b channel \<times> ('w, 'q) kstate) res" where
  "try_push_allow_isr Q E data st =
     bindr (on_empty (try_down_allow_isr E) st) (\<lambda>(r, ch, s).
       if r \<noteq> None then
         bindr (ch_enqueue Q data ch) (\<lambda>ch.
           bindr (on_occupied (try_up_allow_isr E) (ch, s)) (\<lambda>(r, st).
             bindr (or_die r) (\<lambda>_. Inr (Inr (), st))))
       else Inr (Inl data, ch, s))"

section \<open>Interleavings\<close>

text \<open>The operations above in pieces that producers and consumers, tasks and interrupt handlers,
  interleave: a producer has passed its first semaphore, or has stored its data and not yet raised
  the second; a consumer likewise. The run counts them and records what went in and out of the
  buffer. Between the pieces any task may run, in any state the kernel's invariant allows.\<close>

record ('a, 'b) chan_run =
  cr_chan :: "'b channel"
  to_enqueue :: nat
  enqueued :: nat
  to_dequeue :: nat
  dequeued :: nat
  sent :: "'a list"
  received :: "'a list"

definition run_new :: "'b channel \<Rightarrow> ('a, 'b) chan_run" where
  "run_new ch = \<lparr>cr_chan = ch, to_enqueue = 0, enqueued = 0, to_dequeue = 0, dequeued = 0, sent = [], received = []\<rparr>"

inductive chan_step ::
  "('a, 'b) mpmc \<Rightarrow> ('w, 'q) kenv \<Rightarrow> ('w \<Rightarrow> lid \<Rightarrow> tid list) \<Rightarrow> ('q \<Rightarrow> tid list)
     \<Rightarrow> ('a, 'b) chan_run \<Rightarrow> ('a, 'b) chan_run \<Rightarrow> bool"
  for Q E elems queued where
  push_down: "\<lbrakk>kern_ok elems queued c s; may_block c s; on_empty (sem_down E) (cr_chan x, s) = Inr (r, ch, s')\<rbrakk> \<Longrightarrow>
    chan_step Q E elems queued x (x\<lparr>cr_chan := ch, to_enqueue := to_enqueue x + of_bool (r = Done)\<rparr>)"
| push_try_down: "\<lbrakk>kern_ok elems queued c s; on_empty (try_down_allow_isr E) (cr_chan x, s) = Inr (r, ch, s')\<rbrakk> \<Longrightarrow>
    chan_step Q E elems queued x (x\<lparr>cr_chan := ch, to_enqueue := to_enqueue x + of_bool (r \<noteq> None)\<rparr>)"
| push_data: "\<lbrakk>to_enqueue x = Suc k; ch_enqueue Q data (cr_chan x) = Inr ch\<rbrakk> \<Longrightarrow>
    chan_step Q E elems queued x (x\<lparr>cr_chan := ch, to_enqueue := k, enqueued := enqueued x + 1, sent := sent x @ [data]\<rparr>)"
| push_up: "\<lbrakk>enqueued x = Suc k; kern_ok elems queued c s; may_block c s; on_occupied (sem_up E) (cr_chan x, s) = Inr (r, ch, s')\<rbrakk> \<Longrightarrow>
    chan_step Q E elems queued x (x\<lparr>cr_chan := ch, enqueued := (if r = Done then k else Suc k)\<rparr>)"
| push_try_up: "\<lbrakk>enqueued x = Suc k; kern_ok elems queued c s; on_occupied (try_up_allow_isr E) (cr_chan x, s) = Inr (Some (), ch, s')\<rbrakk> \<Longrightarrow>
    chan_step Q E elems queued x (x\<lparr>cr_chan := ch, enqueued := k\<rparr>)"
| pop_down: "\<lbrakk>kern_ok elems queued c s; may_block c s; on_occupied (sem_down E) (cr_chan x, s) = Inr (r, ch, s')\<rbrakk> \<Longrightarrow>
    chan_step Q E elems queued x (x\<lparr>cr_chan := ch, to_dequeue := to_dequeue x + of_bool (r = Done)\<rparr>)"
| pop_try_down: "\<lbrakk>kern_ok elems queued c s; on_occupied (try_down_allow_isr E) (cr_chan x, s) = Inr (r, ch, s')\<rbrakk> \<Longrightarrow>
    chan_step Q E elems queued x (x\<lparr>cr_chan := ch, to_dequeue := to_dequeue x + of_bool (r \<noteq> None)\<rparr>)"
| pop_data: "\<lbrakk>to_dequeue x = Suc k; ch_dequeue Q (cr_chan x) = Inr (data, ch)\<rbrakk> \<Longrightarrow>
    chan_step Q E elems queued x (x\<lparr>cr_chan := ch, to_dequeue := k, dequeued := dequeued x + 1, received := received x @ [data]\<rparr>)"
| pop_up: "\<lbrakk>dequeued x = Suc k; kern_ok elems queued c s; may_block c s; on_empty (sem_up E) (cr_chan x, s) = Inr (r, ch, s')\<rbrakk> \<Longrightarrow>
    chan_step Q E elems queued x (x\<lparr>cr_chan := ch, dequeued := (if r = Done then k else Suc k)\<rparr>)"
| pop_try_up: "\<lbrakk>dequeued x = Suc k; kern_ok elems queued c s; on_empty (try_up_allow_isr E) (cr_chan x, s) = Inr (Some (), ch, s')\<rbrakk> \<Longrightarrow>
    chan_step Q E elems queued x (x\<lparr>cr_chan := ch, dequeued := k\<rparr>)"

text \<open>The invariant: every place is either free, occupied, or in the hands of somebody.\<close>

definition chan_inv :: "('b \<Rightarrow> 'a list) \<Rightarrow> nat \<Rightarrow> ('a, 'b) chan_run \<Rightarrow> bool" where
  "chan_inv contents N x \<longleftrightarrow> sem_ok (sem_empty (cr_chan x)) \<and> sem_ok (sem_occupied (cr_chan x))
     \<and> unat (max_count (sem_empty (cr_chan x))) = N \<and> unat (max_count (sem_occupied (cr_chan x))) = N
     \<and> unat (sem_count (sem_empty (cr_chan x))) + unat (sem_count (sem_occupied (cr_chan x)))
         + to_enqueue x + enqueued x + to_dequeue x + dequeued x = N
     \<and> length (contents (ch_buffer (cr_chan x))) = unat (sem_count (sem_occupied (cr_chan x))) + enqueued x + to_dequeue x
     \<and> sent x = received x @ contents (ch_buffer (cr_chan x))"

text \<open>The results of the semaphore operations.\<close>

context kernel_lib
begin

lemma sem_down_cases:
  assumes "kern_ok elems queued c s" "sem_ok m" "may_block c s" "sem_down E (m, s) = Inr (r, m', s')"
  shows "if sem_count m = 0 then r = Wait \<and> m' = m else r = Done \<and> m' = sem_dec m"
  using sem_down_pass[OF assms(1,2)] sem_down_block[OF assms(1-3)] assms(3,4) by (auto simp: may_block_def)

lemma sem_up_cases:
  assumes "kern_ok elems queued c s" "sem_ok m" "may_block c s" "sem_up E (m, s) = Inr (r, m', s')"
  shows "if sem_count m = max_count m then r = Wait \<and> m' = m else r = Done \<and> m' = sem_inc m"
  using sem_up_pass[OF assms(1,2)] sem_up_block[OF assms(1-3)] assms(3,4) by (auto simp: may_block_def)

lemma try_down_cases:
  assumes "kern_ok elems queued c s" "sem_ok m" "try_down_allow_isr E (m, s) = Inr (r, m', s')"
  shows "if sem_count m = 0 then r = None \<and> m' = m else r \<noteq> None \<and> m' = sem_dec m"
  using try_down_eq[OF assms(1,2)] assms(3) by (auto simp: try_down_allow_isr_def)

lemma try_up_cases:
  assumes "kern_ok elems queued c s" "sem_ok m" "try_up_allow_isr E (m, s) = Inr (r, m', s')"
  shows "if sem_count m = max_count m then r = None \<and> m' = m else r \<noteq> None \<and> m' = sem_inc m"
  using try_up_eq[OF assms(1,2)] assms(3) by (auto simp: try_up_allow_isr_def)

end

text \<open>One step of each kind on the invariant.\<close>

lemma max_count_inc_dec [simp]: "max_count (sem_inc m) = max_count m" "max_count (sem_dec m) = max_count m"
  by (simp_all add: sem_inc_def sem_dec_def)

lemma inv_empty_dec:
  assumes "chan_inv contents N x" "sem_count (sem_empty (cr_chan x)) \<noteq> 0"
  shows "chan_inv contents N (x\<lparr>cr_chan := (cr_chan x)\<lparr>sem_empty := sem_dec (sem_empty (cr_chan x))\<rparr>, to_enqueue := Suc (to_enqueue x)\<rparr>)"
  using assms sem_dec_ok[of "sem_empty (cr_chan x)"] by (auto simp: chan_inv_def)

lemma inv_occupied_inc:
  assumes "chan_inv contents N x" "enqueued x = Suc k"
  shows "chan_inv contents N (x\<lparr>cr_chan := (cr_chan x)\<lparr>sem_occupied := sem_inc (sem_occupied (cr_chan x))\<rparr>, enqueued := k\<rparr>)"
    "sem_count (sem_occupied (cr_chan x)) \<noteq> max_count (sem_occupied (cr_chan x))"
proof -
  show ne: "sem_count (sem_occupied (cr_chan x)) \<noteq> max_count (sem_occupied (cr_chan x))" using assms by (auto simp: chan_inv_def)
  then show "chan_inv contents N (x\<lparr>cr_chan := (cr_chan x)\<lparr>sem_occupied := sem_inc (sem_occupied (cr_chan x))\<rparr>, enqueued := k\<rparr>)"
    using assms sem_inc_ok[of "sem_occupied (cr_chan x)"] by (auto simp: chan_inv_def)
qed

lemma inv_occupied_dec:
  assumes "chan_inv contents N x" "sem_count (sem_occupied (cr_chan x)) \<noteq> 0"
  shows "chan_inv contents N (x\<lparr>cr_chan := (cr_chan x)\<lparr>sem_occupied := sem_dec (sem_occupied (cr_chan x))\<rparr>, to_dequeue := Suc (to_dequeue x)\<rparr>)"
  using assms sem_dec_ok[of "sem_occupied (cr_chan x)"] by (auto simp: chan_inv_def)

lemma inv_empty_inc:
  assumes "chan_inv contents N x" "dequeued x = Suc k"
  shows "chan_inv contents N (x\<lparr>cr_chan := (cr_chan x)\<lparr>sem_empty := sem_inc (sem_empty (cr_chan x))\<rparr>, dequeued := k\<rparr>)"
    "sem_count (sem_empty (cr_chan x)) \<noteq> max_count (sem_empty (cr_chan x))"
proof -
  show ne: "sem_count (sem_empty (cr_chan x)) \<noteq> max_count (sem_empty (cr_chan x))" using assms by (auto simp: chan_inv_def)
  then show "chan_inv contents N (x\<lparr>cr_chan := (cr_chan x)\<lparr>sem_empty := sem_inc (sem_empty (cr_chan x))\<rparr>, dequeued := k\<rparr>)"
    using assms sem_inc_ok[of "sem_empty (cr_chan x)"] by (auto simp: chan_inv_def)
qed

lemma run_id [simp]:
  "x\<lparr>cr_chan := (cr_chan x)\<lparr>sem_empty := sem_empty (cr_chan x)\<rparr>\<rparr> = x"
  "x\<lparr>cr_chan := (cr_chan x)\<lparr>sem_occupied := sem_occupied (cr_chan x)\<rparr>\<rparr> = x"
  by (cases x; simp)+

lemma on_empty_Inr: "on_empty op (ch, s) = Inr (r, ch', s') \<longleftrightarrow> (\<exists>m. op (sem_empty ch, s) = Inr (r, m, s') \<and> ch' = ch\<lparr>sem_empty := m\<rparr>)"
  by (auto simp: on_empty_def bindr_Inr)

lemma on_occupied_Inr:
  "on_occupied op (ch, s) = Inr (r, ch', s') \<longleftrightarrow> (\<exists>m. op (sem_occupied ch, s) = Inr (r, m, s') \<and> ch' = ch\<lparr>sem_occupied := m\<rparr>)"
  by (auto simp: on_occupied_def bindr_Inr)

lemma inv_sems: "chan_inv contents N x \<Longrightarrow> sem_ok (sem_empty (cr_chan x))" "chan_inv contents N x \<Longrightarrow> sem_ok (sem_occupied (cr_chan x))"
  by (simp_all add: chan_inv_def)

context bounded_queue
begin

lemma inv_enqueue:
  assumes "chan_inv contents N x" "to_enqueue x = Suc k"
  shows "\<exists>ch. ch_enqueue Q data (cr_chan x) = Inr ch
    \<and> chan_inv contents N (x\<lparr>cr_chan := ch, to_enqueue := k, enqueued := enqueued x + 1, sent := sent x @ [data]\<rparr>)
    \<and> sem_empty ch = sem_empty (cr_chan x) \<and> sem_occupied ch = sem_occupied (cr_chan x)
    \<and> contents (ch_buffer ch) = contents (ch_buffer (cr_chan x)) @ [data]"
proof -
  have "length (contents (ch_buffer (cr_chan x))) < N" using assms by (auto simp: chan_inv_def)
  then obtain b where "mp_enqueue Q (ch_buffer (cr_chan x)) data = Some b" "contents b = contents (ch_buffer (cr_chan x)) @ [data]"
    using mp_enqueue by blast
  then show ?thesis using assms by (auto simp: ch_enqueue_def chan_inv_def)
qed

lemma inv_dequeue:
  assumes "chan_inv contents N x" "to_dequeue x = Suc k"
  shows "\<exists>data ch. ch_dequeue Q (cr_chan x) = Inr (data, ch)
    \<and> chan_inv contents N (x\<lparr>cr_chan := ch, to_dequeue := k, dequeued := dequeued x + 1, received := received x @ [data]\<rparr>)
    \<and> sem_empty ch = sem_empty (cr_chan x) \<and> sem_occupied ch = sem_occupied (cr_chan x)
    \<and> contents (ch_buffer (cr_chan x)) = data # contents (ch_buffer ch)"
proof -
  have "contents (ch_buffer (cr_chan x)) \<noteq> []" using assms by (auto simp: chan_inv_def)
  then obtain data ds where d: "contents (ch_buffer (cr_chan x)) = data # ds" by (cases "contents (ch_buffer (cr_chan x))") auto
  then obtain b where "mp_dequeue Q (ch_buffer (cr_chan x)) = Some (data, b)" "contents b = ds" using mp_dequeue by blast
  then show ?thesis using assms d by (auto simp: ch_dequeue_def chan_inv_def)
qed

end

text \<open>A channel on which no operation is in progress.\<close>

definition chan_ok :: "('b \<Rightarrow> 'a list) \<Rightarrow> nat \<Rightarrow> 'b channel \<Rightarrow> bool" where
  "chan_ok contents N ch \<longleftrightarrow> chan_inv contents N ((run_new ch)\<lparr>sent := contents (ch_buffer ch)\<rparr>)"

lemma chan_ok_iff: "chan_ok contents N ch \<longleftrightarrow> sem_ok (sem_empty ch) \<and> sem_ok (sem_occupied ch)
     \<and> unat (max_count (sem_empty ch)) = N \<and> unat (max_count (sem_occupied ch)) = N
     \<and> unat (sem_count (sem_empty ch)) + unat (sem_count (sem_occupied ch)) = N
     \<and> length (contents (ch_buffer ch)) = unat (sem_count (sem_occupied ch))"
  by (simp add: chan_ok_def chan_inv_def run_new_def)

lemma chan_full: "chan_ok contents N ch \<Longrightarrow> length (contents (ch_buffer ch)) = N \<longleftrightarrow> sem_count (sem_empty ch) = 0"
  by (auto simp: chan_ok_iff unat_eq_0)

lemma chan_empty: "chan_ok contents N ch \<Longrightarrow> contents (ch_buffer ch) = [] \<longleftrightarrow> sem_count (sem_occupied ch) = 0"
  by (auto simp: chan_ok_iff unat_eq_0 simp flip: length_0_conv)

locale channel_env = kernel_lib E elems queued + bounded_queue Q contents N
  for E :: "('w, 'q) kenv" and elems queued and Q :: "('a, 'b) mpmc" and contents N
begin

lemma step_chan_inv:
  assumes "chan_step Q E elems queued x y" "chan_inv contents N x"
  shows "chan_inv contents N y"
  using assms
proof (induction rule: chan_step.induct)
  case (push_down c s x r ch s')
  then show ?case using sem_down_cases[OF push_down(1) inv_sems(1)[OF push_down(4)] push_down(2)] inv_empty_dec[OF push_down(4)]
    by (auto simp: on_empty_Inr split: if_splits)
next
  case (push_try_down c s x r ch s')
  then show ?case using try_down_cases[OF push_try_down(1) inv_sems(1)[OF push_try_down(3)]] inv_empty_dec[OF push_try_down(3)]
    by (auto simp: on_empty_Inr split: if_splits)
next
  case (push_data x k data ch)
  then show ?case using inv_enqueue[OF push_data(3,1), of data] by auto
next
  case (push_up x k c s r ch s')
  then show ?case using sem_up_cases[OF push_up(2) inv_sems(2)[OF push_up(5)] push_up(3)] inv_occupied_inc[OF push_up(5,1)]
    by (auto simp: on_occupied_Inr)
next
  case (push_try_up x k c s ch s')
  then show ?case using try_up_cases[OF push_try_up(2) inv_sems(2)[OF push_try_up(4)]] inv_occupied_inc[OF push_try_up(4,1)]
    by (auto simp: on_occupied_Inr)
next
  case (pop_down c s x r ch s')
  then show ?case using sem_down_cases[OF pop_down(1) inv_sems(2)[OF pop_down(4)] pop_down(2)] inv_occupied_dec[OF pop_down(4)]
    by (auto simp: on_occupied_Inr split: if_splits)
next
  case (pop_try_down c s x r ch s')
  then show ?case using try_down_cases[OF pop_try_down(1) inv_sems(2)[OF pop_try_down(3)]] inv_occupied_dec[OF pop_try_down(3)]
    by (auto simp: on_occupied_Inr split: if_splits)
next
  case (pop_data x k data ch)
  then show ?case using inv_dequeue[OF pop_data(3,1)] by auto
next
  case (pop_up x k c s r ch s')
  then show ?case using sem_up_cases[OF pop_up(2) inv_sems(1)[OF pop_up(5)] pop_up(3)] inv_empty_inc[OF pop_up(5,1)]
    by (auto simp: on_empty_Inr)
next
  case (pop_try_up x k c s ch s')
  then show ?case using try_up_cases[OF pop_try_up(2) inv_sems(1)[OF pop_try_up(4)]] inv_empty_inc[OF pop_try_up(4,1)]
    by (auto simp: on_empty_Inr)
qed

lemma steps_chan_inv: "(chan_step Q E elems queued)\<^sup>*\<^sup>* x y \<Longrightarrow> chan_inv contents N x \<Longrightarrow> chan_inv contents N y"
  by (induction rule: rtranclp_induct) (auto intro: step_chan_inv)

text \<open>What is between the two semaphore operations of a push and of a pop.\<close>

lemma push_middle:
  assumes ok: "chan_ok contents N ch" and e: "sem_count (sem_empty ch) \<noteq> 0"
  shows "\<exists>ch'. ch_enqueue Q data (ch\<lparr>sem_empty := sem_dec (sem_empty ch)\<rparr>) = Inr ch' \<and> sem_ok (sem_occupied ch')
    \<and> sem_count (sem_occupied ch') \<noteq> max_count (sem_occupied ch')
    \<and> chan_ok contents N (ch'\<lparr>sem_occupied := sem_inc (sem_occupied ch')\<rparr>)
    \<and> contents (ch_buffer ch') = contents (ch_buffer ch) @ [data]"
proof -
  define x where "x = (run_new ch)\<lparr>sent := contents (ch_buffer ch)\<rparr>"
  define y where "y = x\<lparr>cr_chan := ch\<lparr>sem_empty := sem_dec (sem_empty ch)\<rparr>, to_enqueue := 1\<rparr>"
  have x: "chan_inv contents N x" "cr_chan x = ch" "to_enqueue x = 0" using ok by (simp_all add: chan_ok_def x_def run_new_def)
  have y: "chan_inv contents N y" using inv_empty_dec[OF x(1)] x(2,3) e by (simp add: y_def)
  obtain ch' where c: "ch_enqueue Q data (ch\<lparr>sem_empty := sem_dec (sem_empty ch)\<rparr>) = Inr ch'"
    "chan_inv contents N (y\<lparr>cr_chan := ch', to_enqueue := 0, enqueued := enqueued y + 1, sent := sent y @ [data]\<rparr>)"
    "sem_occupied ch' = sem_occupied ch" "contents (ch_buffer ch') = contents (ch_buffer ch) @ [data]"
    using inv_enqueue[OF y, of 0 data] by (auto simp: y_def)
  have z: "enqueued y + 1 = Suc 0" by (simp add: y_def x_def run_new_def)
  have n: "sem_count (sem_occupied ch') \<noteq> max_count (sem_occupied ch')" and
    i: "chan_inv contents N (y\<lparr>to_enqueue := 0, sent := sent y @ [data], cr_chan := ch'\<lparr>sem_occupied := sem_inc (sem_occupied ch')\<rparr>, enqueued := 0\<rparr>)"
    using inv_occupied_inc[OF c(2), of 0] z by simp_all
  have "chan_ok contents N (ch'\<lparr>sem_occupied := sem_inc (sem_occupied ch')\<rparr>)"
    using i by (simp add: chan_ok_iff) (simp add: chan_inv_def y_def x_def run_new_def)
  then show ?thesis using c(1,3,4) n ok by (auto simp: chan_ok_iff)
qed

lemma pop_middle:
  assumes ok: "chan_ok contents N ch" and e: "contents (ch_buffer ch) = data # ds"
  shows "\<exists>ch'. ch_dequeue Q (ch\<lparr>sem_occupied := sem_dec (sem_occupied ch)\<rparr>) = Inr (data, ch') \<and> sem_ok (sem_empty ch')
    \<and> sem_count (sem_empty ch') \<noteq> max_count (sem_empty ch')
    \<and> chan_ok contents N (ch'\<lparr>sem_empty := sem_inc (sem_empty ch')\<rparr>) \<and> contents (ch_buffer ch') = ds"
proof -
  define x where "x = (run_new ch)\<lparr>sent := contents (ch_buffer ch)\<rparr>"
  define y where "y = x\<lparr>cr_chan := ch\<lparr>sem_occupied := sem_dec (sem_occupied ch)\<rparr>, to_dequeue := 1\<rparr>"
  have x: "chan_inv contents N x" "cr_chan x = ch" "to_dequeue x = 0" using ok by (simp_all add: chan_ok_def x_def run_new_def)
  have "sem_count (sem_occupied ch) \<noteq> 0" using chan_empty[OF ok] e by simp
  then have y: "chan_inv contents N y" using inv_occupied_dec[OF x(1)] x(2,3) by (simp add: y_def)
  obtain ch' where c: "ch_dequeue Q (ch\<lparr>sem_occupied := sem_dec (sem_occupied ch)\<rparr>) = Inr (data, ch')"
    "chan_inv contents N (y\<lparr>cr_chan := ch', to_dequeue := 0, dequeued := dequeued y + 1, received := received y @ [data]\<rparr>)"
    "sem_empty ch' = sem_empty ch" "contents (ch_buffer ch') = ds"
    using inv_dequeue[OF y, of 0] e by (auto simp: y_def)
  have z: "dequeued y + 1 = Suc 0" by (simp add: y_def x_def run_new_def)
  have n: "sem_count (sem_empty ch') \<noteq> max_count (sem_empty ch')" and
    i: "chan_inv contents N (y\<lparr>to_dequeue := 0, received := received y @ [data], cr_chan := ch'\<lparr>sem_empty := sem_inc (sem_empty ch')\<rparr>, dequeued := 0\<rparr>)"
    using inv_empty_inc[OF c(2), of 0] z by simp_all
  have "chan_ok contents N (ch'\<lparr>sem_empty := sem_inc (sem_empty ch')\<rparr>)"
    using i by (simp add: chan_ok_iff) (simp add: chan_inv_def y_def x_def run_new_def)
  then show ?thesis using c(1,3,4) n ok by (auto simp: chan_ok_iff)
qed

lemma try_push_eq:
  assumes K: "kern_ok elems queued c s" and ok: "chan_ok contents N ch" and e: "sem_count (sem_empty ch) \<noteq> 0"
  shows "\<exists>ch' s'. try_push_allow_isr Q E data (ch, s) = Inr (Inr (), ch', s') \<and> kern_ok elems queued c s' \<and> chan_ok contents N ch'
    \<and> contents (ch_buffer ch') = contents (ch_buffer ch) @ [data]"
proof -
  have m: "sem_ok (sem_empty ch)" using ok by (simp add: chan_ok_iff)
  obtain s1 where s1: "try_down_allow_isr E (sem_empty ch, s) = Inr (Some (), sem_dec (sem_empty ch), s1)" "kern_ok elems queued c s1"
    using try_down_eq[OF K m e] by blast
  obtain ch' where c: "ch_enqueue Q data (ch\<lparr>sem_empty := sem_dec (sem_empty ch)\<rparr>) = Inr ch'" "sem_ok (sem_occupied ch')"
    "sem_count (sem_occupied ch') \<noteq> max_count (sem_occupied ch')" "chan_ok contents N (ch'\<lparr>sem_occupied := sem_inc (sem_occupied ch')\<rparr>)"
    "contents (ch_buffer ch') = contents (ch_buffer ch) @ [data]" using push_middle[OF ok e] by blast
  obtain s2 where "try_up_allow_isr E (sem_occupied ch', s1) = Inr (Some (), sem_inc (sem_occupied ch'), s2)" "kern_ok elems queued c s2"
    using try_up_eq[OF s1(2) c(2,3)] by blast
  with s1(1) c show ?thesis by (simp add: try_push_allow_isr_def on_empty_def on_occupied_def)
qed

lemma try_pop_eq:
  assumes K: "kern_ok elems queued c s" and ok: "chan_ok contents N ch" and e: "contents (ch_buffer ch) = data # ds"
  shows "\<exists>ch' s'. try_pop_allow_isr Q E (ch, s) = Inr (Some data, ch', s') \<and> kern_ok elems queued c s' \<and> chan_ok contents N ch'
    \<and> contents (ch_buffer ch') = ds"
proof -
  have m: "sem_ok (sem_occupied ch)" "sem_count (sem_occupied ch) \<noteq> 0" using ok e chan_empty[OF ok] by (simp_all add: chan_ok_iff)
  obtain s1 where s1: "try_down_allow_isr E (sem_occupied ch, s) = Inr (Some (), sem_dec (sem_occupied ch), s1)" "kern_ok elems queued c s1"
    using try_down_eq[OF K m] by blast
  obtain ch' where c: "ch_dequeue Q (ch\<lparr>sem_occupied := sem_dec (sem_occupied ch)\<rparr>) = Inr (data, ch')" "sem_ok (sem_empty ch')"
    "sem_count (sem_empty ch') \<noteq> max_count (sem_empty ch')" "chan_ok contents N (ch'\<lparr>sem_empty := sem_inc (sem_empty ch')\<rparr>)"
    "contents (ch_buffer ch') = ds" using pop_middle[OF ok e] by blast
  obtain s2 where "try_up_allow_isr E (sem_empty ch', s1) = Inr (Some (), sem_inc (sem_empty ch'), s2)" "kern_ok elems queued c s2"
    using try_up_eq[OF s1(2) c(2,3)] by blast
  with s1(1) c show ?thesis by (simp add: try_pop_allow_isr_def on_empty_def on_occupied_def)
qed

lemma push_eq:
  assumes K: "kern_ok elems queued c s" "may_block c s" and ok: "chan_ok contents N ch" and e: "sem_count (sem_empty ch) \<noteq> 0"
  shows "\<exists>ch' s'. push Q E data (ch, s) = Inr (Complete (), ch', s') \<and> kern_ok elems queued c s' \<and> chan_ok contents N ch'
    \<and> contents (ch_buffer ch') = contents (ch_buffer ch) @ [data]"
proof -
  have m: "sem_ok (sem_empty ch)" using ok by (simp add: chan_ok_iff)
  obtain s1 where s1: "sem_down E (sem_empty ch, s) = Inr (Done, sem_dec (sem_empty ch), s1)" "kern_ok elems queued c s1" "calm c s s1"
    using sem_down_pass[OF K(1) m e] K(2) by (auto simp: may_block_def)
  obtain ch' where c: "ch_enqueue Q data (ch\<lparr>sem_empty := sem_dec (sem_empty ch)\<rparr>) = Inr ch'" "sem_ok (sem_occupied ch')"
    "sem_count (sem_occupied ch') \<noteq> max_count (sem_occupied ch')" "chan_ok contents N (ch'\<lparr>sem_occupied := sem_inc (sem_occupied ch')\<rparr>)"
    "contents (ch_buffer ch') = contents (ch_buffer ch) @ [data]" using push_middle[OF ok e] by blast
  obtain s2 where "sem_up E (sem_occupied ch', s1) = Inr (Done, sem_inc (sem_occupied ch'), s2)" "kern_ok elems queued c s2"
    using sem_up_pass[OF s1(2) c(2,3)] calm_may_block[OF s1(3) K(2)] by (auto simp: may_block_def)
  with s1(1) c show ?thesis by (simp add: push_def on_empty_def on_occupied_def)
qed

lemma pop_eq:
  assumes K: "kern_ok elems queued c s" "may_block c s" and ok: "chan_ok contents N ch" and e: "contents (ch_buffer ch) = data # ds"
  shows "\<exists>ch' s'. pop Q E (ch, s) = Inr (Complete data, ch', s') \<and> kern_ok elems queued c s' \<and> chan_ok contents N ch'
    \<and> contents (ch_buffer ch') = ds"
proof -
  have m: "sem_ok (sem_occupied ch)" "sem_count (sem_occupied ch) \<noteq> 0" using ok e chan_empty[OF ok] by (simp_all add: chan_ok_iff)
  obtain s1 where s1: "sem_down E (sem_occupied ch, s) = Inr (Done, sem_dec (sem_occupied ch), s1)" "kern_ok elems queued c s1" "calm c s s1"
    using sem_down_pass[OF K(1) m] K(2) by (auto simp: may_block_def)
  obtain ch' where c: "ch_dequeue Q (ch\<lparr>sem_occupied := sem_dec (sem_occupied ch)\<rparr>) = Inr (data, ch')" "sem_ok (sem_empty ch')"
    "sem_count (sem_empty ch') \<noteq> max_count (sem_empty ch')" "chan_ok contents N (ch'\<lparr>sem_empty := sem_inc (sem_empty ch')\<rparr>)"
    "contents (ch_buffer ch') = ds" using pop_middle[OF ok e] by blast
  obtain s2 where "sem_up E (sem_empty ch', s1) = Inr (Done, sem_inc (sem_empty ch'), s2)" "kern_ok elems queued c s2"
    using sem_up_pass[OF s1(2) c(2,3)] calm_may_block[OF s1(3) K(2)] by (auto simp: may_block_def)
  with s1(1) c show ?thesis by (simp add: pop_def on_empty_def on_occupied_def)
qed

text \<open>A full or empty channel is left as it is.\<close>

lemma full_eq:
  assumes "kern_ok elems queued c s" "chan_ok contents N ch" "sem_count (sem_empty ch) = 0"
  shows "try_push_allow_isr Q E data (ch, s) = Inr (Inl data, ch, s)"
    "may_block c s \<Longrightarrow> \<exists>s'. push Q E data (ch, s) = Inr (In_First Wait, ch, s') \<and> kern_ok elems queued c s' \<and> t_state (tasks s' c) = Blocked"
  using assms sem_down_block[OF assms(1), of "sem_empty ch"]
  by (auto simp: try_push_allow_isr_def push_def on_empty_def try_down_allow_isr_def chan_ok_iff)

lemma empty_eq:
  assumes "kern_ok elems queued c s" "chan_ok contents N ch" "contents (ch_buffer ch) = []"
  shows "try_pop_allow_isr Q E (ch, s) = Inr (None, ch, s)"
    "may_block c s \<Longrightarrow> \<exists>s'. pop Q E (ch, s) = Inr (In_First Wait, ch, s') \<and> kern_ok elems queued c s' \<and> t_state (tasks s' c) = Blocked"
  using assms(1,2) chan_empty[OF assms(2)] assms(3) sem_down_block[OF assms(1), of "sem_occupied ch"]
  by (auto simp: try_pop_allow_isr_def pop_def on_occupied_def try_down_allow_isr_def chan_ok_iff)

lemma inv_up_occupied:
  assumes "chan_inv contents N x" "enqueued x \<noteq> 0" "kern_ok elems queued c s"
  shows "\<exists>ch s'. on_occupied (try_up_allow_isr E) (cr_chan x, s) = Inr (Some (), ch, s')"
    "may_block c s \<Longrightarrow> \<exists>ch s'. on_occupied (sem_up E) (cr_chan x, s) = Inr (Done, ch, s')"
proof -
  have n: "sem_count (sem_occupied (cr_chan x)) \<noteq> max_count (sem_occupied (cr_chan x))"
    using assms(2) inv_occupied_inc(2)[OF assms(1)] by (metis not0_implies_Suc)
  show "\<exists>ch s'. on_occupied (try_up_allow_isr E) (cr_chan x, s) = Inr (Some (), ch, s')"
    using try_up_eq[OF assms(3) inv_sems(2)[OF assms(1)] n] by (auto simp: on_occupied_Inr)
  show "may_block c s \<Longrightarrow> \<exists>ch s'. on_occupied (sem_up E) (cr_chan x, s) = Inr (Done, ch, s')"
    using sem_up_pass[OF assms(3) inv_sems(2)[OF assms(1)] n] by (auto simp: on_occupied_Inr may_block_def)
qed

lemma inv_up_empty:
  assumes "chan_inv contents N x" "dequeued x \<noteq> 0" "kern_ok elems queued c s"
  shows "\<exists>ch s'. on_empty (try_up_allow_isr E) (cr_chan x, s) = Inr (Some (), ch, s')"
    "may_block c s \<Longrightarrow> \<exists>ch s'. on_empty (sem_up E) (cr_chan x, s) = Inr (Done, ch, s')"
proof -
  have n: "sem_count (sem_empty (cr_chan x)) \<noteq> max_count (sem_empty (cr_chan x))"
    using assms(2) inv_empty_inc(2)[OF assms(1)] by (metis not0_implies_Suc)
  show "\<exists>ch s'. on_empty (try_up_allow_isr E) (cr_chan x, s) = Inr (Some (), ch, s')"
    using try_up_eq[OF assms(3) inv_sems(1)[OF assms(1)] n] by (auto simp: on_empty_Inr)
  show "may_block c s \<Longrightarrow> \<exists>ch s'. on_empty (sem_up E) (cr_chan x, s) = Inr (Done, ch, s')"
    using sem_up_pass[OF assms(3) inv_sems(1)[OF assms(1)] n] by (auto simp: on_empty_Inr may_block_def)
qed

lemma inv_accesses:
  assumes "chan_inv contents N x"
  shows "to_enqueue x \<noteq> 0 \<Longrightarrow> \<exists>ch. ch_enqueue Q d (cr_chan x) = Inr ch"
    "to_dequeue x \<noteq> 0 \<Longrightarrow> \<exists>y. ch_dequeue Q (cr_chan x) = Inr y"
  using inv_enqueue[OF assms, of _ d] inv_dequeue[OF assms] by (metis not0_implies_Suc)+

end

interpretation lc: channel_env "list_env cf" "\<lambda>w. w" "\<lambda>q. q" "list_mpmc N" "\<lambda>b. b" N for cf N
  by unfold_locales

section \<open>Properties\<close>

text \<open>The specification: a queue of at most \<open>N\<close> elements.\<close>

definition fifo_push :: "nat \<Rightarrow> 'a \<Rightarrow> 'a list \<Rightarrow> 'a list option" where
  "fifo_push N d xs = (if length xs = N then None else Some (xs @ [d]))"

fun fifo_pop :: "'a list \<Rightarrow> ('a \<times> 'a list) option" where
  "fifo_pop [] = None"
| "fifo_pop (d # ds) = Some (d, ds)"

text \<open>C34. A channel implements the bounded queue. With no operation in progress, a push succeeds and
  appends exactly when the queue has room, a pop returns the first element exactly when there is
  one. Where the queue cannot do the step, \<open>try_push\<close> hands the data back, \<open>try_pop\<close> returns nothing,
  and the blocking operations leave the channel as it is and the task blocked. No operation dies,
  and the invariants of channel and kernel are kept.\<close>

theorem channel_refines_fifo:
  assumes "channel_env E elems queued Q contents N" "kern_ok elems queued c s" "chan_ok contents N ch"
  shows "(case fifo_push N d (contents (ch_buffer ch)) of
       None \<Rightarrow> try_push_allow_isr Q E d (ch, s) = Inr (Inl d, ch, s)
     | Some ys \<Rightarrow> \<exists>ch' s'. try_push_allow_isr Q E d (ch, s) = Inr (Inr (), ch', s') \<and> contents (ch_buffer ch') = ys
         \<and> kern_ok elems queued c s' \<and> chan_ok contents N ch')
   \<and> (case fifo_pop (contents (ch_buffer ch)) of
       None \<Rightarrow> try_pop_allow_isr Q E (ch, s) = Inr (None, ch, s)
     | Some (y, ys) \<Rightarrow> \<exists>ch' s'. try_pop_allow_isr Q E (ch, s) = Inr (Some y, ch', s') \<and> contents (ch_buffer ch') = ys
         \<and> kern_ok elems queued c s' \<and> chan_ok contents N ch')
   \<and> (may_block c s \<longrightarrow>
       (case fifo_push N d (contents (ch_buffer ch)) of
          None \<Rightarrow> \<exists>s'. push Q E d (ch, s) = Inr (In_First Wait, ch, s') \<and> kern_ok elems queued c s' \<and> t_state (tasks s' c) = Blocked
        | Some ys \<Rightarrow> \<exists>ch' s'. push Q E d (ch, s) = Inr (Complete (), ch', s') \<and> contents (ch_buffer ch') = ys
            \<and> kern_ok elems queued c s' \<and> chan_ok contents N ch')
     \<and> (case fifo_pop (contents (ch_buffer ch)) of
          None \<Rightarrow> \<exists>s'. pop Q E (ch, s) = Inr (In_First Wait, ch, s') \<and> kern_ok elems queued c s' \<and> t_state (tasks s' c) = Blocked
        | Some (y, ys) \<Rightarrow> \<exists>ch' s'. pop Q E (ch, s) = Inr (Complete y, ch', s') \<and> contents (ch_buffer ch') = ys
            \<and> kern_ok elems queued c s' \<and> chan_ok contents N ch'))"
  (is "?push \<and> ?pop \<and> (may_block c s \<longrightarrow> ?bpush \<and> ?bpop)")
proof (intro conjI impI)
  note full = chan_full[OF assms(3)]
  show ?push
  proof (cases "sem_count (sem_empty ch) = 0")
    case True
    then show ?thesis using full channel_env.full_eq(1)[OF assms True] by (simp add: fifo_push_def)
  next
    case False
    then show ?thesis using full channel_env.try_push_eq[OF assms False, of d] by (auto simp: fifo_push_def)
  qed
  show ?pop
  proof (cases "contents (ch_buffer ch)")
    case Nil
    then show ?thesis using channel_env.empty_eq(1)[OF assms Nil] by simp
  next
    case (Cons y ys)
    then show ?thesis using channel_env.try_pop_eq[OF assms Cons] by auto
  qed
  assume b: "may_block c s"
  show ?bpush
  proof (cases "sem_count (sem_empty ch) = 0")
    case True
    then show ?thesis using full channel_env.full_eq(2)[OF assms True b] by (simp add: fifo_push_def)
  next
    case False
    then show ?thesis using full channel_env.push_eq[OF assms(1,2) b assms(3) False, of d] by (auto simp: fifo_push_def)
  qed
  show ?bpop
  proof (cases "contents (ch_buffer ch)")
    case Nil
    then show ?thesis using channel_env.empty_eq(2)[OF assms Nil b] by simp
  next
    case (Cons y ys)
    then show ?thesis using channel_env.pop_eq[OF assms(1,2) b assms(3) Cons] by auto
  qed
qed

text \<open>Sample: a push into a new channel of capacity 4.\<close>

lemma kw0_chan: "chan_ok (\<lambda>b. b) 4 (channel_new 20 4 ([] :: nat list))"
  by (simp add: chan_ok_iff channel_new_def sem_ok_def sem_new_def wq_free_def wq_new_def)

theorem channel_refines_fifo_witness:
  "\<exists>ch' s'. push (list_mpmc 4) (list_env config0) (9 :: nat) (channel_new 20 4 [], kw0) = Inr (Complete (), ch', s') \<and> ch_buffer ch' = [9]"
  using channel_refines_fifo[OF lc.channel_env_axioms[of config0 4] kw0_kern(1) kw0_chan, of 9] kw0_kern(2)
  by (auto simp: channel_new_def fifo_push_def)

text \<open>C35. However producers and consumers interleave on a new channel, in tasks and interrupt
  handlers: an access to the buffer finds room or data and does not die, and the semaphore
  operation that ends a push or pop succeeds at once, so that no task ever blocks there. Data comes
  out in the order it went in, and at most \<open>N\<close> elements are in between.\<close>

theorem channel_interleaving_safe:
  assumes "channel_env E elems queued Q contents (unat N)" "contents b = []"
    and "(chan_step Q E elems queued)\<^sup>*\<^sup>* (run_new (channel_new n N b)) x"
  shows "(to_enqueue x \<noteq> 0 \<longrightarrow> (\<exists>ch. ch_enqueue Q d (cr_chan x) = Inr ch))
    \<and> (to_dequeue x \<noteq> 0 \<longrightarrow> (\<exists>y. ch_dequeue Q (cr_chan x) = Inr y))
    \<and> (enqueued x \<noteq> 0 \<and> kern_ok elems queued c s \<longrightarrow> (\<exists>ch s'. on_occupied (try_up_allow_isr E) (cr_chan x, s) = Inr (Some (), ch, s'))
        \<and> (may_block c s \<longrightarrow> (\<exists>ch s'. on_occupied (sem_up E) (cr_chan x, s) = Inr (Done, ch, s'))))
    \<and> (dequeued x \<noteq> 0 \<and> kern_ok elems queued c s \<longrightarrow> (\<exists>ch s'. on_empty (try_up_allow_isr E) (cr_chan x, s) = Inr (Some (), ch, s'))
        \<and> (may_block c s \<longrightarrow> (\<exists>ch s'. on_empty (sem_up E) (cr_chan x, s) = Inr (Done, ch, s'))))
    \<and> sent x = received x @ contents (ch_buffer (cr_chan x)) \<and> length (contents (ch_buffer (cr_chan x))) \<le> unat N"
proof -
  have "chan_inv contents (unat N) (run_new (channel_new n N b))"
    using assms(2) by (simp add: chan_inv_def run_new_def channel_new_def sem_new_def sem_ok_def wq_free_def wq_new_def)
  then have i: "chan_inv contents (unat N) x" by (rule channel_env.steps_chan_inv[OF assms(1,3)])
  moreover from i have "sent x = received x @ contents (ch_buffer (cr_chan x))" "length (contents (ch_buffer (cr_chan x))) \<le> unat N"
    by (auto simp: chan_inv_def)
  ultimately show ?thesis
    using channel_env.inv_accesses[OF assms(1)] channel_env.inv_up_occupied[OF assms(1) i] channel_env.inv_up_empty[OF assms(1) i] by blast
qed

text \<open>Sample: a producer has passed its first semaphore on a new channel of capacity 4.\<close>

theorem channel_interleaving_safe_witness:
  "\<exists>x :: (nat, nat list) chan_run. (chan_step (list_mpmc 4) (list_env config0) (\<lambda>w. w) (\<lambda>q. q))\<^sup>*\<^sup>* (run_new (channel_new 20 4 [])) x \<and> to_enqueue x = 1
    \<and> (\<exists>ch. ch_enqueue (list_mpmc 4) 9 (cr_chan x) = Inr ch)"
proof -
  let ?ch = "channel_new 20 4 ([] :: nat list)"
  let ?R = "chan_step (list_mpmc 4) (list_env config0) (\<lambda>w. w) (\<lambda>q. q)"
  have m: "sem_ok (sem_empty ?ch)" "sem_count (sem_empty ?ch) \<noteq> 0" using kw0_chan by (simp_all add: chan_ok_iff channel_new_def sem_new_def)
  obtain ch s' where "on_empty (sem_down (list_env config0)) (?ch, kw0) = Inr (Done, ch, s')"
    using kernel_lib.sem_down_pass[OF le.kernel_lib_axioms[of config0] kw0_kern(1) m] kw0_kern(2) by (auto simp: on_empty_Inr may_block_def)
  from chan_step.push_down[OF kw0_kern, of "list_env config0" "run_new ?ch"] this
  have "?R (run_new ?ch) ((run_new ?ch)\<lparr>cr_chan := ch, to_enqueue := 1\<rparr>)" by (auto simp: run_new_def)
  then have r: "?R\<^sup>*\<^sup>* (run_new ?ch) ((run_new ?ch)\<lparr>cr_chan := ch, to_enqueue := 1\<rparr>)" by (rule r_into_rtranclp)
  have e: "channel_env (list_env config0) (\<lambda>w. w) (\<lambda>q. q) (list_mpmc 4) (\<lambda>b :: nat list. b) (unat (4 :: u32))"
    using lc.channel_env_axioms[of config0 4] by simp
  show ?thesis using r channel_interleaving_safe[OF e refl r, of 9]
    by (intro exI[of _ "(run_new ?ch)\<lparr>cr_chan := ch, to_enqueue := 1\<rparr>"]) simp
qed

end
