(* ===== verification/Mailbox.thy ===== *)
theory Mailbox
  imports Semaphore
begin

text \<open>
  Mailboxes, \<open>src/sync/mailbox.rs\<close>: a counter of notifications and at most one waiting task, behind a
  soft lock. A wait is modelled up to the yield; \<open>wait_until_timeout\<close> has a second part, which runs
  when the task is scheduled again. The spin lock around the waiting task is only a sanity check
  under the soft lock and left out.
\<close>

section \<open>Operations\<close>

datatype wait_task = WithTimeout tid | WithoutTimeout tid | NoTask

record mailbox =
  mb_count :: u32
  pending_count :: u32
  mb_wait_task :: wait_task
  task_notified :: bool
  mb_pending :: bool
  mb_locked :: bool

definition mailbox_new :: mailbox where
  "mailbox_new = \<lparr>mb_count = 0, pending_count = 0, mb_wait_task = NoTask, task_notified = False, mb_pending = False, mb_locked = False\<rparr>"

definition mb_run_pended_op ::
  "('w, 'q) kenv \<Rightarrow> mailbox \<times> ('w, 'q) kstate \<Rightarrow> (mailbox \<times> ('w, 'q) kstate) res" where
  "mb_run_pended_op E = (\<lambda>(m, s).
     let pc = pending_count m;
         m = m\<lparr>pending_count := 0, mb_count := mb_count m + pc\<rparr>;
         wait_task = mb_wait_task m;
         m = m\<lparr>mb_wait_task := NoTask\<rparr>
     in case wait_task of
          WithTimeout t \<Rightarrow> bindr (remove_task_from_sleep_queue_allow_isr E t s) (\<lambda>(_, s).
            Inr (m\<lparr>mb_count := mb_count m - 1, task_notified := True\<rparr>, s))
        | WithoutTimeout t \<Rightarrow> bindr (accept_task E t s) (\<lambda>(_, s). Inr (m\<lparr>mb_count := mb_count m - 1\<rparr>, s))
        | NoTask \<Rightarrow> Inr (m, s))"

definition mb_lock :: "('w, 'q) kenv \<Rightarrow> (mailbox \<times> ('w, 'q) kstate) soft_lock" where
  "mb_lock E = \<lparr>get_pending = (\<lambda>(m, s). mb_pending m), set_pending = (\<lambda>b (m, s). (m\<lparr>mb_pending := b\<rparr>, s)),
     get_locked = (\<lambda>(m, s). mb_locked m), set_locked = (\<lambda>b (m, s). (m\<lparr>mb_locked := b\<rparr>, s)),
     run_pended_op = mb_run_pended_op E\<rparr>"

definition mb_suspended ::
  "(mailbox \<times> ('w, 'q) kstate \<Rightarrow> ('r \<times> mailbox \<times> ('w, 'q) kstate) res) \<Rightarrow> mailbox \<times> ('w, 'q) kstate
     \<Rightarrow> ('r \<times> mailbox \<times> ('w, 'q) kstate) res" where
  "mb_suspended op = (\<lambda>(m, s). bindr (op (m, suspend s)) (\<lambda>(r, m, s). Inr (r, m, resume s)))"

text \<open>\<open>True\<close> is \<open>should_block\<close>: the task is blocked and has yielded.\<close>

definition yield_if :: "bool \<times> mailbox \<times> ('w, 'q) kstate \<Rightarrow> bool \<times> mailbox \<times> ('w, 'q) kstate" where
  "yield_if = (\<lambda>(should_block, m, s). (should_block, m, if should_block then yield_current_task s else s))"

definition mailbox_wait :: "('w, 'q) kenv \<Rightarrow> mailbox \<times> ('w, 'q) kstate \<Rightarrow> (bool \<times> mailbox \<times> ('w, 'q) kstate) res" where
  "mailbox_wait E = (\<lambda>(m, s).
     if is_suspended s \<or> in_isr s then Inl Panic
     else bindr (mb_suspended (must_with_full_access (mb_lock E) (\<lambda>(m, s).
            if mb_wait_task m \<noteq> NoTask then Inl Panic
            else if mb_count m > 0 then Inr (False, m\<lparr>mb_count := mb_count m - 1\<rparr>, s)
            else bindr (with_cur_task_explicit_sched_suspend (\<lambda>c s. Inr (c, upd_task c (set_state Blocked) s)) s) (\<lambda>(c, s).
                   Inr (True, m\<lparr>mb_wait_task := WithoutTimeout c\<rparr>, s)))) (m, s)) (\<lambda>r. Inr (yield_if r)))"

definition wait_until_timeout ::
  "('w, 'q) kenv \<Rightarrow> u32 \<Rightarrow> mailbox \<times> ('w, 'q) kstate \<Rightarrow> (bool \<times> mailbox \<times> ('w, 'q) kstate) res" where
  "wait_until_timeout E timeout_ms = (\<lambda>(m, s).
     if is_suspended s \<or> in_isr s then Inl Panic
     else bindr (mb_suspended (must_with_full_access (mb_lock E) (\<lambda>(m, s).
            if mb_wait_task m \<noteq> NoTask then Inl Panic
            else if mb_count m > 0 then Inr (False, m\<lparr>mb_count := mb_count m - 1\<rparr>, s)
            else let m = m\<lparr>task_notified := False\<rparr>
                 in bindr (with_cur_task_explicit_sched_suspend (\<lambda>c s.
                      let s = upd_task c (set_state Blocked) s; wake_at_tick = ticks s + timeout_ms
                      in bindr (add_task_to_sleep_queue E c wake_at_tick s) (\<lambda>(_, s). Inr (c, s))) s) (\<lambda>(c, s).
                        Inr (True, m\<lparr>mb_wait_task := WithTimeout c\<rparr>, s)))) (m, s)) (\<lambda>r. Inr (yield_if r)))"

text \<open>After the task has been scheduled again; the result is that of \<open>wait_until_timeout\<close>.\<close>

definition wait_until_timeout_finish ::
  "('w, 'q) kenv \<Rightarrow> mailbox \<times> ('w, 'q) kstate \<Rightarrow> (bool \<times> mailbox \<times> ('w, 'q) kstate) res" where
  "wait_until_timeout_finish E =
     mb_suspended (must_with_full_access (mb_lock E) (\<lambda>(m, s). Inr (task_notified m, m\<lparr>mb_wait_task := NoTask\<rparr>, s)))"

definition notify_full :: "('w, 'q) kenv \<Rightarrow> mailbox \<times> ('w, 'q) kstate \<Rightarrow> (unit \<times> mailbox \<times> ('w, 'q) kstate) res" where
  "notify_full E = (\<lambda>(m, s).
     let wait_task = mb_wait_task m; m = m\<lparr>mb_wait_task := NoTask\<rparr>
     in case wait_task of
          WithTimeout t \<Rightarrow> bindr (remove_task_from_sleep_queue_allow_isr E t s) (\<lambda>(_, s). Inr ((), m\<lparr>task_notified := True\<rparr>, s))
        | WithoutTimeout t \<Rightarrow> bindr (accept_task E t s) (\<lambda>(_, s). Inr ((), m, s))
        | NoTask \<Rightarrow> Inr ((), m\<lparr>mb_count := mb_count m + 1\<rparr>, s))"

definition notify_allow_isr :: "('w, 'q) kenv \<Rightarrow> mailbox \<times> ('w, 'q) kstate \<Rightarrow> (unit \<times> mailbox \<times> ('w, 'q) kstate) res" where
  "notify_allow_isr E =
     mb_suspended (with_access (mb_lock E) (notify_full E) (\<lambda>(m, s). Inr ((), m\<lparr>pending_count := pending_count m + 1\<rparr>, s)))"

section \<open>The mailbox as a soft lock\<close>

lemma mb_run_pended_keeps: "mb_run_pended_op E (m, s) = Inr (m', s') \<Longrightarrow> mb_pending m' = mb_pending m"
  by (auto simp: mb_run_pended_op_def Let_def bindr_Inr split: wait_task.splits)

interpretation mb: soft_lock_content "mb_lock E" for E
  by unfold_locales (auto simp: mb_lock_def mb_run_pended_keeps split: prod.splits)

lemma mb_lock_simps [simp]:
  "get_pending (mb_lock E) (m, s) = mb_pending m" "set_pending (mb_lock E) b (m, s) = (m\<lparr>mb_pending := b\<rparr>, s)"
  "get_locked (mb_lock E) (m, s) = mb_locked m" "set_locked (mb_lock E) b (m, s) = (m\<lparr>mb_locked := b\<rparr>, s)"
  "run_pended_op (mb_lock E) = mb_run_pended_op E"
  by (simp_all add: mb_lock_def)

definition mb_free :: "mailbox \<Rightarrow> bool" where
  "mb_free m \<longleftrightarrow> \<not> mb_pending m \<and> \<not> mb_locked m \<and> pending_count m = 0"

section \<open>Waking the waiting task\<close>

text \<open>What a notification does to the mailbox, and to the lists of the kernel.\<close>

definition mb_notified :: "mailbox \<Rightarrow> mailbox" where
  "mb_notified m =
     (case mb_wait_task m of
        WithTimeout t \<Rightarrow> m\<lparr>mb_wait_task := NoTask, task_notified := True\<rparr>
      | WithoutTimeout t \<Rightarrow> m\<lparr>mb_wait_task := NoTask\<rparr>
      | NoTask \<Rightarrow> m\<lparr>mb_count := mb_count m + 1\<rparr>)"

definition mb_woken :: "wait_task \<Rightarrow> (lid \<Rightarrow> tid list) \<Rightarrow> tid list" where
  "mb_woken wt xs =
     (case wt of WithTimeout t \<Rightarrow> if t \<in> set (xs Sleep_List) then [t] else [] | WithoutTimeout t \<Rightarrow> [t] | NoTask \<Rightarrow> [])"

definition wake_lists :: "tid list \<Rightarrow> (lid \<Rightarrow> tid list) \<Rightarrow> lid \<Rightarrow> tid list" where
  "wake_lists us xs = xs(Sleep_List := filter (\<lambda>t. t \<notin> set us) (xs Sleep_List), Ready_List := xs Ready_List @ us)"

text \<open>What is true of the waiting task: without a timeout it is blocked and in no list; with one it
  is in the sleep list unless the time is over.\<close>

definition waits_ok :: "(lid \<Rightarrow> tid list) \<Rightarrow> ('w, 'q) kstate \<Rightarrow> mailbox \<Rightarrow> bool" where
  "waits_ok xs s m \<longleftrightarrow>
     (case mb_wait_task m of WithoutTimeout t \<Rightarrow> unlinked xs t \<and> t_state (tasks s t) = Blocked | _ \<Rightarrow> True)"

text \<open>A kernel whose sleep queue is free too, with room for two more suspensions.\<close>

definition kernel_ok :: "('w \<Rightarrow> lid \<Rightarrow> tid list) \<Rightarrow> ('q \<Rightarrow> tid list) \<Rightarrow> tid \<Rightarrow> ('w, 'q) kstate \<Rightarrow> bool" where
  "kernel_ok elems queued c s \<longleftrightarrow> kern_ok elems queued c s \<and> sq_free queued s \<and> suspend_cnt s \<noteq> - 2"

text \<open>The kernel after the tasks \<open>us\<close> have been woken, with the lists \<open>w\<close>.\<close>

definition woken_state :: "config \<Rightarrow> tid \<Rightarrow> tid list \<Rightarrow> 'w \<Rightarrow> ('w, 'q) kstate \<Rightarrow> ('w, 'q) kstate" where
  "woken_state cf c us w s = s\<lparr>tasks := ready_all us (tasks s), lists := w,
     pending_ctxt_switch := pending_ctxt_switch s \<or> preempts cf (tasks s) c us,
     pendsv := pendsv s \<or> suspend_cnt s = 0 \<and> (pending_ctxt_switch s \<or> preempts cf (tasks s) c us)\<rparr>"

lemma woken_state_fields [simp]:
  "tasks (woken_state cf c us w s) = ready_all us (tasks s)" "lists (woken_state cf c us w s) = w"
  "suspend_cnt (woken_state cf c us w s) = suspend_cnt s" "in_isr (woken_state cf c us w s) = in_isr s"
  "cur_task (woken_state cf c us w s) = cur_task s" "started (woken_state cf c us w s) = started s"
  "cur_task_idle (woken_state cf c us w s) = cur_task_idle s" "rq_free queued (woken_state cf c us w s) = rq_free queued s"
  "sq_free queued (woken_state cf c us w s) = sq_free queued s"
  by (simp_all add: woken_state_def rq_free_def sq_free_def)

lemma resume_woken:
  assumes "suspend_cnt s \<noteq> - 1"
  shows "resume (woken_state cf c us w (suspend s)) = woken_state cf c us w s"
proof -
  have "suspend_cnt s + 1 \<noteq> 0" using assms by (metis add.commute add_eq_0_iff2 eq_neg_iff_add_eq_0)
  then show ?thesis by (simp add: resume_eq woken_state_def suspend_def)
qed

lemma kernel_ok_suspend: "kernel_ok elems queued c s \<Longrightarrow> kern_ok elems queued c (suspend s) \<and> sq_free queued (suspend s)"
proof -
  assume k: "kernel_ok elems queued c s"
  have "suspend_cnt s + 1 \<noteq> - 1"
  proof
    assume "suspend_cnt s + 1 = - 1"
    then have "suspend_cnt s = - 1 - 1" by (metis add_diff_cancel_right')
    then show False using k by (simp add: kernel_ok_def)
  qed
  then show ?thesis using k by (simp add: kernel_ok_def kern_ok_def sched_ok_def rq_free_def sq_free_def suspend_def)
qed

lemma wake_lists_unlinked: "unlinked xs t \<Longrightarrow> wake_lists [t] xs = xs(Ready_List := xs Ready_List @ [t])"
  by (auto simp: wake_lists_def unlinked_def filter_id_conv fun_eq_iff)

lemma wake_lists_Nil: "wake_lists [] xs = xs"
  by (auto simp: wake_lists_def)

lemma wake_lists_sleep: "distinct (xs Sleep_List) \<Longrightarrow> wake_lists [t] xs = xs(Sleep_List := remove1 t (xs Sleep_List), Ready_List := xs Ready_List @ [t])"
  by (auto simp: wake_lists_def distinct_remove1_removeAll removeAll_filter_not_eq fun_eq_iff intro!: filter_cong)

context kernel_lib
begin

lemma accept_wake:
  assumes "kern_ok elems queued c s" "unlinked (elems (lists s)) t"
  shows "\<exists>w. accept_task E t s = Inr ((), woken_state (kconf E) c [t] w s) \<and> elems w = wake_lists [t] (elems (lists s))"
  using accept_task_direct[of s c t] assms by (auto simp: kern_ok_def sched_ok_def rq_free_def woken_state_def wake_lists_unlinked)

lemma remove_wake:
  assumes K: "kern_ok elems queued c s" and q: "sq_free queued s"
  shows "\<exists>us w. us = mb_woken (WithTimeout t) (elems (lists s)) \<and> elems w = wake_lists us (elems (lists s))
    \<and> remove_task_from_sleep_queue_allow_isr E t s = Inr ((), woken_state (kconf E) c us w s)"
proof (cases "t \<in> set (elems (lists s) Sleep_List)")
  case False
  then have "remove_task E Sleep_List t (lists s) = Inr (None, lists s)" by (rule remove_task_out)
  moreover have "s\<lparr>sq_locked := False, sq_pending := False\<rparr> = s" using q by (cases s) (simp add: sq_free_def)
  ultimately have "remove_task_from_sleep_queue_allow_isr E t s = Inr ((), woken_state (kconf E) c [] (lists s) s)"
    using q by (cases s) (simp add: remove_task_from_sleep_queue_allow_isr_def with_suspended_scheduler_def with_access_def sq.guard_drop_eq
        sq_free_def resume_eq suspend_def woken_state_def)
  then show ?thesis using False by (auto simp: mb_woken_def wake_lists_Nil)
next
  case True
  from remove_task_in[OF this] obtain w where w: "remove_task E Sleep_List t (lists s) = Inr (Some t, w)"
    "elems w = (elems (lists s))(Sleep_List := remove1 t (elems (lists s) Sleep_List))" by blast
  have S: "sched_ok (elems (lists s)) c s" "lists_ok (elems (lists s))" "suspend_cnt s \<noteq> - 1" "rq_free queued s"
    using K by (simp_all add: kern_ok_def sched_ok_def)
  then have "t \<notin> set (elems (lists s) j)" if "j \<noteq> Sleep_List" for j using True that unfolding lists_ok_def by blast
  moreover have "t \<notin> set (remove1 t (elems (lists s) Sleep_List))" using S(2) by (simp add: lists_ok_def)
  ultimately have un: "unlinked (elems w) t" unfolding unlinked_def w(2) by auto
  let ?s = "(suspend s)\<lparr>sq_locked := True, lists := w\<rparr>"
  have nz: "suspend_cnt s + 1 \<noteq> 0" using S(3) by (metis add.commute add_eq_0_iff2 eq_neg_iff_add_eq_0)
  obtain w1 where a: "accept_task E t ?s = Inr ((), woken_state (kconf E) c [t] w1 ?s)"
    "elems w1 = (elems w)(Ready_List := elems w Ready_List @ [t])"
    using accept_task_direct[of ?s c t] S un by (auto simp: sched_ok_def rq_free_def woken_state_def)
  have "remove_task_from_sleep_queue_allow_isr E t s = Inr ((), woken_state (kconf E) c [t] w1 s)"
    using a(1) w(1) q nz by (simp add: remove_task_from_sleep_queue_allow_isr_def with_suspended_scheduler_def with_access_def sq.guard_drop_eq
        sq_free_def resume_eq suspend_def woken_state_def)
  moreover have "elems w1 = wake_lists [t] (elems (lists s))"
    using a(2) w(2) S(2) by (simp add: wake_lists_sleep lists_ok_def)
  ultimately show ?thesis using True by (auto simp: mb_woken_def)
qed

end

lemma kernel_ok_woken:
  assumes K: "kernel_ok elems queued c s" and m: "waits_ok (elems (lists s)) s m"
    and us: "us = mb_woken (mb_wait_task m) (elems (lists s))" and w: "elems w = wake_lists us (elems (lists s))"
  shows "kernel_ok elems queued c (woken_state cf c us w s)"
proof -
  have S: "sched_ok (elems (lists s)) c s" using K by (simp add: kernel_ok_def kern_ok_def)
  let ?s = "woken_state cf c us w s"
  have "sched_ok (wake_lists us (elems (lists s))) c ?s"
  proof (cases "mb_wait_task m")
    case (WithTimeout t)
    show ?thesis
    proof (cases "t \<in> set (elems (lists s) Sleep_List)")
      case True
      have d: "distinct (elems (lists s) Sleep_List)" by (rule sched_ok_distinct[OF S])
      have "distinct ([t] @ remove1 t (elems (lists s) Sleep_List))" "set ([t] @ remove1 t (elems (lists s) Sleep_List)) = set (elems (lists s) Sleep_List)"
        using True d by auto
      from sched_ok_move[OF S _ this, of ?s] show ?thesis using WithTimeout True us d by (simp add: mb_woken_def wake_lists_sleep)
    next
      case False
      then show ?thesis using S WithTimeout us by (simp add: mb_woken_def wake_lists_Nil sched_ok_def)
    qed
  next
    case (WithoutTimeout t)
    then have t: "unlinked (elems (lists s)) t" "t_state (tasks s t) = Blocked" "us = [t]" using m us by (simp_all add: waits_ok_def mb_woken_def)
    then show ?thesis using sched_ok_accept[OF S t(1), of ?s] by (auto simp: wake_lists_unlinked)
  next
    case NoTask
    then show ?thesis using S us by (simp add: mb_woken_def wake_lists_Nil sched_ok_def)
  qed
  then show ?thesis using K w by (simp add: kernel_ok_def kern_ok_def)
qed

context kernel_lib
begin

lemma notify_full_eq:
  assumes "kern_ok elems queued c s" "sq_free queued s" "waits_ok (elems (lists s)) s m"
  shows "\<exists>us w. us = mb_woken (mb_wait_task m) (elems (lists s)) \<and> elems w = wake_lists us (elems (lists s))
    \<and> notify_full E (m, s) = Inr ((), mb_notified m, if mb_wait_task m = NoTask then s else woken_state (kconf E) c us w s)"
proof (cases "mb_wait_task m")
  case (WithTimeout t)
  with remove_wake[OF assms(1,2), of t] show ?thesis by (auto simp: notify_full_def mb_notified_def)
next
  case (WithoutTimeout t)
  then have "unlinked (elems (lists s)) t" using assms(3) by (simp add: waits_ok_def)
  from accept_wake[OF assms(1) this] WithoutTimeout show ?thesis by (auto simp: notify_full_def mb_notified_def mb_woken_def)
next
  case NoTask
  then show ?thesis by (intro exI[of _ "[]"] exI[of _ "lists s"]) (simp add: notify_full_def mb_notified_def mb_woken_def wake_lists_Nil)
qed

lemma notify_direct:
  assumes K: "kernel_ok elems queued c s" and m: "mb_free m" "waits_ok (elems (lists s)) s m"
  shows "\<exists>us w. us = mb_woken (mb_wait_task m) (elems (lists s)) \<and> elems w = wake_lists us (elems (lists s))
    \<and> notify_allow_isr E (m, s) = Inr ((), mb_notified m, woken_state (kconf E) c us w s)"
proof -
  let ?m = "m\<lparr>mb_locked := True\<rparr>"
  have "waits_ok (elems (lists (suspend s))) (suspend s) ?m" using m(2) by (simp add: waits_ok_def split: wait_task.splits)
  from notify_full_eq[OF conjunct1[OF kernel_ok_suspend[OF K]] conjunct2[OF kernel_ok_suspend[OF K]] this] obtain us w where
    u: "us = mb_woken (mb_wait_task m) (elems (lists s))" "elems w = wake_lists us (elems (lists s))"
    "notify_full E (?m, suspend s) = Inr ((), mb_notified ?m, if mb_wait_task m = NoTask then suspend s else woken_state (kconf E) c us w (suspend s))"
    by auto
  have f: "\<not> mb_pending (mb_notified ?m)" "(mb_notified ?m)\<lparr>mb_pending := False, mb_locked := False\<rparr> = mb_notified m"
    using m(1) by (cases m; simp add: mb_notified_def mb_free_def split: wait_task.splits)+
  have "notify_allow_isr E (m, s) =
      Inr ((), mb_notified m, resume (if mb_wait_task m = NoTask then suspend s else woken_state (kconf E) c us w (suspend s)))"
    using m(1) u(3) f by (simp add: notify_allow_isr_def mb_suspended_def with_access_def mb.guard_drop_eq mb_free_def)
  moreover have "suspend_cnt s \<noteq> - 1" using K by (simp add: kernel_ok_def kern_ok_def)
  then have "resume (woken_state (kconf E) c us w (suspend s)) = woken_state (kconf E) c us w s" by (rule resume_woken)
  moreover have "resume (suspend s) = woken_state (kconf E) c [] (lists s) s"
    by (cases s) (simp add: woken_state_def resume_eq suspend_def ready_all_def preempts_def)
  moreover have "mb_wait_task m = NoTask \<Longrightarrow> us = [] \<and> elems (lists s) = wake_lists [] (elems (lists s))" using u(1) by (simp add: mb_woken_def wake_lists_Nil)
  ultimately show ?thesis using u(1,2) by (cases "mb_wait_task m = NoTask") auto
qed

end

section \<open>Deferred notifications\<close>

fun notify_times :: "('w, 'q) kenv \<Rightarrow> nat \<Rightarrow> mailbox \<times> ('w, 'q) kstate \<Rightarrow> (mailbox \<times> ('w, 'q) kstate) res" where
  "notify_times E 0 st = Inr st"
| "notify_times E (Suc n) st = bindr (notify_allow_isr E st) (\<lambda>(_, st). notify_times E n st)"

lemma woken_none: "suspend_cnt s \<noteq> 0 \<Longrightarrow> woken_state cf c [] (lists s) s = s"
  by (cases s) (simp add: woken_state_def ready_all_def preempts_def)

lemma notify_times_pended:
  "mb_locked m \<Longrightarrow> suspend_cnt s \<noteq> 0 \<Longrightarrow> notify_times E n (m, s) =
     Inr (if n = 0 then m else m\<lparr>pending_count := pending_count m + of_nat n, mb_pending := True\<rparr>, s)"
proof (induction n arbitrary: m)
  case (Suc n)
  let ?m = "m\<lparr>pending_count := pending_count m + 1, mb_pending := True\<rparr>"
  have "notify_allow_isr E (m, s) = Inr ((), ?m, s)"
    using Suc.prems by (simp add: notify_allow_isr_def mb_suspended_def with_access_def resume_suspended)
  then show ?case using Suc.IH[of ?m] Suc.prems by (cases n) (simp_all add: algebra_simps)
qed simp

lemma notified_NoTask: "mb_wait_task (mb_notified m) = NoTask"
  by (simp add: mb_notified_def split: wait_task.splits)

lemma notified_free: "mb_free (mb_notified m) = mb_free m"
  by (simp add: mb_notified_def mb_free_def split: wait_task.splits)

context kernel_lib
begin

lemma notify_times_NoTask:
  "\<lbrakk>kernel_ok elems queued c s; mb_free m; mb_wait_task m = NoTask; suspend_cnt s \<noteq> 0\<rbrakk> \<Longrightarrow>
     notify_times E n (m, s) = Inr (m\<lparr>mb_count := mb_count m + of_nat n\<rparr>, s)"
proof (induction n arbitrary: m)
  case (Suc n)
  have "notify_allow_isr E (m, s) = Inr ((), m\<lparr>mb_count := mb_count m + 1\<rparr>, s)"
    using Suc.prems by (cases m) (simp add: notify_allow_isr_def mb_suspended_def with_access_def mb.guard_drop_eq mb_free_def notify_full_def resume_suspended)
  then show ?case using Suc.IH[of "m\<lparr>mb_count := mb_count m + 1\<rparr>"] Suc.prems by (simp add: mb_free_def algebra_simps)
qed simp

text \<open>The pended notifications, run by the holder.\<close>

lemma run_pended_eq:
  assumes "kern_ok elems queued c s" "sq_free queued s" "waits_ok (elems (lists s)) s m"
  shows "\<exists>w. elems w = wake_lists (mb_woken (mb_wait_task m) (elems (lists s))) (elems (lists s))
    \<and> mb_run_pended_op E (m, s) = Inr ((mb_notified m)\<lparr>pending_count := 0, mb_count := mb_count (mb_notified m) + (pending_count m - 1)\<rparr>,
        if mb_wait_task m = NoTask then s else woken_state (kconf E) c (mb_woken (mb_wait_task m) (elems (lists s))) w s)"
proof (cases "mb_wait_task m")
  case (WithTimeout t)
  with remove_wake[OF assms(1,2), of t] show ?thesis by (auto simp: mb_run_pended_op_def mb_notified_def Let_def algebra_simps)
next
  case (WithoutTimeout t)
  then have "unlinked (elems (lists s)) t" using assms(3) by (simp add: waits_ok_def)
  from accept_wake[OF assms(1) this] WithoutTimeout show ?thesis
    by (auto simp: mb_run_pended_op_def mb_notified_def mb_woken_def Let_def algebra_simps)
next
  case NoTask
  then show ?thesis by (cases m, intro exI[of _ "lists s"]) (simp add: mb_run_pended_op_def mb_notified_def mb_woken_def wake_lists_Nil)
qed

lemma deferred_notify:
  assumes K: "kernel_ok elems queued c s" and m: "mb_free m" "waits_ok (elems (lists s)) s m" and z: "suspend_cnt s \<noteq> 0"
  shows "\<exists>m1 m' s1 s2 w. notify_times E (Suc n) (m\<lparr>mb_locked := True\<rparr>, s) = Inr (m1, s) \<and> guard_drop (mb_lock E) (m1, s) = Inr (m', s1)
    \<and> notify_times E (Suc n) (m, s) = Inr (m', s2) \<and> elems (lists s1) = elems (lists s2) \<and> s1 = s2\<lparr>lists := lists s1\<rparr>
    \<and> m' = (mb_notified m)\<lparr>mb_count := mb_count (mb_notified m) + of_nat n\<rparr>
    \<and> s2 = woken_state (kconf E) c (mb_woken (mb_wait_task m) (elems (lists s))) w s
    \<and> elems w = wake_lists (mb_woken (mb_wait_task m) (elems (lists s))) (elems (lists s))"
proof -
  let ?us = "mb_woken (mb_wait_task m) (elems (lists s))" and ?xs = "elems (lists s)"
  define m1 where "m1 = m\<lparr>mb_locked := True, pending_count := of_nat (Suc n), mb_pending := True\<rparr>"
  define m' where "m' = (mb_notified m)\<lparr>mb_count := mb_count (mb_notified m) + of_nat n\<rparr>"
  obtain w where w: "elems w = wake_lists ?us ?xs" "notify_allow_isr E (m, s) = Inr ((), mb_notified m, woken_state (kconf E) c ?us w s)"
    using notify_direct[OF K m] by blast
  have K2: "kernel_ok elems queued c (woken_state (kconf E) c ?us w s)" by (rule kernel_ok_woken[OF K m(2) refl w(1)])
  have d: "notify_times E (Suc n) (m, s) = Inr (m', woken_state (kconf E) c ?us w s)"
    using w(2) notify_times_NoTask[OF K2, of "mb_notified m" n] m(1) z by (simp add: notified_NoTask notified_free m'_def)
  have p: "notify_times E (Suc n) (m\<lparr>mb_locked := True\<rparr>, s) = Inr (m1, s)"
    using notify_times_pended[of "m\<lparr>mb_locked := True\<rparr>" s E "Suc n"] z m(1) by (simp add: m1_def mb_free_def del: notify_times.simps)
  have k: "kern_ok elems queued c s" "sq_free queued s" "waits_ok ?xs s (m1\<lparr>mb_pending := False\<rparr>)"
    using K m(2) by (simp_all add: kernel_ok_def waits_ok_def m1_def)
  obtain w' where w': "elems w' = wake_lists ?us ?xs" "mb_run_pended_op E (m1\<lparr>mb_pending := False\<rparr>, s) =
      Inr ((mb_notified (m1\<lparr>mb_pending := False\<rparr>))\<lparr>pending_count := 0, mb_count := mb_count (mb_notified (m1\<lparr>mb_pending := False\<rparr>)) + of_nat n\<rparr>,
        if mb_wait_task m = NoTask then s else woken_state (kconf E) c ?us w' s)"
    using run_pended_eq[OF k] by (auto simp: m1_def)
  have "(mb_notified (m1\<lparr>mb_pending := False\<rparr>))\<lparr>pending_count := 0, mb_count := mb_count (mb_notified (m1\<lparr>mb_pending := False\<rparr>)) + of_nat n, mb_locked := False\<rparr> = m'"
    using m(1) by (cases m) (simp add: m1_def m'_def mb_notified_def mb_free_def split: wait_task.splits)
  then have g: "guard_drop (mb_lock E) (m1, s) = Inr (m', if mb_wait_task m = NoTask then s else woken_state (kconf E) c ?us w' s)"
    using w'(2) by (simp add: mb.guard_drop_eq m1_def)
  have e: "s = (woken_state (kconf E) c [] w s)\<lparr>lists := lists s\<rparr>" using z by (cases s) (simp add: woken_state_def ready_all_def preempts_def)
  show ?thesis
  proof (cases "mb_wait_task m = NoTask")
    case True
    then have "?us = []" by (simp add: mb_woken_def)
    then show ?thesis using True p g d e w(1) m'_def
      by (intro exI[of _ m1] exI[of _ m'] exI[of _ s] exI[of _ "woken_state (kconf E) c ?us w s"] exI[of _ w]) (simp add: wake_lists_Nil)
  next
    case False
    have "woken_state (kconf E) c ?us w' s = (woken_state (kconf E) c ?us w s)\<lparr>lists := w'\<rparr>" by (simp add: woken_state_def)
    then show ?thesis using False p g d w(1) w'(1) m'_def
      by (intro exI[of _ m1] exI[of _ m'] exI[of _ "woken_state (kconf E) c ?us w' s"] exI[of _ "woken_state (kconf E) c ?us w s"] exI[of _ w])
         (simp del: notify_times.simps)
  qed
qed

end

section \<open>Waiting\<close>

lemma sched_ok_block_unlinked:
  assumes "sched_ok xs c s" "t_state (tasks s c) = Running" "\<not> t_is_idle (tasks s c)"
    and "tasks s' = (tasks s)(c := set_state Blocked (tasks s c))" "cur_task s' = cur_task s" "started s' = started s"
      "cur_task_idle s' = cur_task_idle s"
  shows "sched_ok xs c s'"
proof -
  have un: "unlinked xs c" using assms(1,2) by (simp add: sched_ok_def)
  have "\<exists>i. t_is_idle (tasks s' i) \<and> i \<in> set (xs Ready_List)"
  proof -
    obtain i where i: "t_is_idle (tasks s i)" "i \<in> set (xs Ready_List) \<or> i = c" using assms(1) unfolding sched_ok_def by blast
    then have "i \<noteq> c" using assms(3) by auto
    then show ?thesis using i by (intro exI[of _ i]) (simp add: assms(4))
  qed
  moreover have "\<forall>l t. l \<noteq> Ready_List \<longrightarrow> t \<in> set (xs l) \<longrightarrow> t_state (tasks s' t) = Blocked"
    "\<forall>t \<in> set (xs Ready_List). t_state (tasks s' t) = Ready"
    using assms(1) un unfolding sched_ok_def unlinked_def assms(4) by auto
  ultimately show ?thesis using assms(1) unfolding sched_ok_def assms(5-7) by (simp add: assms(4))
qed

text \<open>The branch that blocks leaves a state whose waiting task satisfies \<open>waits_ok\<close>.\<close>

context kernel_lib
begin

lemma mailbox_wait_count:
  assumes "may_block c s" "mb_free m" "mb_wait_task m = NoTask" "mb_count m \<noteq> 0"
  shows "mailbox_wait E (m, s) = Inr (False, m\<lparr>mb_count := mb_count m - 1\<rparr>, resume (suspend s))"
    "wait_until_timeout E timeout_ms (m, s) = Inr (False, m\<lparr>mb_count := mb_count m - 1\<rparr>, resume (suspend s))"
  using assms by (cases m; simp add: mailbox_wait_def wait_until_timeout_def is_suspended_def may_block_def mb_suspended_def
      must_with_full_access_def mb.guard_drop_eq mb_free_def word_gt_0 yield_if_def)+

lemma mailbox_wait_block:
  assumes K: "kernel_ok elems queued c s" and b: "may_block c s" and m: "mb_free m" "mb_wait_task m = NoTask" "mb_count m = 0"
  shows "\<exists>s'. mailbox_wait E (m, s) = Inr (True, m\<lparr>mb_wait_task := WithoutTimeout c\<rparr>, s') \<and> kernel_ok elems queued c s'
    \<and> t_state (tasks s' c) = Blocked \<and> pendsv s' \<and> waits_ok (elems (lists s')) s' (m\<lparr>mb_wait_task := WithoutTimeout c\<rparr>)"
proof -
  define s' where "s' = s\<lparr>tasks := (tasks s)(c := set_state Blocked (tasks s c)), pendsv := True\<rparr>"
  have S: "sched_ok (elems (lists s)) c s" "t_state (tasks s c) = Running" "\<not> t_is_idle (tasks s c)"
    using K b by (simp_all add: kernel_ok_def kern_ok_def may_block_def)
  then have c: "cur_task s = Some c" "unlinked (elems (lists s)) c" by (simp_all add: sched_ok_def)
  have "mailbox_wait E (m, s) = Inr (True, m\<lparr>mb_wait_task := WithoutTimeout c\<rparr>, s')"
    using m b c(1) by (cases m) (simp add: mailbox_wait_def is_suspended_def may_block_def mb_suspended_def must_with_full_access_def
        mb.guard_drop_eq mb_free_def with_cur_task_explicit_sched_suspend_def yield_if_def yield_current_task_def resume_eq
        suspend_def upd_task_def s'_def)
  moreover have "sched_ok (elems (lists s)) c s'" by (rule sched_ok_block_unlinked[OF S]) (simp_all add: s'_def)
  then have "kernel_ok elems queued c s'" using K by (simp add: kernel_ok_def kern_ok_def rq_free_def sq_free_def s'_def)
  ultimately show ?thesis using c(2) by (intro exI[of _ s']) (simp add: s'_def waits_ok_def)
qed

lemma timeout_block:
  assumes K: "kernel_ok elems queued c s" and b: "may_block c s" and m: "mb_free m" "mb_wait_task m = NoTask" "mb_count m = 0"
  shows "\<exists>s'. wait_until_timeout E timeout_ms (m, s) = Inr (True, m\<lparr>mb_wait_task := WithTimeout c, task_notified := False\<rparr>, s')
    \<and> kernel_ok elems queued c s' \<and> t_state (tasks s' c) = Blocked \<and> pendsv s' \<and> c \<in> set (elems (lists s') Sleep_List)
    \<and> t_wake_at_tick (tasks s' c) = ticks s + timeout_ms"
proof -
  let ?ts = "(tasks s)(c := set_wake_tick (ticks s + timeout_ms) (set_state Blocked (tasks s c)))"
  have S: "sched_ok (elems (lists s)) c s" "t_state (tasks s c) = Running" "\<not> t_is_idle (tasks s c)" "sq_free queued s"
    using K b by (simp_all add: kernel_ok_def kern_ok_def may_block_def)
  then have c: "cur_task s = Some c" "unlinked (elems (lists s)) c" by (simp_all add: sched_ok_def)
  let ?s = "upd_task c (set_state Blocked) (suspend s)"
  obtain w where w: "add_task_to_sleep_queue E c (ticks s + timeout_ms) ?s = Inr ((), (suspend s)\<lparr>tasks := ?ts, lists := w\<rparr>)"
    "elems w = (elems (lists s))(Sleep_List := insert_tick ?ts c (elems (lists s) Sleep_List))"
    using add_to_sleep_eq[of ?s c "ticks s + timeout_ms"] S(4) c b by (auto simp: upd_task_def suspend_def sq_free_def may_block_def)
  define s' where "s' = s\<lparr>tasks := ?ts, lists := w, pendsv := True\<rparr>"
  have "wait_until_timeout E timeout_ms (m, s) = Inr (True, m\<lparr>mb_wait_task := WithTimeout c, task_notified := False\<rparr>, s')"
    using m b c(1) w(1) by (cases m) (simp add: wait_until_timeout_def is_suspended_def may_block_def mb_suspended_def must_with_full_access_def
        mb.guard_drop_eq mb_free_def with_cur_task_explicit_sched_suspend_def yield_if_def yield_current_task_def resume_eq Let_def s'_def suspend_def
        upd_task_def)
  moreover have d: "distinct (insert_tick ?ts c (elems (lists s) Sleep_List))"
    using insert_tick_distinct sched_ok_distinct[OF S(1)] c(2) by (simp add: unlinked_def)
  have "sched_ok (elems w) c s'" unfolding w(2)
    by (rule sched_ok_block[OF S(1-3) _ d]) (simp_all add: s'_def insert_tick_set set_wake_tick_def)
  then have "kernel_ok elems queued c s'" using K by (simp add: kernel_ok_def kern_ok_def rq_free_def sq_free_def s'_def)
  ultimately show ?thesis using w(2) by (intro exI[of _ s']) (simp add: s'_def insert_tick_set set_wake_tick_def)
qed

lemma timeout_finish_eq:
  "mb_free m \<Longrightarrow> wait_until_timeout_finish E (m, s) = Inr (task_notified m, m\<lparr>mb_wait_task := NoTask\<rparr>, resume (suspend s))"
  by (cases m) (simp add: wait_until_timeout_finish_def mb_suspended_def must_with_full_access_def mb.guard_drop_eq mb_free_def)

lemma mailbox_wait_panics:
  "suspend_cnt s \<noteq> 0 \<or> in_isr s \<or> mb_free m \<and> mb_wait_task m \<noteq> NoTask \<Longrightarrow> mailbox_wait E (m, s) = Inl Panic"
  "suspend_cnt s \<noteq> 0 \<or> in_isr s \<or> mb_free m \<and> mb_wait_task m \<noteq> NoTask \<Longrightarrow> wait_until_timeout E timeout_ms (m, s) = Inl Panic"
  by (auto simp: mailbox_wait_def wait_until_timeout_def is_suspended_def word_gt_0 mb_suspended_def must_with_full_access_def mb_free_def)

end

section \<open>Properties\<close>

text \<open>C36. A mailbox with nobody waiting. With a count above zero both waits take one notification and
  do not block. At zero, \<open>wait\<close> blocks the current task and records it; a second wait panics; the
  next notification makes exactly that task ready and leaves the mailbox as it was before.
  \<open>wait_until_timeout\<close> puts the task in the sleep list too; a notification takes it out again, makes
  it ready and makes the second part return true; without a notification the second part returns
  false. A notification with nobody waiting is counted. The kernel's invariant is kept.\<close>

theorem mailbox_spec:
  assumes "kernel_lib E elems queued" "kernel_ok elems queued c s" "may_block c s" "mb_free m" "mb_wait_task m = NoTask"
  shows "(mb_count m \<noteq> 0 \<longrightarrow> (\<exists>s'. mailbox_wait E (m, s) = Inr (False, m\<lparr>mb_count := mb_count m - 1\<rparr>, s')
      \<and> wait_until_timeout E ms (m, s) = Inr (False, m\<lparr>mb_count := mb_count m - 1\<rparr>, s') \<and> tasks s' = tasks s \<and> lists s' = lists s))
    \<and> (mb_count m = 0 \<longrightarrow> (\<exists>m1 s1 s2. mailbox_wait E (m, s) = Inr (True, m1, s1) \<and> t_state (tasks s1 c) = Blocked \<and> pendsv s1
        \<and> kernel_ok elems queued c s1 \<and> mailbox_wait E (m1, s1) = Inl Panic \<and> notify_allow_isr E (m1, s1) = Inr ((), m, s2)
        \<and> kernel_ok elems queued c s2 \<and> tasks s2 = ready_all [c] (tasks s1) \<and> elems (lists s2) Ready_List = elems (lists s1) Ready_List @ [c]))
    \<and> (mb_count m = 0 \<longrightarrow> (\<exists>m1 m2 s1 s2. wait_until_timeout E ms (m, s) = Inr (True, m1, s1) \<and> t_state (tasks s1 c) = Blocked \<and> pendsv s1
        \<and> kernel_ok elems queued c s1 \<and> c \<in> set (elems (lists s1) Sleep_List) \<and> t_wake_at_tick (tasks s1 c) = ticks s + ms
        \<and> (\<forall>s'. \<exists>s3. wait_until_timeout_finish E (m1, s') = Inr (False, m\<lparr>task_notified := False\<rparr>, s3))
        \<and> notify_allow_isr E (m1, s1) = Inr ((), m2, s2) \<and> kernel_ok elems queued c s2 \<and> tasks s2 = ready_all [c] (tasks s1)
        \<and> c \<notin> set (elems (lists s2) Sleep_List) \<and> elems (lists s2) Ready_List = elems (lists s1) Ready_List @ [c]
        \<and> (\<forall>s'. \<exists>s3. wait_until_timeout_finish E (m2, s') = Inr (True, m\<lparr>task_notified := True\<rparr>, s3))))
    \<and> (\<exists>s'. notify_allow_isr E (m, s) = Inr ((), m\<lparr>mb_count := mb_count m + 1\<rparr>, s') \<and> tasks s' = tasks s \<and> kernel_ok elems queued c s')"
proof (intro conjI impI)
  show "\<exists>s'. mailbox_wait E (m, s) = Inr (False, m\<lparr>mb_count := mb_count m - 1\<rparr>, s')
      \<and> wait_until_timeout E ms (m, s) = Inr (False, m\<lparr>mb_count := mb_count m - 1\<rparr>, s') \<and> tasks s' = tasks s \<and> lists s' = lists s"
    if "mb_count m \<noteq> 0"
    using kernel_lib.mailbox_wait_count[OF assms(1,3-5) that] by (intro exI[of _ "resume (suspend s)"]) simp
  obtain w where w: "notify_allow_isr E (m, s) = Inr ((), mb_notified m, woken_state (kconf E) c [] w s)" "elems w = elems (lists s)"
    using kernel_lib.notify_direct[OF assms(1,2,4)] assms(5) by (auto simp: waits_ok_def mb_woken_def wake_lists_Nil)
  have "kernel_ok elems queued c (woken_state (kconf E) c [] w s)"
    using kernel_ok_woken[OF assms(2), of m "[]" w] w(2) assms(5) by (simp add: waits_ok_def mb_woken_def wake_lists_Nil)
  then show "\<exists>s'. notify_allow_isr E (m, s) = Inr ((), m\<lparr>mb_count := mb_count m + 1\<rparr>, s') \<and> tasks s' = tasks s \<and> kernel_ok elems queued c s'"
    using w(1) assms(5) by (auto simp: mb_notified_def ready_all_def)
next
  assume z: "mb_count m = 0"
  let ?m = "m\<lparr>mb_wait_task := WithoutTimeout c\<rparr>"
  obtain s1 where s1: "mailbox_wait E (m, s) = Inr (True, ?m, s1)" "kernel_ok elems queued c s1" "t_state (tasks s1 c) = Blocked" "pendsv s1"
    "waits_ok (elems (lists s1)) s1 ?m" using kernel_lib.mailbox_wait_block[OF assms z] by blast
  have f: "mb_free ?m" "mb_notified ?m = m" using assms(4,5) by (cases m; simp add: mb_free_def mb_notified_def)+
  obtain w where w: "notify_allow_isr E (?m, s1) = Inr ((), m, woken_state (kconf E) c [c] w s1)" "elems w = wake_lists [c] (elems (lists s1))"
    using kernel_lib.notify_direct[OF assms(1) s1(2) f(1) s1(5)] f(2) by (auto simp: mb_woken_def)
  have "kernel_ok elems queued c (woken_state (kconf E) c [c] w s1)" using kernel_ok_woken[OF s1(2,5), of "[c]" w] w(2) by (simp add: mb_woken_def)
  moreover have "mailbox_wait E (?m, s1) = Inl Panic" by (rule kernel_lib.mailbox_wait_panics(1)[OF assms(1)]) (simp add: f(1))
  ultimately show "\<exists>m1 s1 s2. mailbox_wait E (m, s) = Inr (True, m1, s1) \<and> t_state (tasks s1 c) = Blocked \<and> pendsv s1
        \<and> kernel_ok elems queued c s1 \<and> mailbox_wait E (m1, s1) = Inl Panic \<and> notify_allow_isr E (m1, s1) = Inr ((), m, s2)
        \<and> kernel_ok elems queued c s2 \<and> tasks s2 = ready_all [c] (tasks s1) \<and> elems (lists s2) Ready_List = elems (lists s1) Ready_List @ [c]"
    using s1(1-4) w by (intro exI[of _ ?m] exI[of _ s1] exI[of _ "woken_state (kconf E) c [c] w s1"]) (simp add: wake_lists_def)
next
  assume z: "mb_count m = 0"
  let ?m = "m\<lparr>mb_wait_task := WithTimeout c, task_notified := False\<rparr>" and ?m2 = "m\<lparr>task_notified := True\<rparr>"
  obtain s1 where s1: "wait_until_timeout E ms (m, s) = Inr (True, ?m, s1)" "kernel_ok elems queued c s1" "t_state (tasks s1 c) = Blocked" "pendsv s1"
    "c \<in> set (elems (lists s1) Sleep_List)" "t_wake_at_tick (tasks s1 c) = ticks s + ms" using kernel_lib.timeout_block[OF assms z] by blast
  have f: "mb_free ?m" "mb_free ?m2" "mb_notified ?m = ?m2" "?m\<lparr>mb_wait_task := NoTask\<rparr> = m\<lparr>task_notified := False\<rparr>" "?m2\<lparr>mb_wait_task := NoTask\<rparr> = ?m2"
    using assms(4,5) by (cases m; simp add: mb_free_def mb_notified_def)+
  have v: "waits_ok (elems (lists s1)) s1 ?m" by (simp add: waits_ok_def)
  obtain w where w: "notify_allow_isr E (?m, s1) = Inr ((), ?m2, woken_state (kconf E) c [c] w s1)" "elems w = wake_lists [c] (elems (lists s1))"
    using kernel_lib.notify_direct[OF assms(1) s1(2) f(1) v] f(3) s1(5) by (auto simp: mb_woken_def)
  have k: "kernel_ok elems queued c (woken_state (kconf E) c [c] w s1)"
    using kernel_ok_woken[OF s1(2) v, of "[c]" w] w(2) s1(5) by (simp add: mb_woken_def)
  have fin: "wait_until_timeout_finish E (?m, s') = Inr (False, m\<lparr>task_notified := False\<rparr>, resume (suspend s'))"
    "wait_until_timeout_finish E (?m2, s') = Inr (True, ?m2, resume (suspend s'))" for s'
    using kernel_lib.timeout_finish_eq[OF assms(1) f(1), of s'] kernel_lib.timeout_finish_eq[OF assms(1) f(2), of s'] f(4,5) by simp_all
  show "\<exists>m1 m2 s1 s2. wait_until_timeout E ms (m, s) = Inr (True, m1, s1) \<and> t_state (tasks s1 c) = Blocked \<and> pendsv s1
        \<and> kernel_ok elems queued c s1 \<and> c \<in> set (elems (lists s1) Sleep_List) \<and> t_wake_at_tick (tasks s1 c) = ticks s + ms
        \<and> (\<forall>s'. \<exists>s3. wait_until_timeout_finish E (m1, s') = Inr (False, m\<lparr>task_notified := False\<rparr>, s3))
        \<and> notify_allow_isr E (m1, s1) = Inr ((), m2, s2) \<and> kernel_ok elems queued c s2 \<and> tasks s2 = ready_all [c] (tasks s1)
        \<and> c \<notin> set (elems (lists s2) Sleep_List) \<and> elems (lists s2) Ready_List = elems (lists s1) Ready_List @ [c]
        \<and> (\<forall>s'. \<exists>s3. wait_until_timeout_finish E (m2, s') = Inr (True, m\<lparr>task_notified := True\<rparr>, s3))"
    using s1 w k fin by (intro exI[of _ ?m] exI[of _ ?m2] exI[of _ s1] exI[of _ "woken_state (kconf E) c [c] w s1"]) (simp add: wake_lists_def)
qed

text \<open>Sample: the running task 1 on a new mailbox.\<close>

lemma kw0_kernel: "kernel_ok (\<lambda>w. w) (\<lambda>q. q) 1 kw0"
  using kw0_kern(1) by (simp add: kernel_ok_def sq_free_def kw0_def k0_def)

theorem mailbox_spec_witness:
  "\<exists>m1 s1 s2. mailbox_wait (list_env config0) (mailbox_new, kw0) = Inr (True, m1, s1) \<and> t_state (tasks s1 1) = Blocked
    \<and> notify_allow_isr (list_env config0) (m1, s1) = Inr ((), mailbox_new, s2) \<and> lists s2 Ready_List = lists s1 Ready_List @ [1]"
proof -
  have m: "mb_free mailbox_new" "mb_wait_task mailbox_new = NoTask" "mb_count mailbox_new = 0" by (simp_all add: mailbox_new_def mb_free_def)
  show ?thesis using mailbox_spec[OF le.kernel_lib_axioms[of config0] kw0_kernel kw0_kern(2) m(1,2)] m(3) by blast
qed

text \<open>C37. Notifications that interrupt handlers send while a task holds the mailbox are counted, and
  the holder runs them when it drops its guard. The mailbox, the tasks, the lists and the request
  for a context switch are then what they would be had the handlers found the mailbox free: none of
  the notifications is lost or used twice.\<close>

theorem mailbox_deferred_refines_direct:
  assumes "kernel_lib E elems queued" "kernel_ok elems queued c s" "suspend_cnt s \<noteq> 0"
    and "mb_free m" "waits_ok (elems (lists s)) s m" "n \<noteq> 0"
  shows "\<exists>m1 m' s1 s2. notify_times E n (m\<lparr>mb_locked := True\<rparr>, s) = Inr (m1, s) \<and> guard_drop (mb_lock E) (m1, s) = Inr (m', s1)
    \<and> notify_times E n (m, s) = Inr (m', s2) \<and> elems (lists s1) = elems (lists s2) \<and> s1 = s2\<lparr>lists := lists s1\<rparr>
    \<and> mb_count m' = mb_count m + of_nat n - of_bool (mb_wait_task m \<noteq> NoTask)
    \<and> tasks s2 = ready_all (mb_woken (mb_wait_task m) (elems (lists s))) (tasks s)
    \<and> elems (lists s2) = wake_lists (mb_woken (mb_wait_task m) (elems (lists s))) (elems (lists s))"
proof -
  obtain k where n: "n = Suc k" using assms(6) by (cases n) auto
  have "mb_count (mb_notified m) + of_nat k = mb_count m + of_nat n - of_bool (mb_wait_task m \<noteq> NoTask)"
    by (simp add: n mb_notified_def split: wait_task.splits)
  then show ?thesis using kernel_lib.deferred_notify[OF assms(1,2,4,5,3), of k] unfolding n
    by (elim exE conjE) (intro exI conjI, assumption+, simp_all del: notify_times.simps)
qed

text \<open>Sample: task 9 waits and three handlers notify the held mailbox.\<close>

definition kb0 :: "(lid \<Rightarrow> tid list, tid list) kstate" where
  "kb0 = kw0\<lparr>tasks := (tasks kw0)(9 := (task0 9)\<lparr>t_state := Blocked\<rparr>), suspend_cnt := 1\<rparr>"

lemma kb0_kernel: "kernel_ok (\<lambda>w. w) (\<lambda>q. q) 1 kb0"
  by (auto simp: kernel_ok_def kern_ok_def sched_ok_def lists_ok_def unlinked_def kb0_def kw0_def lists0_def task0_def task_new_def
      rq_free_def sq_free_def k0_def split: if_splits intro!: exI[of _ "0 :: tid"])

theorem mailbox_deferred_refines_direct_witness:
  "\<exists>m1 m' s1. notify_times (list_env config0) 3 (mailbox_new\<lparr>mb_wait_task := WithoutTimeout 9, mb_locked := True\<rparr>, kb0) = Inr (m1, kb0)
    \<and> guard_drop (mb_lock (list_env config0)) (m1, kb0) = Inr (m', s1) \<and> mb_count m' = 2 \<and> lists s1 Ready_List = [0, 2, 3, 9]"
proof -
  let ?m = "mailbox_new\<lparr>mb_wait_task := WithoutTimeout 9\<rparr>"
  have l: "lists kb0 = lists0(Wait_List 7 := [4, 5])" "suspend_cnt kb0 \<noteq> 0" "(3 :: nat) \<noteq> 0" by (simp_all add: kb0_def kw0_def)
  have m: "mb_free ?m" "waits_ok (lists kb0) kb0 ?m" using l(1) by (auto simp: mb_free_def mailbox_new_def waits_ok_def unlinked_def lists0_def kb0_def)
  obtain m1 m' s1 and s2 :: "(lid \<Rightarrow> tid list, tid list) kstate" where r:
    "notify_times (list_env config0) 3 (?m\<lparr>mb_locked := True\<rparr>, kb0) = Inr (m1, kb0)" "guard_drop (mb_lock (list_env config0)) (m1, kb0) = Inr (m', s1)"
    "lists s1 = lists s2" "mb_count m' = mb_count ?m + of_nat 3 - of_bool (mb_wait_task ?m \<noteq> NoTask)"
    "lists s2 = wake_lists (mb_woken (mb_wait_task ?m) (lists kb0)) (lists kb0)"
    using mailbox_deferred_refines_direct[OF le.kernel_lib_axioms[of config0] kb0_kernel l(2) m l(3)] by blast
  then show ?thesis using l(1) by (intro exI[of _ m1] exI[of _ m'] exI[of _ s1]) (simp add: mb_woken_def mailbox_new_def wake_lists_def lists0_def del: notify_times.simps)
qed

end
