(* ===== verification/Spin_Lock.thy ===== *)
theory Spin_Lock
  imports Semaphore
begin

text \<open>
  Spin locks, \<open>src/sync/spin_lock.rs\<close>, with the conditions they hold, \<open>src/sync/lock_traits.rs\<close>. A spin
  lock wraps the lock of a package outside the repository: its operations are the record \<open>raw_spin\<close>,
  what it documents is the locale \<open>raw_spin_lock\<close>. The state of a lock is kept by its owner; the
  operations take it together with the kernel state.
\<close>

section \<open>The package\<close>

record 'l raw_spin =
  rs_is_locked :: "'l \<Rightarrow> bool"
  rs_try_lock :: "'l \<Rightarrow> bool \<times> 'l"
  rs_unlock :: "'l \<Rightarrow> 'l"

locale raw_spin_lock =
  fixes S :: "'l raw_spin"
  assumes try_lock_free: "\<not> rs_is_locked S l \<Longrightarrow> \<exists>l'. rs_try_lock S l = (True, l') \<and> rs_is_locked S l'"
    and try_lock_locked: "rs_is_locked S l \<Longrightarrow> rs_try_lock S l = (False, l)"
    and unlock_free: "\<not> rs_is_locked S (rs_unlock S l)"

definition flag_spin :: "bool raw_spin" where
  "flag_spin = \<lparr>rs_is_locked = (\<lambda>l. l), rs_try_lock = (\<lambda>l. (\<not> l, True)), rs_unlock = (\<lambda>l. False)\<rparr>"

interpretation flag: raw_spin_lock flag_spin
  by unfold_locales (auto simp: flag_spin_def)

section \<open>Held conditions\<close>

text \<open>A \<open>Holdable\<close> type: \<open>hold\<close>, the drop of the guard that it returns, and \<open>force_unhold\<close>.\<close>

record 's holdable =
  hold :: "'s \<Rightarrow> 's"
  guard_release :: "'s \<Rightarrow> 's"
  force_unhold :: "'s \<Rightarrow> 's"

definition hold_nothing :: "'s holdable" where
  "hold_nothing = \<lparr>hold = (\<lambda>s. s), guard_release = (\<lambda>s. s), force_unhold = (\<lambda>s. s)\<rparr>"

definition hold_scheduler :: "('w, 'q) kstate holdable" where
  "hold_scheduler = \<lparr>hold = suspend, guard_release = resume, force_unhold = resume\<rparr>"

definition compound_holdable :: "'s holdable \<Rightarrow> 's holdable \<Rightarrow> 's holdable" where
  "compound_holdable H0 H1 =
     \<lparr>hold = (\<lambda>s. hold H1 (hold H0 s)),
      guard_release = (\<lambda>s. guard_release H0 (guard_release H1 s)),
      force_unhold = (\<lambda>s. force_unhold H0 (force_unhold H1 s))\<rparr>"

section \<open>Generic spin locks\<close>

definition gs_try_lock :: "'l raw_spin \<Rightarrow> 's holdable \<Rightarrow> 'l \<times> 's \<Rightarrow> bool \<times> 'l \<times> 's" where
  "gs_try_lock S H = (\<lambda>(l, s).
     if rs_is_locked S l then (False, l, s)
     else let s = hold H s
          in case rs_try_lock S l of (b, l) \<Rightarrow> if b then (True, l, s) else (False, l, guard_release H s))"

definition gs_lock_now_or_die :: "'l raw_spin \<Rightarrow> 's holdable \<Rightarrow> 'l \<times> 's \<Rightarrow> ('l \<times> 's) res" where
  "gs_lock_now_or_die S H ls = (case gs_try_lock S H ls of (b, ls) \<Rightarrow> if b then Inr ls else Inl Die)"

text \<open>The loop of \<open>lock\<close>; on one core nobody unlocks while it spins.\<close>

partial_function (option) gs_lock :: "'l raw_spin \<Rightarrow> 's holdable \<Rightarrow> 'l \<times> 's \<Rightarrow> ('l \<times> 's) option" where
  "gs_lock S H ls = (case gs_try_lock S H ls of (b, ls) \<Rightarrow> if b then Some ls else gs_lock S H ls)"

text \<open>Dropping a guard: first the raw guard, then the held condition.\<close>

definition gs_guard_drop :: "'l raw_spin \<Rightarrow> 's holdable \<Rightarrow> 'l \<times> 's \<Rightarrow> 'l \<times> 's" where
  "gs_guard_drop S H = (\<lambda>(l, s). (rs_unlock S l, guard_release H s))"

definition gs_force_unlock :: "'l raw_spin \<Rightarrow> 's holdable \<Rightarrow> 'l \<times> 's \<Rightarrow> 'l \<times> 's" where
  "gs_force_unlock S H = (\<lambda>(l, s). (rs_unlock S l, force_unhold H s))"

section \<open>Laws\<close>

lemma holdable_simps [simp]:
  "hold hold_nothing s = s" "guard_release hold_nothing s = s" "force_unhold hold_nothing s = s"
  "hold hold_scheduler k = suspend k" "guard_release hold_scheduler k = resume k" "force_unhold hold_scheduler k = resume k"
  "hold (compound_holdable H0 H1) s = hold H1 (hold H0 s)"
  "guard_release (compound_holdable H0 H1) s = guard_release H0 (guard_release H1 s)"
  "force_unhold (compound_holdable H0 H1) s = force_unhold H0 (force_unhold H1 s)"
  by (simp_all add: hold_nothing_def hold_scheduler_def compound_holdable_def)

text \<open>A lock that is taken already spins for ever.\<close>

lemma gs_lock_returns: "gs_lock S H ls = Some r \<Longrightarrow> \<not> rs_is_locked S (fst ls)"
  by (erule gs_lock.raw_induct[where P = "\<lambda>S H ls r. \<not> rs_is_locked S (fst ls)", rotated])
     (auto simp: gs_try_lock_def split: prod.splits if_splits)

lemma gs_lock_spins: "rs_is_locked S l \<Longrightarrow> gs_lock S H (l, s) = None"
  using gs_lock_returns[of S H "(l, s)"] by (cases "gs_lock S H (l, s)") auto

context raw_spin_lock
begin

lemma gs_try_free: "\<not> rs_is_locked S l \<Longrightarrow> \<exists>l'. gs_try_lock S H (l, s) = (True, l', hold H s) \<and> rs_is_locked S l'"
  using try_lock_free[of l] by (auto simp: gs_try_lock_def)

lemma gs_try_locked: "rs_is_locked S l \<Longrightarrow> gs_try_lock S H (l, s) = (False, l, s)"
  by (simp add: gs_try_lock_def)

lemma gs_now_free: "\<not> rs_is_locked S l \<Longrightarrow> \<exists>l'. gs_lock_now_or_die S H (l, s) = Inr (l', hold H s) \<and> rs_is_locked S l'"
  using gs_try_free[of l H s] by (auto simp: gs_lock_now_or_die_def)

lemma gs_now_locked: "rs_is_locked S l \<Longrightarrow> gs_lock_now_or_die S H (l, s) = Inl Die"
  by (simp add: gs_lock_now_or_die_def gs_try_locked)

lemma gs_lock_free: "\<not> rs_is_locked S l \<Longrightarrow> \<exists>l'. gs_lock S H (l, s) = Some (l', hold H s) \<and> rs_is_locked S l'"
  using gs_try_free[of l H s] by (auto simp: gs_lock.simps)

end

end
