(* ===== verification/Mutex.thy ===== *)
theory Mutex
  imports Spin_Lock
begin

text \<open>
  Mutexes, \<open>src/sync/mutex.rs\<close>: a spin lock around the data, its owner, a poison flag and a wait
  queue, with priority inheritance. The state is that of a primitive with a wait queue: the queue,
  the other fields \<open>mutex_core\<close>, the kernel. \<open>H\<close> is the additional condition that a mutex holds.
\<close>

section \<open>Operations\<close>

record 'l mutex_core =
  mx_owner :: "tid option"
  owner_lock :: 'l
  poisoned :: bool
  mx_spin :: 'l

definition mutex_new :: "'l \<Rightarrow> 'l mutex_core" where
  "mutex_new l = \<lparr>mx_owner = None, owner_lock = l, poisoned = False, mx_spin = l\<rparr>"

text \<open>Access to the owner under its lock, \<open>lock_now_or_die\<close>.\<close>

definition with_owner ::
  "'l raw_spin \<Rightarrow> (tid option \<Rightarrow> ('w, 'q) kstate \<Rightarrow> tid option \<times> ('w, 'q) kstate) \<Rightarrow> 'l mutex_core \<times> ('w, 'q) kstate
     \<Rightarrow> ('l mutex_core \<times> ('w, 'q) kstate) res" where
  "with_owner S f = (\<lambda>(x, s).
     bindr (gs_lock_now_or_die S hold_scheduler (owner_lock x, s)) (\<lambda>(l, s).
       let (ow, s) = f (mx_owner x) s; (l, s) = gs_guard_drop S hold_scheduler (l, s)
       in Inr (x\<lparr>mx_owner := ow, owner_lock := l\<rparr>, s)))"

definition mutex_try_lock ::
  "'l raw_spin \<Rightarrow> ('w, 'q) kstate holdable \<Rightarrow> 'l mutex_core \<times> ('w, 'q) kstate
     \<Rightarrow> (unit option \<times> 'l mutex_core \<times> ('w, 'q) kstate) res" where
  "mutex_try_lock S H = (\<lambda>(x, s).
     let (b, l, s) = gs_try_lock S (compound_holdable hold_scheduler H) (mx_spin x, s); x = x\<lparr>mx_spin := l\<rparr>
     in if \<not> b then Inr (None, x, s)
        else bindr (if \<not> in_isr s then with_cur_task (\<lambda>c s. with_owner S (\<lambda>_ s. (Some c, s)) (x, s)) s else Inr (x, s)) (\<lambda>(x, s).
               Inr (Some (), x, resume s)))"

text \<open>The current task waits for the owner, which inherits its priority.\<close>

definition inherit_priority ::
  "'l raw_spin \<Rightarrow> 'l mutex_core \<times> ('w, 'q) kstate \<Rightarrow> ('l mutex_core \<times> ('w, 'q) kstate) res" where
  "inherit_priority S = (\<lambda>(x, s).
     with_cur_task (\<lambda>c s. with_owner S (\<lambda>ow s.
       (ow, case ow of Some owner \<Rightarrow> upd_task owner (ceil_priority_from (tasks s c)) s | None \<Rightarrow> s)) (x, s)) s)"

text \<open>\<open>lock\<close> up to the end of its first round of waiting, and the further rounds.\<close>

definition mutex_lock_round ::
  "'l raw_spin \<Rightarrow> ('w, 'q) kstate holdable \<Rightarrow> ('w, 'q) kenv \<Rightarrow> ('l mutex_core, 'w, 'q) wq_state
     \<Rightarrow> (unit option \<times> ('l mutex_core, 'w, 'q) wq_state) res" where
  "mutex_lock_round S H E = wait_until E (mutex_try_lock S H)"

definition mutex_lock ::
  "'l raw_spin \<Rightarrow> ('w, 'q) kstate holdable \<Rightarrow> ('w, 'q) kenv \<Rightarrow> ('l mutex_core, 'w, 'q) wq_state
     \<Rightarrow> (unit option \<times> ('l mutex_core, 'w, 'q) wq_state) res" where
  "mutex_lock S H E = (\<lambda>(q, x, s).
     bindr (mutex_try_lock S H (x, s)) (\<lambda>(r, x, s).
       if r \<noteq> None then Inr (Some (), q, x, s)
       else bindr (inherit_priority S (x, s)) (\<lambda>(x, s). mutex_lock_round S H E (q, x, s))))"

definition is_unwinding :: "bool \<Rightarrow> ('w, 'q) kstate \<Rightarrow> (bool \<times> ('w, 'q) kstate) res" where
  "is_unwinding isr_unwinding s =
     (if in_isr s then Inr (isr_unwinding, s) else with_cur_task (\<lambda>c s. Inr (t_is_unwinding (tasks s c), s)) s)"

definition mutex_guard_drop ::
  "'l raw_spin \<Rightarrow> ('w, 'q) kstate holdable \<Rightarrow> ('w, 'q) kenv \<Rightarrow> bool \<Rightarrow> ('l mutex_core, 'w, 'q) wq_state
     \<Rightarrow> (unit \<times> ('l mutex_core, 'w, 'q) wq_state) res" where
  "mutex_guard_drop S H E isr_unwinding = (\<lambda>(q, x, s).
     bindr (with_owner S (\<lambda>ow s. (None, case ow of Some t \<Rightarrow> upd_task t restore_intrinsic_priority s | None \<Rightarrow> s)) (x, s)) (\<lambda>(x, s).
     bindr (is_unwinding isr_unwinding s) (\<lambda>(u, s).
       let x = (if u then x\<lparr>poisoned := True\<rparr> else x);
           (l, s) = gs_guard_drop S H (mx_spin x, s)
       in notify_one_allow_isr E (q, x\<lparr>mx_spin := l\<rparr>, s))))"

definition mutex_force_unlock ::
  "'l raw_spin \<Rightarrow> ('w, 'q) kstate holdable \<Rightarrow> ('w, 'q) kenv \<Rightarrow> ('l mutex_core, 'w, 'q) wq_state
     \<Rightarrow> (unit \<times> ('l mutex_core, 'w, 'q) wq_state) res" where
  "mutex_force_unlock S H E = (\<lambda>(q, x, s).
     bindr (with_owner S (\<lambda>ow s. (None, s)) (x, s)) (\<lambda>(x, s).
       let (l, s) = gs_force_unlock S (compound_holdable hold_scheduler H) (mx_spin x, s)
       in notify_one_allow_isr E (q, x\<lparr>mx_spin := l\<rparr>, s)))"

section \<open>The invariant of a mutex\<close>

text \<open>Between operations of tasks: the lock of the owner is free, and the data is locked exactly if
  there is an owner.\<close>

definition mutex_ok :: "'l raw_spin \<Rightarrow> 'l mutex_core \<Rightarrow> bool" where
  "mutex_ok S x \<longleftrightarrow> \<not> rs_is_locked S (owner_lock x) \<and> (rs_is_locked S (mx_spin x) \<longleftrightarrow> mx_owner x \<noteq> None)"

context raw_spin_lock
begin

lemma with_owner_eq:
  assumes "\<not> rs_is_locked S (owner_lock x)" "f (mx_owner x) (suspend s) = (ow, s1)"
  shows "\<exists>l. with_owner S f (x, s) = Inr (x\<lparr>mx_owner := ow, owner_lock := l\<rparr>, resume s1) \<and> \<not> rs_is_locked S l"
proof -
  obtain l where "gs_lock_now_or_die S hold_scheduler (owner_lock x, s) = Inr (l, suspend s)"
    using gs_now_free[OF assms(1), of hold_scheduler s] by auto
  then show ?thesis using assms(2) unlock_free by (auto simp: with_owner_def gs_guard_drop_def)
qed

lemma with_owner_locked: "rs_is_locked S (owner_lock x) \<Longrightarrow> with_owner S f (x, s) = Inl Die"
  by (simp add: with_owner_def gs_now_locked)

lemma try_lock_taken: "rs_is_locked S (mx_spin x) \<Longrightarrow> mutex_try_lock S H (x, s) = Inr (None, x, s)"
  by (cases x) (simp add: mutex_try_lock_def gs_try_locked)

lemma try_lock_takes:
  assumes "mutex_ok S x" "\<not> rs_is_locked S (mx_spin x)" "cur_task s = Some c" "\<not> in_isr s" "suspend_cnt s \<noteq> - 1" "suspend_cnt s \<noteq> - 2"
  shows "\<exists>x'. mutex_try_lock S hold_nothing (x, s) = Inr (Some (), x', resume (suspend s)) \<and> mutex_ok S x' \<and> mx_owner x' = Some c
    \<and> poisoned x' = poisoned x"
proof -
  obtain l where l: "gs_try_lock S (compound_holdable hold_scheduler hold_nothing) (mx_spin x, s) = (True, l, suspend s)" "rs_is_locked S l"
    using gs_try_free[OF assms(2), of "compound_holdable hold_scheduler hold_nothing" s] by auto
  obtain l' where o: "with_owner S (\<lambda>_ s. (Some c, s)) (x\<lparr>mx_spin := l\<rparr>, suspend (suspend s)) =
      Inr (x\<lparr>mx_spin := l, mx_owner := Some c, owner_lock := l'\<rparr>, resume (suspend (suspend (suspend s))))" "\<not> rs_is_locked S l'"
    using with_owner_eq[of "x\<lparr>mx_spin := l\<rparr>" "\<lambda>_ s. (Some c, s)" "suspend (suspend s)"] assms(1) by (auto simp: mutex_ok_def)
  have "suspend_cnt s + 1 \<noteq> 0" "suspend_cnt s + 1 + 1 \<noteq> 0" using assms(5,6)
    by (metis add.commute add_eq_0_iff2 eq_neg_iff_add_eq_0, metis add.assoc eq_neg_iff_add_eq_0 one_add_one)
  then have "suspend_cnt (suspend (suspend s)) \<noteq> 0" "suspend_cnt (suspend s) \<noteq> 0" by simp_all
  note r = this[THEN resume_suspended]
  then have "mutex_try_lock S hold_nothing (x, s) = Inr (Some (), x\<lparr>mx_spin := l, mx_owner := Some c, owner_lock := l'\<rparr>, resume (suspend s))"
    using l(1) o(1) assms(3,4) r
    by (simp add: mutex_try_lock_def with_cur_task_def with_suspended_scheduler_def with_cur_task_explicit_sched_suspend_def)
  then show ?thesis using l(2) o(2) by (simp add: mutex_ok_def)
qed

end

text \<open>Changes of priorities do not matter to the invariant of the scheduler.\<close>

lemma sched_ok_fields:
  assumes "sched_ok xs c s"
    and "\<And>u. t_state (tasks s' u) = t_state (tasks s u) \<and> t_ctxt_locked (tasks s' u) = t_ctxt_locked (tasks s u) \<and> t_is_idle (tasks s' u) = t_is_idle (tasks s u)"
    and "cur_task s' = cur_task s" "started s' = started s" "cur_task_idle s' = cur_task_idle s"
  shows "sched_ok xs c s'"
  using assms(1) unfolding sched_ok_def assms(3-5) by (simp add: assms(2))

lemma ceil_fields [simp]:
  "t_state (ceil_priority_from u t) = t_state t" "t_ctxt_locked (ceil_priority_from u t) = t_ctxt_locked t"
  "t_is_idle (ceil_priority_from u t) = t_is_idle t"
  by (simp_all add: ceil_priority_from_def split: option.split)

lemma restore_fields [simp]:
  "t_state (restore_intrinsic_priority t) = t_state t" "t_ctxt_locked (restore_intrinsic_priority t) = t_ctxt_locked t"
  "t_is_idle (restore_intrinsic_priority t) = t_is_idle t" "t_is_unwinding (restore_intrinsic_priority t) = t_is_unwinding t"
  by (simp_all add: restore_intrinsic_priority_def)

lemma ceil_priority:
  "effective_priority (t_priority (ceil_priority_from u t)) \<le> effective_priority (t_priority u)"
  "effective_priority (t_priority (ceil_priority_from u t)) \<le> effective_priority (t_priority t)"
  "intrinsic_priority (t_priority (ceil_priority_from u t)) = intrinsic_priority (t_priority t)"
  by (auto simp: ceil_priority_from_def try_inherit_from_def)

text \<open>The kernel after a task has been changed in between a suspension and its end.\<close>

definition retasked :: "(tid \<Rightarrow> task) \<Rightarrow> ('w, 'q) kstate \<Rightarrow> ('w, 'q) kstate" where
  "retasked ts s = (resume (suspend s))\<lparr>tasks := ts\<rparr>"

lemma retasked_fields [simp]:
  "tasks (retasked ts s) = ts" "lists (retasked ts s) = lists s" "cur_task (retasked ts s) = cur_task s"
  "suspend_cnt (retasked ts s) = suspend_cnt s" "in_isr (retasked ts s) = in_isr s"
  by (simp_all add: retasked_def)

lemma kern_ok_retasked:
  assumes "kern_ok elems queued c s"
    and "\<And>u. t_state (ts u) = t_state (tasks s u) \<and> t_ctxt_locked (ts u) = t_ctxt_locked (tasks s u) \<and> t_is_idle (ts u) = t_is_idle (tasks s u)"
  shows "kern_ok elems queued c (retasked ts s)"
proof -
  have "sched_ok (elems (lists s)) c (retasked ts s)"
    by (rule sched_ok_fields[of _ _ s]) (use assms in \<open>auto simp: kern_ok_def retasked_def\<close>)
  then show ?thesis using assms(1) by (simp add: kern_ok_def rq_free_def retasked_def)
qed

lemma resume_upd: "resume (upd_task t f (suspend s)) = retasked ((tasks s)(t := f (tasks s t))) s"
  by (cases s) (simp add: retasked_def upd_task_def suspend_def resume_eq)

locale mutex_env = kernel_lib E elems queued + raw_spin_lock S
  for E :: "('w, 'q) kenv" and elems queued and S :: "'l raw_spin"
begin

lemma inherit_eq:
  assumes "mutex_ok S x" "mx_owner x = Some t" "cur_task s = Some c" "suspend_cnt s = 0"
  shows "\<exists>x'. inherit_priority S (x, s) = Inr (x', retasked ((tasks s)(t := ceil_priority_from (tasks s c) (tasks s t))) s)
    \<and> mutex_ok S x' \<and> mx_owner x' = Some t \<and> mx_spin x' = mx_spin x"
proof -
  let ?f = "\<lambda>ow s. (ow, case ow of Some owner \<Rightarrow> upd_task owner (ceil_priority_from (tasks s c)) s | None \<Rightarrow> s)"
  obtain l where l: "with_owner S ?f (x, suspend s) =
      Inr (x\<lparr>mx_owner := Some t, owner_lock := l\<rparr>, resume (upd_task t (ceil_priority_from (tasks s c)) (suspend (suspend s))))" "\<not> rs_is_locked S l"
    using with_owner_eq[of x ?f "suspend s"] assms(1,2) by (auto simp: mutex_ok_def)
  have "resume (resume (upd_task t (ceil_priority_from (tasks s c)) (suspend (suspend s)))) =
      retasked ((tasks s)(t := ceil_priority_from (tasks s c) (tasks s t))) s"
    using assms(4) by (cases s) (simp add: retasked_def upd_task_def suspend_def resume_eq)
  then have "inherit_priority S (x, s) = Inr (x\<lparr>mx_owner := Some t, owner_lock := l\<rparr>, retasked ((tasks s)(t := ceil_priority_from (tasks s c) (tasks s t))) s)"
    using l(1) assms(3) by (simp add: inherit_priority_def with_cur_task_def with_suspended_scheduler_def with_cur_task_explicit_sched_suspend_def)
  then show ?thesis using l(2) assms(1,2) by (simp add: mutex_ok_def)
qed

lemma mutex_lock_free:
  assumes "kern_ok elems queued c s" "may_block c s" "mutex_ok S x" "mx_owner x = None"
  shows "\<exists>x'. mutex_lock S hold_nothing E (q, x, s) = Inr (Some (), q, x', resume (suspend s))
    \<and> mutex_try_lock S hold_nothing (x, s) = Inr (Some (), x', resume (suspend s)) \<and> mutex_ok S x' \<and> mx_owner x' = Some c
    \<and> poisoned x' = poisoned x"
proof -
  have "\<not> rs_is_locked S (mx_spin x)" "cur_task s = Some c" "\<not> in_isr s" "suspend_cnt s \<noteq> - 1" "suspend_cnt s \<noteq> - 2"
    using assms by (simp_all add: mutex_ok_def kern_ok_def sched_ok_def may_block_def)
  from try_lock_takes[OF assms(3) this] show ?thesis by (auto simp: mutex_lock_def)
qed

lemma mutex_lock_contended:
  assumes K: "kern_ok elems queued c s" "may_block c s" and q: "wq_free q" and m: "mutex_ok S x" "mx_owner x = Some t"
  shows "\<exists>x' s'. mutex_lock S hold_nothing E (q, x, s) = Inr (None, q, x', s') \<and> mutex_ok S x' \<and> mx_owner x' = Some t
    \<and> kern_ok elems queued c s' \<and> pendsv s'
    \<and> tasks s' = (let ts = (tasks s)(t := ceil_priority_from (tasks s c) (tasks s t)) in ts(c := set_state Blocked (ts c)))
    \<and> elems (lists s') = (elems (lists s))(Wait_List (wq_list q) := elems (lists s) (Wait_List (wq_list q)) @ [c])"
proof -
  let ?ts = "(tasks s)(t := ceil_priority_from (tasks s c) (tasks s t))"
  have c: "cur_task s = Some c" "suspend_cnt s = 0" using K by (simp_all add: kern_ok_def sched_ok_def may_block_def)
  obtain x' where x': "inherit_priority S (x, s) = Inr (x', retasked ?ts s)" "mutex_ok S x'" "mx_owner x' = Some t" "mx_spin x' = mx_spin x"
    using inherit_eq[OF m c] by blast
  have lk: "rs_is_locked S (mx_spin x)" using m by (simp add: mutex_ok_def)
  have "kern_ok elems queued c (retasked ?ts s)" by (rule kern_ok_retasked[OF K(1)]) simp
  moreover have "may_block c (retasked ?ts s)" using K(2) by (auto simp: may_block_def)
  ultimately obtain s' where s': "wait_until E (mutex_try_lock S hold_nothing) (q, x', retasked ?ts s) = Inr (None, q, x', s')"
    "kern_ok elems queued c s'" "tasks s' = ?ts(c := set_state Blocked (?ts c))" "pendsv s'"
    "elems (lists s') = (elems (lists s))(Wait_List (wq_list q) := elems (lists s) (Wait_List (wq_list q)) @ [c])"
    using wait_block_keeps[where condition = "mutex_try_lock S hold_nothing" and x = x', OF _ q] try_lock_taken[of x' hold_nothing] lk x'(4)
    by (metis retasked_fields(1,2))
  then have "mutex_lock S hold_nothing E (q, x, s) = Inr (None, q, x', s')"
    using x'(1) try_lock_taken[OF lk, of hold_nothing s] by (simp add: mutex_lock_def mutex_lock_round_def)
  then show ?thesis using s' x' by (simp add: Let_def)
qed

lemma mutex_drop_eq:
  assumes K: "kern_ok elems queued c s" "may_block c s" and q: "wq_free q" and m: "mutex_ok S x" "mx_owner x = Some c"
  shows "\<exists>x' s'. mutex_guard_drop S hold_nothing E iu (q, x, s) = Inr ((), q, x', s') \<and> mutex_ok S x' \<and> mx_owner x' = None
    \<and> poisoned x' = (poisoned x \<or> t_is_unwinding (tasks s c)) \<and> kern_ok elems queued c s' \<and> calm c (retasked ((tasks s)(c := restore_intrinsic_priority (tasks s c))) s) s'
    \<and> woken (elems (lists s)) (Wait_List (wq_list q)) (retasked ((tasks s)(c := restore_intrinsic_priority (tasks s c))) s) (elems (lists s'))"
proof -
  let ?f = "\<lambda>ow s. (None, case ow of Some t \<Rightarrow> upd_task t restore_intrinsic_priority s | None \<Rightarrow> s)"
  let ?s = "retasked ((tasks s)(c := restore_intrinsic_priority (tasks s c))) s"
  have c: "cur_task s = Some c" "suspend_cnt s = 0" "\<not> in_isr s" using K by (simp_all add: kern_ok_def sched_ok_def may_block_def)
  obtain l where l: "with_owner S ?f (x, s) = Inr (x\<lparr>mx_owner := None, owner_lock := l\<rparr>, ?s)" "\<not> rs_is_locked S l"
    using with_owner_eq[of x ?f s] m by (auto simp: mutex_ok_def resume_upd)
  have id: "resume (suspend ?s) = ?s" using c(2) by (cases s) (simp add: retasked_def resume_eq suspend_def)
  have u: "is_unwinding iu ?s = Inr (t_is_unwinding (tasks s c), ?s)"
    using c id by (simp add: is_unwinding_def with_cur_task_def with_suspended_scheduler_def with_cur_task_explicit_sched_suspend_def)
  define x' where "x' = x\<lparr>mx_owner := None, owner_lock := l, poisoned := poisoned x \<or> t_is_unwinding (tasks s c), mx_spin := rs_unlock S (mx_spin x)\<rparr>"
  have "mutex_guard_drop S hold_nothing E iu (q, x, s) = notify_one_allow_isr E (q, x', ?s)"
    using l(1) u by (cases x) (simp add: mutex_guard_drop_def gs_guard_drop_def x'_def Let_def)
  moreover have "kern_ok elems queued c ?s" by (rule kern_ok_retasked[OF K(1)]) simp
  then obtain s' where "notify_one_allow_isr E (q, x', ?s) = Inr ((), q, x', s')" "kern_ok elems queued c s'" "calm c ?s s'"
    "woken (elems (lists s)) (Wait_List (wq_list q)) ?s (elems (lists s'))" using notify_keeps[OF _ q, of c ?s x'] by auto
  ultimately show ?thesis using l(2) unlock_free by (intro exI[of _ x'] exI[of _ s']) (simp add: x'_def mutex_ok_def)
qed

text \<open>\<open>force_unlock\<close> releases the scheduler, which is not suspended on behalf of the mutex.\<close>

lemma force_unlock_eq:
  assumes "kern_ok elems queued c s" "suspend_cnt s = 0" "wq_free q" "mutex_ok S x" "elems (lists s) (Wait_List (wq_list q)) = []"
  shows "\<exists>x' s'. mutex_force_unlock S hold_nothing E (q, x, s) = Inr ((), q, x', s') \<and> mx_owner x' = None \<and> suspend_cnt s' = - 1"
proof -
  obtain l where l: "with_owner S (\<lambda>ow s. (None, s)) (x, s) = Inr (x\<lparr>mx_owner := None, owner_lock := l\<rparr>, resume (suspend s))"
    using with_owner_eq[of x "\<lambda>ow s. (None, s)" s] assms(4) by (auto simp: mutex_ok_def)
  let ?x = "x\<lparr>mx_owner := None, owner_lock := l, mx_spin := rs_unlock S (mx_spin x)\<rparr>" and ?s = "resume (resume (suspend s))"
  have "mutex_force_unlock S hold_nothing E (q, x, s) = notify_one_allow_isr E (q, ?x, ?s)"
    using l by (simp add: mutex_force_unlock_def gs_force_unlock_def Let_def)
  moreover have "suspend_cnt ?s = - 1" using assms(2) by simp
  ultimately show ?thesis using notify_one_empty[OF assms(3), of ?s ?x] assms(5) by auto
qed

end

interpretation lm: mutex_env "list_env cf" "\<lambda>w. w" "\<lambda>q. q" flag_spin for cf
  by unfold_locales

section \<open>Properties\<close>



text \<open>\<open>force_unlock\<close> of a mutex nobody waits for resumes the scheduler although locking a mutex
  leaves it running: the suspension counter wraps around to its maximum. From then on the scheduler
  counts as suspended, and waiting for any condition panics.\<close>

lemma mutex_force_unlock_underflows:
  assumes "mutex_env E elems queued S" "kern_ok elems queued c s" "suspend_cnt s = 0" "wq_free q" "mutex_ok S x"
    and "elems (lists s) (Wait_List (wq_list q)) = []"
  shows "\<exists>x' s'. mutex_force_unlock S hold_nothing E (q, x, s) = Inr ((), q, x', s') \<and> mx_owner x' = None
    \<and> unat (suspend_cnt s') = 2 ^ 32 - 1 \<and> is_suspended s' \<and> wait_until E condition (q', y, s') = Inl Panic"
proof -
  obtain x' s' where r: "mutex_force_unlock S hold_nothing E (q, x, s) = Inr ((), q, x', s')" "mx_owner x' = None" "suspend_cnt s' = - 1"
    using mutex_env.force_unlock_eq[OF assms] by blast
  have k: "kernel_lib E elems queued" using assms(1) by (rule mutex_env.axioms(1))
  have "wait_until E condition (q', y, s') = Inl Panic" by (rule kernel_lib.wait_until_panics[OF k]) (simp add: r(3))
  then show ?thesis using r by (intro exI[of _ x'] exI[of _ s']) (simp add: is_suspended_def word_gt_0 unsigned_minus_1_eq_mask mask_eq_exp_minus_1)
qed

end
