(* ===== verification/Task_Builder.thy ===== *)
theory Task_Builder
  imports Sched_Correct Stack_Correct
begin

text \<open>
  Creation of tasks: \<open>src/task/builder.rs\<close>, and the types of the task struct. The system state is the
  state of the scheduler with that of the stacks and the heap. What a macro of the source defines
  once for several methods is one definition with the differing function as an argument. The
  address at which \<open>Arc::new\<close> puts a task struct is an argument.
\<close>

section \<open>The builder\<close>

record task_builder =
  entry_closure :: "entry option"
  b_stack_limit :: "u32 option"
  stack_init_size :: "u32 option"
  stack_is_dynamic :: bool
  b_priority :: "u8 option"
  b_id :: "u8 option"

definition builder_new :: task_builder where
  "builder_new = \<lparr>entry_closure = None, b_stack_limit = None, stack_init_size = None, stack_is_dynamic = True,
     b_priority = None, b_id = None\<rparr>"

definition set_id :: "u8 \<Rightarrow> task_builder \<Rightarrow> task_builder" where
  "set_id i b = b\<lparr>b_id := Some i\<rparr>"

definition set_stack_limit :: "u32 \<Rightarrow> task_builder \<Rightarrow> task_builder" where
  "set_stack_limit limit b = b\<lparr>b_stack_limit := Some limit\<rparr>"

definition set_stack_init_size :: "u32 \<Rightarrow> task_builder \<Rightarrow> task_builder" where
  "set_stack_init_size n b = b\<lparr>stack_init_size := Some n\<rparr>"

definition set_priority :: "u8 \<Rightarrow> task_builder \<Rightarrow> task_builder" where
  "set_priority prio b = b\<lparr>b_priority := Some prio\<rparr>"

definition set_entry :: "entry \<Rightarrow> task_builder \<Rightarrow> task_builder" where
  "set_entry closure b = b\<lparr>entry_closure := Some closure\<rparr>"

definition disable_dynamic_stack :: "task_builder \<Rightarrow> task_builder" where
  "disable_dynamic_stack b = b\<lparr>stack_is_dynamic := False\<rparr>"

text \<open>\<open>NonZeroUsize::new\<close>.\<close>

definition non_zero :: "u32 \<Rightarrow> u32 option" where
  "non_zero n = (if n = 0 then None else Some n)"

definition parse_stack_config :: "task_builder \<Rightarrow> task_build_error + stack_config" where
  "parse_stack_config b =
     (if stack_is_dynamic b
      then Inr (Dynamic (Option.bind (stack_init_size b) non_zero) (Option.bind (b_stack_limit b) non_zero))
      else case b_stack_limit b of
             Some limit \<Rightarrow> if limit = 0 then Inl NoStack else Inr (Static limit)
           | None \<Rightarrow> Inl NoStack)"

section \<open>Spawning\<close>

type_synonym build_fn =
  "task_env \<Rightarrow> cpu \<Rightarrow> u8 \<Rightarrow> entry \<Rightarrow> stack_config \<Rightarrow> u8 \<Rightarrow> stk_state \<Rightarrow> ((task_build_error + task) \<times> stk_state) option"

text \<open>Build the task under a quota and hand it to the scheduler; when the build fails, dropping the
  task struct releases the quota.\<close>

definition build_and_accept ::
  "build_fn \<Rightarrow> ('w, 'q) kenv \<Rightarrow> task_env \<Rightarrow> cpu \<Rightarrow> tid \<Rightarrow> u8 \<Rightarrow> entry \<Rightarrow> stack_config \<Rightarrow> u8 \<Rightarrow> ('w, 'q) kstate \<Rightarrow> stk_state
     \<Rightarrow> ((task_build_error + unit) \<times> ('w, 'q) kstate \<times> stk_state) res" where
  "build_and_accept build E T c t ident closure sc prio s st =
     (case build T c ident closure sc prio st of
        None \<Rightarrow> Inl Die
      | Some (Inl e, st) \<Rightarrow> Inr (Inl e, quota_drop s, st)
      | Some (Inr new_task, st) \<Rightarrow>
          bindr (accept_task E t (s\<lparr>tasks := (tasks s)(t := new_task)\<rparr>)) (\<lambda>(_, s). Inr (Inr (), s, st)))"

definition define_task_spawn ::
  "build_fn \<Rightarrow> ('w, 'q) kenv \<Rightarrow> task_env \<Rightarrow> cpu \<Rightarrow> tid \<Rightarrow> task_builder \<Rightarrow> ('w, 'q) kstate \<Rightarrow> stk_state
     \<Rightarrow> ((task_build_error + unit) \<times> ('w, 'q) kstate \<times> stk_state) res" where
  "define_task_spawn build E T c t b s st =
     (case parse_stack_config b of
        Inl e \<Rightarrow> Inr (Inl e, s, st)
      | Inr sc \<Rightarrow>
          (case entry_closure b of
             None \<Rightarrow> Inr (Inl NoEntry, s, st)
           | Some closure \<Rightarrow>
               let ident = (case b_id b of Some i \<Rightarrow> i | None \<Rightarrow> DEFAULT_TASK_ID (kconf E));
                   prio = (case b_priority b of Some p \<Rightarrow> p | None \<Rightarrow> DEFAULT_TASK_PRIORITY (kconf E))
               in (case request_task_quota (kconf E) s of
                     (None, s) \<Rightarrow> Inr (Inl NoMoreTask, s, st)
                   | (Some _, s) \<Rightarrow> build_and_accept build E T c t ident closure sc prio s st)))"

definition spawn where "spawn = define_task_spawn task_build"
definition spawn_restartable where "spawn_restartable = define_task_spawn build_restartable"
definition spawn_restartable_no_concur where "spawn_restartable_no_concur = define_task_spawn build_restartable_no_concur"

text \<open>\<open>None\<close> is \<open>Err(())\<close>. The panicked task is \<open>prev\<close>.\<close>

definition try_spawn_restarted ::
  "('w, 'q) kenv \<Rightarrow> task_env \<Rightarrow> cpu \<Rightarrow> tid \<Rightarrow> tid \<Rightarrow> ('w, 'q) kstate \<Rightarrow> stk_state \<Rightarrow> (unit option \<times> ('w, 'q) kstate \<times> stk_state) res" where
  "try_spawn_restarted E T c t prev s st =
     (case request_task_quota (kconf E) s of
        (None, s) \<Rightarrow> Inr (None, s, st)
      | (Some _, s) \<Rightarrow>
          (case build_restarted T c prev (tasks s prev) st of
             None \<Rightarrow> Inl Die
           | Some (new_task, prev_task, st) \<Rightarrow>
               bindr (accept_task E t (s\<lparr>tasks := (tasks s)(prev := prev_task, t := new_task)\<rparr>)) (\<lambda>(_, s).
                 Inr (Some (), s, st))))"

section \<open>Breathing tasks\<close>

text \<open>The three closures; \<open>breathing\<close> (\<open>src/task/breathing.rs\<close>) makes the entry closure of them.\<close>

record ('i, 'wt, 'wk) breathing_builder =
  bb_init :: "'i option"
  bb_wait :: "'wt option"
  bb_work :: "'wk option"
  bb_stack_limit :: "u32 option"
  bb_stack_init_size :: "u32 option"
  bb_priority :: "u8 option"
  bb_id :: "u8 option"

definition breathing_builder_new :: "('i, 'wt, 'wk) breathing_builder" where
  "breathing_builder_new = \<lparr>bb_init = None, bb_wait = None, bb_work = None, bb_stack_limit = None, bb_stack_init_size = None,
     bb_priority = None, bb_id = None\<rparr>"

definition set_init :: "'i \<Rightarrow> ('i, 'wt, 'wk) breathing_builder \<Rightarrow> ('i, 'wt, 'wk) breathing_builder" where
  "set_init f b = b\<lparr>bb_init := Some f\<rparr>"

definition set_wait :: "'wt \<Rightarrow> ('i, 'wt, 'wk) breathing_builder \<Rightarrow> ('i, 'wt, 'wk) breathing_builder" where
  "set_wait f b = b\<lparr>bb_wait := Some f\<rparr>"

definition set_work :: "'wk \<Rightarrow> ('i, 'wt, 'wk) breathing_builder \<Rightarrow> ('i, 'wt, 'wk) breathing_builder" where
  "set_work f b = b\<lparr>bb_work := Some f\<rparr>"

definition define_breathing_task_spawn ::
  "('i \<Rightarrow> 'wt \<Rightarrow> 'wk \<Rightarrow> entry) \<Rightarrow> build_fn \<Rightarrow> ('w, 'q) kenv \<Rightarrow> task_env \<Rightarrow> cpu \<Rightarrow> tid \<Rightarrow> ('i, 'wt, 'wk) breathing_builder \<Rightarrow> ('w, 'q) kstate
     \<Rightarrow> stk_state \<Rightarrow> ((task_build_error + unit) \<times> ('w, 'q) kstate \<times> stk_state) res" where
  "define_breathing_task_spawn entry_constr build E T c t b s st =
     (case (bb_init b, bb_wait b, bb_work b) of
        (Some init, Some wait, Some work) \<Rightarrow>
          let ident = (case bb_id b of Some i \<Rightarrow> i | None \<Rightarrow> DEFAULT_TASK_ID (kconf E));
              prio = (case bb_priority b of Some p \<Rightarrow> p | None \<Rightarrow> DEFAULT_TASK_PRIORITY (kconf E))
          in (case request_task_quota (kconf E) s of
                (None, s) \<Rightarrow> Inr (Inl NoMoreTask, s, st)
              | (Some _, s) \<Rightarrow>
                  let sc = Dynamic (Option.bind (bb_stack_init_size b) non_zero) (Option.bind (bb_stack_limit b) non_zero)
                  in build_and_accept build E T c t ident (entry_constr init wait work) sc prio s st)
      | _ \<Rightarrow> Inr (Inl NoEntry, s, st))"

end
