(* ===== verification/Task_Types.thy ===== *)
theory Task_Types
  imports Task_Builder
begin

text \<open>
  The types of tasks: what every task struct satisfies from its construction on, and that the
  builder, the restart, the scheduler and the priority operations keep it.
\<close>

section \<open>Well-formed tasks\<close>

text \<open>A saved context has 8 general purpose and 16 floating point words; sizes of stacks are not zero; the
  intrinsic priority is an existing level and an inherited one is higher; the caches against hot
  splits have the configured size and exist for dynamic stacks only; what a restart needs is there
  altogether or not at all.\<close>

definition scb_wf :: "config \<Rightarrow> stack_ctrl_block \<Rightarrow> bool" where
  "scb_wf cf b \<longleftrightarrow> length (hot_split_cause_signatures b) = HOT_SPLIT_PREVENTION_CACHE_SIZE cf
     \<and> length (add_sizes b) = HOT_SPLIT_PREVENTION_CACHE_SIZE cf"

definition task_wf :: "config \<Rightarrow> task \<Rightarrow> bool" where
  "task_wf cf t \<longleftrightarrow> length (gp_regs (t_ctxt t)) = 8 \<and> length (fp_regs (t_ctxt t)) = 16 \<and> stack_config_wf (t_stack_config t)
     \<and> prio_wf (t_priority t) \<and> intrinsic_priority (t_priority t) < TASK_PRIORITY_LEVELS cf
     \<and> (\<forall>b. t_scb t = Some b \<longrightarrow> scb_wf cf b \<and> (\<exists>i l. t_stack_config t = Dynamic i l))
     \<and> (t_downcast_func t = None \<longleftrightarrow> t_entry_closure t = None) \<and> (t_restart_entry_trampoline t = None \<longleftrightarrow> t_entry_closure t = None)
     \<and> (t_concurrent_restartable t \<longrightarrow> is_restartable t)"

text \<open>A struct that is being built: no stack yet.\<close>

definition unbuilt :: "config \<Rightarrow> task \<Rightarrow> bool" where
  "unbuilt cf t \<longleftrightarrow> task_wf cf t \<and> t_scb t = None"

lemma task_new_wf: "0 < TASK_PRIORITY_LEVELS cf \<Longrightarrow> unbuilt cf (task_new cf idle)"
  by (auto simp: unbuilt_def task_wf_def task_new_def task_ctxt_default_def new_intrinsic_def is_restartable_def word_less_nat_alt unat_sub_if' word_le_nat_alt)

lemma initialize_common_result:
  assumes "initialize_common T c i p tr sc prio t st = Some (Inr t', st')"
  shows "\<exists>b e. t' = t\<lparr>t_scb := (case sc of Static _ \<Rightarrow> t_scb t | Dynamic _ _ \<Rightarrow> Some (scb_default (conf (stkenv T)))),
      t_initial_stklet := b, t_stack_config := sc,
      t_ctxt := (t_ctxt t)\<lparr>ctx_sp := e, ctx_tls := (ctx_tls (t_ctxt t))\<lparr>stklet_bound := stklet_ptr_to_bound b\<rparr>\<rparr>,
      t_id := i, t_state := Ready, t_priority := new_intrinsic prio\<rparr> \<and> prio < TASK_PRIORITY_LEVELS (conf (stkenv T))"
proof (cases "alloc_initial_stacklet (stkenv T) c (stack_alloc_size sc) st")
  case None
  then show ?thesis using assms by (simp add: initialize_common_def Let_def split: if_splits)
next
  case (Some a)
  obtain b en st1 where a: "a = ((b, en), st1)" by (metis prod.exhaust)
  have "t' = t\<lparr>t_scb := (case sc of Static _ \<Rightarrow> t_scb t | Dynamic _ _ \<Rightarrow> Some (scb_default (conf (stkenv T)))),
      t_initial_stklet := b, t_stack_config := sc,
      t_ctxt := (t_ctxt t)\<lparr>ctx_sp := if t_is_idle t then en else en - TRAP_FRAME_SIZE, ctx_tls := (ctx_tls (t_ctxt t))\<lparr>stklet_bound := stklet_ptr_to_bound b\<rparr>\<rparr>,
      t_id := i, t_state := Ready, t_priority := new_intrinsic prio\<rparr> \<and> prio < TASK_PRIORITY_LEVELS (conf (stkenv T))"
    using assms Some a by (cases sc) (auto simp: initialize_common_def Let_def not_le split: if_splits)
  then show ?thesis by blast
qed

lemma initialize_common_wf:
  assumes "unbuilt (conf (stkenv T)) t" "stack_config_wf sc" "initialize_common T c i p tr sc prio t st = Some (Inr t', st')"
  shows "task_wf (conf (stkenv T)) t' \<and> (t_entry_closure t' = t_entry_closure t) \<and> t_state t' = Ready \<and> t_id t' = i
    \<and> t_priority t' = Intrinsic prio \<and> t_stack_config t' = sc \<and> t_ctxt_locked t' = t_ctxt_locked t \<and> t_is_idle t' = t_is_idle t
    \<and> t_restarted_from t' = t_restarted_from t \<and> t_is_unwinding t' = t_is_unwinding t"
proof -
  obtain b e where t': "t' = t\<lparr>t_scb := (case sc of Static _ \<Rightarrow> t_scb t | Dynamic _ _ \<Rightarrow> Some (scb_default (conf (stkenv T)))),
      t_initial_stklet := b, t_stack_config := sc,
      t_ctxt := (t_ctxt t)\<lparr>ctx_sp := e, ctx_tls := (ctx_tls (t_ctxt t))\<lparr>stklet_bound := stklet_ptr_to_bound b\<rparr>\<rparr>,
      t_id := i, t_state := Ready, t_priority := new_intrinsic prio\<rparr>" "prio < TASK_PRIORITY_LEVELS (conf (stkenv T))"
    using initialize_common_result[OF assms(3)] by blast
  have "scb_wf (conf (stkenv T)) (scb_default (conf (stkenv T)))" by (simp add: scb_wf_def scb_default_def)
  then show ?thesis using assms(1,2) t'(2) unfolding t'(1)
    by (cases sc) (simp_all add: unbuilt_def task_wf_def new_intrinsic_def is_restartable_def)
qed

lemma initialize_common_error:
  "initialize_common T c i p tr sc prio t st = Some (Inl e, st') \<longleftrightarrow> e = PriorityNotAllowed \<and> st' = st \<and> TASK_PRIORITY_LEVELS (conf (stkenv T)) \<le> prio"
  by (auto simp: initialize_common_def Let_def split: option.splits stack_config.splits)

lemma initialize_common_none:
  assumes "prio < TASK_PRIORITY_LEVELS (conf (stkenv T))" "alloc_initial_stacklet (stkenv T) c (stack_alloc_size sc) st \<noteq> None"
  shows "\<exists>t' st'. initialize_common T c i p tr sc prio t st = Some (Inr t', st')"
  using assms by (auto simp: initialize_common_def Let_def not_le split: stack_config.splits)

text \<open>The three build functions of the builder.\<close>

definition builders :: "build_fn set" where
  "builders = {task_build, build_restartable, build_restartable_no_concur}"

lemma builders_wf:
  assumes "build \<in> builders" "0 < TASK_PRIORITY_LEVELS (conf (stkenv T))" "stack_config_wf sc" "build T c i f sc prio st = Some (Inr t', st')"
  shows "task_wf (conf (stkenv T)) t' \<and> t_state t' = Ready \<and> t_id t' = i \<and> t_priority t' = Intrinsic prio \<and> t_stack_config t' = sc
    \<and> \<not> t_ctxt_locked t' \<and> \<not> t_is_idle t'"
proof -
  let ?cf = "conf (stkenv T)"
  let ?r = "\<lambda>b. (task_new ?cf False)\<lparr>t_entry_closure := Some (closure_addr f), t_downcast_func := Some (closure_downcast f),
      t_restart_entry_trampoline := Some (restartable_task_entry f), t_concurrent_restartable := b\<rparr>"
  have u: "unbuilt ?cf (task_new ?cf False)" "unbuilt ?cf (?r b)" for b
    using task_new_wf[OF assms(2), of False] by (auto simp: unbuilt_def task_wf_def is_restartable_def)
  have n: "\<not> t_ctxt_locked (task_new ?cf False)" "\<not> t_is_idle (task_new ?cf False)" "t_entry_closure (task_new ?cf False) = None"
    by (simp_all add: task_new_def)
  consider "build = task_build" | b where "build T c i f sc prio st = initialize_restartable T c i f sc prio b (task_new ?cf False) st"
    using assms(1) by (auto simp: builders_def build_restartable_def build_restartable_no_concur_def)
  then show ?thesis
  proof cases
    case 1
    then show ?thesis using initialize_common_wf[OF u(1) assms(3)] assms(4) n by (auto simp: task_build_def initialize_def is_restartable_def)
  next
    case (2 b)
    have "initialize_common T c i (closure_downcast f (closure_addr f)) (restartable_task_entry f) sc prio (?r b) st = Some (Inr t', st')"
      using assms(4) unfolding 2 by (simp add: initialize_restartable_def Let_def)
    from initialize_common_wf[OF u(2) assms(3) this] show ?thesis using n by simp
  qed
qed

lemma builders_error:
  "build \<in> builders \<Longrightarrow> build T c i f sc prio st = Some (Inl e, st') \<longleftrightarrow>
     e = PriorityNotAllowed \<and> st' = st \<and> TASK_PRIORITY_LEVELS (conf (stkenv T)) \<le> prio"
  by (auto simp: builders_def task_build_def build_restartable_def build_restartable_no_concur_def initialize_def initialize_restartable_def Let_def
      initialize_common_error)

text \<open>A restart finds what it needs.\<close>

lemma restart_wf:
  assumes "task_wf (conf (stkenv T)) prev" "0 < TASK_PRIORITY_LEVELS (conf (stkenv T))" "build_restarted T c pid prev st = Some (t', prev', st')"
  shows "task_wf (conf (stkenv T)) t' \<and> task_wf (conf (stkenv T)) prev' \<and> t_state t' = Ready \<and> \<not> t_ctxt_locked t'
    \<and> t_restarted_from t' = Some pid \<and> prev' = prev\<lparr>t_has_restarted := True\<rparr> \<and> is_restartable t'
    \<and> t_id t' = t_id prev \<and> t_priority t' = Intrinsic (intrinsic_priority (t_priority prev)) \<and> t_stack_config t' = t_stack_config prev
    \<and> t_entry_closure t' = t_entry_closure prev \<and> \<not> t_is_unwinding t'"
proof -
  let ?cf = "conf (stkenv T)"
  obtain d cl tr where p: "t_downcast_func prev = Some d" "t_entry_closure prev = Some cl" "t_restart_entry_trampoline prev = Some tr"
    using assms(3) by (auto simp: build_restarted_def restart_from_def Let_def split: option.splits)
  let ?t = "(task_new ?cf False)\<lparr>t_downcast_func := Some d, t_entry_closure := Some cl, t_restart_entry_trampoline := Some tr,
      t_restarted_from := Some pid, t_concurrent_restartable := t_concurrent_restartable prev\<rparr>"
  have u: "unbuilt ?cf ?t" using task_new_wf[OF assms(2), of False] by (auto simp: unbuilt_def task_wf_def is_restartable_def)
  have r: "initialize_common T c (t_id prev) (d cl) tr (t_stack_config prev) (intrinsic_priority (t_priority prev)) ?t st = Some (Inr t', st')"
    "prev' = prev\<lparr>t_has_restarted := True\<rparr>"
    using assms(3) p by (auto simp: build_restarted_def restart_from_def Let_def split: option.splits sum.splits)
  have "task_wf ?cf prev'" using assms(1) r(2) by (simp add: task_wf_def is_restartable_def)
  moreover have "stack_config_wf (t_stack_config prev)" using assms(1) by (simp add: task_wf_def)
  ultimately show ?thesis using initialize_common_wf[OF u _ r(1)] p(2) r(2) by (simp add: is_restartable_def task_new_def)
qed

lemma restart_succeeds:
  assumes "task_wf (conf (stkenv T)) prev" "is_restartable prev"
    and "alloc_initial_stacklet (stkenv T) c (stack_alloc_size (t_stack_config prev)) st \<noteq> None"
  shows "build_restarted T c pid prev st \<noteq> None"
proof -
  obtain d cl tr where p: "t_downcast_func prev = Some d" "t_entry_closure prev = Some cl" "t_restart_entry_trampoline prev = Some tr"
    using assms(1,2) by (auto simp: task_wf_def is_restartable_def)
  have "intrinsic_priority (t_priority prev) < TASK_PRIORITY_LEVELS (conf (stkenv T))" using assms(1) by (simp add: task_wf_def)
  from initialize_common_none[OF this assms(3)] show ?thesis using p
    by (fastforce simp: build_restarted_def restart_from_def Let_def split: option.splits sum.splits)
qed

section \<open>Types of all tasks\<close>

definition typed :: "config \<Rightarrow> ('w, 'q) kstate \<Rightarrow> bool" where
  "typed cf s \<longleftrightarrow> (\<forall>t. task_wf cf (tasks s t))"

text \<open>An operation that keeps the types when it returns.\<close>

definition keeps :: "config \<Rightarrow> (('w, 'q) kstate \<Rightarrow> ('r \<times> ('w, 'q) kstate) res) \<Rightarrow> bool" where
  "keeps cf op \<longleftrightarrow> (\<forall>s r s'. typed cf s \<longrightarrow> op s = Inr (r, s') \<longrightarrow> typed cf s')"

lemma keepsI [intro]: "(\<And>s r s'. typed cf s \<Longrightarrow> op s = Inr (r, s') \<Longrightarrow> typed cf s') \<Longrightarrow> keeps cf op"
  by (auto simp: keeps_def)

lemma keepsD: "keeps cf op \<Longrightarrow> op s = Inr (r, s') \<Longrightarrow> typed cf s \<Longrightarrow> typed cf s'"
  by (auto simp: keeps_def)

lemma typed_upd: "typed cf s \<Longrightarrow> (\<And>x. task_wf cf x \<Longrightarrow> task_wf cf (f x)) \<Longrightarrow> typed cf (upd_task t f s)"
  by (simp add: typed_def upd_task_def)

lemma typed_tasks: "typed cf s \<Longrightarrow> tasks s' = tasks s \<Longrightarrow> typed cf s'"
  by (simp add: typed_def)

lemma wf_fields:
  assumes "task_wf cf x"
  shows "task_wf cf (set_state st x)" "task_wf cf (set_wake_tick w x)" "task_wf cf (set_unwind_flag b x)" "task_wf cf (force_unlock_ctxt x)"
    "task_wf cf (restore_intrinsic_priority x)" "prio < TASK_PRIORITY_LEVELS cf \<Longrightarrow> task_wf cf (change_intrinsic_priority prio x)"
    "task_wf cf (ceil_priority_from y x)"
proof -
  show "task_wf cf (set_state st x)" "task_wf cf (set_wake_tick w x)" "task_wf cf (set_unwind_flag b x)" "task_wf cf (force_unlock_ctxt x)"
    using assms by (simp_all add: task_wf_def set_state_def set_wake_tick_def set_unwind_flag_def force_unlock_ctxt_def is_restartable_def)
  show "task_wf cf (restore_intrinsic_priority x)"
    using assms by (simp add: task_wf_def restore_intrinsic_priority_def restore_intrinsic_def new_intrinsic_def is_restartable_def)
  show "task_wf cf (change_intrinsic_priority prio x)" if "prio < TASK_PRIORITY_LEVELS cf"
    using assms that by (cases "t_priority x") (simp_all add: task_wf_def change_intrinsic_priority_def is_restartable_def)
  show "task_wf cf (ceil_priority_from y x)"
  proof (cases "try_inherit_from (t_priority x) (t_priority y)")
    case (Some p)
    then have p: "p = Inherited (effective_priority (t_priority y)) (intrinsic_priority (t_priority x))"
      "effective_priority (t_priority y) < effective_priority (t_priority x)" by (auto simp: try_inherit_from_def not_le split: if_splits)
    then have "effective_priority (t_priority y) < intrinsic_priority (t_priority x)"
      using assms effective_le_intrinsic[of "t_priority x"] by (simp add: task_wf_def)
    then show ?thesis using assms Some p(1) by (simp add: task_wf_def ceil_priority_from_def is_restartable_def)
  qed (use assms in \<open>simp add: ceil_priority_from_def\<close>)
qed

lemma wf_lock: "task_wf cf x \<Longrightarrow> lock_ctxt x = Inr y \<Longrightarrow> task_wf cf y"
  by (auto simp: lock_ctxt_def task_wf_def is_restartable_def split: if_splits)

lemma typed_simps [simp]:
  "typed cf (resume s) = typed cf s" "typed cf (suspend s) = typed cf s" "typed cf (yield_current_task s) = typed cf s"
  "typed cf (s\<lparr>lists := w\<rparr>) = typed cf s" "typed cf (s\<lparr>insert_buffer := q\<rparr>) = typed cf s" "typed cf (s\<lparr>pending_ctxt_switch := b\<rparr>) = typed cf s"
  "typed cf (s\<lparr>rq_pending := b\<rparr>) = typed cf s" "typed cf (s\<lparr>rq_locked := b\<rparr>) = typed cf s" "typed cf (s\<lparr>cur_task := c\<rparr>) = typed cf s"
  "typed cf (s\<lparr>cur_task_idle := b\<rparr>) = typed cf s" "typed cf (s\<lparr>pendsv := b\<rparr>) = typed cf s" "typed cf (s\<lparr>exist_task_num := n\<rparr>) = typed cf s"
  "typed cf (run_idle_callbacks b b' s) = typed cf s"
  by (simp_all add: typed_def resume_def suspend_def yield_current_task_def run_idle_callbacks_def Let_def)

lemma keeps_suspended: "keeps cf op \<Longrightarrow> keeps cf (with_suspended_scheduler op)"
  by (rule keepsI) (auto simp: with_suspended_scheduler_def bindr_Inr dest: keepsD)

lemma keeps_cur_task: "(\<And>c. keeps cf (op c)) \<Longrightarrow> keeps cf (with_cur_task_explicit_sched_suspend op)"
  unfolding keeps_def with_cur_task_explicit_sched_suspend_def by (auto split: option.splits)

lemma keeps_cur: "(\<And>c. keeps cf (op c)) \<Longrightarrow> keeps cf (with_cur_task op)"
  unfolding with_cur_task_def[abs_def] by (intro keeps_suspended keeps_cur_task)

lemma run_pended_step_typed: "typed cf s \<Longrightarrow> typed cf (upd_task t (set_state st) s)"
  by (erule typed_upd) (rule wf_fields(1))

lemma run_pended_body:
  assumes IH: "\<And>(E :: ('w, 'q) kenv) c s r. rpl E c s = Some r \<Longrightarrow> typed cf s \<longrightarrow> (\<forall>s'. r = Inr s' \<longrightarrow> typed cf s')"
    and body: "(case mq_dequeue E (insert_buffer s) of
        None \<Rightarrow> Some (Inr s)
      | Some (t, q) \<Rightarrow>
          let s = s\<lparr>insert_buffer := q\<rparr>;
              s = (if should_preempt (kconf E) (tasks s t) (tasks s c) then s\<lparr>pending_ctxt_switch := True\<rparr> else s);
              s = upd_task t (set_state Ready) s
          in (case ll_push_back E Ready_List t (lists s) of
                Inl e \<Rightarrow> Some (Inl e)
              | Inr w \<Rightarrow> rpl E c (s\<lparr>lists := w\<rparr>))) = Some r"
  shows "typed cf s \<longrightarrow> (\<forall>s'. r = Inr s' \<longrightarrow> typed cf s')"
proof (intro impI allI)
  fix s' assume t: "typed cf s" and r: "r = Inr s'"
  show "typed cf s'"
  proof (cases "mq_dequeue E (insert_buffer s)")
    case None
    then show ?thesis using t r body by simp
  next
    case (Some tq)
    obtain u q where tq: "tq = (u, q)" by (cases tq)
    define s1 where "s1 = upd_task u (set_state Ready) (if should_preempt (kconf E) (tasks s u) (tasks s c)
        then s\<lparr>insert_buffer := q, pending_ctxt_switch := True\<rparr> else s\<lparr>insert_buffer := q\<rparr>)"
    obtain w where w: "rpl E c (s1\<lparr>lists := w\<rparr>) = Some r"
      using body Some tq r unfolding s1_def Let_def by (auto split: sum.splits if_splits)
    have "typed cf (s1\<lparr>lists := w\<rparr>)" unfolding s1_def using t by (simp add: run_pended_step_typed)
    then show ?thesis using IH[OF w] r by blast
  qed
qed

lemma run_pended_typed: "run_pended_loop E c s = Some r \<Longrightarrow> typed cf s \<longrightarrow> (\<forall>s'. r = Inr s' \<longrightarrow> typed cf s')"
  by (erule run_pended_loop.raw_induct[where P = "\<lambda>E c s r. typed cf s \<longrightarrow> (\<forall>s'. r = Inr s' \<longrightarrow> typed cf s')", rotated])
    (rule run_pended_body)

lemma rq_run_typed: "rq_run_pended_op E s = Inr s' \<Longrightarrow> typed cf s \<Longrightarrow> typed cf s'"
proof -
  have "keeps cf (\<lambda>s. bindr (bindr (or_die (run_pended_loop E c s)) (\<lambda>s. s)) (\<lambda>s. Inr ((), s)))" for c
    by (rule keepsI) (auto simp: bindr_Inr or_die_def split: option.splits dest: run_pended_typed)
  then have k: "keeps cf (with_cur_task (\<lambda>c s. bindr (bindr (or_die (run_pended_loop E c s)) (\<lambda>s. s)) (\<lambda>s. Inr ((), s))))" by (rule keeps_cur)
  show "rq_run_pended_op E s = Inr s' \<Longrightarrow> typed cf s \<Longrightarrow> typed cf s'"
    unfolding rq_run_pended_op_def by (auto simp: bindr_Inr dest: keepsD[OF k])
qed

lemma guard_drop_typed: "guard_drop (ready_queue E) s = Inr s' \<Longrightarrow> typed cf s \<Longrightarrow> typed cf s'"
  unfolding rq.guard_drop_eq by (auto simp: ready_queue_def bindr_Inr split: if_splits dest: rq_run_typed)

lemma keeps_access:
  assumes "keeps cf full" "keeps cf pend"
  shows "keeps cf (with_access (ready_queue E) full pend)" "keeps cf (must_with_full_access (ready_queue E) full)"
proof -
  have f: "typed cf s'" if "typed cf s" "full (set_locked (ready_queue E) True s) = Inr (r, s1)" "guard_drop (ready_queue E) s1 = Inr s'" for s r s1 s'
  proof -
    have "typed cf (set_locked (ready_queue E) True s)" using that(1) by (simp add: ready_queue_def)
    then have "typed cf s1" by (rule keepsD[OF assms(1) that(2)])
    then show ?thesis by (rule guard_drop_typed[OF that(3)])
  qed
  have p: "typed cf (set_pending (ready_queue E) True s1)" if "typed cf s" "pend s = Inr (r, s1)" for s r s1
    using keepsD[OF assms(2) that(2,1)] by (simp add: ready_queue_def)
  show "keeps cf (with_access (ready_queue E) full pend)" "keeps cf (must_with_full_access (ready_queue E) full)"
    by (rule keepsI; auto simp: with_access_def must_with_full_access_def bindr_Inr split: if_splits dest: f p)+
qed

lemma keeps_accept: "keeps cf (accept_task E t)"
proof -
  have full: "keeps cf (insert_full E t)"
    by (rule keepsI) (auto simp: insert_full_def with_cur_task_explicit_sched_suspend_def bindr_Inr Let_def run_pended_step_typed
        split: if_splits option.splits)
  have "keeps cf (insert_pend E t)" by (rule keepsI) (auto simp: insert_pend_def bindr_Inr)
  then show ?thesis unfolding accept_task_def by (intro keeps_suspended keeps_access full)
qed

lemma typed_update_cur: "update_cur_task t s = Inr s' \<Longrightarrow> typed cf s \<Longrightarrow> typed cf s'"
proof -
  assume u: "update_cur_task t s = Inr s'" and t: "typed cf s"
  let ?s = "case cur_task s of Some c \<Rightarrow> upd_task c force_unlock_ctxt s | None \<Rightarrow> s"
  have w: "typed cf ?s" using t by (auto intro: typed_upd wf_fields(4) split: option.splits)
  obtain x where x: "lock_ctxt (tasks ?s t) = Inr x" "s' = ?s\<lparr>tasks := (tasks ?s)(t := x), cur_task := Some t\<rparr>"
    using u by (auto simp: update_cur_task_def Let_def bindr_Inr)
  have "task_wf cf x" using wf_lock[OF _ x(1)] w by (simp add: typed_def)
  then show "typed cf s'" unfolding x(2) using w by (simp add: typed_def)
qed

lemma keeps_pick: "keeps cf (pick_next E)"
proof -
  have c: "keeps cf (clean_up_current E t)" for t
    by (rule keepsI) (auto simp: clean_up_current_def bindr_Inr Let_def run_pended_step_typed split: task_state.splits)
  have "keeps cf (pick_full E)"
  proof
    fix s r s' assume s: "typed cf s" and e: "pick_full E s = Inr (r, s')"
    then obtain u s1 rt w n where o: "with_cur_task_explicit_sched_suspend (clean_up_current E) s = Inr (u, s1)"
      "pop_highest_priority E (tasks s1) Ready_List (lists s1) = Inr (rt, w)" "or_die rt = Inr n"
      "bindr (update_cur_task n (run_idle_callbacks (cur_task_idle (upd_task n (set_state Running) (s1\<lparr>lists := w\<rparr>)))
          (t_is_idle (tasks (upd_task n (set_state Running) (s1\<lparr>lists := w\<rparr>)) n))
          (upd_task n (set_state Running) (s1\<lparr>lists := w\<rparr>)\<lparr>cur_task_idle := t_is_idle (tasks (upd_task n (set_state Running) (s1\<lparr>lists := w\<rparr>)) n)\<rparr>)))
        (\<lambda>s. Inr ((), s\<lparr>pending_ctxt_switch := False\<rparr>)) = Inr (r, s')"
      unfolding pick_full_def Let_def by (auto simp: bindr_Inr)
    have "typed cf s1" by (rule keepsD[OF keeps_cur_task[OF c] o(1) s])
    then have "typed cf (upd_task n (set_state Running) (s1\<lparr>lists := w\<rparr>))" by (intro run_pended_step_typed) simp
    then show "typed cf s'" using o(4) by (auto simp: bindr_Inr dest!: typed_update_cur[where cf = cf])
  qed
  then have "keeps cf (with_suspended_scheduler (must_with_full_access (ready_queue E) (pick_full E)))"
    by (intro keeps_suspended keeps_access)
  then show ?thesis unfolding keeps_def pick_next_def by (auto split: if_splits)
qed

section \<open>Kernel operations on tasks\<close>

text \<open>What happens to the tasks, in any order: tasks are spawned, by each of the methods of the builders, or
  restarted, made ready, chosen, destroyed, put to sleep, and their priorities change. The closures of a
  breathing task are their addresses.\<close>

inductive task_step ::
  "('w, 'q) kenv \<Rightarrow> task_env \<Rightarrow> cpu \<Rightarrow> ('w, 'q) kstate \<times> stk_state \<Rightarrow> ('w, 'q) kstate \<times> stk_state \<Rightarrow> bool" for E T c where
  step_spawn: "build \<in> builders \<Longrightarrow> define_task_spawn build E T c t b s st = Inr (r, s', st') \<Longrightarrow> task_step E T c (s, st) (s', st')"
| step_breathing: "build \<in> builders \<Longrightarrow> define_breathing_task_spawn (entry_constr :: u32 \<Rightarrow> u32 \<Rightarrow> u32 \<Rightarrow> entry) build E T c t b s st = Inr (r, s', st') \<Longrightarrow>
    task_step E T c (s, st) (s', st')"
| step_restart: "try_spawn_restarted E T c t prev s st = Inr (r', s', st') \<Longrightarrow> task_step E T c (s, st) (s', st')"
| step_accept: "accept_task E t s = Inr (u, s') \<Longrightarrow> task_step E T c (s, st) (s', st)"
| step_pick: "pick_next E s = Inr (u, s') \<Longrightarrow> task_step E T c (s, st) (s', st)"
| step_destroy: "drop_current_task_from_svc s = Inr (u, s') \<Longrightarrow> task_step E T c (s, st) (s', st)"
| step_priority: "change_current_priority (kconf E) prio s = Inr (v, s') \<Longrightarrow> task_step E T c (s, st) (s', st)"
| step_inherit: "task_step E T c (s, st) (upd_task t (ceil_priority_from (tasks s u)) s, st)"
| step_restore: "task_step E T c (s, st) (upd_task t restore_intrinsic_priority s, st)"
| step_wake_tick: "task_step E T c (s, st) (upd_task t (set_wake_tick w) s, st)"
| step_unwinding: "task_step E T c (s, st) (upd_task t (set_unwind_flag f) s, st)"

lemma parse_stack_config_wf: "parse_stack_config b = Inr sc \<Longrightarrow> stack_config_wf sc"
  by (auto simp: parse_stack_config_def non_zero_def bind_eq_Some_conv split: if_splits option.splits)

lemma typed_insert: "typed cf s \<Longrightarrow> task_wf cf x \<Longrightarrow> typed cf (s\<lparr>tasks := (tasks s)(t := x)\<rparr>)"
  by (simp add: typed_def)

lemma typed_quota: "request_task_quota cf' s = (r, s') \<Longrightarrow> typed cf s' = typed cf s" "typed cf (quota_drop s) = typed cf s"
  by (auto simp: request_task_quota_def quota_drop_def split: if_splits)

lemma build_and_accept_typed:
  assumes "build \<in> builders" "kconf E = conf (stkenv T)" "0 < TASK_PRIORITY_LEVELS (kconf E)" "stack_config_wf sc"
    and "build_and_accept build E T c t i f sc prio s st = Inr (r, s', st')" "typed (kconf E) s"
  shows "typed (kconf E) s'"
proof (cases "build T c i f sc prio st")
  case (Some a)
  then obtain x st1 where a: "build T c i f sc prio st = Some (x, st1)" by (cases a) auto
  show ?thesis
  proof (cases x)
    case (Inl e)
    then show ?thesis using a assms(5,6) by (auto simp: build_and_accept_def typed_quota)
  next
    case (Inr n)
    have "task_wf (kconf E) n" using builders_wf[OF assms(1) _ assms(4)] a Inr assms(2,3) by auto
    then have "typed (kconf E) (s\<lparr>tasks := (tasks s)(t := n)\<rparr>)" by (rule typed_insert[OF assms(6)])
    moreover obtain u where "accept_task E t (s\<lparr>tasks := (tasks s)(t := n)\<rparr>) = Inr (u, s')"
      using a Inr assms(5) by (auto simp: build_and_accept_def bindr_Inr)
    ultimately show ?thesis using keepsD[OF keeps_accept] by blast
  qed
qed (use assms(5) in \<open>simp add: build_and_accept_def\<close>)

lemma spawn_typed:
  assumes "build \<in> builders" "kconf E = conf (stkenv T)" "0 < TASK_PRIORITY_LEVELS (kconf E)" "typed (kconf E) s"
    and "define_task_spawn build E T c t b s st = Inr (r, s', st')"
  shows "typed (kconf E) s'"
proof (cases "parse_stack_config b")
  case (Inr sc)
  show ?thesis using assms(4,5) Inr build_and_accept_typed[OF assms(1-3) parse_stack_config_wf[OF Inr]] typed_quota(1)[of "kconf E" s]
    by (auto simp: define_task_spawn_def Let_def split: option.splits prod.splits)
qed (use assms(4,5) in \<open>simp add: define_task_spawn_def\<close>)

lemma breathing_typed:
  assumes "build \<in> builders" "kconf E = conf (stkenv T)" "0 < TASK_PRIORITY_LEVELS (kconf E)" "typed (kconf E) s"
    and "define_breathing_task_spawn entry_constr build E T c t b s st = Inr (r, s', st')"
  shows "typed (kconf E) s'"
proof -
  let ?sc = "Dynamic (Option.bind (bb_stack_init_size b) non_zero) (Option.bind (bb_stack_limit b) non_zero)"
  have "stack_config_wf ?sc" by (auto simp: non_zero_def bind_eq_Some_conv split: if_splits)
  from build_and_accept_typed[OF assms(1-3) this] show ?thesis using assms(4,5) typed_quota(1)[of "kconf E" s]
    by (auto simp: define_breathing_task_spawn_def Let_def split: option.splits prod.splits)
qed

lemma restarted_typed:
  assumes "kconf E = conf (stkenv T)" "0 < TASK_PRIORITY_LEVELS (kconf E)" "typed (kconf E) s"
    and "try_spawn_restarted E T c t prev s st = Inr (r, s', st')"
  shows "typed (kconf E) s'"
proof (cases "request_task_quota (kconf E) s")
  case (Pair q s1)
  then have t1: "typed (kconf E) s1" using typed_quota(1)[OF Pair] assms(3) by simp
  show ?thesis
  proof (cases q)
    case None
    then show ?thesis using Pair t1 assms(4) by (auto simp: try_spawn_restarted_def)
  next
    case (Some v)
    then obtain n p st1 u where o: "build_restarted T c prev (tasks s1 prev) st = Some (n, p, st1)"
      "accept_task E t (s1\<lparr>tasks := (tasks s1)(prev := p, t := n)\<rparr>) = Inr (u, s')"
      using Pair assms(4) by (auto simp: try_spawn_restarted_def bindr_Inr split: option.splits)
    have "task_wf (conf (stkenv T)) (tasks s1 prev)" "0 < TASK_PRIORITY_LEVELS (conf (stkenv T))"
      using t1 assms(1,2) by (simp_all add: typed_def)
    from restart_wf[OF this o(1)] have "task_wf (kconf E) n" "task_wf (kconf E) p" unfolding assms(1) by blast+
    then have "typed (kconf E) (s1\<lparr>tasks := (tasks s1)(prev := p, t := n)\<rparr>)" using t1 by (simp add: typed_def)
    then show ?thesis using keepsD[OF keeps_accept o(2)] by blast
  qed
qed

lemma keeps_current:
  shows "keeps cf drop_current_task_from_svc" and "0 < TASK_PRIORITY_LEVELS cf \<Longrightarrow> keeps cf (change_current_priority cf prio)"
proof -
  have k: "keeps cf (with_cur_task (\<lambda>c s. Inr ((), upd_task c (set_state Destructing) s)))"
    by (intro keeps_cur keepsI) (auto simp: run_pended_step_typed)
  show "keeps cf drop_current_task_from_svc"
    by (rule keepsI) (auto simp: drop_current_task_from_svc_def bindr_Inr dest: keepsD[OF k])
  have "keeps cf (with_cur_task (\<lambda>t s. Inr ((), upd_task t (change_intrinsic_priority prio) s)))" if "0 < TASK_PRIORITY_LEVELS cf" "prio < TASK_PRIORITY_LEVELS cf - 1"
  proof (intro keeps_cur keepsI)
    have "prio < TASK_PRIORITY_LEVELS cf" using that(2) that(1)
      by (simp add: word_less_nat_alt unat_sub_if' word_le_nat_alt split: if_splits)
    then show "typed cf s'" if "typed cf s" "Inr ((), upd_task c (change_intrinsic_priority prio) s) = Inr (r, s')" for c s r s'
      using that by (auto intro: typed_upd wf_fields(6))
  qed
  then show "0 < TASK_PRIORITY_LEVELS cf \<Longrightarrow> keeps cf (change_current_priority cf prio)"
    by (intro keepsI) (auto simp: change_current_priority_def bindr_Inr not_le split: if_splits dest: keepsD)
qed

lemma task_step_typed:
  assumes "kconf E = conf (stkenv T)" "0 < TASK_PRIORITY_LEVELS (kconf E)"
  shows "task_step E T c x y \<Longrightarrow> typed (kconf E) (fst x) \<Longrightarrow> typed (kconf E) (fst y)"
proof (induction rule: task_step.induct)
  case (step_spawn build t b s st r s' st')
  then show ?case using spawn_typed[OF step_spawn(1) assms] by simp
next
  case (step_breathing build entry_constr t b s st r s' st')
  then show ?case using breathing_typed[OF step_breathing(1) assms] by simp
next
  case (step_restart t prev s st r' s' st')
  then show ?case using restarted_typed[OF assms] by simp
qed (auto dest: keepsD[OF keeps_accept] keepsD[OF keeps_pick] keepsD[OF keeps_current(1)] keepsD[OF keeps_current(2)[OF assms(2)]]
    intro: typed_upd wf_fields)


text \<open>Sample: the tasks of the sample scheduler state, of which task 4 is made ready and then inherits the
  priority of task 2.\<close>

definition type_env0 :: task_env where
  "type_env0 = \<lparr>stkenv = env1, svc_destroy_current_task = 0x08004000\<rparr>"

lemma task0_wf: "task_wf config0 (task0 t)"
  by (simp add: task_wf_def task0_def task_new_def task_ctxt_default_def is_restartable_def prio0_def)


end
