(* ===== verification/Spawn_Correct.thy ===== *)
theory Spawn_Correct
  imports Task_Types
begin

text \<open>
  Spawning a task: what the builder puts on the heap and what it hands to the scheduler, on every
  branch.
\<close>

section \<open>The first stack of a task\<close>

lemma default_frame_out:
  assumes "unat p + 104 \<le> 2 ^ 32" "w < unat p \<or> unat p + 104 \<le> w"
  shows "write_default_frame p m w = m w"
proof -
  have a: "unat (p + 4 * of_nat i) = unat p + 4 * i" if "i < 26" for i
  proof -
    have "unat (of_nat (4 * i) :: u32) = 4 * i" by (rule unat_of_nat_small) (use that in simp)
    then have "unat (p + of_nat (4 * i)) = unat p + 4 * i" using assms(1) that by (subst unat_add_small) simp_all
    then show ?thesis by simp
  qed
  have "fold (\<lambda>i m. m(unat (p + 4 * of_nat i) := 0)) is m w = m w" if "set is \<subseteq> {..<26}" for "is" and m :: mem
    using that by (induction "is" arbitrary: m) (use a assms(2) in auto)
  then show ?thesis unfolding write_default_frame_def by (simp add: atLeast0LessThan)
qed

lemma initial_frame_out:
  assumes "unat p + 104 \<le> 2 ^ 32" "w < unat p \<or> unat p + 104 \<le> w"
  shows "write_initial_frame T closure trampoline p m w = m w"
proof -
  have ad: "unat (p + 20) = unat p + 20" "unat (p + 24) = unat p + 24" "unat (p + 28) = unat p + 28"
    using assms(1) by (simp_all add: unat_add_small)
  have "w \<noteq> unat p" "w \<noteq> unat p + 20" "w \<noteq> unat p + 24" "w \<noteq> unat p + 28" using assms(2) by auto
  then show ?thesis unfolding write_initial_frame_def tf_r0_def tf_pc_def tf_lr_def tf_xpsr_def ad by (simp add: default_frame_out[OF assms])
qed

lemma write_meta_out:
  assumes "unat p + 16 \<le> 2 ^ 32" "w < unat p \<or> unat p + 16 \<le> w"
  shows "write_meta p s m w = m w"
proof -
  have "unat (p + 4) = unat p + 4" "unat (p + 8) = unat p + 8" "unat (p + 12) = unat p + 12" using assms(1) by (simp_all add: unat_add_small)
  then show ?thesis using assms(2) by (auto simp: write_meta_def)
qed

text \<open>A task that will start in \<open>trampoline\<close> with \<open>closure\<close> as its argument, on a stack of \<open>n\<close> bytes in
  the chunk \<open>p\<close>, and whose entry returns to the destruction of the task.\<close>

definition starts_at :: "task_env \<Rightarrow> u32 \<Rightarrow> u32 \<Rightarrow> nat \<Rightarrow> ptr \<Rightarrow> mem \<Rightarrow> task \<Rightarrow> bool" where
  "starts_at T closure trampoline n p m t \<longleftrightarrow>
     unat (t_initial_stklet t) = p \<and> unat (stklet_bound (ctx_tls (t_ctxt t))) = p + 128 \<and> unat (ctx_sp (t_ctxt t)) = p + 128 + n - 104
     \<and> m (tf_r0 (ctx_sp (t_ctxt t))) = closure \<and> m (tf_pc (ctx_sp (t_ctxt t))) = trampoline OR 1
     \<and> m (tf_lr (ctx_sp (t_ctxt t))) = svc_destroy_current_task T OR 1 \<and> m (tf_xpsr (ctx_sp (t_ctxt t))) = 0x01000000"

text \<open>Memory that is written inside a chunk only.\<close>

lemma fill_chunk:
  assumes "kalloc_rep env (ka st) (insert (p, l) L)" "(p, l) \<notin> L" "\<And>m w. w < p \<or> p + l \<le> w \<Longrightarrow> F m w = m w"
  shows "kalloc_rep env (ka (upd_mem F st)) (insert (p, l) L)" "unchanged L (smem st) (smem (upd_mem F st))"
proof -
  show "kalloc_rep env (ka (upd_mem F st)) (insert (p, l) L)" by (rule kalloc_upd_mem[OF assms(1), of p l]) (simp_all add: assms(3))
  show "unchanged L (smem st) (smem (upd_mem F st))" unfolding smem_upd unchanged_def
    by (clarify, rule assms(3)) (use kalloc_disjoint[OF assms(1), of p l] assms(2) in fastforce)
qed

lemma initial_stacklet_ok:
  assumes R: "kalloc_rep (henv E) (ka st) L" and a: "alloc_initial_stacklet E c n st = Some ((b, en), st')"
  shows "\<exists>p l. (p, l) \<notin> L \<and> 128 + unat n \<le> l \<and> kalloc_rep (henv E) (ka st') (insert (p, l) L) \<and> unchanged L (smem st) (smem st')
    \<and> unat b = p \<and> unat (stklet_ptr_to_bound b) = p + 128 \<and> unat en = p + unat n + 128 \<and> p + l < 2 ^ 32"
proof -
  let ?m = "\<lparr>prev_stklet_bound = 0, prev_sp = 0, extend_cnt = 0, count_size = 0\<rparr>"
  obtain T' p st0 where k: "checked_add n OVERHEAD_SIZE = Some T'" "kalloc_layout E c T' st = Some (p, st0)" "b = of_nat p" "en = of_nat p + T'"
    "st' = upd_mem (write_meta (of_nat p) ?m) st0"
    using a by (auto simp: alloc_initial_stacklet_def Let_def split: option.splits if_splits)
  have T': "unat T' = unat n + 128" using k(1) by (auto simp: checked_add_def overhead unat_add_small split: if_splits)
  then have "T' \<noteq> 0" by auto
  from kalloc_layout_ok[OF R this k(2)] obtain l where l: "unat T' \<le> l" "(p, l) \<notin> L" "kalloc_rep (henv E) (ka st0) (insert (p, l) L)"
    "unchanged L (smem st) (smem st0)" by blast
  have pl: "p + l < 2 ^ 32" using kalloc_chunk[OF l(3), of p l] by simp
  have P: "unat (of_nat p :: u32) = p" by (rule unat_of_nat_small) (use pl in linarith)
  have out: "write_meta (of_nat p) ?m m w = m w" if "w < p \<or> p + l \<le> w" for m w
    by (rule write_meta_out) (use that l(1) T' P pl in linarith)+
  note F = fill_chunk[OF l(3,2), of "write_meta (of_nat p) ?m", OF out, folded k(5)]
  moreover have "unchanged L (smem st) (smem st')" using F(2) l(4) by (metis unchanged_trans)
  moreover have "unat (stklet_ptr_to_bound b) = p + 128" using k(3) P pl l(1) T' by (simp add: stklet_ptr_to_bound_def overhead unat_add_small)
  moreover have "unat en = p + unat n + 128" unfolding k(4) using P T' pl l(1) by (subst unat_add_small) simp_all
  ultimately show ?thesis using l(1,2) T' P k(3) pl by (intro exI[of _ p] exI[of _ l]) simp
qed

lemma initial_stack_ok:
  assumes R: "kalloc_rep (henv (stkenv T)) (ka st) L" and i: "\<not> t_is_idle t"
    and e: "initialize_common T c ident closure trampoline sc prio t st = Some (Inr t', st')"
  shows "\<exists>p l. (p, l) \<notin> L \<and> 128 + unat (stack_alloc_size sc) \<le> l \<and> kalloc_rep (henv (stkenv T)) (ka st') (insert (p, l) L)
    \<and> unchanged L (smem st) (smem st') \<and> starts_at T closure trampoline (unat (stack_alloc_size sc)) p (smem st') t'"
proof -
  let ?n = "stack_alloc_size sc"
  obtain b en st1 where a: "alloc_initial_stacklet (stkenv T) c ?n st = Some ((b, en), st1)"
    using e by (auto simp: initialize_common_def Let_def split: if_splits option.splits)
  obtain p l where l: "(p, l) \<notin> L" "128 + unat ?n \<le> l" "kalloc_rep (henv (stkenv T)) (ka st1) (insert (p, l) L)" "unchanged L (smem st) (smem st1)"
    "unat b = p" "unat (stklet_ptr_to_bound b) = p + 128" "unat en = p + unat ?n + 128" "p + l < 2 ^ 32"
    using initial_stacklet_ok[OF R a] by blast
  define sp where "sp = en - TRAP_FRAME_SIZE"
  have sp: "unat sp = p + unat ?n + 24" unfolding sp_def using l(7) by (simp add: TRAP_FRAME_SIZE_def unat_sub_if')
  have ad: "unat (sp + 20) = unat sp + 20" "unat (sp + 24) = unat sp + 24" "unat (sp + 28) = unat sp + 28"
    using sp l(2,8) by (simp_all add: unat_add_small)
  define F where "F = write_initial_frame T closure trampoline sp"
  have out: "F m w = m w" if "w < p \<or> p + l \<le> w" for m w
    unfolding F_def by (rule initial_frame_out) (use that sp l(2,8) in linarith)+
  have st': "st' = upd_mem F st1" "t_initial_stklet t' = b" "ctx_sp (t_ctxt t') = sp" "stklet_bound (ctx_tls (t_ctxt t')) = stklet_ptr_to_bound b"
    using e a i by (auto simp: initialize_common_def Let_def sp_def F_def split: if_splits stack_config.splits)
  note W = fill_chunk[OF l(3,1), of F, OF out, folded st'(1)]
  have "unchanged L (smem st) (smem st')" using W(2) l(4) by (metis unchanged_trans)
  moreover have "starts_at T closure trampoline (unat ?n) p (smem st') t'"
    unfolding starts_at_def st'(2-4) using sp l(5,6) ad unfolding st'(1) smem_upd F_def write_initial_frame_def
    by (simp add: tf_r0_def tf_pc_def tf_lr_def tf_xpsr_def)
  ultimately show ?thesis using l(1,2) W(1) by (intro exI[of _ p] exI[of _ l]) simp
qed

section \<open>The methods of the builder\<close>

text \<open>The build function behind each method, with the argument and the entry function of the new task.\<close>

definition spawn_methods :: "(build_fn \<times> (entry \<Rightarrow> u32 \<times> u32)) set" where
  "spawn_methods = {(task_build, \<lambda>f. (closure_addr f, task_entry f)),
     (build_restartable, \<lambda>f. (closure_downcast f (closure_addr f), restartable_task_entry f)),
     (build_restartable_no_concur, \<lambda>f. (closure_downcast f (closure_addr f), restartable_task_entry f))}"

lemma method_initializes:
  assumes "(build, start) \<in> spawn_methods" "0 < TASK_PRIORITY_LEVELS (conf (stkenv T))"
  shows "\<exists>t0. unbuilt (conf (stkenv T)) t0 \<and> \<not> t_is_idle t0 \<and> \<not> t_ctxt_locked t0
    \<and> build T c i f sc prio st = initialize_common T c i (fst (start f)) (snd (start f)) sc prio t0 st"
proof -
  let ?cf = "conf (stkenv T)"
  let ?n = "task_new ?cf False"
  let ?r = "\<lambda>b. ?n\<lparr>t_entry_closure := Some (closure_addr f), t_downcast_func := Some (closure_downcast f),
      t_restart_entry_trampoline := Some (restartable_task_entry f), t_concurrent_restartable := b\<rparr>"
  have u: "unbuilt ?cf ?n" "unbuilt ?cf (?r b)" for b
    using task_new_wf[OF assms(2), of False] by (auto simp: unbuilt_def task_wf_def is_restartable_def)
  have n: "\<not> t_ctxt_locked ?n" "\<not> t_is_idle ?n" by (simp_all add: task_new_def)
  have e: "task_build T c i f sc prio st = initialize_common T c i (closure_addr f) (task_entry f) sc prio ?n st"
    "build_restartable T c i f sc prio st = initialize_common T c i (closure_downcast f (closure_addr f)) (restartable_task_entry f) sc prio (?r True) st"
    "build_restartable_no_concur T c i f sc prio st = initialize_common T c i (closure_downcast f (closure_addr f)) (restartable_task_entry f) sc prio (?r False) st"
    by (simp_all add: task_build_def initialize_def build_restartable_def build_restartable_no_concur_def initialize_restartable_def Let_def)
  from assms(1) consider "build = task_build" "start = (\<lambda>f. (closure_addr f, task_entry f))"
    | b where "build T c i f sc prio st = initialize_common T c i (closure_downcast f (closure_addr f)) (restartable_task_entry f) sc prio (?r b) st"
      "start = (\<lambda>f. (closure_downcast f (closure_addr f), restartable_task_entry f))"
    unfolding spawn_methods_def using e(2,3) by blast
  then show ?thesis
  proof cases
    case 1
    then show ?thesis using e(1) u(1) n by (intro exI[of _ ?n]) simp
  next
    case (2 b)
    then show ?thesis using u(2)[of b] n by (intro exI[of _ "?r b"]) simp
  qed
qed

lemma method_builds:
  assumes M: "(build, start) \<in> spawn_methods" and C: "config_ok (conf (stkenv T))" and W: "stack_config_wf sc"
    and R: "kalloc_rep (henv (stkenv T)) (ka st) L"
  shows "TASK_PRIORITY_LEVELS (conf (stkenv T)) \<le> prio \<Longrightarrow> build T c i f sc prio st = Some (Inl PriorityNotAllowed, st)"
    and "prio < TASK_PRIORITY_LEVELS (conf (stkenv T)) \<Longrightarrow> alloc_initial_stacklet (stkenv T) c (stack_alloc_size sc) st = None \<Longrightarrow>
      build T c i f sc prio st = None"
    and "prio < TASK_PRIORITY_LEVELS (conf (stkenv T)) \<Longrightarrow> alloc_initial_stacklet (stkenv T) c (stack_alloc_size sc) st \<noteq> None \<Longrightarrow>
      \<exists>n st' p l. build T c i f sc prio st = Some (Inr n, st') \<and> t_state n = Ready \<and> \<not> t_ctxt_locked n \<and> \<not> t_is_idle n
        \<and> t_id n = i \<and> t_priority n = Intrinsic prio \<and> t_stack_config n = sc
        \<and> (p, l) \<notin> L \<and> 128 + unat (stack_alloc_size sc) \<le> l \<and> kalloc_rep (henv (stkenv T)) (ka st') (insert (p, l) L)
        \<and> unchanged L (smem st) (smem st') \<and> starts_at T (fst (start f)) (snd (start f)) (unat (stack_alloc_size sc)) p (smem st') n"
proof -
  have lv: "0 < TASK_PRIORITY_LEVELS (conf (stkenv T))"
    using C by (auto simp: config_ok_def task_config_ok_def word_le_nat_alt word_less_nat_alt)
  obtain t0 where t0: "unbuilt (conf (stkenv T)) t0" "\<not> t_is_idle t0" "\<not> t_ctxt_locked t0"
    "build T c i f sc prio st = initialize_common T c i (fst (start f)) (snd (start f)) sc prio t0 st"
    using method_initializes[OF M lv] by blast
  show "TASK_PRIORITY_LEVELS (conf (stkenv T)) \<le> prio \<Longrightarrow> build T c i f sc prio st = Some (Inl PriorityNotAllowed, st)"
    using initialize_common_error t0(4) by simp
  show "build T c i f sc prio st = None"
    if "prio < TASK_PRIORITY_LEVELS (conf (stkenv T))" "alloc_initial_stacklet (stkenv T) c (stack_alloc_size sc) st = None"
    using that t0(4) by (simp add: initialize_common_def Let_def not_le)
  assume a: "prio < TASK_PRIORITY_LEVELS (conf (stkenv T))" "alloc_initial_stacklet (stkenv T) c (stack_alloc_size sc) st \<noteq> None"
  obtain n st' where n: "initialize_common T c i (fst (start f)) (snd (start f)) sc prio t0 st = Some (Inr n, st')"
    using initialize_common_none[OF a] by blast
  show "\<exists>n st' p l. build T c i f sc prio st = Some (Inr n, st') \<and> t_state n = Ready \<and> \<not> t_ctxt_locked n \<and> \<not> t_is_idle n
        \<and> t_id n = i \<and> t_priority n = Intrinsic prio \<and> t_stack_config n = sc
        \<and> (p, l) \<notin> L \<and> 128 + unat (stack_alloc_size sc) \<le> l \<and> kalloc_rep (henv (stkenv T)) (ka st') (insert (p, l) L)
        \<and> unchanged L (smem st) (smem st') \<and> starts_at T (fst (start f)) (snd (start f)) (unat (stack_alloc_size sc)) p (smem st') n"
    using initialize_common_wf[OF t0(1) W n] initial_stack_ok[OF R t0(2) n] t0(2-4) n by auto
qed

text \<open>Handing a new task to the scheduler.\<close>

lemma sched_ok_new:
  assumes S: "sched_ok xs c s" and t: "unlinked xs t" "t \<noteq> c" and n: "\<not> t_ctxt_locked n"
  shows "sched_ok xs c (s\<lparr>exist_task_num := k, tasks := (tasks s)(t := n)\<rparr>)"
proof -
  have x: "x \<noteq> t" if "x \<in> set (xs l)" for x l using that t(1) by (auto simp: unlinked_def)
  note S = S[unfolded sched_ok_def]
  have l: "t_ctxt_locked (((tasks s)(t := n)) x) \<longleftrightarrow> x = c" for x using S t(2) n by simp
  have r: "t_state (((tasks s)(t := n)) x) = Ready" if "x \<in> set (xs Ready_List)" for x using S x[OF that] that by simp
  have b: "t_state (((tasks s)(t := n)) x) = Blocked" if "y \<noteq> Ready_List" "x \<in> set (xs y)" for x y using S x[OF that(2)] that by (metis fun_upd_other)
  obtain j where j: "t_is_idle (tasks s j)" "j \<in> set (xs Ready_List) \<or> j = c \<and> t_state (tasks s c) = Running" using S by blast
  then have "j \<noteq> t" using x t(2) by blast
  then have i: "\<exists>i. t_is_idle (((tasks s)(t := n)) i) \<and> (i \<in> set (xs Ready_List) \<or> i = c \<and> t_state (tasks s c) = Running)" using j by (intro exI[of _ j]) simp
  show ?thesis unfolding sched_ok_def using S t(2) l r b i by simp
qed

lemma accept_new:
  assumes "kernel_lib E elems queued" "sched_ok (elems (lists s)) c s" "rq_free queued s" "unlinked (elems (lists s)) t" "t \<noteq> c"
    and "t_state n = Ready" "\<not> t_ctxt_locked n"
  shows "\<exists>s'. accept_task E t (s\<lparr>exist_task_num := k, tasks := (tasks s)(t := n)\<rparr>) = Inr ((), s') \<and> sched_ok (elems (lists s')) c s' \<and> rq_free queued s'
    \<and> elems (lists s') = (elems (lists s))(Ready_List := elems (lists s) Ready_List @ [t]) \<and> tasks s' = (tasks s)(t := n) \<and> exist_task_num s' = k"
proof -
  let ?s = "s\<lparr>exist_task_num := k, tasks := (tasks s)(t := n)\<rparr>"
  have ok: "sched_ok (elems (lists ?s)) c ?s" using sched_ok_new[OF assms(2,4,5,7)] by simp
  have f: "rq_free queued ?s" "unlinked (elems (lists ?s)) t" using assms(3,4) by (simp_all add: rq_free_def)
  have ps: "cur_task ?s = Some c" "started ?s" "\<not> rq_locked ?s" "\<not> rq_pending ?s" using ok f(1) by (auto simp: sched_ok_def rq_free_def)
  obtain s' where s': "accept_task E t ?s = Inr ((), s')" "sched_ok (elems (lists s')) c s'" "rq_free queued s'"
    "elems (lists s') = (elems (lists ?s))(Ready_List := elems (lists ?s) Ready_List @ [t])"
    "tasks s' = (tasks ?s)(t := set_state Ready (tasks ?s t))"
    using accept_task_result[OF assms(1) ok f] assms(5) by blast
  have "exist_task_num s' = k" using kernel_lib.accept_task_direct[OF assms(1) ps f(2)] s'(1)
    by (elim exE conjE) (simp del: fun_upd_apply, hypsubst, simp)
  moreover have "set_state Ready n = n" using assms(6) by (simp add: set_state_def)
  ultimately show ?thesis using s' by (intro exI[of _ s']) auto
qed


text \<open>Sample: a task with a dynamic stack, identifier 9 and priority 5 beside those of the sample scheduler
  state.\<close>

definition tenv0 :: task_env where
  "tenv0 = \<lparr>stkenv = env1, svc_destroy_current_task = 0x08004000\<rparr>"

definition entry0 :: entry where
  "entry0 = \<lparr>closure_addr = 0x20003000, closure_downcast = (\<lambda>a. a), task_entry = 0x08005000, restartable_task_entry = 0x08006000\<rparr>"

lemma stk0_initial:
  assumes h: "heap_ok env0 h [(1008, True), (0x1EB08, False)] fl" "cached h = 0" "heap_start h = 0x20001104"
  shows "alloc_initial_stacklet env1 svc0 128 (stk0 n h) \<noteq> None"
proof -
  obtain h2 where m: "mcu_malloc env0 256 h = Some (0x200014F8, h2)"
    by (rule malloc_tail[of env0 h "[(1008, True)]" "0x1EB08" fl 256 264])
       (use h request_samples list_index_samples in simp_all)
  have kh: "kheap (ka (stk0 n h)) = h" "initialized (ka (stk0 n h))" "\<not> active (ka (stk0 n h))" by (simp_all add: stk0_def)
  obtain k where "alloc_impl env0 svc0 (active_stacklet_count (stk0 n h)) 256 (ka (stk0 n h)) = Some (0x200014F8, k)"
    using kernel_alloc_some[of env0 256 "ka (stk0 n h)" "0x200014F8" h2] m kh by auto
  then have "kalloc_layout env1 svc0 256 (stk0 n h) = Some (0x200014F8, (stk0 n h)\<lparr>ka := k\<rparr>)" by (simp add: kalloc_layout_def env1_def)
  moreover have "checked_add 128 OVERHEAD_SIZE = Some 256" by (simp add: checked_add_def overhead)
  ultimately show ?thesis by (simp add: alloc_initial_stacklet_def Let_def)
qed


end
