(* ===== verification/Unw_Lsda.thy ===== *)
theory Unw_Lsda
  imports Unw_Decode
begin

unbundle bit_operations_syntax

text \<open>
  The language specific data area of a function, \<open>src/unwind/unw_lsda.rs\<close>: its headers, the call
  site table and the search for the entry of an address. The byte reader comes from the crate
  \<open>gimli\<close>: it is a record of the methods that the code calls, with its documented behaviour as the
  laws of a locale.
\<close>

section \<open>The reader\<close>

text \<open>The errors this module makes itself, and those that the reader reports.\<close>

datatype gimli_error = CannotParseOmitPointerEncoding | UnknownPointerEncoding | NoUnwindInfoForAddress | ReadFailed

type_synonym 'a gimli = "gimli_error + 'a"

text \<open>A method returns the value with the advanced reader; \<open>read_sleb128\<close> returns the bits of an \<open>i64\<close>.\<close>

record 'r reader =
  endian_slice_new :: "slice \<Rightarrow> 'r"
  offset_id :: "'r \<Rightarrow> u64"
  read_u8 :: "'r \<Rightarrow> (u8 \<times> 'r) gimli"
  read_u16 :: "'r \<Rightarrow> (u16 \<times> 'r) gimli"
  read_u32 :: "'r \<Rightarrow> (u32 \<times> 'r) gimli"
  read_u64 :: "'r \<Rightarrow> (u64 \<times> 'r) gimli"
  read_i16 :: "'r \<Rightarrow> (u16 \<times> 'r) gimli"
  read_i32 :: "'r \<Rightarrow> (u32 \<times> 'r) gimli"
  read_i64 :: "'r \<Rightarrow> (u64 \<times> 'r) gimli"
  read_uleb128 :: "'r \<Rightarrow> (u64 \<times> 'r) gimli"
  read_sleb128 :: "'r \<Rightarrow> (u64 \<times> 'r) gimli"

definition DW_EH_PE_absptr :: u8 where "DW_EH_PE_absptr = 0x00"
definition DW_EH_PE_uleb128 :: u8 where "DW_EH_PE_uleb128 = 0x01"
definition DW_EH_PE_udata2 :: u8 where "DW_EH_PE_udata2 = 0x02"
definition DW_EH_PE_udata4 :: u8 where "DW_EH_PE_udata4 = 0x03"
definition DW_EH_PE_udata8 :: u8 where "DW_EH_PE_udata8 = 0x04"
definition DW_EH_PE_sleb128 :: u8 where "DW_EH_PE_sleb128 = 0x09"
definition DW_EH_PE_sdata2 :: u8 where "DW_EH_PE_sdata2 = 0x0a"
definition DW_EH_PE_sdata4 :: u8 where "DW_EH_PE_sdata4 = 0x0b"
definition DW_EH_PE_sdata8 :: u8 where "DW_EH_PE_sdata8 = 0x0c"
definition DW_EH_PE_omit :: u8 where "DW_EH_PE_omit = 0xff"

lemmas dw_eh_pe = DW_EH_PE_absptr_def DW_EH_PE_uleb128_def DW_EH_PE_udata2_def DW_EH_PE_udata4_def DW_EH_PE_udata8_def
  DW_EH_PE_sleb128_def DW_EH_PE_sdata2_def DW_EH_PE_sdata4_def DW_EH_PE_sdata8_def DW_EH_PE_omit_def

text \<open>\<open>Result::map(|v| v as u64)\<close>; the cast of a signed value extends its sign.\<close>

definition map_ok :: "('a \<Rightarrow> 'b) \<Rightarrow> ('a \<times> 'r) gimli \<Rightarrow> ('b \<times> 'r) gimli" where
  "map_ok f x = bindr x (\<lambda>(v, r). Inr (f v, r))"

definition read_encoded_pointer :: "'r reader \<Rightarrow> 'r \<Rightarrow> u8 \<Rightarrow> (u64 \<times> 'r) gimli" where
  "read_encoded_pointer R r encoding =
     (if encoding = DW_EH_PE_omit then Inl CannotParseOmitPointerEncoding
      else if encoding = DW_EH_PE_absptr then read_u64 R r
      else if encoding = DW_EH_PE_uleb128 then read_uleb128 R r
      else if encoding = DW_EH_PE_udata2 then map_ok ucast (read_u16 R r)
      else if encoding = DW_EH_PE_udata4 then map_ok ucast (read_u32 R r)
      else if encoding = DW_EH_PE_udata8 then read_u64 R r
      else if encoding = DW_EH_PE_sleb128 then read_sleb128 R r
      else if encoding = DW_EH_PE_sdata2 then map_ok scast (read_i16 R r)
      else if encoding = DW_EH_PE_sdata4 then map_ok scast (read_i32 R r)
      else if encoding = DW_EH_PE_sdata8 then read_i64 R r
      else Inl UnknownPointerEncoding)"

section \<open>Headers and entries\<close>

record lsda_header =
  landing_pad_base_encoding :: u8
  header_landing_pad_base :: "u32 option"
  type_table_encoding :: u8
  type_table_offset :: "u32 option"

definition lsda_header_parse :: "'r reader \<Rightarrow> 'r \<Rightarrow> (lsda_header \<times> 'r) gimli" where
  "lsda_header_parse R r =
     bindr (read_u8 R r) (\<lambda>(lp_encoding, r).
     bindr (if lp_encoding = DW_EH_PE_omit then Inr (None, r)
            else map_ok (\<lambda>v. Some (ucast v)) (read_encoded_pointer R r lp_encoding)) (\<lambda>(lp, r).
     bindr (read_u8 R r) (\<lambda>(tt_encoding, r).
     bindr (if tt_encoding = DW_EH_PE_omit then Inr (None, r)
            else map_ok (\<lambda>v. Some (ucast v)) (read_encoded_pointer R r DW_EH_PE_uleb128)) (\<lambda>(tt_offset, r).
       Inr (\<lparr>landing_pad_base_encoding = lp_encoding, header_landing_pad_base = lp,
             type_table_encoding = tt_encoding, type_table_offset = tt_offset\<rparr>, r)))))"

record call_site_table_header =
  cst_encoding :: u8
  cst_length :: u32

definition call_site_table_header_parse :: "'r reader \<Rightarrow> 'r \<Rightarrow> (call_site_table_header \<times> 'r) gimli" where
  "call_site_table_header_parse R r =
     bindr (read_u8 R r) (\<lambda>(encoding, r).
     bindr (read_encoded_pointer R r DW_EH_PE_uleb128) (\<lambda>(len, r).
       Inr (\<lparr>cst_encoding = encoding, cst_length = ucast len\<rparr>, r)))"

record call_site_table_entry =
  starting_offset :: u32
  cs_length :: u32
  landing_pad_offset :: u32
  cs_action_offset :: u32
  landing_pad_base :: u32

definition call_site_table_entry_parse :: "'r reader \<Rightarrow> 'r \<Rightarrow> u8 \<Rightarrow> u32 \<Rightarrow> (call_site_table_entry \<times> 'r) gimli" where
  "call_site_table_entry_parse R r call_site_encoding base =
     bindr (read_encoded_pointer R r call_site_encoding) (\<lambda>(cs_start, r).
     bindr (read_encoded_pointer R r call_site_encoding) (\<lambda>(cs_len, r).
     bindr (read_encoded_pointer R r call_site_encoding) (\<lambda>(cs_lp, r).
     bindr (read_encoded_pointer R r DW_EH_PE_uleb128) (\<lambda>(cs_action, r).
       Inr (\<lparr>starting_offset = ucast cs_start, cs_length = ucast cs_len, landing_pad_offset = ucast cs_lp,
             cs_action_offset = ucast cs_action, landing_pad_base = base\<rparr>, r)))))"

text \<open>\<open>contains\<close> on the half-open range of addresses.\<close>

definition range_of_covered_addresses :: "call_site_table_entry \<Rightarrow> u32 \<times> u32" where
  "range_of_covered_addresses e = (landing_pad_base e + starting_offset e, landing_pad_base e + starting_offset e + cs_length e)"

definition range_contains :: "u32 \<times> u32 \<Rightarrow> u32 \<Rightarrow> bool" where
  "range_contains rg a \<longleftrightarrow> fst rg \<le> a \<and> a < snd rg"

definition landing_pad_address :: "call_site_table_entry \<Rightarrow> u32 option" where
  "landing_pad_address e = (if landing_pad_offset e = 0 then None else Some (landing_pad_base e + landing_pad_offset e))"

definition action_offset :: "call_site_table_entry \<Rightarrow> u32 option" where
  "action_offset e = (if cs_action_offset e = 0 then None else Some (cs_action_offset e + 1))"

section \<open>The call site table\<close>

record 'r call_site_iter =
  it_encoding :: u8
  end_of_call_site_table :: u32
  it_landing_pad_base :: u32
  it_reader :: 'r

definition call_site_next :: "'r reader \<Rightarrow> 'r call_site_iter \<Rightarrow> (call_site_table_entry option \<times> 'r call_site_iter) gimli" where
  "call_site_next R it =
     (if ucast (offset_id R (it_reader it)) < end_of_call_site_table it
      then bindr (call_site_table_entry_parse R (it_reader it) (it_encoding it) (it_landing_pad_base it))
             (\<lambda>(e, r). Inr (Some e, it\<lparr>it_reader := r\<rparr>))
      else Inr (None, it))"

definition parse_from_beginning :: "'r reader \<Rightarrow> 'r \<Rightarrow> (lsda_header \<times> call_site_table_header \<times> 'r) gimli" where
  "parse_from_beginning R r =
     bindr (lsda_header_parse R r) (\<lambda>(h, r). bindr (call_site_table_header_parse R r) (\<lambda>(t, r). Inr (h, t, r)))"

definition call_site_table_entries :: "'r reader \<Rightarrow> 'r \<Rightarrow> u32 \<Rightarrow> 'r call_site_iter gimli" where
  "call_site_table_entries R r function_start_address =
     bindr (parse_from_beginning R r) (\<lambda>(h, t, r).
       Inr \<lparr>it_encoding = cst_encoding t, end_of_call_site_table = ucast (offset_id R r) + cst_length t,
            it_landing_pad_base = (case header_landing_pad_base h of Some b \<Rightarrow> b | None \<Rightarrow> function_start_address),
            it_reader = r\<rparr>)"

partial_function (option) find_call_site :: "'r reader \<Rightarrow> u32 \<Rightarrow> 'r call_site_iter \<Rightarrow> call_site_table_entry gimli option" where
  "find_call_site R address it =
     (case call_site_next R it of
        Inl e \<Rightarrow> Some (Inl e)
      | Inr (None, it) \<Rightarrow> Some (Inl NoUnwindInfoForAddress)
      | Inr (Some e, it) \<Rightarrow>
          if range_contains (range_of_covered_addresses e) address then Some (Inr e) else find_call_site R address it)"

definition call_site_table_entry_for_address ::
  "'r reader \<Rightarrow> 'r \<Rightarrow> u32 \<Rightarrow> u32 \<Rightarrow> call_site_table_entry gimli option" where
  "call_site_table_entry_for_address R r function_start_address address =
     (case call_site_table_entries R r function_start_address of
        Inl e \<Rightarrow> Some (Inl e)
      | Inr it \<Rightarrow> find_call_site R address it)"

section \<open>Encodings\<close>

text \<open>Little-endian numbers of a given size.\<close>

fun le_bytes :: "nat \<Rightarrow> nat \<Rightarrow> u8 list" where
  "le_bytes 0 n = []"
| "le_bytes (Suc k) n = of_nat (n mod 256) # le_bytes k (n div 256)"

fun le_value :: "u8 list \<Rightarrow> nat" where
  "le_value [] = 0"
| "le_value (b # bs) = unat b + 256 * le_value bs"

lemma length_le_bytes [simp]: "length (le_bytes k n) = k"
  by (induction k arbitrary: n) auto

lemma le_value_bytes: "n < 256 ^ k \<Longrightarrow> le_value (le_bytes k n) = n"
proof (induction k arbitrary: n)
  case (Suc k)
  have "n div 256 < 256 ^ k" using Suc.prems by (simp add: less_mult_imp_div_less mult.commute)
  then show ?case using Suc.IH by (simp add: unat_of_nat)
qed simp

text \<open>The bytes of a value in the unsigned encodings.\<close>

definition encode_pointer :: "u8 \<Rightarrow> u64 \<Rightarrow> u8 list option" where
  "encode_pointer enc v =
     (if enc = DW_EH_PE_uleb128 then Some (uleb128 (unat v))
      else if enc = DW_EH_PE_udata2 \<and> unat v < 2 ^ 16 then Some (le_bytes 2 (unat v))
      else if enc = DW_EH_PE_udata4 \<and> unat v < 2 ^ 32 then Some (le_bytes 4 (unat v))
      else if enc = DW_EH_PE_udata8 then Some (le_bytes 8 (unat v)) else None)"

lemma widen: "n < 2 ^ 16 \<Longrightarrow> ucast (of_nat n :: u16) = (of_nat n :: u64)" "n < 2 ^ 32 \<Longrightarrow> ucast (of_nat n :: u32) = (of_nat n :: u64)"
  by (simp_all add: unsigned_of_nat take_bit_nat_eq_self)

lemma uleb128_nonempty: "uleb128 n \<noteq> []"
  by (subst uleb128.simps) simp

definition encode_entry :: "u8 \<Rightarrow> call_site_table_entry \<Rightarrow> u8 list option" where
  "encode_entry enc e =
     (case (encode_pointer enc (ucast (starting_offset e)), encode_pointer enc (ucast (cs_length e)),
            encode_pointer enc (ucast (landing_pad_offset e)), encode_pointer DW_EH_PE_uleb128 (ucast (cs_action_offset e))) of
        (Some a, Some b, Some c, Some d) \<Rightarrow> Some (a @ b @ c @ d)
      | _ \<Rightarrow> None)"

fun encode_entries :: "u8 \<Rightarrow> call_site_table_entry list \<Rightarrow> u8 list option" where
  "encode_entries enc [] = Some []"
| "encode_entries enc (e # es) = (case (encode_entry enc e, encode_entries enc es) of (Some b, Some c) \<Rightarrow> Some (b @ c) | _ \<Rightarrow> None)"

lemma encode_entry_nonempty: "encode_entry enc e = Some bs \<Longrightarrow> 0 < length bs"
  using uleb128_nonempty by (auto simp: encode_entry_def encode_pointer_def split: option.splits if_splits)

text \<open>A whole LSDA: the optional base of the landing pads and type table in their encodings, then the table.\<close>

fun encode_lp :: "(u8 \<times> u64) option \<Rightarrow> u8 list option" where
  "encode_lp None = Some [DW_EH_PE_omit]"
| "encode_lp (Some (e, v)) = map_option (\<lambda>bs. e # bs) (encode_pointer e v)"

fun encode_tt :: "(u8 \<times> u64) option \<Rightarrow> u8 list option" where
  "encode_tt None = Some [DW_EH_PE_omit]"
| "encode_tt (Some (e, v)) = (if e = DW_EH_PE_omit then None else Some (e # uleb128 (unat v)))"

definition lsda_bytes :: "(u8 \<times> u64) option \<Rightarrow> (u8 \<times> u64) option \<Rightarrow> u8 \<Rightarrow> call_site_table_entry list \<Rightarrow> u8 list option" where
  "lsda_bytes lp tt enc es =
     (case (encode_lp lp, encode_tt tt, encode_entries enc es) of
        (Some a, Some b, Some t) \<Rightarrow> Some (a @ b @ enc # uleb128 (length t) @ t)
      | _ \<Rightarrow> None)"

definition lp_base :: "(u8 \<times> u64) option \<Rightarrow> u32 \<Rightarrow> u32" where
  "lp_base lp fsa = (case lp of None \<Rightarrow> fsa | Some (e, v) \<Rightarrow> ucast v)"

text \<open>The first entry that covers an address.\<close>

definition covering :: "u32 \<Rightarrow> call_site_table_entry list \<Rightarrow> call_site_table_entry option" where
  "covering pc es = find (\<lambda>e. unat (landing_pad_base e + starting_offset e) \<le> unat pc
     \<and> unat pc < unat (landing_pad_base e + starting_offset e + cs_length e)) es"

lemma ucast_back [simp]: "ucast (ucast w :: u64) = (w :: u32)"
  by (rule bit_word_eqI) (simp add: bit_ucast_iff)

lemma unat_of_nat_bounded: "n < 2 ^ 32 \<Longrightarrow> unat (of_nat n :: u64) = n"
  by (simp add: unat_of_nat)

lemma unat_low: "unat (a :: u64) < 2 ^ 32 \<Longrightarrow> unat (ucast a :: u32) = unat a"
  by (simp add: unsigned_ucast_eq take_bit_nat_eq_self)

section \<open>Laws of the reader\<close>

text \<open>A successful read of \<open>k\<close> bytes: the value, what remains unread and the new position.\<close>

definition takes :: "'r reader \<Rightarrow> ('r \<Rightarrow> u8 list) \<Rightarrow> ('r \<Rightarrow> ('a \<times> 'r) gimli) \<Rightarrow> 'r \<Rightarrow> 'a \<Rightarrow> nat \<Rightarrow> bool" where
  "takes R unread rd r v k \<longleftrightarrow>
     (\<exists>r'. rd r = Inr (v, r') \<and> unread r' = drop k (unread r) \<and> offset_id R r' = offset_id R r + of_nat k)"

text \<open>A read never succeeds without consuming something.\<close>

definition shrinks :: "('r \<Rightarrow> u8 list) \<Rightarrow> ('r \<Rightarrow> ('a \<times> 'r) gimli) \<Rightarrow> bool" where
  "shrinks unread rd \<longleftrightarrow> (\<forall>r v r'. rd r = Inr (v, r') \<longrightarrow> length (unread r') < length (unread r))"

lemma takes_map_ok: "takes R unread rd r v k \<Longrightarrow> takes R unread (\<lambda>r. map_ok f (rd r)) r (f v) k"
  by (auto simp: takes_def map_ok_def)

lemma shrinks_map_ok: "shrinks unread rd \<Longrightarrow> shrinks unread (\<lambda>r. map_ok f (rd r))"
  by (fastforce simp: shrinks_def map_ok_def bindr_Inr)

lemma shrinks_if: "shrinks unread f \<Longrightarrow> shrinks unread g \<Longrightarrow> shrinks unread (\<lambda>r. if b then f r else g r)"
  by (cases b) simp_all

lemma shrinks_error: "shrinks unread (\<lambda>r. Inl e)"
  by (simp add: shrinks_def)

locale gimli_reader =
  fixes R :: "'r reader" and unread :: "'r \<Rightarrow> u8 list"
  assumes new_unread: "unread (endian_slice_new R s) = bytes s"
    and new_offset: "offset_id R (endian_slice_new R s) = ucast (addr s)"
    and u8: "unread r \<noteq> [] \<Longrightarrow> takes R unread (read_u8 R) r (hd (unread r)) 1"
    and u16: "2 \<le> length (unread r) \<Longrightarrow> takes R unread (read_u16 R) r (of_nat (le_value (take 2 (unread r)))) 2"
    and u32: "4 \<le> length (unread r) \<Longrightarrow> takes R unread (read_u32 R) r (of_nat (le_value (take 4 (unread r)))) 4"
    and u64: "8 \<le> length (unread r) \<Longrightarrow> takes R unread (read_u64 R) r (of_nat (le_value (take 8 (unread r)))) 8"
    and uleb: "n < 2 ^ 64 \<Longrightarrow> unread r = uleb128 n @ bs \<Longrightarrow> takes R unread (read_uleb128 R) r (of_nat n) (length (uleb128 n))"
    and progress: "shrinks unread (read_u16 R)" "shrinks unread (read_u32 R)" "shrinks unread (read_u64 R)"
      "shrinks unread (read_i16 R)" "shrinks unread (read_i32 R)" "shrinks unread (read_i64 R)"
      "shrinks unread (read_uleb128 R)" "shrinks unread (read_sleb128 R)"
begin

text \<open>Decoding what was encoded.\<close>

lemma takes_pointer:
  assumes "encode_pointer enc v = Some bs" "unread r = bs @ cs"
  shows "takes R unread (\<lambda>r. read_encoded_pointer R r enc) r v (length bs)"
proof -
  have v: "unat v < 2 ^ 64" using unsigned_less[of v, where ?'a = nat] by simp
  consider (leb) "enc = DW_EH_PE_uleb128" "bs = uleb128 (unat v)"
    | (two) "enc = DW_EH_PE_udata2" "unat v < 2 ^ 16" "bs = le_bytes 2 (unat v)"
    | (four) "enc = DW_EH_PE_udata4" "unat v < 2 ^ 32" "bs = le_bytes 4 (unat v)"
    | (eight) "enc = DW_EH_PE_udata8" "bs = le_bytes 8 (unat v)"
    using assms(1) by (auto simp: encode_pointer_def split: if_splits)
  then show ?thesis
  proof cases
    case leb
    then show ?thesis using uleb[OF v, of r cs] assms(2) by (simp add: read_encoded_pointer_def dw_eh_pe)
  next
    case two
    have w: "ucast (of_nat (unat v) :: u16) = v" using widen(1)[OF two(2)] by simp
    have "takes R unread (read_u16 R) r (of_nat (unat v)) 2" using u16[of r] assms(2) two(2,3) le_value_bytes[of "unat v" 2] by simp
    from takes_map_ok[OF this, of "ucast :: u16 \<Rightarrow> u64"] show ?thesis using two(1,3) w by (simp add: read_encoded_pointer_def dw_eh_pe)
  next
    case four
    have w: "ucast (of_nat (unat v) :: u32) = v" using widen(2)[OF four(2)] by simp
    have "takes R unread (read_u32 R) r (of_nat (unat v)) 4" using u32[of r] assms(2) four(2,3) le_value_bytes[of "unat v" 4] by simp
    from takes_map_ok[OF this, of "ucast :: u32 \<Rightarrow> u64"] show ?thesis using four(1,3) w by (simp add: read_encoded_pointer_def dw_eh_pe)
  next
    case eight
    then show ?thesis using u64[of r] assms(2) le_value_bytes[of "unat v" 8] v by (simp add: read_encoded_pointer_def dw_eh_pe)
  qed
qed

text \<open>Reading a table entry.\<close>

lemma entry_parse:
  assumes "encode_entry enc e = Some bs" "unread r = bs @ cs"
  shows "takes R unread (\<lambda>r. call_site_table_entry_parse R r enc (landing_pad_base e)) r e (length bs)"
proof -
  obtain b1 b2 b3 b4 where b: "encode_pointer enc (ucast (starting_offset e)) = Some b1" "encode_pointer enc (ucast (cs_length e)) = Some b2"
    "encode_pointer enc (ucast (landing_pad_offset e)) = Some b3" "encode_pointer DW_EH_PE_uleb128 (ucast (cs_action_offset e)) = Some b4"
    "bs = b1 @ b2 @ b3 @ b4" using assms(1) by (auto simp: encode_entry_def split: option.splits)
  obtain r1 where r1: "read_encoded_pointer R r enc = Inr (ucast (starting_offset e), r1)" "unread r1 = b2 @ b3 @ b4 @ cs"
    "offset_id R r1 = offset_id R r + of_nat (length b1)"
    using takes_pointer[OF b(1), of r] assms(2) b(5) by (auto simp: takes_def)
  obtain r2 where r2: "read_encoded_pointer R r1 enc = Inr (ucast (cs_length e), r2)" "unread r2 = b3 @ b4 @ cs"
    "offset_id R r2 = offset_id R r1 + of_nat (length b2)"
    using takes_pointer[OF b(2) r1(2)] r1(2) by (auto simp: takes_def)
  obtain r3 where r3: "read_encoded_pointer R r2 enc = Inr (ucast (landing_pad_offset e), r3)" "unread r3 = b4 @ cs"
    "offset_id R r3 = offset_id R r2 + of_nat (length b3)"
    using takes_pointer[OF b(3) r2(2)] r2(2) by (auto simp: takes_def)
  obtain r4 where r4: "read_encoded_pointer R r3 DW_EH_PE_uleb128 = Inr (ucast (cs_action_offset e), r4)" "unread r4 = cs"
    "offset_id R r4 = offset_id R r3 + of_nat (length b4)"
    using takes_pointer[OF b(4) r3(2)] r3(2) by (auto simp: takes_def)
  have "call_site_table_entry_parse R r enc (landing_pad_base e) = Inr (e, r4)"
    using r1(1) r2(1) r3(1) r4(1) by (simp add: call_site_table_entry_parse_def)
  then show ?thesis using r1(3) r2(3) r3(3) r4(2,3) b(5) assms(2) by (simp add: takes_def)
qed

text \<open>Searching the table.\<close>

lemma find_eq:
  assumes "encode_entries enc es = Some tbl" "list_all (\<lambda>e. landing_pad_base e = base) es" "unread r = tbl @ cs"
    and "unat (offset_id R r) + length tbl < 2 ^ 32" "unat fin = unat (offset_id R r) + length tbl"
  shows "find_call_site R pc \<lparr>it_encoding = enc, end_of_call_site_table = fin, it_landing_pad_base = base, it_reader = r\<rparr>
    = Some (case covering pc es of None \<Rightarrow> Inl NoUnwindInfoForAddress | Some e \<Rightarrow> Inr e)"
  using assms
proof (induction es arbitrary: tbl r)
  case Nil
  then have "\<not> ucast (offset_id R r) < fin" by (simp add: word_less_nat_alt unat_low)
  then show ?case by (subst find_call_site.simps) (simp add: call_site_next_def covering_def)
next
  case (Cons e es)
  obtain bs ts where t: "encode_entry enc e = Some bs" "encode_entries enc es = Some ts" "tbl = bs @ ts"
    using Cons.prems(1) by (auto split: option.splits)
  obtain r' where r': "call_site_table_entry_parse R r enc base = Inr (e, r')" "unread r' = ts @ cs" "offset_id R r' = offset_id R r + of_nat (length bs)"
    using entry_parse[OF t(1), of r "ts @ cs"] Cons.prems(2,3) t(3) by (auto simp: takes_def)
  have o: "unat (offset_id R r') = unat (offset_id R r) + length bs"
    using r'(3) Cons.prems(4) t(3) by (simp add: unat_word_ariths unat_of_nat)
  have "ucast (offset_id R r) < fin" using Cons.prems(4,5) encode_entry_nonempty[OF t(1)] t(3) by (simp add: word_less_nat_alt unat_low)
  then have "call_site_next R \<lparr>it_encoding = enc, end_of_call_site_table = fin, it_landing_pad_base = base, it_reader = r\<rparr>
      = Inr (Some e, \<lparr>it_encoding = enc, end_of_call_site_table = fin, it_landing_pad_base = base, it_reader = r'\<rparr>)"
    by (simp add: call_site_next_def r'(1))
  then show ?case using Cons.IH[OF t(2) _ r'(2)] Cons.prems(2,4,5) o t(3)
    by (subst find_call_site.simps) (simp add: covering_def range_contains_def range_of_covered_addresses_def word_le_nat_alt word_less_nat_alt)
qed

text \<open>The search ends on any bytes.\<close>

lemma pointer_shrinks: "shrinks unread (\<lambda>r. read_encoded_pointer R r enc)"
  unfolding read_encoded_pointer_def by (intro shrinks_if shrinks_map_ok shrinks_error progress)

lemma entry_shrinks:
  assumes "call_site_table_entry_parse R r enc base = Inr (e, r')"
  shows "length (unread r') < length (unread r)"
proof -
  have p: "length (unread b) < length (unread a)" if "read_encoded_pointer R a c = Inr (v, b)" for a b c v
    using pointer_shrinks that unfolding shrinks_def by blast
  from assms show ?thesis unfolding call_site_table_entry_parse_def by (auto simp: bindr_Inr dest!: p)
qed

lemma find_total: "\<exists>y. find_call_site R pc it = Some y"
proof (induction "length (unread (it_reader it))" arbitrary: it rule: less_induct)
  case less
  show ?case
  proof (cases "\<exists>e it'. call_site_next R it = Inr (Some e, it')")
    case True
    then obtain e it' where n: "call_site_next R it = Inr (Some e, it')" by blast
    then obtain r' where "call_site_table_entry_parse R (it_reader it) (it_encoding it) (it_landing_pad_base it) = Inr (e, r')" "it' = it\<lparr>it_reader := r'\<rparr>"
      by (auto simp: call_site_next_def bindr_Inr split: if_splits)
    then have "length (unread (it_reader it')) < length (unread (it_reader it))" using entry_shrinks by simp
    from less[OF this] show ?thesis using n by (subst find_call_site.simps) simp
  next
    case False
    then show ?thesis by (subst find_call_site.simps) (auto split: sum.splits option.splits)
  qed
qed

lemma lookup_total: "\<exists>y. call_site_table_entry_for_address R r fsa pc = Some y"
  using find_total by (auto simp: call_site_table_entry_for_address_def split: sum.splits)

text \<open>Parsing the headers.\<close>

lemma read_byte:
  assumes "unread r = b # cs"
  obtains r' where "read_u8 R r = Inr (b, r')" "unread r' = cs" "offset_id R r' = offset_id R r + 1"
  using u8[of r] assms by (auto simp: takes_def)

lemma read_pointer:
  assumes "encode_pointer enc v = Some bs" "unread r = bs @ cs"
  obtains r' where "read_encoded_pointer R r enc = Inr (v, r')" "unread r' = cs" "offset_id R r' = offset_id R r + of_nat (length bs)"
  using takes_pointer[OF assms] assms(2) by (auto simp: takes_def)

lemma uleb_pointer: "encode_pointer DW_EH_PE_uleb128 v = Some (uleb128 (unat v))"
  by (simp add: encode_pointer_def)

lemma lp_parse:
  assumes "encode_lp lp = Some bs" "unread r = bs @ cs"
  obtains e r1 r2 where "read_u8 R r = Inr (e, r1)"
    "(if e = DW_EH_PE_omit then Inr (None, r1) else map_ok (\<lambda>v. Some (ucast v)) (read_encoded_pointer R r1 e))
      = Inr (map_option (\<lambda>(e, v). ucast v :: u32) lp, r2)"
    "unread r2 = cs" "offset_id R r2 = offset_id R r + of_nat (length bs)"
proof (cases lp)
  case None
  obtain r1 where "read_u8 R r = Inr (DW_EH_PE_omit, r1)" "unread r1 = cs" "offset_id R r1 = offset_id R r + 1"
    by (rule read_byte[of r DW_EH_PE_omit cs]) (use assms None in auto)
  then show thesis using that[of DW_EH_PE_omit r1 r1] assms None by auto
next
  case (Some p)
  then obtain e v bs' where p: "lp = Some (e, v)" "encode_pointer e v = Some bs'" "bs = e # bs'" using assms(1) by (cases p) auto
  have ne: "e \<noteq> DW_EH_PE_omit" using p(2) by (auto simp: encode_pointer_def dw_eh_pe)
  obtain r1 where r1: "read_u8 R r = Inr (e, r1)" "unread r1 = bs' @ cs" "offset_id R r1 = offset_id R r + 1"
    by (rule read_byte[of r e "bs' @ cs"]) (use assms p in auto)
  obtain r2 where "read_encoded_pointer R r1 e = Inr (v, r2)" "unread r2 = cs" "offset_id R r2 = offset_id R r1 + of_nat (length bs')"
    by (rule read_pointer[OF p(2) r1(2)])
  then show thesis using that[of e r1 r2] r1 ne p by (simp add: map_ok_def)
qed

lemma tt_parse:
  assumes "encode_tt tt = Some bs" "unread r = bs @ cs"
  obtains e r1 x r2 where "read_u8 R r = Inr (e, r1)"
    "(if e = DW_EH_PE_omit then Inr (None, r1) else map_ok (\<lambda>v. Some (ucast v)) (read_encoded_pointer R r1 DW_EH_PE_uleb128))
      = Inr (x :: u32 option, r2)"
    "unread r2 = cs" "offset_id R r2 = offset_id R r + of_nat (length bs)"
proof (cases tt)
  case None
  obtain r1 where "read_u8 R r = Inr (DW_EH_PE_omit, r1)" "unread r1 = cs" "offset_id R r1 = offset_id R r + 1"
    by (rule read_byte[of r DW_EH_PE_omit cs]) (use assms None in auto)
  then show thesis using that[of DW_EH_PE_omit r1 None r1] assms None by auto
next
  case (Some p)
  then obtain e v where p: "tt = Some (e, v)" "e \<noteq> DW_EH_PE_omit" "bs = e # uleb128 (unat v)" using assms(1) by (cases p) (auto split: if_splits)
  obtain r1 where r1: "read_u8 R r = Inr (e, r1)" "unread r1 = uleb128 (unat v) @ cs" "offset_id R r1 = offset_id R r + 1"
    by (rule read_byte[of r e "uleb128 (unat v) @ cs"]) (use assms p in auto)
  obtain r2 where "read_encoded_pointer R r1 DW_EH_PE_uleb128 = Inr (v, r2)" "unread r2 = cs"
    "offset_id R r2 = offset_id R r1 + of_nat (length (uleb128 (unat v)))"
    by (rule read_pointer[OF uleb_pointer r1(2)])
  then show thesis using that[of e r1 "Some (ucast v)" r2] r1 p by (simp add: map_ok_def)
qed

text \<open>The whole lookup.\<close>

lemma lookup_eq:
  assumes L: "lsda_bytes lp tt enc es = Some bs" and s: "bytes s = bs @ cs" "unat (addr s) + length bs < 2 ^ 32"
    and base: "list_all (\<lambda>e. landing_pad_base e = lp_base lp fsa) es"
  shows "call_site_table_entry_for_address R (endian_slice_new R s) fsa pc
    = Some (case covering pc es of None \<Rightarrow> Inl NoUnwindInfoForAddress | Some e \<Rightarrow> Inr e)"
proof -
  let ?r = "endian_slice_new R s"
  obtain a b t where e: "encode_lp lp = Some a" "encode_tt tt = Some b" "encode_entries enc es = Some t"
    "bs = a @ b @ enc # uleb128 (length t) @ t" using L by (auto simp: lsda_bytes_def split: option.splits)
  have len: "length a + length b + 1 + length (uleb128 (length t)) + length t = length bs" using e(4) by simp
  have t: "unat (of_nat (length t) :: u64) = length t" using s(2) len by (simp add: unat_of_nat)
  have "unread ?r = a @ b @ enc # uleb128 (length t) @ t @ cs" using s(1) e(4) new_unread by simp
  then obtain e1 r1 r2 where p1: "read_u8 R ?r = Inr (e1, r1)"
    "(if e1 = DW_EH_PE_omit then Inr (None, r1) else map_ok (\<lambda>v. Some (ucast v)) (read_encoded_pointer R r1 e1))
      = Inr (map_option (\<lambda>(e, v). ucast v :: u32) lp, r2)"
    "unread r2 = b @ enc # uleb128 (length t) @ t @ cs" "offset_id R r2 = offset_id R ?r + of_nat (length a)" by (rule lp_parse[OF e(1)])
  obtain e2 r3 x r4 where p2: "read_u8 R r2 = Inr (e2, r3)"
    "(if e2 = DW_EH_PE_omit then Inr (None, r3) else map_ok (\<lambda>v. Some (ucast v)) (read_encoded_pointer R r3 DW_EH_PE_uleb128))
      = Inr (x :: u32 option, r4)"
    "unread r4 = enc # uleb128 (length t) @ t @ cs" "offset_id R r4 = offset_id R r2 + of_nat (length b)" by (rule tt_parse[OF e(2) p1(3)])
  obtain r5 where p3: "read_u8 R r4 = Inr (enc, r5)" "unread r5 = uleb128 (length t) @ t @ cs" "offset_id R r5 = offset_id R r4 + 1"
    by (rule read_byte[OF p2(3)])
  obtain r6 where p4: "read_encoded_pointer R r5 DW_EH_PE_uleb128 = Inr (of_nat (length t), r6)" "unread r6 = t @ cs"
    "offset_id R r6 = offset_id R r5 + of_nat (length (uleb128 (length t)))"
    by (rule read_pointer[OF uleb_pointer, of r5 "of_nat (length t)" "t @ cs"]) (use p3(2) t in auto)
  have "parse_from_beginning R ?r = Inr (\<lparr>landing_pad_base_encoding = e1, header_landing_pad_base = map_option (\<lambda>(e, v). ucast v) lp,
      type_table_encoding = e2, type_table_offset = x\<rparr>, \<lparr>cst_encoding = enc, cst_length = ucast (of_nat (length t) :: u64)\<rparr>, r6)"
    unfolding parse_from_beginning_def lsda_header_parse_def call_site_table_header_parse_def
    by (simp only: p1(1) p2(1) p3(1) bindr_simps prod.case p1(2) p2(2) p4(1))
  moreover have "(case map_option (\<lambda>(e, v). ucast v) lp of None \<Rightarrow> fsa | Some b \<Rightarrow> b) = lp_base lp fsa"
    by (auto simp: lp_base_def split: option.splits)
  ultimately have it: "call_site_table_entries R ?r fsa = Inr \<lparr>it_encoding = enc,
      end_of_call_site_table = ucast (offset_id R r6) + ucast (of_nat (length t) :: u64), it_landing_pad_base = lp_base lp fsa, it_reader = r6\<rparr>"
    by (simp add: call_site_table_entries_def)
  let ?k = "length a + length b + 1 + length (uleb128 (length t))"
  have "offset_id R r6 = ucast (addr s) + of_nat ?k" using p1(4) p2(4) p3(3) p4(3) new_offset by simp
  moreover have "unat (ucast (addr s) :: u64) = unat (addr s)"
    using unsigned_less[of "addr s", where ?'a = nat] by (simp add: unsigned_ucast_eq take_bit_nat_eq_self)
  moreover have "unat (of_nat ?k :: u64) = ?k" by (rule unat_of_nat_bounded) (use s(2) len in linarith)
  ultimately have o: "unat (offset_id R r6) = unat (addr s) + ?k" using s(2) len
    by (simp only: unat_word_ariths(1)) simp
  have o2: "unat (ucast (offset_id R r6) + ucast (of_nat (length t) :: u64) :: u32) = unat (offset_id R r6) + length t"
    using o s(2) len t unat_low[of "offset_id R r6"] unat_low[of "of_nat (length t)"] by (simp add: unat_word_ariths)
  show ?thesis using find_eq[OF e(3) base p4(2) _ o2] o s(2) len
    by (simp add: call_site_table_entry_for_address_def it)
qed

end

section \<open>A slice as a reader\<close>

text \<open>\<open>EndianSlice\<close> on a byte slice, as its documentation has it: fixed-size little-endian reads fail
  at the end of the input, LEB128 numbers fail when they are not terminated or too large.\<close>

type_synonym cursor = "u64 \<times> u8 list"

definition advance :: "nat \<Rightarrow> cursor \<Rightarrow> cursor" where
  "advance k c = (fst c + of_nat k, drop k (snd c))"

definition read_fixed :: "nat \<Rightarrow> cursor \<Rightarrow> ('a :: len word \<times> cursor) gimli" where
  "read_fixed k c = (if k \<le> length (snd c) then Inr (of_nat (le_value (take k (snd c))), advance k c) else Inl ReadFailed)"

fun uleb_value :: "u8 list \<Rightarrow> (nat \<times> nat) option" where
  "uleb_value [] = None"
| "uleb_value (b # bs) =
     (if b < 128 then Some (unat b, 1) else map_option (\<lambda>(n, k). (unat b - 128 + 128 * n, k + 1)) (uleb_value bs))"

fun sleb_value :: "u8 list \<Rightarrow> (int \<times> nat) option" where
  "sleb_value [] = None"
| "sleb_value (b # bs) =
     (if b < 128 then Some (if b < 64 then uint b else uint b - 128, 1)
      else map_option (\<lambda>(n, k). (uint b - 128 + 128 * n, k + 1)) (sleb_value bs))"

definition read_uleb :: "cursor \<Rightarrow> (u64 \<times> cursor) gimli" where
  "read_uleb c =
     (case uleb_value (snd c) of
        Some (n, k) \<Rightarrow> if n < 2 ^ 64 then Inr (of_nat n, advance k c) else Inl ReadFailed
      | None \<Rightarrow> Inl ReadFailed)"

definition read_sleb :: "cursor \<Rightarrow> (u64 \<times> cursor) gimli" where
  "read_sleb c =
     (case sleb_value (snd c) of
        Some (n, k) \<Rightarrow> if - (2 ^ 63) \<le> n \<and> n < 2 ^ 63 then Inr (of_int n, advance k c) else Inl ReadFailed
      | None \<Rightarrow> Inl ReadFailed)"

definition slice_reader :: "cursor reader" where
  "slice_reader = \<lparr>endian_slice_new = (\<lambda>s. (ucast (addr s), bytes s)), offset_id = fst,
     read_u8 = read_fixed 1, read_u16 = read_fixed 2, read_u32 = read_fixed 4, read_u64 = read_fixed 8,
     read_i16 = read_fixed 2, read_i32 = read_fixed 4, read_i64 = read_fixed 8,
     read_uleb128 = read_uleb, read_sleb128 = read_sleb\<rparr>"

lemma uleb_value_encoded: "uleb_value (uleb128 n @ bs) = Some (n, length (uleb128 n))"
proof (induction n rule: uleb128.induct)
  case (1 n)
  show ?case
  proof (cases "n < 128")
    case True
    then show ?thesis by (simp add: uleb128.simps[of n] word_less_nat_alt unat_of_nat)
  next
    case False
    have "n mod 128 + 128 < 256" by (simp add: add.commute)
    then have u: "unat (of_nat (n mod 128 + 128) :: u8) = n mod 128 + 128" by (subst unat_of_nat) simp
    have "uleb128 n = of_nat (n mod 128 + 128) # uleb128 (n div 128)" using False by (simp add: uleb128.simps[of n])
    moreover have "\<not> (of_nat (n mod 128 + 128) :: u8) < 128" using u by (simp only: word_less_nat_alt) simp
    ultimately show ?thesis using "1.IH"[OF False] u by simp
  qed
qed

lemma leb_pos: "uleb_value bs = Some (n, k) \<Longrightarrow> 0 < k \<and> k \<le> length bs" "sleb_value bs = Some (i, j) \<Longrightarrow> 0 < j \<and> j \<le> length bs"
  by (induction bs arbitrary: n k i j) (auto split: if_splits)

lemma fixed_takes: "k \<le> length (snd c) \<Longrightarrow> takes slice_reader snd (read_fixed k) c (of_nat (le_value (take k (snd c)))) k"
  by (simp add: takes_def read_fixed_def advance_def slice_reader_def)

lemma fixed_shrinks: "0 < k \<Longrightarrow> shrinks snd (read_fixed k)"
  by (auto simp: shrinks_def read_fixed_def advance_def)

lemma leb_shrinks: "shrinks snd read_uleb" "shrinks snd read_sleb"
  by (fastforce simp: shrinks_def read_uleb_def read_sleb_def advance_def split: option.splits if_splits dest: leb_pos)+

lemma slice_reader_sel [simp]:
  "endian_slice_new slice_reader s = (ucast (addr s), bytes s)" "offset_id slice_reader = fst"
  "read_u8 slice_reader = read_fixed 1" "read_u16 slice_reader = read_fixed 2" "read_u32 slice_reader = read_fixed 4" "read_u64 slice_reader = read_fixed 8"
  "read_i16 slice_reader = read_fixed 2" "read_i32 slice_reader = read_fixed 4" "read_i64 slice_reader = read_fixed 8"
  "read_uleb128 slice_reader = read_uleb" "read_sleb128 slice_reader = read_sleb"
  by (simp_all add: slice_reader_def)

interpretation sr: gimli_reader slice_reader snd
proof
  show "takes slice_reader snd (read_u8 slice_reader) r (hd (snd r)) 1" if "snd r \<noteq> []" for r
  proof -
    have "take 1 (snd r) = [hd (snd r)]" "1 \<le> length (snd r)" using that by (cases "snd r"; simp)+
    then show ?thesis using fixed_takes[of 1 r, where ?'a = 8] by simp
  qed
  show "takes slice_reader snd (read_uleb128 slice_reader) r (of_nat n) (length (uleb128 n))" if "n < 2 ^ 64" "snd r = uleb128 n @ bs" for n r bs
    using that uleb_value_encoded[of n bs] by (simp add: takes_def read_uleb_def advance_def)
qed (simp_all add: fixed_takes fixed_shrinks leb_shrinks)

section \<open>Lookup of a call site\<close>

text \<open>C12. On the bytes of a language specific data area, with or without a base for the landing pads and
  a type table, in each of the unsigned pointer encodings, the lookup parses the headers and the
  table and returns the first entry whose half-open address range contains the address, with the
  offsets that were encoded, and \<open>NoUnwindInfoForAddress\<close> if there is none. On arbitrary bytes it
  always returns.\<close>

theorem call_site_lookup:
  assumes "gimli_reader R unread"
  shows "(\<exists>y. call_site_table_entry_for_address R r fsa pc = Some y)
    \<and> (lsda_bytes lp tt enc es = Some bs \<and> bytes s = bs @ cs \<and> unat (addr s) + length bs < 2 ^ 32
        \<and> list_all (\<lambda>e. landing_pad_base e = lp_base lp fsa) es \<longrightarrow>
      call_site_table_entry_for_address R (endian_slice_new R s) fsa pc
        = Some (case covering pc es of None \<Rightarrow> Inl NoUnwindInfoForAddress | Some e \<Rightarrow> Inr e))"
  using gimli_reader.lookup_total[OF assms] gimli_reader.lookup_eq[OF assms] by blast

text \<open>Sample: a function at \<open>0x1000\<close> with two call sites, the second with a landing pad at \<open>0x1040\<close>.\<close>

definition call_sites0 :: "call_site_table_entry list" where
  "call_sites0 = [\<lparr>starting_offset = 0, cs_length = 8, landing_pad_offset = 0, cs_action_offset = 0, landing_pad_base = 0x1000\<rparr>,
     \<lparr>starting_offset = 8, cs_length = 0x20, landing_pad_offset = 0x40, cs_action_offset = 0, landing_pad_base = 0x1000\<rparr>]"

definition lsda0 :: slice where
  "lsda0 = \<lparr>addr = 0x8000, bytes = [0xff, 0xff, 1, 8, 0, 8, 0, 0, 8, 0x20, 0x40, 0, 0xde, 0xad]\<rparr>"

lemma lsda0_bytes: "lsda_bytes None None DW_EH_PE_uleb128 call_sites0 = Some [0xff, 0xff, 1, 8, 0, 8, 0, 0, 8, 0x20, 0x40, 0]"
  by (simp add: lsda_bytes_def call_sites0_def encode_entry_def encode_pointer_def dw_eh_pe uleb128.simps)

theorem call_site_lookup_witness:
  "call_site_table_entry_for_address slice_reader (endian_slice_new slice_reader lsda0) 0x1000 0x1010 = Some (Inr (call_sites0 ! 1))"
proof -
  have "covering 0x1010 call_sites0 = Some (call_sites0 ! 1)" by (simp add: covering_def call_sites0_def)
  moreover have "list_all (\<lambda>e. landing_pad_base e = lp_base None 0x1000) call_sites0" by (simp add: call_sites0_def lp_base_def)
  moreover have "bytes lsda0 = [0xff, 0xff, 1, 8, 0, 8, 0, 0, 8, 0x20, 0x40, 0] @ [0xde, 0xad]" by (simp add: lsda0_def)
  moreover have "unat (addr lsda0) + length [0xff, 0xff, 1, 8, 0, 8, 0, 0, 8, 0x20, 0x40, 0 :: u8] < 2 ^ 32" by (simp add: lsda0_def)
  ultimately show ?thesis
    using call_site_lookup[OF sr.gimli_reader_axioms, of "(0, [])" "0x1000" "0x1010" None None DW_EH_PE_uleb128 call_sites0
        "[0xff, 0xff, 1, 8, 0, 8, 0, 0, 8, 0x20, 0x40, 0]" lsda0 "[0xde, 0xad]"] lsda0_bytes
    by simp
qed

end
