(* ===== verification/Unwind.thy ===== *)
theory Unwind
  imports Unw_Lsda Segmented_Stack
begin

unbundle bit_operations_syntax

text \<open>
  The unwinder's step from a stack frame to its caller, \<open>src/unwind/unwind.rs\<close>: the search of the
  exception index, the interpretation of the unwind instructions on a copy of the registers, and the
  search for the next landing pad.
  The sections \<open>.ARM.exidx\<close> and \<open>.ARM.extab\<close>, which \<open>get_exidx\<close> and \<open>get_extab\<close> locate, are arguments.
\<close>

section \<open>Unwind information\<close>

text \<open>An LSDA is the slice of its bytes with the start address of the function.\<close>

record lsda =
  lsda_data :: slice
  function_start_address :: u32

record unwind_info =
  ui_func_addr :: u32
  ui_personality :: personality_type
  ui_instr_iter :: byte_iter
  ui_lsda :: "lsda option"

datatype unwind_ability = Cant_Unwind | Can_Unwind unwind_info

definition ability_from_bytes :: "slice \<Rightarrow> slice \<Rightarrow> (string + unwind_ability) res" where
  "ability_from_bytes exidx_entry extab =
     bindr (exidx_from_bytes exidx_entry) (\<lambda>r.
       case r of
         Inl e \<Rightarrow> Inr (Inl e)
       | Inr exidx_entry \<Rightarrow>
           if \<not> can_unwind exidx_entry then Inr (Inr Cant_Unwind)
           else if is_compact exidx_entry then
             bindr (exidx_personality exidx_entry) (\<lambda>p.
             bindr (exidx_unw_instr_iter exidx_entry) (\<lambda>it.
               Inr (Inr (Can_Unwind \<lparr>ui_func_addr = get_func_addr exidx_entry, ui_personality = p, ui_instr_iter = it, ui_lsda = None\<rparr>))))
           else
             bindr (get_extab_entry_addr exidx_entry) (\<lambda>extab_entry_addr.
             bindr (get8 extab 0) (\<lambda>_.
             bindr (extab_from_bytes extab (extab_entry_addr - addr extab)) (\<lambda>r.
               case r of
                 Inl e \<Rightarrow> Inr (Inl e)
               | Inr (extab_entry, lsda_slice) \<Rightarrow>
                   Inr (Inr (Can_Unwind \<lparr>ui_func_addr = get_func_addr exidx_entry, ui_personality = personality extab_entry,
                     ui_instr_iter = unw_instr_iter extab_entry,
                     ui_lsda = Some \<lparr>lsda_data = lsda_slice, function_start_address = get_func_addr exidx_entry\<rparr>\<rparr>))))))"

section \<open>The search of the index\<close>

text \<open>The start of the function of the entry at a byte offset.\<close>

definition entry_pc :: "slice \<Rightarrow> nat \<Rightarrow> u32 res" where
  "entry_pc exidx i = bindr (subslice exidx (of_nat i) (of_nat (i + 4))) (\<lambda>w. Inr (prel31_value (prel31_from_bytes w)))"

lemma mid_between:
  assumes "first < last_idx - (8 :: nat)"
  shows "0 < ((last_idx - first) div 8 + 1) div 2 * 8" "((last_idx - first) div 8 + 1) div 2 * 8 < last_idx - first"
proof -
  let ?d = "last_idx - first" and ?n = "(last_idx - first) div 8"
  have d: "8 < ?d" using assms by linarith
  then have n: "1 \<le> ?n" by (simp add: less_eq_div_iff_mult_less_eq)
  have le: "8 * ?n \<le> ?d" by simp
  show "0 < (?n + 1) div 2 * 8" using n by simp
  show "(?n + 1) div 2 * 8 < ?d"
  proof (cases "?n = 1")
    case True
    then show ?thesis using d by simp
  next
    case False
    then have "(?n + 1) div 2 < ?n" using n by linarith
    then show ?thesis using le by linarith
  qed
qed

function search_exidx :: "slice \<Rightarrow> u32 \<Rightarrow> nat \<Rightarrow> nat \<Rightarrow> nat res" where
  "search_exidx exidx pc first last_idx =
     (if first < last_idx - 8 then
        let mid = first + ((last_idx - first) div 8 + 1) div 2 * 8
        in case entry_pc exidx mid of
             Inl e \<Rightarrow> Inl e
           | Inr mid_pc \<Rightarrow> if pc < mid_pc then search_exidx exidx pc first mid else search_exidx exidx pc mid last_idx
      else Inr first)"
  by pat_completeness auto

termination
proof (relation "measure (\<lambda>(_, _, first, last_idx). last_idx - first)")
  fix exidx :: slice and pc mid_pc :: u32 and first last_idx mid :: nat
  assume f: "first < last_idx - 8" and mid: "mid = first + ((last_idx - first) div 8 + 1) div 2 * 8"
  note m = mid_between[OF f]
  show "((exidx, pc, first, mid), (exidx, pc, first, last_idx)) \<in> measure (\<lambda>(_, _, first, last_idx). last_idx - first)"
    "((exidx, pc, mid, last_idx), (exidx, pc, first, last_idx)) \<in> measure (\<lambda>(_, _, first, last_idx). last_idx - first)"
    using m unfolding mid by (simp_all only: in_measure prod.case) linarith+
qed simp

declare search_exidx.simps [simp del]

definition get_for_pc :: "u32 \<Rightarrow> slice \<Rightarrow> slice \<Rightarrow> (string + unwind_ability) res" where
  "get_for_pc pc exidx extab =
     (if length (bytes exidx) mod 8 \<noteq> 0 then Inr (Inl ''UnwindAbility::get_for_func: exidx length not multiple of 8.'')
      else if length (bytes exidx) = 0 then Inr (Inl ''UnwindAbility::get_for_func: empty exidx.'')
      else
        let first = 0; last_idx = length (bytes exidx) - 8
        in bindr (entry_pc exidx first) (\<lambda>first_pc.
             if pc < first_pc then Inr (Inl ''UnwindAbility::get_for_func: no matching entry.'')
             else bindr (entry_pc exidx last_idx) (\<lambda>last_pc.
               if pc \<ge> last_pc
               then bindr (subslice exidx (of_nat last_idx) (of_nat (last_idx + 8))) (\<lambda>e. ability_from_bytes e extab)
               else bindr (search_exidx exidx pc first last_idx) (\<lambda>first.
                      bindr (subslice exidx (of_nat first) (of_nat (first + 8))) (\<lambda>e. ability_from_bytes e extab)))))"

section \<open>Registers\<close>

datatype arm_gp_reg = R0 | R4 | R5 | R6 | R7 | R8 | R9 | R10 | R11 | SP | LR | PC

definition gp_from_reg_num :: "nat \<Rightarrow> arm_gp_reg res" where
  "gp_from_reg_num idx =
     (if idx = 0 then Inr R0 else if idx = 4 then Inr R4 else if idx = 5 then Inr R5 else if idx = 6 then Inr R6
      else if idx = 7 then Inr R7 else if idx = 8 then Inr R8 else if idx = 9 then Inr R9 else if idx = 10 then Inr R10
      else if idx = 11 then Inr R11 else if idx = 13 then Inr SP else if idx = 14 then Inr LR else if idx = 15 then Inr PC
      else Inl Die)"

fun gp_to_reg_num :: "arm_gp_reg \<Rightarrow> nat" where
  "gp_to_reg_num R0 = 0"
| "gp_to_reg_num R4 = 4"
| "gp_to_reg_num R5 = 5"
| "gp_to_reg_num R6 = 6"
| "gp_to_reg_num R7 = 7"
| "gp_to_reg_num R8 = 8"
| "gp_to_reg_num R9 = 9"
| "gp_to_reg_num R10 = 10"
| "gp_to_reg_num R11 = 11"
| "gp_to_reg_num SP = 13"
| "gp_to_reg_num LR = 14"
| "gp_to_reg_num PC = 15"

text \<open>The floating point registers \<open>D8\<close> to \<open>D15\<close> by their array offset.\<close>

definition dp_from_reg_num :: "nat \<Rightarrow> nat res" where
  "dp_from_reg_num idx = (if 8 \<le> idx \<and> idx \<le> 15 then Inr (idx - 8) else Inl Die)"

record unwind_state =
  gp_regs :: "arm_gp_reg \<Rightarrow> u32"
  dpfp_regs :: "nat \<Rightarrow> u64"
  unw_ability :: unwind_ability
  us_stklet_boundary :: u32
  is_initial :: bool

definition has_finished :: "unwind_state \<Rightarrow> bool" where
  "has_finished u \<longleftrightarrow> gp_regs u PC = 0"

definition save_unw_state_ptr :: "u32 \<Rightarrow> unwind_state \<Rightarrow> unwind_state" where
  "save_unw_state_ptr p u = u\<lparr>gp_regs := (gp_regs u)(R0 := p)\<rparr>"

section \<open>Unwind instructions\<close>

text \<open>The loop of \<open>RegPop\<close> over the register numbers; the last component is \<open>tmp_sp\<close>.\<close>

fun pop_regs :: "mem \<Rightarrow> u32 \<Rightarrow> nat list \<Rightarrow> (arm_gp_reg \<Rightarrow> u32) \<times> u32 \<Rightarrow> ((arm_gp_reg \<Rightarrow> u32) \<times> u32) res" where
  "pop_regs m msk [] rs = Inr rs"
| "pop_regs m msk (i # is) (r, tmp_sp) =
     (if msk AND push_bit i 1 \<noteq> 0
      then bindr (gp_from_reg_num i) (\<lambda>g. pop_regs m msk is (r(g := m (unat tmp_sp)), tmp_sp + 4))
      else pop_regs m msk is (r, tmp_sp))"

text \<open>The loop of \<open>VfpPop\<close>.\<close>

fun pop_vfp :: "mem \<Rightarrow> nat \<Rightarrow> nat list \<Rightarrow> (arm_gp_reg \<Rightarrow> u32) \<times> (nat \<Rightarrow> u64) \<Rightarrow> ((arm_gp_reg \<Rightarrow> u32) \<times> (nat \<Rightarrow> u64)) res" where
  "pop_vfp m start [] rd = Inr rd"
| "pop_vfp m start (i # is) (r, d) =
     (let low = m (unat (r SP)); high = m (unat (r SP + 4));
          val = push_bit 32 (ucast high) OR ucast low
      in bindr (dp_from_reg_num (start + i)) (\<lambda>k. pop_vfp m start is (r(SP := r SP + 8), d(k := val))))"

definition apply_instr ::
  "mem \<Rightarrow> unwind_instruction \<Rightarrow> (arm_gp_reg \<Rightarrow> u32) \<times> (nat \<Rightarrow> u64) \<Rightarrow> (string + (arm_gp_reg \<Rightarrow> u32) \<times> (nat \<Rightarrow> u64)) res" where
  "apply_instr m i = (\<lambda>(r, d).
     case i of
       Finish \<Rightarrow> Inr (Inr (r, d))
     | DataPush sz \<Rightarrow> Inr (Inr (r(SP := r SP - sz), d))
     | DataPop sz \<Rightarrow> Inr (Inr (r(SP := r SP + sz), d))
     | RegPop msk \<Rightarrow> bindr (pop_regs m msk [0..<16] (r, r SP)) (\<lambda>(r, tmp_sp).
         Inr (Inr (if msk AND of_nat (gp_to_reg_num SP) = 0 then r(SP := tmp_sp) else r, d)))
     | RegToSp n \<Rightarrow> bindr (gp_from_reg_num (unat n)) (\<lambda>g. Inr (Inr (r(SP := r g), d)))
     | VfpPop start cnt \<Rightarrow> bindr (pop_vfp m (unat start) [0..<unat cnt] (r, d)) (\<lambda>rd. Inr (Inr rd))
     | WregPop \<Rightarrow> Inr (Inl ''UnwindState::step: haven't supported WREG.'')
     | WcgrPop \<Rightarrow> Inr (Inl ''UnwindState::step: haven't supported WCGR.'')
     | _ \<Rightarrow> Inr (Inl ''UnwindState::step: bad unwind instruction.''))"

partial_function (option) apply_instrs ::
  "mem \<Rightarrow> byte_iter \<Rightarrow> (arm_gp_reg \<Rightarrow> u32) \<times> (nat \<Rightarrow> u64)
     \<Rightarrow> (string + (arm_gp_reg \<Rightarrow> u32) \<times> (nat \<Rightarrow> u64)) res option" where
  "apply_instrs m it rd =
     (case instr_next it of
        Inl e \<Rightarrow> Some (Inl e)
      | Inr (None, it) \<Rightarrow> Some (Inr (Inr rd))
      | Inr (Some i, it) \<Rightarrow>
          (case apply_instr m i rd of
             Inl e \<Rightarrow> Some (Inl e)
           | Inr (Inl e) \<Rightarrow> Some (Inr (Inl e))
           | Inr (Inr rd) \<Rightarrow> apply_instrs m it rd))"

section \<open>Stepping to the caller\<close>

text \<open>After an error the caller dies and the registers are not used again; the model leaves them as
  they were.\<close>

text \<open>At a stacklet boundary: continue on the previous stacklet and free this one.\<close>

definition leave_stacklet :: "stk_env \<Rightarrow> cpu \<Rightarrow> unwind_state \<Rightarrow> stk_state \<Rightarrow> (unwind_state \<times> stk_state) option" where
  "leave_stacklet E c u st =
     (let meta = read_meta (smem st) (bound_to_stklet_meta (us_stklet_boundary u));
          prev_tf = prev_sp meta;
          r = (gp_regs u)(PC := smem st (tf_lr prev_tf) - 2);
          restored_sp = prev_sp meta + tf_frame_size (smem st) prev_tf;
          r = r(SP := restored_sp);
          to_free_stacklet_ptr = bound_to_stklet_ptr (us_stklet_boundary u);
          u = u\<lparr>gp_regs := r, us_stklet_boundary := prev_stklet_bound meta\<rparr>;
          st = (case scb st of
                  None \<Rightarrow> st
                | Some s \<Rightarrow> st\<lparr>scb := Some (s\<lparr>cumulated_size := cumulated_size s - count_size meta\<rparr>)\<rparr>)
      in case free_impl (henv E) c (unat to_free_stacklet_ptr) (ka st) of
           None \<Rightarrow> None | Some k \<Rightarrow> Some (u, st\<lparr>ka := k\<rparr>))"

definition unwind_step ::
  "stk_env \<Rightarrow> cpu \<Rightarrow> slice \<Rightarrow> slice \<Rightarrow> unwind_state \<Rightarrow> stk_state \<Rightarrow> ((string + unit) \<times> unwind_state \<times> stk_state) res" where
  "unwind_step E c exidx extab u st =
     (if has_finished u then Inr (Inl ''UnwindState::step: already finished.'', u, st)
      else case unw_ability u of
        Cant_Unwind \<Rightarrow> Inr (Inl ''UnwindState::step: can't unwind.'', u, st)
      | Can_Unwind info \<Rightarrow>
          let r = (gp_regs u)(PC := - 1)
          in case apply_instrs (smem st) (ui_instr_iter info) (r, dpfp_regs u) of
               None \<Rightarrow> Inl Die
             | Some (Inl e) \<Rightarrow> Inl e
             | Some (Inr (Inl e)) \<Rightarrow> Inr (Inl e, u, st)
             | Some (Inr (Inr (r, d))) \<Rightarrow>
                 let r = (if r PC = - 1 then r(PC := r LR) else r);
                     u = u\<lparr>gp_regs := r, dpfp_regs := d\<rparr>
                 in if r PC = 0 then Inr (Inr (), u, st)
                    else case (if r PC = svc_less_stack E then leave_stacklet E c u st
                               else Some (u\<lparr>gp_regs := r(PC := r PC - 2)\<rparr>, st)) of
                           None \<Rightarrow> Inl Die
                         | Some (u, st) \<Rightarrow>
                             bindr (get_for_pc (gp_regs u PC) exidx extab) (\<lambda>a.
                               case a of
                                 Inl e \<Rightarrow> Inr (Inl e, u, st)
                               | Inr a \<Rightarrow> Inr (Inr (), u\<lparr>unw_ability := a\<rparr>, st)))"

section \<open>Landing pads\<close>

text \<open>The address of the landing pad to enter, if the function has one for its program counter. The
  argument \<open>p\<close> is the address of the unwind state, which the landing pad gets in \<open>r0\<close>.\<close>

definition landing :: "'r reader \<Rightarrow> u32 \<Rightarrow> unwind_state \<Rightarrow> (u32 option \<times> unwind_state) res" where
  "landing R p u =
     (case unw_ability u of
        Cant_Unwind \<Rightarrow> Inl Die
      | Can_Unwind info \<Rightarrow>
          (case ui_lsda info of
             None \<Rightarrow> Inr (None, u)
           | Some l \<Rightarrow>
               (case call_site_table_entry_for_address R (endian_slice_new R (lsda_data l)) (function_start_address l) (gp_regs u PC) of
                  None \<Rightarrow> Inl Die
                | Some (Inl _) \<Rightarrow> Inr (None, u)
                | Some (Inr e) \<Rightarrow>
                    (case landing_pad_address e of
                       None \<Rightarrow> Inr (None, u)
                     | Some a \<Rightarrow> Inr (Some (a OR 1), save_unw_state_ptr p u)))))"

definition unwind_next_function ::
  "stk_env \<Rightarrow> cpu \<Rightarrow> slice \<Rightarrow> slice \<Rightarrow> 'r reader \<Rightarrow> u32 \<Rightarrow> unwind_state \<Rightarrow> stk_state \<Rightarrow> (u32 option \<times> unwind_state \<times> stk_state) res" where
  "unwind_next_function E c exidx extab R p u st =
     bindr (if is_initial u then Inr (u\<lparr>is_initial := False\<rparr>, st)
            else bindr (unwind_step E c exidx extab u st) (\<lambda>(r, u, st). case r of Inl _ \<Rightarrow> Inl Die | Inr _ \<Rightarrow> Inr (u, st)))
       (\<lambda>(u, st). bindr (landing R p u) (\<lambda>(a, u). Inr (a, u, st)))"

text \<open>The loop of \<open>resume_unwind\<close>.\<close>

partial_function (option) resume_loop ::
  "stk_env \<Rightarrow> cpu \<Rightarrow> slice \<Rightarrow> slice \<Rightarrow> 'r reader \<Rightarrow> u32 \<Rightarrow> unwind_state \<Rightarrow> stk_state \<Rightarrow> (u32 \<times> unwind_state \<times> stk_state) res option" where
  "resume_loop E c exidx extab R p u st =
     (case unwind_next_function E c exidx extab R p u st of
        Inl e \<Rightarrow> Some (Inl e)
      | Inr (Some a, u, st) \<Rightarrow> Some (Inr (a, u, st))
      | Inr (None, u, st) \<Rightarrow> resume_loop E c exidx extab R p u st)"

end
