(* ===== verification/Unwind_Correct.thy ===== *)
theory Unwind_Correct
  imports Unwind Stack_Correct
begin

unbundle bit_operations_syntax

text \<open>
  Correctness of the unwinder's step: the binary search of the exception index, and that the unwind
  instructions of a function undo what its prologue did.
\<close>

section \<open>The search of the index\<close>

text \<open>Entry \<open>k\<close> of an index, and the start of the function it is about.\<close>

definition exidx_nth :: "slice \<Rightarrow> nat \<Rightarrow> slice" where
  "exidx_nth exidx k = \<lparr>addr = addr exidx + of_nat (8 * k), bytes = take 8 (drop (8 * k) (bytes exidx))\<rparr>"

definition func_start :: "slice \<Rightarrow> nat \<Rightarrow> u32" where
  "func_start exidx k = prel31_value \<lparr>offset_raw = from_le_bytes (take 4 (drop (8 * k) (bytes exidx))), self_addr = addr exidx + of_nat (8 * k)\<rparr>"

lemma unat_small: "n < 2 ^ 32 \<Longrightarrow> unat (of_nat n :: u32) = n"
  by (simp add: unat_of_nat)

lemma entry_pc_eq:
  assumes "length (bytes exidx) = 8 * n" "8 * n < 2 ^ 32" "k < n"
  shows "entry_pc exidx (8 * k) = Inr (func_start exidx k)"
proof -
  have "unat (of_nat (8 * k) :: u32) = 8 * k" "unat (of_nat (8 * k + 4) :: u32) = 8 * k + 4" by (rule unat_small; use assms(2,3) in linarith)+
  then have "subslice exidx (of_nat (8 * k)) (of_nat (8 * k + 4)) = Inr \<lparr>addr = addr exidx + of_nat (8 * k), bytes = take 4 (drop (8 * k) (bytes exidx))\<rparr>"
    using assms(1,3) unfolding subslice_def by simp
  then show ?thesis by (simp add: entry_pc_def func_start_def prel31_from_bytes_def)
qed

lemma entry_slice:
  assumes "length (bytes exidx) = 8 * n" "8 * n < 2 ^ 32" "k < n"
  shows "subslice exidx (of_nat (8 * k)) (of_nat (8 * k + 8)) = Inr (exidx_nth exidx k)"
proof -
  have "unat (of_nat (8 * k) :: u32) = 8 * k" "unat (of_nat (8 * k + 8) :: u32) = 8 * k + 8" by (rule unat_small; use assms(2,3) in linarith)+
  then show ?thesis using assms(1,3) unfolding subslice_def exidx_nth_def by simp
qed

lemma search_exidx_eq:
  assumes "length (bytes exidx) = 8 * n" "8 * n < 2 ^ 32" "b < n"
  shows "a < b \<Longrightarrow> func_start exidx a \<le> pc \<Longrightarrow> pc < func_start exidx b \<Longrightarrow>
    \<exists>k. a \<le> k \<and> k < b \<and> search_exidx exidx pc (8 * a) (8 * b) = Inr (8 * k) \<and> func_start exidx k \<le> pc \<and> pc < func_start exidx (k + 1)"
  using assms(3)
proof (induction "b - a" arbitrary: a b rule: less_induct)
  case less
  show ?case
  proof (cases "b = a + 1")
    case True
    then show ?thesis using less.prems by (intro exI[of _ a]) (simp add: search_exidx.simps)
  next
    case False
    define m where "m = a + (b - a + 1) div 2"
    have m: "a < m" "m < b" using less.prems(1) False by (auto simp: m_def)
    have d: "8 * a < 8 * b - 8" "8 * a + ((8 * b - 8 * a) div 8 + 1) div 2 * 8 = 8 * m"
      using less.prems(1) False by (auto simp: m_def simp flip: diff_mult_distrib2)
    have e: "entry_pc exidx (8 * m) = Inr (func_start exidx m)" by (rule entry_pc_eq[OF assms(1,2)]) (use m less.prems(4) in simp)
    have s: "search_exidx exidx pc (8 * a) (8 * b) =
        (if pc < func_start exidx m then search_exidx exidx pc (8 * a) (8 * m) else search_exidx exidx pc (8 * m) (8 * b))"
      by (subst search_exidx.simps) (simp only: d e Let_def sum.case if_True)
    show ?thesis
    proof (cases "pc < func_start exidx m")
      case True
      have "m - a < b - a" using m by linarith
      from less.hyps[OF this] m less.prems True obtain k where "a \<le> k" "k < m" "search_exidx exidx pc (8 * a) (8 * m) = Inr (8 * k)"
        "func_start exidx k \<le> pc" "pc < func_start exidx (k + 1)" by auto
      then show ?thesis using s True m by (intro exI[of _ k]) simp
    next
      case F: False
      have "b - m < b - a" using m by linarith
      from less.hyps[OF this] m less.prems F obtain k where "m \<le> k" "k < b" "search_exidx exidx pc (8 * m) (8 * b) = Inr (8 * k)"
        "func_start exidx k \<le> pc" "pc < func_start exidx (k + 1)" by (auto simp: not_less)
      then show ?thesis using s F m by (intro exI[of _ k]) simp
    qed
  qed
qed

definition exidx_sorted :: "slice \<Rightarrow> nat \<Rightarrow> bool" where
  "exidx_sorted exidx n \<longleftrightarrow> length (bytes exidx) = 8 * n \<and> 8 * n < 2 ^ 32 \<and> 0 < n
     \<and> (\<forall>i < n. \<forall>j < n. i < j \<longrightarrow> func_start exidx i < func_start exidx j)"

text \<open>C40. In an index sorted by function addresses, the search finds the entry of the function that
  contains \<open>pc\<close>: the last one that starts at or before it, whatever the number of entries; before
  the first function there is no entry. An index whose length is not a multiple of 8 and an empty
  one are refused.\<close>

theorem get_for_pc_spec:
  assumes "exidx_sorted exidx n"
  shows "(pc < func_start exidx 0 \<longrightarrow> get_for_pc pc exidx extab = Inr (Inl ''UnwindAbility::get_for_func: no matching entry.''))
    \<and> (func_start exidx 0 \<le> pc \<longrightarrow> (\<exists>k < n. func_start exidx k \<le> pc \<and> (\<forall>j < n. k < j \<longrightarrow> pc < func_start exidx j)
        \<and> get_for_pc pc exidx extab = ability_from_bytes (exidx_nth exidx k) extab))"
proof -
  note L = assms[unfolded exidx_sorted_def]
  have e: "length (bytes exidx) mod 8 = 0" "length (bytes exidx) \<noteq> 0" "length (bytes exidx) - 8 = 8 * (n - 1)" "n - 1 < n" using L by auto
  have p0: "entry_pc exidx 0 = Inr (func_start exidx 0)" using entry_pc_eq[of exidx n 0] L by simp
  have pl: "entry_pc exidx (8 * (n - 1)) = Inr (func_start exidx (n - 1))" using entry_pc_eq[of exidx n "n - 1"] L by simp
  have g: "get_for_pc pc exidx extab =
      (if pc < func_start exidx 0 then Inr (Inl ''UnwindAbility::get_for_func: no matching entry.'')
       else if pc \<ge> func_start exidx (n - 1) then ability_from_bytes (exidx_nth exidx (n - 1)) extab
       else bindr (search_exidx exidx pc (8 * 0) (8 * (n - 1))) (\<lambda>first.
              bindr (subslice exidx (of_nat first) (of_nat (first + 8))) (\<lambda>e. ability_from_bytes e extab)))"
    using entry_slice[of exidx n "n - 1"] L unfolding get_for_pc_def Let_def e(3) by (simp only: e p0 pl bindr_simps mult_0_right) simp
  show ?thesis
  proof (intro conjI impI)
    show "get_for_pc pc exidx extab = Inr (Inl ''UnwindAbility::get_for_func: no matching entry.'')" if "pc < func_start exidx 0"
      using that g by simp
    assume f: "func_start exidx 0 \<le> pc"
    show "\<exists>k < n. func_start exidx k \<le> pc \<and> (\<forall>j < n. k < j \<longrightarrow> pc < func_start exidx j)
        \<and> get_for_pc pc exidx extab = ability_from_bytes (exidx_nth exidx k) extab"
    proof (cases "pc \<ge> func_start exidx (n - 1)")
      case True
      then show ?thesis using f g e(4) by (intro exI[of _ "n - 1"]) auto
    next
      case False
      then have "n - 1 \<noteq> 0" using f by (metis order.refl)
      then have "0 < n - 1" by simp
      then obtain k where k: "k < n - 1" "search_exidx exidx pc (8 * 0) (8 * (n - 1)) = Inr (8 * k)" "func_start exidx k \<le> pc" "pc < func_start exidx (k + 1)"
        using search_exidx_eq[of exidx n "n - 1" 0 pc] L f False by (auto simp: not_le)
      have "pc < func_start exidx j" if "j < n" "k < j" for j
      proof (cases "j = k + 1")
        case F: False
        then have "func_start exidx (k + 1) < func_start exidx j" using L that by simp
        then show ?thesis using k(4) by order
      qed (use k(4) in simp)
      moreover have "get_for_pc pc exidx extab = ability_from_bytes (exidx_nth exidx k) extab"
        using g False leD[OF f] k(1,2) entry_slice[of exidx n k] L by simp
      ultimately show ?thesis using k by (intro exI[of _ k]) simp
    qed
  qed
qed

text \<open>Sample: two functions, at \<open>0x1010\<close> and \<open>0x1108\<close>, that cannot be unwound.\<close>

definition exidx0 :: slice where
  "exidx0 = \<lparr>addr = 0x1000, bytes = [0x10, 0, 0, 0, 1, 0, 0, 0, 0, 1, 0, 0, 1, 0, 0, 0]\<rparr>"

lemma exidx0_starts: "func_start exidx0 0 = 0x1010" "func_start exidx0 1 = 0x1108"
  by (simp_all add: func_start_def exidx0_def prel31_value_def offset_value_def)

theorem get_for_pc_spec_witness: "get_for_pc 0x1050 exidx0 exidx0 = ability_from_bytes (exidx_nth exidx0 0) exidx0"
proof -
  have s: "exidx_sorted exidx0 2" unfolding exidx_sorted_def
    using exidx0_starts by (auto simp: less_2_cases_iff) (simp add: exidx0_def)
  obtain k where "k < 2" "\<forall>j < 2. k < j \<longrightarrow> 0x1050 < func_start exidx0 j" "func_start exidx0 k \<le> 0x1050"
    "get_for_pc 0x1050 exidx0 exidx0 = ability_from_bytes (exidx_nth exidx0 k) exidx0"
    using get_for_pc_spec[OF s, of "0x1050" exidx0] exidx0_starts by auto
  moreover from this have "k = 0" using exidx0_starts by (auto simp: less_2_cases_iff)
  ultimately show ?thesis by simp
qed

section \<open>Lists of instructions\<close>

fun run_instrs ::
  "mem \<Rightarrow> unwind_instruction list \<Rightarrow> (arm_gp_reg \<Rightarrow> u32) \<times> (nat \<Rightarrow> u64) \<Rightarrow> (string + (arm_gp_reg \<Rightarrow> u32) \<times> (nat \<Rightarrow> u64)) res" where
  "run_instrs m [] rd = Inr (Inr rd)"
| "run_instrs m (i # is) rd = bindr (apply_instr m i rd) (\<lambda>r. case r of Inl e \<Rightarrow> Inr (Inl e) | Inr rd \<Rightarrow> run_instrs m is rd)"

fun encode_instrs :: "unwind_instruction list \<Rightarrow> u8 list option" where
  "encode_instrs [] = Some []"
| "encode_instrs (i # is) = (case (encode_instr i, encode_instrs is) of (Some bs, Some cs) \<Rightarrow> Some (bs @ cs) | _ \<Rightarrow> None)"

lemma apply_instrs_eq: "iter_ok it \<Longrightarrow> encode_instrs is = Some (rest it) \<Longrightarrow> apply_instrs m it rd = Some (run_instrs m is rd)"
proof (induction "is" arbitrary: it rd)
  case Nil
  then show ?case using byte_next_Nil[of it] by (subst apply_instrs.simps) (simp add: instr_next_def step_iter_def)
next
  case (Cons i "is")
  then obtain bs cs where e: "encode_instr i = Some bs" "encode_instrs is = Some cs" "rest it = bs @ cs" by (auto split: option.splits)
  then obtain it' where it': "step_iter it = Inr (Inr (Some i), it')" "iter_ok it'" "rest it' = cs"
    using encode_decodes[OF Cons.prems(1) e(1,3)] by (auto simp: decodes_def)
  then show ?case using Cons.IH[of it'] e(2)
    by (subst apply_instrs.simps) (auto simp: instr_next_def bindr_def split: sum.splits)
qed

lemma run_instrs_append:
  "run_instrs m is rd = Inr (Inr rd') \<Longrightarrow> run_instrs m (is @ js) rd = run_instrs m js rd'"
  by (induction "is" arbitrary: rd) (auto simp: bindr_def split: sum.splits)

section \<open>Function prologues\<close>

text \<open>What a prologue does: push registers, reserve space on the stack.\<close>

datatype prologue_op = Push u32 | Sub_Sp u32

definition pushed :: "u32 \<Rightarrow> nat list" where
  "pushed msk = filter (bit msk) [0..<16]"

definition reg_of :: "nat \<Rightarrow> arm_gp_reg" where
  "reg_of i = (case gp_from_reg_num i of Inr g \<Rightarrow> g | Inl _ \<Rightarrow> R0)"

fun store_regs :: "(arm_gp_reg \<Rightarrow> u32) \<Rightarrow> nat list \<Rightarrow> nat \<Rightarrow> mem \<Rightarrow> mem" where
  "store_regs r [] a m = m"
| "store_regs r (i # is) a m = store_regs r is (a + 4) (m(a := r (reg_of i)))"

fun exec_op :: "prologue_op \<Rightarrow> (arm_gp_reg \<Rightarrow> u32) \<times> mem \<Rightarrow> (arm_gp_reg \<Rightarrow> u32) \<times> mem" where
  "exec_op (Push msk) (r, m) =
     (let sp = r SP - 4 * of_nat (length (pushed msk)) in (r(SP := sp), store_regs r (pushed msk) (unat sp) m))"
| "exec_op (Sub_Sp k) (r, m) = (r(SP := r SP - k), m)"

fun op_size :: "prologue_op \<Rightarrow> nat" where
  "op_size (Push msk) = 4 * length (pushed msk)"
| "op_size (Sub_Sp k) = unat k"

fun saved_regs :: "prologue_op \<Rightarrow> arm_gp_reg set" where
  "saved_regs (Push msk) = reg_of ` set (pushed msk)"
| "saved_regs (Sub_Sp k) = {}"

text \<open>Compiled functions push callee-saved registers and the link register.\<close>

fun op_ok :: "prologue_op \<Rightarrow> bool" where
  "op_ok (Push msk) \<longleftrightarrow> set (pushed msk) \<subseteq> {4..11} \<union> {14}"
| "op_ok (Sub_Sp k) \<longleftrightarrow> True"

fun undo_op :: "prologue_op \<Rightarrow> unwind_instruction" where
  "undo_op (Push msk) = RegPop msk"
| "undo_op (Sub_Sp k) = DataPop k"

lemma store_regs_out: "b < a \<or> a + 4 * length is \<le> b \<Longrightarrow> store_regs r is a m b = m b"
  by (induction "is" arbitrary: a m) auto

lemma store_regs_nth: "j < length is \<Longrightarrow> store_regs r is a m (a + 4 * j) = r (reg_of (is ! j))"
proof (induction "is" arbitrary: a m j)
  case (Cons i "is")
  then show ?case
  proof (cases j)
    case 0
    then show ?thesis using store_regs_out[of a "a + 4" "is" r] by simp
  next
    case (Suc k)
    then show ?thesis using Cons.IH[of k "a + 4"] Cons.prems by (simp add: algebra_simps)
  qed
qed simp

lemma unat_sub_sp: "n \<le> unat (p :: u32) \<Longrightarrow> unat (p - of_nat n) = unat p - n"
  using unsigned_less[of p, where ?'a = nat] by (subst unat_sub) (auto simp: word_le_nat_alt unat_of_nat)

lemma exec_op_sp:
  assumes "op_size op \<le> unat (r SP)" "exec_op op (r, m) = (r1, m1)"
  shows "unat (r1 SP) + op_size op = unat (r SP)" "\<And>g. g \<noteq> SP \<Longrightarrow> r1 g = r g" "\<And>a. unat (r SP) \<le> a \<Longrightarrow> m1 a = m a"
proof -
  show g: "r1 g = r g" if "g \<noteq> SP" for g using assms(2) that by (cases op) (auto simp: Let_def)
  show sp: "unat (r1 SP) + op_size op = unat (r SP)"
  proof (cases op)
    case (Push msk)
    then show ?thesis using assms unat_sub_sp[of "4 * length (pushed msk)" "r SP"] by (auto simp: Let_def)
  next
    case (Sub_Sp k)
    then show ?thesis using assms unat_sub_sp[of "unat k" "r SP"] by auto
  qed
  show "m1 a = m a" if "unat (r SP) \<le> a" for a
  proof (cases op)
    case (Push msk)
    then have "m1 = store_regs r (pushed msk) (unat (r1 SP)) m" using assms(2) by (auto simp: Let_def)
    then show ?thesis using store_regs_out[of a "unat (r1 SP)" "pushed msk"] sp Push that by simp
  qed (use assms(2) in auto)
qed

text \<open>Popping reads consecutive words into the registers of the mask, in the order of their numbers.\<close>

lemma mask_bit: "(msk :: u32) AND push_bit i 1 \<noteq> 0 \<longleftrightarrow> bit msk i"
  by (simp add: bit_iff_and_push_bit_not_eq_0)

lemma reg_of_ok: "i \<in> {4..11} \<union> {14} \<Longrightarrow> gp_from_reg_num i = Inr (reg_of i) \<and> gp_to_reg_num (reg_of i) = i \<and> reg_of i \<noteq> SP"
proof -
  assume "i \<in> {4..11} \<union> {14}"
  then have "i = 4 \<or> i = 5 \<or> i = 6 \<or> i = 7 \<or> i = 8 \<or> i = 9 \<or> i = 10 \<or> i = 11 \<or> i = 14" by auto
  then show ?thesis by (elim disjE) (simp_all add: reg_of_def gp_from_reg_num_def)
qed

lemma pop_regs_eq:
  assumes "distinct js" "set (filter (bit msk) js) \<subseteq> {4..11} \<union> {14}"
  shows "\<exists>r'. pop_regs m msk js (r, p) = Inr (r', p + 4 * of_nat (length (filter (bit msk) js)))
    \<and> (\<forall>j < length (filter (bit msk) js). r' (reg_of (filter (bit msk) js ! j)) = m (unat (p + 4 * of_nat j)))
    \<and> (\<forall>g. g \<notin> reg_of ` set (filter (bit msk) js) \<longrightarrow> r' g = r g)"
  using assms
proof (induction js arbitrary: r p)
  case (Cons i js)
  show ?case
  proof (cases "bit msk i")
    case False
    then have "\<not> msk AND push_bit i 1 \<noteq> 0" using mask_bit by blast
    then have "pop_regs m msk (i # js) (r, p) = pop_regs m msk js (r, p)" by (simp only: pop_regs.simps if_False)
    then show ?thesis using Cons False by simp
  next
    case True
    then have i: "gp_from_reg_num i = Inr (reg_of i)" "i \<in> {4..11} \<union> {14}" using Cons.prems(2) reg_of_ok by auto
    have "msk AND push_bit i 1 \<noteq> 0" using True mask_bit by blast
    then have e: "pop_regs m msk (i # js) (r, p) = pop_regs m msk js (r(reg_of i := m (unat p)), p + 4)"
      by (simp only: pop_regs.simps if_True not_False_eq_True i(1) bindr_simps)
    have js: "distinct js" "set (filter (bit msk) js) \<subseteq> {4..11} \<union> {14}" using Cons.prems True by auto
    from Cons.IH[OF js, of "r(reg_of i := m (unat p))" "p + 4"] obtain r' where
      r': "pop_regs m msk js (r(reg_of i := m (unat p)), p + 4) = Inr (r', p + 4 + 4 * of_nat (length (filter (bit msk) js)))"
      "\<forall>j < length (filter (bit msk) js). r' (reg_of (filter (bit msk) js ! j)) = m (unat (p + 4 + 4 * of_nat j))"
      "\<forall>g. g \<notin> reg_of ` set (filter (bit msk) js) \<longrightarrow> r' g = (r(reg_of i := m (unat p))) g" by (elim exE conjE)
    have "reg_of i \<notin> reg_of ` set (filter (bit msk) js)"
    proof
      assume "reg_of i \<in> reg_of ` set (filter (bit msk) js)"
      then obtain k where k: "k \<in> set (filter (bit msk) js)" "reg_of i = reg_of k" by blast
      have "k \<in> {4..11} \<union> {14}" using k(1) js(2) by blast
      then have "k = i" using reg_of_ok[of k] reg_of_ok[OF i(2)] k(2) by simp
      then show False using k(1) Cons.prems(1) by simp
    qed
    then have h: "r' (reg_of i) = m (unat p)" using r'(3) by simp
    show ?thesis
    proof (intro exI[of _ r'] conjI allI impI)
      show "pop_regs m msk (i # js) (r, p) = Inr (r', p + 4 * of_nat (length (filter (bit msk) (i # js))))"
        using e r'(1) True by (simp add: algebra_simps)
      show "r' (reg_of (filter (bit msk) (i # js) ! j)) = m (unat (p + 4 * of_nat j))" if "j < length (filter (bit msk) (i # js))" for j
        using that True h r'(2) by (cases j) (auto simp: algebra_simps)
      show "r' g = r g" if "g \<notin> reg_of ` set (filter (bit msk) (i # js))" for g using that True r'(3) by auto
    qed
  qed
qed simp

lemma mask_without_sp:
  assumes "set (pushed msk) \<subseteq> {4..11} \<union> {14}"
  shows "msk AND of_nat (gp_to_reg_num SP) = 0"
proof -
  have b: "\<not> bit msk 0" "\<not> bit msk 2" "\<not> bit msk 3"
  proof -
    have "i \<in> set (pushed msk)" if "bit msk i" "i < 16" for i using that by (simp add: pushed_def)
    then show "\<not> bit msk 0" "\<not> bit msk 2" "\<not> bit msk 3" using assms by fastforce+
  qed
  have "(of_nat (gp_to_reg_num SP) :: u32) = push_bit 0 1 OR push_bit 2 1 OR push_bit 3 1" by simp
  moreover have "msk AND (push_bit 0 1 OR push_bit 2 1 OR push_bit 3 1) = 0"
  proof (rule bit_word_eqI)
    fix n
    show "bit (msk AND (push_bit 0 1 OR push_bit 2 1 OR push_bit 3 1)) n = bit (0 :: u32) n"
      unfolding bit_and_iff bit_or_iff bit_push_bit_iff bit_1_iff using b by (auto simp: le_less)
  qed
  ultimately show ?thesis by (simp only:)
qed

section \<open>Undoing a prologue\<close>

lemma undo_push:
  assumes ok: "op_ok (Push msk)" and sz: "op_size (Push msk) \<le> unat (r SP)" and e: "exec_op (Push msk) (r, m) = (r1, m1)"
    and agree: "\<And>a. unat (r1 SP) \<le> a \<Longrightarrow> a < unat (r SP) \<Longrightarrow> m2 a = m1 a" and r2: "r2 SP = r1 SP"
  shows "\<exists>r'. apply_instr m2 (RegPop msk) (r2, d) = Inr (Inr (r', d)) \<and> r' SP = r SP
    \<and> (\<forall>g \<in> saved_regs (Push msk). r' g = r g) \<and> (\<forall>g. g \<noteq> SP \<and> g \<notin> saved_regs (Push msk) \<longrightarrow> r' g = r2 g)"
proof -
  let ?is = "filter (bit msk) [0..<16]" and ?p = "r1 SP"
  have v: "set ?is \<subseteq> {4..11} \<union> {14}" using ok by (simp add: pushed_def)
  note S = exec_op_sp[OF sz e]
  have len: "unat ?p + 4 * length ?is = unat (r SP)" using S(1) by (simp add: pushed_def)
  have m1: "m1 = store_regs r ?is (unat ?p) m" and sp: "?p = r SP - 4 * of_nat (length ?is)" using e by (auto simp: Let_def pushed_def)
  obtain r' where r': "pop_regs m2 msk [0..<16] (r2, ?p) = Inr (r', ?p + 4 * of_nat (length ?is))"
    "\<forall>j < length ?is. r' (reg_of (?is ! j)) = m2 (unat (?p + 4 * of_nat j))" "\<forall>g. g \<notin> reg_of ` set ?is \<longrightarrow> r' g = r2 g"
    using pop_regs_eq[OF distinct_upt v, of m2 r2 ?p] by (elim exE conjE)
  have val: "r' g = r g" if gin: "g \<in> reg_of ` set ?is" for g
  proof -
    obtain i where i: "g = reg_of i" "i \<in> set ?is" using gin by blast
    then obtain j where "j < length ?is" "?is ! j = i" unfolding in_set_conv_nth by blast
    then have j: "j < length ?is" "g = reg_of (?is ! j)" using i(1) by simp_all
    have b: "unat ?p + 4 * j < 2 ^ 32" using j(1) len unsigned_less[of "r SP", where ?'a = nat] by simp
    then have "unat (of_nat (4 * j) :: u32) = 4 * j" by (intro unat_small) linarith
    then have "unat (?p + of_nat (4 * j)) = unat ?p + 4 * j" using b by (simp only: unat_word_ariths(1) word_size) simp
    then have "unat (?p + 4 * of_nat j) = unat ?p + 4 * j" by simp
    moreover have "m2 (unat ?p + 4 * j) = m1 (unat ?p + 4 * j)" using agree j(1) len by simp
    ultimately show ?thesis using r'(2) j store_regs_nth[OF j(1), of r "unat ?p" m] m1 by simp
  qed
  have nsp: "SP \<notin> reg_of ` set ?is"
  proof
    assume "SP \<in> reg_of ` set ?is"
    then obtain i where "i \<in> set ?is" "reg_of i = SP" by auto
    then show False using reg_of_ok[of i] v by blast
  qed
  have "apply_instr m2 (RegPop msk) (r2, d) = Inr (Inr (r'(SP := ?p + 4 * of_nat (length ?is)), d))"
    using r'(1) r2 mask_without_sp ok unfolding apply_instr_def by (simp del: of_nat_numeral)
  then show ?thesis using val r'(3) nsp sp by (intro exI[of _ "r'(SP := ?p + 4 * of_nat (length ?is))"]) (auto simp: pushed_def)
qed

lemma undo_one:
  assumes "op_ok op" "op_size op \<le> unat (r SP)" "exec_op op (r, m) = (r1, m1)"
    and "\<And>a. unat (r1 SP) \<le> a \<Longrightarrow> a < unat (r SP) \<Longrightarrow> m2 a = m1 a" "r2 SP = r1 SP"
  shows "\<exists>r'. apply_instr m2 (undo_op op) (r2, d) = Inr (Inr (r', d)) \<and> r' SP = r SP
    \<and> (\<forall>g \<in> saved_regs op. r' g = r g) \<and> (\<forall>g. g \<noteq> SP \<and> g \<notin> saved_regs op \<longrightarrow> r' g = r2 g)"
proof (cases op)
  case (Push msk)
  then show ?thesis using undo_push[of msk r m r1 m1 m2 r2 d] assms by simp
next
  case (Sub_Sp k)
  then show ?thesis using assms(3,5) by (auto simp: apply_instr_def)
qed

lemma undo_prologue:
  "\<lbrakk>list_all op_ok ops; sum_list (map op_size ops) \<le> unat (r SP); fold exec_op ops (r, m) = (r1, m1);
    \<And>a. unat (r1 SP) \<le> a \<Longrightarrow> a < unat (r SP) \<Longrightarrow> m2 a = m1 a; r2 SP = r1 SP\<rbrakk> \<Longrightarrow>
   (\<exists>r'. run_instrs m2 (rev (map undo_op ops)) (r2, d) = Inr (Inr (r', d)) \<and> r' SP = r SP
     \<and> (\<forall>g \<in> \<Union> (saved_regs ` set ops). r' g = r g) \<and> (\<forall>g. g \<noteq> SP \<and> g \<notin> \<Union> (saved_regs ` set ops) \<longrightarrow> r' g = r2 g))
   \<and> unat (r1 SP) \<le> unat (r SP) \<and> (\<forall>a \<ge> unat (r SP). m1 a = m a)"
proof (induction ops arbitrary: r m)
  case (Cons op ops)
  obtain ra ma where e: "exec_op op (r, m) = (ra, ma)" by (cases "exec_op op (r, m)")
  have sz: "op_size op \<le> unat (r SP)" using Cons.prems(2) by simp
  note S = exec_op_sp[OF sz e]
  have sz2: "sum_list (map op_size ops) \<le> unat (ra SP)" using Cons.prems(2) S(1) by simp
  have f: "fold exec_op ops (ra, ma) = (r1, m1)" using Cons.prems(3) e by simp
  have ag: "m2 a = m1 a" if "unat (r1 SP) \<le> a" "a < unat (ra SP)" for a using Cons.prems(4)[OF that(1)] that(2) S(1) by simp
  from Cons.IH[OF _ sz2 f ag Cons.prems(5)] Cons.prems(1) obtain r' where r': "run_instrs m2 (rev (map undo_op ops)) (r2, d) = Inr (Inr (r', d))"
    "r' SP = ra SP" "\<forall>g \<in> \<Union> (saved_regs ` set ops). r' g = ra g" "\<forall>g. g \<noteq> SP \<and> g \<notin> \<Union> (saved_regs ` set ops) \<longrightarrow> r' g = r2 g"
    and b: "unat (r1 SP) \<le> unat (ra SP)" "\<forall>a \<ge> unat (ra SP). m1 a = ma a" by auto
  have ag2: "m2 a = ma a" if "unat (ra SP) \<le> a" "a < unat (r SP)" for a using Cons.prems(4)[of a] that b by simp
  have ok: "op_ok op" using Cons.prems(1) by simp
  have "\<exists>r''. apply_instr m2 (undo_op op) (r', d) = Inr (Inr (r'', d)) \<and> r'' SP = r SP
    \<and> (\<forall>g \<in> saved_regs op. r'' g = r g) \<and> (\<forall>g. g \<noteq> SP \<and> g \<notin> saved_regs op \<longrightarrow> r'' g = r' g)"
    by (rule undo_one[where r = r and ?r1.0 = ra and m = m and ?m1.0 = ma, OF ok sz e]) (use ag2 r'(2) in blast)+
  then obtain r'' where r'': "apply_instr m2 (undo_op op) (r', d) = Inr (Inr (r'', d))"
    "r'' SP = r SP" "\<forall>g \<in> saved_regs op. r'' g = r g" "\<forall>g. g \<noteq> SP \<and> g \<notin> saved_regs op \<longrightarrow> r'' g = r' g" by (elim exE conjE)
  have "run_instrs m2 (rev (map undo_op (op # ops))) (r2, d) = Inr (Inr (r'', d))"
    using run_instrs_append[OF r'(1), of "[undo_op op]"] r''(1) by simp
  moreover have "r'' g = r g" if "g \<in> \<Union> (saved_regs ` set (op # ops))" for g
  proof (cases "g = SP \<or> g \<in> saved_regs op")
    case True
    then show ?thesis using r''(2,3) by auto
  next
    case False
    then show ?thesis using that r''(4) r'(3) S(2)[of g] by auto
  qed
  moreover have "r'' g = r2 g" if "g \<noteq> SP" "g \<notin> \<Union> (saved_regs ` set (op # ops))" for g using that r''(4) r'(4) by auto
  moreover have "m1 a = m a" if "unat (r SP) \<le> a" for a using that b(2) S(1,3) by simp
  ultimately show ?case using r''(2) b(1) S(1) by (intro conjI exI[of _ r'']) auto
qed simp

text \<open>The interpretation of a table's instructions ends.\<close>

lemma apply_instrs_total: "iter_ok it \<Longrightarrow> \<exists>x. apply_instrs m it rd = Some x"
proof (induction "length (rest it)" arbitrary: it rd rule: less_induct)
  case less
  show ?case
  proof (cases "rest it")
    case Nil
    then show ?thesis using byte_next_Nil[OF less.prems] by (subst apply_instrs.simps) (simp add: instr_next_def step_iter_def)
  next
    case (Cons b bs)
    obtain x it' where x: "step_iter it = Inr (x, it')" "iter_ok it'" "length (rest it') < length (rest it)"
      using step_iter_progress[OF less.prems Cons] by auto
    have IH: "\<exists>y. apply_instrs m it' rd = Some y" for rd by (rule less.hyps[OF x(3,2)])
    show ?thesis by (subst apply_instrs.simps) (auto simp: instr_next_def x(1) IH split: sum.splits option.splits)
  qed
qed

lemma run_finish: "run_instrs m (replicate k Finish) rd = Inr (Inr rd)"
  by (induction k) (auto simp: apply_instr_def split: prod.splits)

text \<open>The registers of a function: what its prologue saved and what it left alone.\<close>

definition all_saved :: "prologue_op list \<Rightarrow> arm_gp_reg set" where
  "all_saved ops = \<Union> (saved_regs ` set ops)"

lemma saved_not_PC: "list_all op_ok ops \<Longrightarrow> PC \<notin> all_saved ops"
proof
  assume a: "list_all op_ok ops" "PC \<in> all_saved ops"
  then obtain op where op: "op_ok op" "PC \<in> saved_regs op" by (auto simp: all_saved_def list_all_iff)
  then obtain msk i where "op = Push msk" "i \<in> set (pushed msk)" "PC = reg_of i" by (cases op) auto
  then show False using op(1) reg_of_ok[of i] by auto
qed

lemma step_undoes:
  assumes "list_all op_ok ops" "sum_list (map op_size ops) \<le> unat (r SP)" "fold exec_op ops (r, m) = (r1, m1)"
    and "\<And>a. unat (r1 SP) \<le> a \<Longrightarrow> a < unat (r SP) \<Longrightarrow> smem st a = m1 a"
    and "\<not> has_finished u" "gp_regs u SP = r1 SP" "unw_ability u = Can_Unwind info"
    and "iter_ok (ui_instr_iter info)" "encode_instrs (rev (map undo_op ops) @ replicate k Finish) = Some (rest (ui_instr_iter info))"
    and "LR \<in> all_saved ops \<or> gp_regs u LR = r LR" "r LR \<noteq> svc_less_stack E"
    and "get_for_pc (r LR - 2) exidx extab = Inr (Inr a)"
  shows "\<exists>u'. unwind_step E c exidx extab u st = Inr (Inr (), u', st)
    \<and> gp_regs u' SP = r SP \<and> (\<forall>g \<in> all_saved ops. gp_regs u' g = r g)
    \<and> (\<forall>g. g \<notin> all_saved ops \<and> g \<noteq> SP \<and> g \<noteq> PC \<longrightarrow> gp_regs u' g = gp_regs u g)
    \<and> dpfp_regs u' = dpfp_regs u \<and> us_stklet_boundary u' = us_stklet_boundary u \<and> is_initial u' = is_initial u
    \<and> (if r LR = 0 then has_finished u' else gp_regs u' PC = r LR - 2 \<and> unw_ability u' = a)"
proof -
  let ?r2 = "(gp_regs u)(PC := - 1)"
  have "?r2 SP = r1 SP" using assms(6) by simp
  from undo_prologue[where ?m2.0 = "smem st" and ?r2.0 = ?r2 and d = "dpfp_regs u", OF assms(1-3) _ this] assms(4)
  obtain r' where r': "run_instrs (smem st) (rev (map undo_op ops)) (?r2, dpfp_regs u) = Inr (Inr (r', dpfp_regs u))" "r' SP = r SP"
    "\<forall>g \<in> all_saved ops. r' g = r g" "\<forall>g. g \<noteq> SP \<and> g \<notin> all_saved ops \<longrightarrow> r' g = ?r2 g" unfolding all_saved_def by blast
  have ai: "apply_instrs (smem st) (ui_instr_iter info) (?r2, dpfp_regs u) = Some (Inr (Inr (r', dpfp_regs u)))"
    using apply_instrs_eq[OF assms(8,9)] run_instrs_append[OF r'(1)] run_finish by simp
  have pc: "r' PC = - 1" using r'(4) saved_not_PC[OF assms(1)] by simp
  have lr: "r' LR = r LR" using r'(3,4) assms(10) by (cases "LR \<in> all_saved ops") auto
  have rest: "r' g = gp_regs u g" if "g \<notin> all_saved ops" "g \<noteq> SP" "g \<noteq> PC" for g using that r'(4) by simp
  have sv: "r' g = r g \<and> g \<noteq> PC" if "g \<in> all_saved ops" for g using that r'(3) saved_not_PC[OF assms(1)] by auto
  show ?thesis
  proof (cases "r LR = 0")
    case True
    show ?thesis using assms(5,7) ai pc lr True r'(2) sv rest
      by (simp add: unwind_step_def has_finished_def)
  next
    case False
    show ?thesis using assms(5,7,11,12) ai pc lr False r'(2) sv rest
      by (simp add: unwind_step_def has_finished_def)
  qed
qed

text \<open>C16. The unwinder undoes the prologue of a function. Take the registers \<open>r\<close> with which the
  function was entered, let its prologue push callee-saved registers and reserve stack space, and
  let the function run without touching that frame. Then, from any registers with the frame's stack
  pointer, a step by the instructions that undo the prologue in reverse order (padded with
  \<open>Finish\<close>) restores the stack pointer and every saved register, continues at the instruction
  before the return address with the unwind information found for it, and changes nothing else; on a
  zero return address the unwinding has finished.\<close>

theorem unwind_step_undoes_prologue:
  assumes "list_all op_ok ops" "sum_list (map op_size ops) \<le> unat (r SP)" "fold exec_op ops (r, m) = (r1, m1)"
    and "\<And>a. unat (r1 SP) \<le> a \<Longrightarrow> a < unat (r SP) \<Longrightarrow> smem st a = m1 a"
    and "\<not> has_finished u" "gp_regs u SP = r1 SP" "unw_ability u = Can_Unwind info"
    and "iter_ok (ui_instr_iter info)" "encode_instrs (rev (map undo_op ops) @ replicate k Finish) = Some (rest (ui_instr_iter info))"
    and "LR \<in> all_saved ops \<or> gp_regs u LR = r LR" "r LR \<noteq> svc_less_stack E"
    and "get_for_pc (r LR - 2) exidx extab = Inr (Inr a)"
  shows "\<exists>u'. unwind_step E c exidx extab u st = Inr (Inr (), u', st)
    \<and> gp_regs u' SP = r SP \<and> (\<forall>g \<in> all_saved ops. gp_regs u' g = r g)
    \<and> (\<forall>g. g \<notin> all_saved ops \<and> g \<noteq> SP \<and> g \<noteq> PC \<longrightarrow> gp_regs u' g = gp_regs u g)
    \<and> dpfp_regs u' = dpfp_regs u \<and> us_stklet_boundary u' = us_stklet_boundary u \<and> is_initial u' = is_initial u
    \<and> (if r LR = 0 then has_finished u' else gp_regs u' PC = r LR - 2 \<and> unw_ability u' = a)"
  by (rule step_undoes[OF assms(1-3) _ assms(5-12)]) (rule assms(4))

text \<open>Sample: a function that pushed \<open>r4\<close>, \<open>r5\<close> and \<open>lr\<close> and reserved 8 bytes, called from the
  first function of the sample index. Its body has used \<open>r4\<close> and \<open>r5\<close> for values of its own.\<close>

definition entry_regs :: "arm_gp_reg \<Rightarrow> u32" where
  "entry_regs = (\<lambda>_. 0)(SP := 0x20002000, LR := 0x1051, R4 := 44, R5 := 55)"

definition prologue0 :: "prologue_op list" where
  "prologue0 = [Push 0x4030, Sub_Sp 8]"

definition frame_mem :: mem where
  "frame_mem = (\<lambda>_. 0)(0x20001FF4 := 44, 0x20001FF8 := 55, 0x20001FFC := 0x1051)"

definition frame_state :: stk_state where
  "frame_state = stk0 0 \<lparr>mem = frame_mem, heap_start = 0, cached = 0, high_water_mark = 0, high_water_mark_just_updated = False,
     cur_alloc_size = 0, max_alloc_size = 0\<rparr>"

definition frame_info :: unwind_info where
  "frame_info = \<lparr>ui_func_addr = 0x1108, ui_personality = Compact 0, ui_instr_iter = iter_of [0xb0, 0x03, 0x84, 0x01], ui_lsda = None\<rparr>"

definition frame_unw :: unwind_state where
  "frame_unw = \<lparr>gp_regs = (\<lambda>_. 7)(SP := 0x20001FEC), dpfp_regs = (\<lambda>_. 0), unw_ability = Can_Unwind frame_info,
     us_stklet_boundary = 0x20001188, is_initial = False\<rparr>"

lemma pushed_sample: "pushed 0x4030 = [4, 5, 14]"
  by code_simp

lemma frame_sample: "fold exec_op prologue0 (entry_regs, \<lambda>_. 0) = (entry_regs(SP := 0x20001FEC), frame_mem)"
  by (simp add: prologue0_def pushed_sample entry_regs_def frame_mem_def reg_of_def gp_from_reg_num_def)

lemma frame_code: "encode_instrs (rev (map undo_op prologue0) @ replicate 1 Finish) = Some (rest (ui_instr_iter frame_info))" "iter_ok (ui_instr_iter frame_info)"
  by (simp_all add: prologue0_def frame_info_def iter_of_def rest_def iter_ok_def)

lemma frame_pc: "get_for_pc 0x104f exidx0 exidx0 = Inr (Inr Cant_Unwind)"
  by code_simp

theorem unwind_step_undoes_prologue_witness:
  "\<exists>u'. unwind_step env1 svc0 exidx0 exidx0 frame_unw frame_state = Inr (Inr (), u', frame_state)
    \<and> gp_regs u' SP = 0x20002000 \<and> gp_regs u' R4 = 44 \<and> gp_regs u' R5 = 55 \<and> gp_regs u' R6 = 7 \<and> gp_regs u' PC = 0x104f"
proof -
  have s: "all_saved prologue0 = {R4, R5, LR}"
    by (simp add: all_saved_def prologue0_def pushed_sample reg_of_def gp_from_reg_num_def)
  have m: "smem frame_state = frame_mem" by (simp add: frame_state_def smem_def stk0_def)
  show ?thesis
    using unwind_step_undoes_prologue[of prologue0 entry_regs "\<lambda>_. 0" _ frame_mem frame_state frame_unw frame_info 1 env1 exidx0 exidx0 Cant_Unwind svc0,
        OF _ _ frame_sample _ _ _ _ frame_code(2,1)] frame_pc s m
    by (simp add: prologue0_def pushed_sample entry_regs_def frame_unw_def has_finished_def env1_def) (elim exE, intro exI, auto)
qed

section \<open>Unwinding a call stack\<close>

text \<open>An active function: its prologue, the registers at its entry, its unwind information and its call
  sites.\<close>

record frame =
  f_ops :: "prologue_op list"
  f_regs :: "arm_gp_reg \<Rightarrow> u32"
  f_info :: unwind_info
  f_sites :: "call_site_table_entry list option"

text \<open>The stack pointer in its body.\<close>

definition f_sp :: "frame \<Rightarrow> u32" where
  "f_sp f = f_regs f SP - of_nat (sum_list (map op_size (f_ops f)))"

definition callee_saved :: "arm_gp_reg set" where
  "callee_saved = {R4, R5, R6, R7, R8, R9, R10, R11}"

text \<open>The landing pad of a function for a program counter in it.\<close>

definition pad_of :: "frame \<Rightarrow> u32 \<Rightarrow> u32 option" where
  "pad_of f pc = (case f_sites f of None \<Rightarrow> None | Some es \<Rightarrow> Option.bind (covering pc es) landing_pad_address)"

definition lsda_of :: "unwind_info \<Rightarrow> call_site_table_entry list option \<Rightarrow> bool" where
  "lsda_of info sites \<longleftrightarrow>
     (case sites of
        None \<Rightarrow> ui_lsda info = None
      | Some es \<Rightarrow> \<exists>l lp tt enc bs cs. ui_lsda info = Some l \<and> lsda_bytes lp tt enc es = Some bs \<and> bytes (lsda_data l) = bs @ cs
          \<and> unat (addr (lsda_data l)) + length bs < 2 ^ 32 \<and> list_all (\<lambda>e. landing_pad_base e = lp_base lp (function_start_address l)) es)"

text \<open>A frame in memory, with the tables that describe it.\<close>

definition frame_ok :: "mem \<Rightarrow> frame \<Rightarrow> bool" where
  "frame_ok m f \<longleftrightarrow> list_all op_ok (f_ops f) \<and> sum_list (map op_size (f_ops f)) \<le> unat (f_regs f SP)
     \<and> (\<exists>m0 r1 m1. fold exec_op (f_ops f) (f_regs f, m0) = (r1, m1) \<and> (\<forall>a. unat (f_sp f) \<le> a \<and> a < unat (f_regs f SP) \<longrightarrow> m a = m1 a))
     \<and> iter_ok (ui_instr_iter (f_info f))
     \<and> (\<exists>k. encode_instrs (rev (map undo_op (f_ops f)) @ replicate k Finish) = Some (rest (ui_instr_iter (f_info f))))
     \<and> lsda_of (f_info f) (f_sites f)"

text \<open>Function \<open>g\<close> has called \<open>f\<close>: it keeps its own return address on the stack, and registers that it
  does not save have in the callee the values they had when \<open>g\<close> was entered.\<close>

definition calls :: "u32 \<Rightarrow> slice \<Rightarrow> slice \<Rightarrow> frame \<Rightarrow> frame \<Rightarrow> bool" where
  "calls ls exidx extab g f \<longleftrightarrow> f_regs f SP = f_sp g \<and> LR \<in> all_saved (f_ops g)
     \<and> (\<forall>r \<in> callee_saved - all_saved (f_ops g). f_regs f r = f_regs g r)
     \<and> f_regs f LR \<notin> {0, 2, ls}
     \<and> get_for_pc (f_regs f LR - 2) exidx extab = Inr (Inr (Can_Unwind (f_info g)))"

fun call_stack :: "u32 \<Rightarrow> slice \<Rightarrow> slice \<Rightarrow> mem \<Rightarrow> frame list \<Rightarrow> bool" where
  "call_stack l exidx extab m [] \<longleftrightarrow> True"
| "call_stack l exidx extab m [f] \<longleftrightarrow> frame_ok m f"
| "call_stack l exidx extab m (f # g # fs) \<longleftrightarrow> frame_ok m f \<and> calls l exidx extab g f \<and> call_stack l exidx extab m (g # fs)"

text \<open>The registers while the unwinder is at a function: those of the function's body.\<close>

definition at_frame :: "frame \<Rightarrow> unwind_state \<Rightarrow> bool" where
  "at_frame f u \<longleftrightarrow> gp_regs u SP = f_sp f \<and> gp_regs u PC \<noteq> 0 \<and> unw_ability u = Can_Unwind (f_info f)
     \<and> (LR \<in> all_saved (f_ops f) \<or> gp_regs u LR = f_regs f LR)
     \<and> (\<forall>r \<in> callee_saved - all_saved (f_ops f). gp_regs u r = f_regs f r)"

text \<open>The nearest function with a landing pad, with the registers at its call: those with which the
  function that it called was entered.\<close>

fun nearest_pad :: "u32 \<Rightarrow> (arm_gp_reg \<Rightarrow> u32) \<Rightarrow> frame list \<Rightarrow> (u32 \<times> frame \<times> (arm_gp_reg \<Rightarrow> u32)) option" where
  "nearest_pad pc regs [] = None"
| "nearest_pad pc regs (f # fs) =
     (case pad_of f pc of Some a \<Rightarrow> Some (a, f, regs) | None \<Rightarrow> nearest_pad (f_regs f LR - 2) (f_regs f) fs)"

lemma landing_eq:
  assumes "gimli_reader R unread" "unw_ability u = Can_Unwind (f_info f)" "lsda_of (f_info f) (f_sites f)"
  shows "landing R p u = Inr (case pad_of f (gp_regs u PC) of None \<Rightarrow> (None, u) | Some a \<Rightarrow> (Some (a OR 1), save_unw_state_ptr p u))"
proof (cases "f_sites f")
  case None
  then show ?thesis using assms(2,3) by (simp add: landing_def lsda_of_def pad_of_def)
next
  case (Some es)
  then obtain l lp tt enc bs cs where l: "ui_lsda (f_info f) = Some l" "lsda_bytes lp tt enc es = Some bs" "bytes (lsda_data l) = bs @ cs"
    "unat (addr (lsda_data l)) + length bs < 2 ^ 32" "list_all (\<lambda>e. landing_pad_base e = lp_base lp (function_start_address l)) es"
    using assms(3) by (auto simp: lsda_of_def)
  show ?thesis using gimli_reader.lookup_eq[OF assms(1) l(2-5)] assms(2) l(1) Some
    by (auto simp: landing_def pad_of_def split: option.splits)
qed

lemma fold_exec_sp: "fold exec_op ops (r, m) = (r1, m1) \<Longrightarrow> r1 SP = r SP - of_nat (sum_list (map op_size ops))"
proof (induction ops arbitrary: r m)
  case (Cons op ops)
  obtain ra ma where e: "exec_op op (r, m) = (ra, ma)" by (cases "exec_op op (r, m)")
  then have "ra SP = r SP - of_nat (op_size op)" by (cases op) (auto simp: Let_def)
  moreover have "r1 SP = ra SP - of_nat (sum_list (map op_size ops))" by (rule Cons.IH) (use Cons.prems e in simp)
  ultimately show ?case by (simp add: diff_diff_add)
qed simp

lemma frame_step:
  assumes "frame_ok (smem st) f" "calls (svc_less_stack E) exidx extab g f" "at_frame f u"
  shows "\<exists>u'. unwind_step E c exidx extab u st = Inr (Inr (), u', st) \<and> at_frame g u' \<and> gp_regs u' PC = f_regs f LR - 2
    \<and> (\<forall>r \<in> callee_saved. gp_regs u' r = f_regs f r) \<and> is_initial u' = is_initial u"
proof -
  note F = assms(1)[unfolded frame_ok_def] and C = assms(2)[unfolded calls_def] and A = assms(3)[unfolded at_frame_def]
  obtain m0 r1 m1 where e: "fold exec_op (f_ops f) (f_regs f, m0) = (r1, m1)" "\<And>a. unat (f_sp f) \<le> a \<Longrightarrow> a < unat (f_regs f SP) \<Longrightarrow> smem st a = m1 a"
    using F by blast
  obtain k where k: "encode_instrs (rev (map undo_op (f_ops f)) @ replicate k Finish) = Some (rest (ui_instr_iter (f_info f)))" using F by blast
  have sp: "r1 SP = f_sp f" using fold_exec_sp[OF e(1)] by (simp add: f_sp_def)
  have "\<exists>u'. unwind_step E c exidx extab u st = Inr (Inr (), u', st)
    \<and> gp_regs u' SP = f_regs f SP \<and> (\<forall>g \<in> all_saved (f_ops f). gp_regs u' g = f_regs f g)
    \<and> (\<forall>g. g \<notin> all_saved (f_ops f) \<and> g \<noteq> SP \<and> g \<noteq> PC \<longrightarrow> gp_regs u' g = gp_regs u g)
    \<and> dpfp_regs u' = dpfp_regs u \<and> us_stklet_boundary u' = us_stklet_boundary u \<and> is_initial u' = is_initial u
    \<and> (if f_regs f LR = 0 then has_finished u' else gp_regs u' PC = f_regs f LR - 2 \<and> unw_ability u' = Can_Unwind (f_info g))"
    by (rule step_undoes[where r = "f_regs f" and ops = "f_ops f", OF _ _ e(1) _ _ _ _ _ k])
      (use F C A sp e(2) in \<open>simp_all add: has_finished_def\<close>)
  then obtain u' where u': "unwind_step E c exidx extab u st = Inr (Inr (), u', st)" "gp_regs u' SP = f_regs f SP"
    "\<forall>g \<in> all_saved (f_ops f). gp_regs u' g = f_regs f g"
    "\<forall>g. g \<notin> all_saved (f_ops f) \<and> g \<noteq> SP \<and> g \<noteq> PC \<longrightarrow> gp_regs u' g = gp_regs u g"
    "is_initial u' = is_initial u" "gp_regs u' PC = f_regs f LR - 2" "unw_ability u' = Can_Unwind (f_info g)" using C by auto
  have cs: "gp_regs u' r = f_regs f r" if "r \<in> callee_saved" for r
  proof (cases "r \<in> all_saved (f_ops f)")
    case False
    moreover have "r \<noteq> SP" "r \<noteq> PC" using that by (auto simp: callee_saved_def)
    ultimately show ?thesis using u'(4) A that by simp
  qed (use u'(3) in simp)
  have "f_regs f LR - 2 \<noteq> 0" using C by simp
  then have "at_frame g u'" using u'(2,6,7) cs C by (simp add: at_frame_def)
  then show ?thesis using u'(1,5,6) cs by blast
qed

lemma resume_from:
  assumes "gimli_reader R unread"
  shows "\<lbrakk>call_stack (svc_less_stack E) exidx extab (smem st) (f # fs); at_frame f u; \<not> is_initial u;
      nearest_pad (f_regs f LR - 2) (f_regs f) fs = Some (a, g, regs)\<rbrakk> \<Longrightarrow>
    \<exists>u'. resume_loop E c exidx extab R p u st = Some (Inr (a OR 1, u', st)) \<and> gp_regs u' SP = f_sp g \<and> gp_regs u' R0 = p
      \<and> (\<forall>r \<in> callee_saved. gp_regs u' r = regs r) \<and> unw_ability u' = Can_Unwind (f_info g)"
proof (induction fs arbitrary: f u)
  case (Cons h fs)
  have ok: "frame_ok (smem st) f" "calls (svc_less_stack E) exidx extab h f" "call_stack (svc_less_stack E) exidx extab (smem st) (h # fs)"
    using Cons.prems(1) by auto
  obtain u1 where u1: "unwind_step E c exidx extab u st = Inr (Inr (), u1, st)" "at_frame h u1" "gp_regs u1 PC = f_regs f LR - 2"
    "\<forall>r \<in> callee_saved. gp_regs u1 r = f_regs f r" "is_initial u1 = is_initial u"
    using frame_step[OF ok(1,2) Cons.prems(2)] by blast
  have hok: "lsda_of (f_info h) (f_sites h)" using ok(3) by (cases fs) (auto simp: frame_ok_def)
  have ab: "unw_ability u1 = Can_Unwind (f_info h)" using u1(2) by (simp add: at_frame_def)
  note l = landing_eq[OF assms ab hok, of p, unfolded u1(3)]
  show ?case
  proof (cases "pad_of h (f_regs f LR - 2)")
    case None
    then have n: "unwind_next_function E c exidx extab R p u st = Inr (None, u1, st)"
      using u1(1) l Cons.prems(3) by (simp add: unwind_next_function_def)
    have "\<exists>u'. resume_loop E c exidx extab R p u1 st = Some (Inr (a OR 1, u', st)) \<and> gp_regs u' SP = f_sp g \<and> gp_regs u' R0 = p
      \<and> (\<forall>r \<in> callee_saved. gp_regs u' r = regs r) \<and> unw_ability u' = Can_Unwind (f_info g)"
      by (rule Cons.IH[OF ok(3) u1(2)]) (use u1(5) Cons.prems(3,4) None in simp_all)
    then show ?thesis using n by (subst resume_loop.simps) simp
  next
    case (Some b)
    then have n: "unwind_next_function E c exidx extab R p u st = Inr (Some (b OR 1), save_unw_state_ptr p u1, st)"
      using u1(1) l Cons.prems(3) by (simp add: unwind_next_function_def)
    have "a = b" "g = h" "regs = f_regs f" using Cons.prems(4) Some by auto
    moreover have "R0 \<notin> callee_saved" by (simp add: callee_saved_def)
    ultimately show ?thesis using n u1(2,4) by (subst resume_loop.simps) (auto simp: save_unw_state_ptr_def at_frame_def)
  qed
qed simp


text \<open>Sample: the function of the sample above was called by one that pushed \<open>r4\<close> and \<open>lr\<close>, reserved 8
  bytes and has a landing pad at \<open>0x1050\<close> for its call site.\<close>

definition exidx1 :: slice where
  "exidx1 = \<lparr>addr = 0x1000, bytes = [0x10, 0, 0, 0, 0xfc, 0x1f, 0, 0, 0, 1, 0, 0, 1, 0, 0, 0]\<rparr>"

definition extab1 :: slice where
  "extab1 = \<lparr>addr = 0x3000, bytes = [0x01, 0x84, 0x01, 0x80, 0xff, 0xff, 1, 4, 0, 0x60, 0x40, 0]\<rparr>"

definition outer_info :: unwind_info where
  "outer_info = \<lparr>ui_func_addr = 0x1010, ui_personality = Compact 0,
     ui_instr_iter = \<lparr>iter_bytes = \<lparr>addr = 0x3000, bytes = [0x01, 0x84, 0x01, 0x80]\<rparr>, pos = 1\<rparr>,
     ui_lsda = Some \<lparr>lsda_data = \<lparr>addr = 0x3004, bytes = [0xff, 0xff, 1, 4, 0, 0x60, 0x40, 0]\<rparr>, function_start_address = 0x1010\<rparr>\<rparr>"

definition outer_sites :: "call_site_table_entry list" where
  "outer_sites = [\<lparr>starting_offset = 0, cs_length = 0x60, landing_pad_offset = 0x40, cs_action_offset = 0, landing_pad_base = 0x1010\<rparr>]"

definition outer_frame :: frame where
  "outer_frame = \<lparr>f_ops = [Push 0x4010, Sub_Sp 8], f_regs = (\<lambda>_. 0)(SP := 0x20002010, LR := 0x3001, R4 := 4, R5 := 55),
     f_info = outer_info, f_sites = Some outer_sites\<rparr>"

definition inner_frame :: frame where
  "inner_frame = \<lparr>f_ops = prologue0, f_regs = entry_regs, f_info = frame_info, f_sites = None\<rparr>"

definition stack_mem :: mem where
  "stack_mem = frame_mem(0x20002008 := 4, 0x2000200C := 0x3001)"

definition stack_state :: stk_state where
  "stack_state = stk0 0 \<lparr>mem = stack_mem, heap_start = 0, cached = 0, high_water_mark = 0, high_water_mark_just_updated = False,
     cur_alloc_size = 0, max_alloc_size = 0\<rparr>"

definition panic_unw :: unwind_state where
  "panic_unw = \<lparr>gp_regs = (\<lambda>_. 0)(SP := 0x20001FEC, PC := 0x1110, R4 := 1, R5 := 2), dpfp_regs = (\<lambda>_. 0), unw_ability = Can_Unwind frame_info,
     us_stklet_boundary = 0x20001188, is_initial = True\<rparr>"

lemma outer_pc: "get_for_pc 0x104f exidx1 extab1 = Inr (Inr (Can_Unwind outer_info))"
  by code_simp

lemma outer_saved: "pushed 0x4010 = [4, 14]" "all_saved (f_ops outer_frame) = {R4, LR}" "all_saved prologue0 = {R4, R5, LR}"
proof -
  show p: "pushed 0x4010 = [4, 14]" by code_simp
  show "all_saved (f_ops outer_frame) = {R4, LR}" "all_saved prologue0 = {R4, R5, LR}"
    by (simp_all add: all_saved_def outer_frame_def prologue0_def pushed_sample p reg_of_def gp_from_reg_num_def)
qed

lemma sample_sp: "f_sp inner_frame = 0x20001FEC" "f_sp outer_frame = 0x20002000"
  by (simp_all add: f_sp_def inner_frame_def outer_frame_def prologue0_def entry_regs_def pushed_sample outer_saved(1))

lemma outer_lsda: "lsda_of outer_info (Some outer_sites)"
proof -
  have "lsda_bytes None None DW_EH_PE_uleb128 outer_sites = Some [0xff, 0xff, 1, 4, 0, 0x60, 0x40, 0]"
    by (simp add: lsda_bytes_def outer_sites_def encode_entry_def encode_pointer_def dw_eh_pe uleb128.simps)
  then show ?thesis unfolding lsda_of_def option.case
    by (intro exI[of _ "the (ui_lsda outer_info)"] exI[of _ None] exI[of _ None] exI[of _ DW_EH_PE_uleb128] exI[of _ "[0xff, 0xff, 1, 4, 0, 0x60, 0x40, 0]"] exI[of _ "[]"])
      (simp add: outer_info_def outer_sites_def lp_base_def)
qed

lemma inner_ok: "frame_ok stack_mem inner_frame"
proof -
  have "\<forall>a. unat (f_sp inner_frame) \<le> a \<and> a < unat (f_regs inner_frame SP) \<longrightarrow> stack_mem a = frame_mem a"
    by (simp add: stack_mem_def inner_frame_def entry_regs_def)
  moreover have "list_all op_ok (f_ops inner_frame)" "sum_list (map op_size (f_ops inner_frame)) \<le> unat (f_regs inner_frame SP)"
    "lsda_of (f_info inner_frame) (f_sites inner_frame)"
    by (simp_all add: inner_frame_def prologue0_def pushed_sample entry_regs_def lsda_of_def frame_info_def)
  moreover have "fold exec_op (f_ops inner_frame) (f_regs inner_frame, \<lambda>_. 0) = (entry_regs(SP := 0x20001FEC), frame_mem)"
    using frame_sample by (simp add: inner_frame_def)
  moreover have "encode_instrs (rev (map undo_op (f_ops inner_frame)) @ replicate 1 Finish) = Some (rest (ui_instr_iter (f_info inner_frame)))"
    "iter_ok (ui_instr_iter (f_info inner_frame))" using frame_code by (simp_all add: inner_frame_def)
  ultimately show ?thesis unfolding frame_ok_def by blast
qed

lemma outer_ok: "frame_ok stack_mem outer_frame"
proof -
  let ?m1 = "(\<lambda>_. 0)(0x20002008 := 4, 0x2000200C := 0x3001) :: mem"
  have "\<forall>a. unat (f_sp outer_frame) \<le> a \<and> a < unat (f_regs outer_frame SP) \<longrightarrow> stack_mem a = ?m1 a"
    unfolding sample_sp by (simp add: stack_mem_def outer_frame_def frame_mem_def)
  moreover have "list_all op_ok (f_ops outer_frame)" "sum_list (map op_size (f_ops outer_frame)) \<le> unat (f_regs outer_frame SP)"
    by (simp_all add: outer_frame_def outer_saved(1))
  moreover have "lsda_of (f_info outer_frame) (f_sites outer_frame)" using outer_lsda by (simp add: outer_frame_def)
  moreover have "fold exec_op (f_ops outer_frame) (f_regs outer_frame, \<lambda>_. 0) = ((f_regs outer_frame)(SP := 0x20002000), ?m1)"
    by (simp add: outer_frame_def outer_saved(1) reg_of_def gp_from_reg_num_def)
  moreover have "encode_instrs (rev (map undo_op (f_ops outer_frame)) @ replicate 0 Finish) = Some (rest (ui_instr_iter (f_info outer_frame)))"
    "iter_ok (ui_instr_iter (f_info outer_frame))"
    by (simp_all add: outer_frame_def outer_info_def rest_def iter_ok_def)
  ultimately show ?thesis unfolding frame_ok_def by blast
qed


section \<open>Popping the stack pointer\<close>

text \<open>The code tests \<open>mask & 13\<close> where the bit of the stack pointer is \<open>1 << 13\<close>. A pop of the stack
  pointer itself loses the popped value, and a pop of \<open>r0\<close> leaves the stack pointer where it was.\<close>

lemma reg_pop_sp_bit:
  shows "apply_instr m (RegPop 0x2000) (r, d) = Inr (Inr (r(SP := r SP + 4), d))"
    and "apply_instr m (RegPop 1) (r, d) = Inr (Inr (r(R0 := m (unat (r SP))), d))"
  by (simp_all add: apply_instr_def gp_from_reg_num_def upt_rec)

end
