(* ===== verification/Task_Panic.thy ===== *)
theory Task_Panic
  imports Spawn_Correct Unwind_Correct Mutex
begin

text \<open>
  The start of an unwinding and what follows it: \<open>create_unwind_state\<close>, the storage of the unwind state
  and \<open>resume_unwind\<close> of \<open>src/unwind/unwind.rs\<close>, the callback of \<open>src/unwind/unw_catch.rs\<close> and the
  restart loop of \<open>src/task/trampoline.rs\<close>. The size of an \<open>UnwindState\<close> and whether a task struct
  still has references (\<open>Weak::strong_count\<close>) are arguments.
\<close>

section \<open>State\<close>

text \<open>\<open>IS_ISR_UNWINDING\<close> and \<open>STATIC_UNWIND_STATE_IN_USE\<close>.\<close>

record unw_statics =
  isr_unwinding :: bool
  static_in_use :: bool

definition save_and_clear_isr_unwinding :: "unw_statics \<Rightarrow> bool \<times> unw_statics" where
  "save_and_clear_isr_unwinding x = (isr_unwinding x, x\<lparr>isr_unwinding := False\<rparr>)"

definition set_cur_task_unwinding :: "bool \<Rightarrow> ('w, 'q) kstate \<Rightarrow> (unit \<times> ('w, 'q) kstate) res" where
  "set_cur_task_unwinding b = with_cur_task (\<lambda>c s. Inr ((), upd_task c (set_unwind_flag b) s))"

definition set_unwinding :: "bool \<Rightarrow> unw_statics \<Rightarrow> ('w, 'q) kstate \<Rightarrow> (unw_statics \<times> ('w, 'q) kstate) res" where
  "set_unwinding b x s =
     (if in_isr s then Inr (x\<lparr>isr_unwinding := b\<rparr>, s) else bindr (set_cur_task_unwinding b s) (\<lambda>(_, s). Inr (x, s)))"

section \<open>Starting\<close>

text \<open>The new instance would be put at address \<open>t\<close>; \<open>alive\<close> tells which task structs still exist.\<close>

definition try_concurrent_restart ::
  "('w, 'q) kenv \<Rightarrow> task_env \<Rightarrow> cpu \<Rightarrow> (tid \<Rightarrow> bool) \<Rightarrow> tid \<Rightarrow> tid \<Rightarrow> ('w, 'q) kstate \<Rightarrow> stk_state \<Rightarrow> (bool \<times> ('w, 'q) kstate \<times> stk_state) res" where
  "try_concurrent_restart E T cp alive t cur s st =
     (if (case t_restarted_from (tasks s cur) of Some restarted_from \<Rightarrow> alive restarted_from | None \<Rightarrow> False) then Inr (False, s, st)
      else if \<not> t_concurrent_restartable (tasks s cur) then Inr (False, s, st)
      else bindr (try_spawn_restarted E T cp t cur s st) (\<lambda>(r, s, st). Inr (r \<noteq> None, s, st)))"

text \<open>The closure given to \<open>with_cur_task_arc\<close>, and the call of it.\<close>

definition panicked_task ::
  "('w, 'q) kenv \<Rightarrow> task_env \<Rightarrow> cpu \<Rightarrow> (tid \<Rightarrow> bool) \<Rightarrow> tid \<Rightarrow> tid \<Rightarrow> ('w, 'q) kstate \<Rightarrow> stk_state \<Rightarrow> (bool \<times> ('w, 'q) kstate \<times> stk_state) res" where
  "panicked_task E T cp alive t cur s st =
     (let reduce = upd_task cur (change_intrinsic_priority (UNWIND_PRIORITY (kconf E)))
      in if is_restartable (tasks s cur)
         then bindr (try_concurrent_restart E T cp alive t cur s st) (\<lambda>(b, s, st). Inr (if b then (True, reduce s, st) else (False, s, st)))
         else Inr (True, reduce s, st))"

definition with_cur_task_arc ::
  "(tid \<Rightarrow> ('w, 'q) kstate \<Rightarrow> stk_state \<Rightarrow> ('r \<times> ('w, 'q) kstate \<times> stk_state) res) \<Rightarrow> ('w, 'q) kstate \<Rightarrow> stk_state
     \<Rightarrow> ('r \<times> ('w, 'q) kstate \<times> stk_state) res" where
  "with_cur_task_arc op s st =
     (let s = suspend s
      in case cur_task s of None \<Rightarrow> Inl Die | Some c \<Rightarrow> bindr (op c s st) (\<lambda>(r, s, st). Inr (r, resume s, st)))"

text \<open>The part of \<open>create_unwind_state\<close> before the allocation.\<close>

definition begin_unwind ::
  "('w, 'q) kenv \<Rightarrow> task_env \<Rightarrow> cpu \<Rightarrow> (tid \<Rightarrow> bool) \<Rightarrow> tid \<Rightarrow> unw_statics \<Rightarrow> ('w, 'q) kstate \<Rightarrow> stk_state
     \<Rightarrow> (unw_statics \<times> ('w, 'q) kstate \<times> stk_state) res" where
  "begin_unwind E T cp alive t x s st =
     bindr (Mutex.is_unwinding (isr_unwinding x) s) (\<lambda>(u, s).
       if u then Inl Die
       else bindr (set_unwinding True x s) (\<lambda>(x, s).
         if in_isr s then Inr (x, s, st)
         else bindr (with_cur_task_arc (panicked_task E T cp alive t) s st) (\<lambda>(need_reschedule, s, st).
           Inr (x, if need_reschedule \<and> \<not> is_suspended s then yield_current_task s else s, st))))"

text \<open>\<open>size_of::<UnwindState>()\<close> is \<open>sz\<close>, and \<open>static_addr\<close> is the address of \<open>STATIC_UNWIND_STATE\<close>.\<close>

definition allocate_uninit ::
  "task_env \<Rightarrow> cpu \<Rightarrow> u32 \<Rightarrow> u32 \<Rightarrow> bool \<Rightarrow> unw_statics \<Rightarrow> stk_state \<Rightarrow> (u32 \<times> unw_statics \<times> stk_state) res" where
  "allocate_uninit T cp static_addr sz isr x st =
     (if isr then if static_in_use x then Inl Die else Inr (static_addr, x\<lparr>static_in_use := True\<rparr>, st)
      else case kalloc_layout (stkenv T) cp sz st of None \<Rightarrow> Inl Die | Some (p, st) \<Rightarrow> Inr (of_nat p, x, st))"

definition drop_from_ptr :: "task_env \<Rightarrow> cpu \<Rightarrow> u32 \<Rightarrow> u32 \<Rightarrow> unw_statics \<Rightarrow> stk_state \<Rightarrow> (unw_statics \<times> stk_state) res" where
  "drop_from_ptr T cp static_addr p x st =
     (if static_addr \<noteq> p
      then case free_impl (henv (stkenv T)) cp (unat p) (ka st) of None \<Rightarrow> Inl Die | Some k \<Rightarrow> Inr (x, st\<lparr>ka := k\<rparr>)
      else Inr (x\<lparr>static_in_use := False\<rparr>, st))"

text \<open>\<open>UnwindInitContext\<close>: the callee-saved registers with stack pointer and link register, and the
  floating point registers.\<close>

record unwind_init_context =
  init_regs :: "arm_gp_reg \<Rightarrow> u32"
  init_dregs :: "nat \<Rightarrow> u64"
  before_unwind_stklet_bound :: u32

definition init_state :: "unwind_init_context \<Rightarrow> unwind_state" where
  "init_state ctxt =
     (let r = init_regs ctxt
      in \<lparr>gp_regs = (\<lambda>g. case g of R0 \<Rightarrow> 0 | PC \<Rightarrow> r LR - 2 | _ \<Rightarrow> r g), dpfp_regs = init_dregs ctxt, unw_ability = Cant_Unwind,
          us_stklet_boundary = 0, is_initial = True\<rparr>)"

definition create_unwind_state ::
  "('w, 'q) kenv \<Rightarrow> task_env \<Rightarrow> cpu \<Rightarrow> slice \<Rightarrow> slice \<Rightarrow> (tid \<Rightarrow> bool) \<Rightarrow> tid \<Rightarrow> u32 \<Rightarrow> u32 \<Rightarrow> unwind_init_context \<Rightarrow> unw_statics \<Rightarrow> ('w, 'q) kstate \<Rightarrow> stk_state
     \<Rightarrow> (u32 \<times> unwind_state \<times> unw_statics \<times> ('w, 'q) kstate \<times> stk_state) res" where
  "create_unwind_state E T cp exidx extab alive t static_addr sz ctxt x s st =
     bindr (begin_unwind E T cp alive t x s st) (\<lambda>(x, s, st).
     bindr (allocate_uninit T cp static_addr sz (in_isr s) x st) (\<lambda>(p, x, st).
       let u = init_state ctxt
       in bindr (get_for_pc (gp_regs u PC) exidx extab) (\<lambda>a.
            case a of
              Inl _ \<Rightarrow> Inl Die
            | Inr a \<Rightarrow> Inr (p, u\<lparr>unw_ability := a, us_stklet_boundary := before_unwind_stklet_bound ctxt\<rparr>, x, s, st))))"

section \<open>Resuming, catching and restarting\<close>

definition resume_unwind ::
  "('w, 'q) kenv \<Rightarrow> stk_env \<Rightarrow> cpu \<Rightarrow> slice \<Rightarrow> slice \<Rightarrow> 'r reader \<Rightarrow> u32 \<Rightarrow> unwind_state \<Rightarrow> ('w, 'q) kstate \<Rightarrow> stk_state
     \<Rightarrow> (u32 \<times> unwind_state \<times> ('w, 'q) kstate \<times> stk_state) res option" where
  "resume_unwind E S cp exidx extab R p u s st =
     (let s = (if \<not> ALLOW_TASK_PREEMPTION (kconf E) \<and> \<not> in_isr s \<and> \<not> is_suspended s then yield_current_task s else s)
      in map_option (\<lambda>r. bindr r (\<lambda>(a, u, st). Inr (a, u, s, st))) (resume_loop S cp exidx extab R p u st))"

text \<open>\<open>panic_callback\<close>: the unwind state is freed and the result of \<open>catch_unwind\<close> becomes \<open>Err(())\<close>.\<close>

definition panic_callback :: "task_env \<Rightarrow> cpu \<Rightarrow> u32 \<Rightarrow> u32 \<Rightarrow> unw_statics \<Rightarrow> stk_state \<Rightarrow> ((unit + 'r) \<times> unw_statics \<times> stk_state) res" where
  "panic_callback T cp static_addr p x st = bindr (drop_from_ptr T cp static_addr p x st) (\<lambda>(x, st). Inr (Inl (), x, st))"

text \<open>A round of the loop in \<open>restartable_task_entry\<close> after the entry closure has run: whether the closure
  panicked, and whether clearing the flag would panic again. The result tells whether the loop goes on.\<close>

definition restart_round :: "bool \<Rightarrow> bool \<Rightarrow> ('w, 'q) kstate \<Rightarrow> (bool \<times> ('w, 'q) kstate) res" where
  "restart_round panicked clear_panics s =
     (if \<not> panicked then Inr (False, s)
      else bindr (with_cur_task (\<lambda>c s. Inr (t_has_restarted (tasks s c), s)) s) (\<lambda>(restarted, s).
        if restarted then Inr (False, s)
        else if clear_panics then Inr (False, s)
        else bindr (with_cur_task (\<lambda>c s. Inr ((), upd_task c (set_unwind_flag False) s)) s) (\<lambda>(_, s). Inr (True, s))))"

end
