(* ===== verification/Panic_Correct.thy ===== *)
theory Panic_Correct
  imports Task_Panic
begin

text \<open>
  What a panic does to the panicked task and to the scheduler, on every branch.
\<close>

section \<open>Preliminaries\<close>

text \<open>The effect of a section with a suspended scheduler on the request for a context switch.\<close>

definition settle :: "('w, 'q) kstate \<Rightarrow> ('w, 'q) kstate" where
  "settle s = (if suspend_cnt s = 0 \<and> pending_ctxt_switch s then s\<lparr>pendsv := True\<rparr> else s)"

lemma settle_fields [simp]:
  "tasks (settle s) = tasks s" "lists (settle s) = lists s" "cur_task (settle s) = cur_task s" "insert_buffer (settle s) = insert_buffer s"
  "rq_pending (settle s) = rq_pending s" "rq_locked (settle s) = rq_locked s" "started (settle s) = started s"
  "suspend_cnt (settle s) = suspend_cnt s" "pending_ctxt_switch (settle s) = pending_ctxt_switch s" "in_isr (settle s) = in_isr s"
  "exist_task_num (settle s) = exist_task_num s" "cur_task_idle (settle s) = cur_task_idle s"
  by (simp_all add: settle_def)

lemma resume_suspend: "resume (suspend s\<lparr>tasks := ts\<rparr>) = settle (s\<lparr>tasks := ts\<rparr>)" "resume (suspend s) = settle s"
  by (simp_all add: resume_def suspend_def settle_def yield_current_task_def Let_def)

lemma is_unwinding_task:
  assumes "cur_task s = Some c" "\<not> in_isr s"
  shows "Mutex.is_unwinding iu s = Inr (t_is_unwinding (tasks s c), settle s)"
  using assms by (simp add: Mutex.is_unwinding_def with_cur_task_def with_suspended_scheduler_def with_cur_task_explicit_sched_suspend_def resume_suspend)

lemma set_unwinding_task:
  assumes "cur_task s = Some c" "\<not> in_isr s"
  shows "set_unwinding b x s = Inr (x, settle (upd_task c (set_unwind_flag b) s))"
proof -
  have "suspend s\<lparr>tasks := (tasks (suspend s))(c := set_unwind_flag b (tasks (suspend s) c))\<rparr> = suspend s\<lparr>tasks := (tasks s)(c := set_unwind_flag b (tasks s c))\<rparr>"
    by simp
  then show ?thesis using assms
    by (simp add: set_unwinding_def set_cur_task_unwinding_def with_cur_task_def with_suspended_scheduler_def
        with_cur_task_explicit_sched_suspend_def upd_task_def resume_suspend)
qed

text \<open>When a panicked task gets a second instance.\<close>

definition may_restart :: "config \<Rightarrow> (tid \<Rightarrow> bool) \<Rightarrow> ('w, 'q) kstate \<Rightarrow> task \<Rightarrow> bool" where
  "may_restart cf alive s x \<longleftrightarrow> is_restartable x \<and> t_concurrent_restartable x \<and> (\<forall>p. t_restarted_from x = Some p \<longrightarrow> \<not> alive p)
     \<and> unat (exist_task_num s) < MAX_TASK_NUMBER cf"

text \<open>The panicked task afterwards.\<close>

definition demoted :: "config \<Rightarrow> task \<Rightarrow> task" where
  "demoted cf x = change_intrinsic_priority (UNWIND_PRIORITY cf) (set_unwind_flag True x)"

lemma change_flag_commute:
  "change_intrinsic_priority p (set_unwind_flag b x) = set_unwind_flag b (change_intrinsic_priority p x)"
  by (simp add: change_intrinsic_priority_def set_unwind_flag_def)

section \<open>The decision\<close>

text \<open>With the scheduler suspended by \<open>with_cur_task_arc\<close>, for a task that is not restarted.\<close>

lemma panicked_simple:
  assumes "\<not> may_restart (kconf E) alive s (tasks s c)"
  shows "panicked_task E T cp alive t c s st =
    (if is_restartable (tasks s c) then Inr (False, s, st) else Inr (True, upd_task c (change_intrinsic_priority (UNWIND_PRIORITY (kconf E))) s, st))"
  using assms by (auto simp: panicked_task_def try_concurrent_restart_def try_spawn_restarted_def may_restart_def request_task_quota_def Let_def split: option.splits)

lemma panicked_dies:
  assumes "may_restart (kconf E) alive s (tasks s c)" "build_restarted T cp c (tasks s c) st = None"
  shows "panicked_task E T cp alive t c s st = Inl Die"
  using assms by (auto simp: panicked_task_def try_concurrent_restart_def try_spawn_restarted_def may_restart_def request_task_quota_def Let_def split: option.splits)

lemma panicked_restarts:
  assumes "may_restart (kconf E) alive s (tasks s c)" "build_restarted T cp c (tasks s c) st = Some (n, x, st')"
    and "accept_task E t (s\<lparr>exist_task_num := exist_task_num s + 1, tasks := (tasks s)(c := x, t := n)\<rparr>) = Inr ((), s')"
  shows "panicked_task E T cp alive t c s st = Inr (True, upd_task c (change_intrinsic_priority (UNWIND_PRIORITY (kconf E))) s', st')"
proof -
  have "try_spawn_restarted E T cp t c s st = Inr (Some (), s', st')"
    using assms by (simp add: try_spawn_restarted_def may_restart_def request_task_quota_def)
  then show ?thesis using assms(1) by (auto simp: panicked_task_def try_concurrent_restart_def may_restart_def Let_def split: option.splits)
qed

lemma restart_needs_stack:
  assumes "task_wf (conf (stkenv T)) x" "is_restartable x"
  shows "build_restarted T cp c x st = None \<longleftrightarrow> alloc_initial_stacklet (stkenv T) cp (stack_alloc_size (t_stack_config x)) st = None"
proof
  assume "build_restarted T cp c x st = None"
  then show "alloc_initial_stacklet (stkenv T) cp (stack_alloc_size (t_stack_config x)) st = None" using restart_succeeds[OF assms] by blast
next
  assume "alloc_initial_stacklet (stkenv T) cp (stack_alloc_size (t_stack_config x)) st = None"
  then have "initialize_common T cp i p tr (t_stack_config x) prio t0 st \<noteq> Some (Inr t', st')" for i p tr prio t0 t' st'
    by (simp add: initialize_common_def Let_def)
  then show "build_restarted T cp c x st = None" by (auto simp: build_restarted_def restart_from_def Let_def split: option.splits sum.splits)
qed

lemma sched_ok_cur:
  assumes "sched_ok xs c s" "t_state y = t_state (tasks s c)" "t_ctxt_locked y = t_ctxt_locked (tasks s c)" "t_is_idle y = t_is_idle (tasks s c)"
  shows "sched_ok xs c (s\<lparr>tasks := (tasks s)(c := y)\<rparr>)"
  by (rule sched_ok_fields[OF assms(1)]) (use assms(2-4) in auto)

lemma sched_ok_same: "sched_ok xs c s \<Longrightarrow> tasks s' = tasks s \<Longrightarrow> cur_task s' = cur_task s \<Longrightarrow> started s' = started s \<Longrightarrow> cur_task_idle s' = cur_task_idle s \<Longrightarrow> sched_ok xs c s'"
  by (simp add: sched_ok_def)

text \<open>The state in which the closure runs: the panicked task is flagged and the scheduler suspended.\<close>

lemma begin_unwind_eq:
  assumes "cur_task s = Some c" "\<not> in_isr s" "\<not> t_is_unwinding (tasks s c)"
    and "s1 = settle (upd_task c (set_unwind_flag True) (settle s))"
  shows "begin_unwind E T cp alive t x s st =
    bindr (panicked_task E T cp alive t c (suspend s1) st) (\<lambda>(need_reschedule, s, st).
      Inr (x, if need_reschedule \<and> \<not> is_suspended (resume s) then yield_current_task (resume s) else resume s, st))"
proof -
  have c: "cur_task (settle s) = Some c" "\<not> in_isr (settle s)" using assms(1,2) by simp_all
  have "in_isr s1 = in_isr s" "cur_task (suspend s1) = Some c" using assms(1) by (simp_all add: assms(4) upd_task_def suspend_def)
  then show ?thesis unfolding begin_unwind_def is_unwinding_task[OF assms(1,2)] bindr_simps prod.case set_unwinding_task[OF c] assms(4)[symmetric]
    using assms(2,3) by (cases "panicked_task E T cp alive t c (suspend s1) st") (auto simp: with_cur_task_arc_def Let_def)
qed

lemma begin_state:
  assumes "s1 = settle (upd_task c (set_unwind_flag True) (settle s))"
  shows "tasks s1 = (tasks s)(c := set_unwind_flag True (tasks s c))" "lists s1 = lists s" "cur_task s1 = cur_task s" "exist_task_num s1 = exist_task_num s"
    "suspend_cnt s1 = suspend_cnt s" "pending_ctxt_switch s1 = pending_ctxt_switch s" "rq_locked s1 = rq_locked s" "rq_pending s1 = rq_pending s"
    "insert_buffer s1 = insert_buffer s" "started s1 = started s" "cur_task_idle s1 = cur_task_idle s"
    "pendsv s1 = (pendsv s \<or> suspend_cnt s = 0 \<and> pending_ctxt_switch s)"
  by (auto simp: assms upd_task_def settle_def)

lemma suspend_sel [simp]:
  "tasks (suspend s) = tasks s" "lists (suspend s) = lists s" "cur_task (suspend s) = cur_task s" "exist_task_num (suspend s) = exist_task_num s"
  "suspend_cnt (suspend s) = suspend_cnt s + 1" "pending_ctxt_switch (suspend s) = pending_ctxt_switch s" "rq_locked (suspend s) = rq_locked s"
  "rq_pending (suspend s) = rq_pending s" "insert_buffer (suspend s) = insert_buffer s" "started (suspend s) = started s"
  "cur_task_idle (suspend s) = cur_task_idle s" "pendsv (suspend s) = pendsv s"
  by (simp_all add: suspend_def)

lemma resume_exist [simp]: "exist_task_num (resume s) = exist_task_num s"
  "pendsv (resume s) = (pendsv s \<or> suspend_cnt s = 1 \<and> pending_ctxt_switch s)"
  by (auto simp: resume_def Let_def yield_current_task_def)

lemma yield_pendsv:
  "pendsv (if b \<and> \<not> is_suspended (resume s) then yield_current_task (resume s) else resume s)
    = (pendsv s \<or> suspend_cnt s = 1 \<and> (pending_ctxt_switch s \<or> b))"
proof -
  have "is_suspended (resume s) \<longleftrightarrow> suspend_cnt s \<noteq> 1" by (simp add: is_suspended_def word_neq_0_conv[symmetric])
  then show ?thesis by (auto simp: yield_current_task_def)
qed

text \<open>The new instance is handed to the scheduler while it is suspended.\<close>

lemma accept_restarted:
  assumes "kernel_lib E elems queued" "sched_ok (elems (lists s)) c s" "rq_free queued s" "unlinked (elems (lists s)) t" "t \<noteq> c" "suspend_cnt s + 1 \<noteq> 0"
    and "t_state n = Ready" "\<not> t_ctxt_locked n"
    and "t_state y = t_state (tasks s c)" "t_ctxt_locked y = t_ctxt_locked (tasks s c)" "t_is_idle y = t_is_idle (tasks s c)"
  shows "\<exists>s'. accept_task E t ((suspend s)\<lparr>exist_task_num := k, tasks := (tasks s)(c := y, t := n)\<rparr>) = Inr ((), s')
    \<and> elems (lists s') = (elems (lists s))(Ready_List := elems (lists s) Ready_List @ [t]) \<and> tasks s' = (tasks s)(c := y, t := n)
    \<and> sched_ok (elems (lists s')) c s' \<and> exist_task_num s' = k \<and> suspend_cnt s' = suspend_cnt s + 1 \<and> pendsv s' = pendsv s"
proof -
  let ?a = "(suspend s)\<lparr>tasks := (tasks s)(c := y)\<rparr>" and ?b = "(suspend s)\<lparr>exist_task_num := k, tasks := (tasks s)(c := y, t := n)\<rparr>"
  have "sched_ok (elems (lists s)) c (suspend s)" by (rule sched_ok_same[OF assms(2)]) simp_all
  from sched_ok_cur[OF this, of y] have ok: "sched_ok (elems (lists ?a)) c ?a" using assms(9-11) by simp
  have f: "rq_free queued ?a" "unlinked (elems (lists ?a)) t" using assms(3,4) by (simp_all add: rq_free_def)
  have b: "?b = ?a\<lparr>exist_task_num := k, tasks := (tasks ?a)(t := n)\<rparr>" by simp
  obtain s' where s': "accept_task E t ?b = Inr ((), s')" "sched_ok (elems (lists s')) c s'"
    "elems (lists s') = (elems (lists s))(Ready_List := elems (lists s) Ready_List @ [t])" "tasks s' = (tasks s)(c := y, t := n)" "exist_task_num s' = k"
  proof -
    have a: "tasks ?a = (tasks s)(c := y)" "lists ?a = lists s" by simp_all
    show ?thesis using accept_new[OF assms(1) ok f assms(5,7,8), of k, folded b] that unfolding a by blast
  qed
  have ps: "cur_task ?b = Some c" "started ?b" "\<not> rq_locked ?b" "\<not> rq_pending ?b" "unlinked (elems (lists ?b)) t"
    using assms(2,3,4) by (simp_all add: sched_ok_def rq_free_def)
  have "suspend_cnt s' = suspend_cnt s + 1 \<and> pendsv s' = pendsv s"
    using kernel_lib.accept_task_direct[OF assms(1) ps] s'(1) assms(6) by (elim exE conjE) (simp del: fun_upd_apply, hypsubst, simp)
  then show ?thesis using s' by blast
qed

text \<open>The state in which the panicked task is dealt with: the task is marked, nothing else that the
  decision reads has changed.\<close>

lemma flagged_task:
  "is_restartable (set_unwind_flag True k) = is_restartable k" "t_stack_config (set_unwind_flag True k) = t_stack_config k"
  "t_state (set_unwind_flag True k) = t_state k" "t_ctxt_locked (set_unwind_flag True k) = t_ctxt_locked k"
  "t_is_idle (set_unwind_flag True k) = t_is_idle k"
  by (simp_all add: set_unwind_flag_def is_restartable_def)

lemma flagged_state:
  assumes s1: "s1 = settle (upd_task c (set_unwind_flag True) (settle s))"
  shows "tasks s1 c = set_unwind_flag True (tasks s c)"
    and "may_restart cf alive (suspend s1) (tasks (suspend s1) c) = may_restart cf alive s (tasks s c)"
    and "sched_ok (elems (lists s)) c s \<Longrightarrow> sched_ok (elems (lists s1)) c s1"
proof -
  note F = begin_state[OF s1]
  show x: "tasks s1 c = set_unwind_flag True (tasks s c)" by (simp add: F)
  show "may_restart cf alive (suspend s1) (tasks (suspend s1) c) = may_restart cf alive s (tasks s c)"
    by (simp add: x may_restart_def F set_unwind_flag_def is_restartable_def)
  assume "sched_ok (elems (lists s)) c s"
  then have "sched_ok (elems (lists s)) c (s\<lparr>tasks := (tasks s)(c := set_unwind_flag True (tasks s c))\<rparr>)"
    by (rule sched_ok_cur) (rule flagged_task)+
  then have "sched_ok (elems (lists s)) c s1" by (rule sched_ok_same) (simp_all add: F)
  then show "sched_ok (elems (lists s1)) c s1" by (simp add: F)
qed

text \<open>A panic that does not restart the task.\<close>

lemma panic_no_restart:
  assumes ok: "sched_ok (elems (lists s)) c s" and isr: "\<not> in_isr s" and nu: "\<not> t_is_unwinding (tasks s c)"
    and mr: "\<not> may_restart (kconf E) alive s (tasks s c)" and r: "r = begin_unwind E T cp alive t x s st"
  shows "\<exists>s'. r = Inr (x, s', st) \<and> lists s' = lists s \<and> sched_ok (elems (lists s')) c s' \<and> exist_task_num s' = exist_task_num s
        \<and> tasks s' = (tasks s)(c := if is_restartable (tasks s c) then set_unwind_flag True (tasks s c) else demoted (kconf E) (tasks s c))
        \<and> pendsv s' = (pendsv s \<or> suspend_cnt s = 0 \<and> (pending_ctxt_switch s \<or> \<not> is_restartable (tasks s c)))"
proof -
  let ?x = "set_unwind_flag True (tasks s c)"
  define s1 where "s1 = settle (upd_task c (set_unwind_flag True) (settle s))"
  have cu: "cur_task s = Some c" using ok by (simp add: sched_ok_def)
  note F = begin_state[OF s1_def] and R = begin_unwind_eq[OF cu isr nu s1_def]
  note x = flagged_state(1)[OF s1_def] and m = flagged_state(2)[OF s1_def] and ok1 = flagged_state(3)[where elems = elems, OF s1_def ok] and xf = flagged_task[of "tasks s c"]
  let ?y = "if is_restartable (tasks s c) then ?x else demoted (kconf E) (tasks s c)"
  define s2 where "s2 = (if is_restartable (tasks s c) then suspend s1 else upd_task c (change_intrinsic_priority (UNWIND_PRIORITY (kconf E))) (suspend s1))"
  have p: "panicked_task E T cp alive t c (suspend s1) st = Inr (\<not> is_restartable (tasks s c), s2, st)"
    using panicked_simple[of E alive "suspend s1" c] mr m x xf(1) by (simp add: s2_def)
  have f2: "tasks s2 = (tasks s)(c := ?y)" "lists s2 = lists s" "exist_task_num s2 = exist_task_num s" "suspend_cnt s2 = suspend_cnt s + 1"
    "pending_ctxt_switch s2 = pending_ctxt_switch s" "pendsv s2 = pendsv s1" "cur_task s2 = cur_task s" "started s2 = started s" "cur_task_idle s2 = cur_task_idle s"
    by (auto simp: s2_def upd_task_def F demoted_def)
  define s3 where "s3 = (if \<not> is_restartable (tasks s c) \<and> \<not> is_suspended (resume s2) then yield_current_task (resume s2) else resume s2)"
  have "sched_ok (elems (lists s)) c (s\<lparr>tasks := (tasks s)(c := ?y)\<rparr>)"
    by (rule sched_ok_cur[OF ok]) (simp_all add: demoted_def change_intrinsic_priority_def set_unwind_flag_def)
  then have "sched_ok (elems (lists s)) c s3" by (rule sched_ok_same) (simp_all add: s3_def f2 yield_current_task_def)
  moreover have "r = Inr (x, s3, st)" using R p r by (simp add: s3_def)
  moreover have "pendsv s3 = (pendsv s \<or> suspend_cnt s = 0 \<and> (pending_ctxt_switch s \<or> \<not> is_restartable (tasks s c)))"
    using f2(4) by (auto simp: s3_def is_suspended_def f2 F yield_current_task_def word_neq_0_conv)
  moreover have "tasks s3 = (tasks s)(c := ?y)" "lists s3 = lists s" "exist_task_num s3 = exist_task_num s"
    by (simp_all add: s3_def f2 yield_current_task_def)
  ultimately show ?thesis by auto
qed

text \<open>A panic that restarts the task, when there is memory for the initial stacklet.\<close>

lemma panic_restart:
  assumes lib: "kernel_lib E elems queued" and ok: "sched_ok (elems (lists s)) c s"
    and rq: "rq_free queued s" "unlinked (elems (lists s)) t" "suspend_cnt s + 1 \<noteq> 0" and tc: "t \<noteq> c"
    and isr: "\<not> in_isr s" and kc: "kconf E = conf (stkenv T)" and cf: "config_ok (kconf E)" and cwf: "task_wf (kconf E) (tasks s c)"
    and nu: "\<not> t_is_unwinding (tasks s c)" and mr: "may_restart (kconf E) alive s (tasks s c)"
    and al: "alloc_initial_stacklet (stkenv T) cp (stack_alloc_size (t_stack_config (tasks s c))) st \<noteq> None"
    and rr: "r = begin_unwind E T cp alive t x s st"
  shows "\<exists>n s' st'. r = Inr (x, s', st') \<and> elems (lists s') = (elems (lists s))(Ready_List := elems (lists s) Ready_List @ [t])
        \<and> tasks s' = (tasks s)(c := (demoted (kconf E) (tasks s c))\<lparr>t_has_restarted := True\<rparr>, t := n)
        \<and> sched_ok (elems (lists s')) c s' \<and> exist_task_num s' = exist_task_num s + 1 \<and> pendsv s' = (pendsv s \<or> suspend_cnt s = 0)
        \<and> t_id n = t_id (tasks s c) \<and> t_entry_closure n = t_entry_closure (tasks s c) \<and> t_stack_config n = t_stack_config (tasks s c)
        \<and> t_priority n = Intrinsic (intrinsic_priority (t_priority (tasks s c))) \<and> t_restarted_from n = Some c \<and> \<not> t_is_unwinding n"
proof -
  let ?x = "set_unwind_flag True (tasks s c)"
  define s1 where "s1 = settle (upd_task c (set_unwind_flag True) (settle s))"
  have cu: "cur_task s = Some c" using ok by (simp add: sched_ok_def)
  note F = begin_state[OF s1_def] and R = begin_unwind_eq[OF cu isr nu s1_def]
  note x = flagged_state(1)[OF s1_def] and m = flagged_state(2)[OF s1_def] and ok1 = flagged_state(3)[where elems = elems, OF s1_def ok] and xf = flagged_task[of "tasks s c"]
  have wf: "task_wf (conf (stkenv T)) ?x" using wf_fields(3)[OF cwf] kc by simp
  have rs: "is_restartable ?x" using mr xf(1) by (simp add: may_restart_def)
  note N = restart_needs_stack[OF wf rs, of cp c st, unfolded xf(2)]
  obtain n y st' where b: "build_restarted T cp c ?x st = Some (n, y, st')" using al N by fastforce
  have lv: "0 < TASK_PRIORITY_LEVELS (conf (stkenv T))"
    using kc cf by (auto simp: config_ok_def task_config_ok_def word_le_nat_alt word_less_nat_alt)
  note W = restart_wf[OF wf lv b]
  have y: "y = ?x\<lparr>t_has_restarted := True\<rparr>" using W by simp
  have pre: "rq_free queued s1" "unlinked (elems (lists s1)) t" "suspend_cnt s1 + 1 \<noteq> 0" using rq by (simp_all add: rq_free_def F)
  obtain s2 where s2: "accept_task E t ((suspend s1)\<lparr>exist_task_num := exist_task_num s1 + 1, tasks := (tasks s1)(c := y, t := n)\<rparr>) = Inr ((), s2)"
    "elems (lists s2) = (elems (lists s1))(Ready_List := elems (lists s1) Ready_List @ [t])" "tasks s2 = (tasks s1)(c := y, t := n)"
    "sched_ok (elems (lists s2)) c s2" "exist_task_num s2 = exist_task_num s1 + 1" "suspend_cnt s2 = suspend_cnt s1 + 1" "pendsv s2 = pendsv s1"
    using accept_restarted[OF lib ok1 pre(1,2) tc pre(3), of n y "exist_task_num s1 + 1"] W y x by auto
  define s3 where "s3 = upd_task c (change_intrinsic_priority (UNWIND_PRIORITY (kconf E))) s2"
  have p: "panicked_task E T cp alive t c (suspend s1) st = Inr (True, s3, st')"
    unfolding s3_def by (rule panicked_restarts[of E alive "suspend s1" c T cp st n y st' t s2]) (use m mr b x s2(1) in simp_all)
  define s4 where "s4 = (if \<not> is_suspended (resume s3) then yield_current_task (resume s3) else resume s3)"
  have r: "r = Inr (x, s4, st')" using R p rr by (simp add: s4_def)
  have t2: "tasks s3 = (tasks s)(c := (demoted (kconf E) (tasks s c))\<lparr>t_has_restarted := True\<rparr>, t := n)"
    using tc by (auto simp: s3_def upd_task_def s2(3) F y demoted_def change_intrinsic_priority_def set_unwind_flag_def)
  have "sched_ok (elems (lists s2)) c s3" unfolding s3_def upd_task_def
    by (rule sched_ok_cur[OF s2(4)]) (simp_all add: change_intrinsic_priority_def)
  moreover have f4: "tasks s4 = tasks s3" "lists s4 = lists s3" "cur_task s4 = cur_task s3" "started s4 = started s3" "cur_task_idle s4 = cur_task_idle s3"
    "exist_task_num s4 = exist_task_num s3" by (simp_all add: s4_def yield_current_task_def)
  moreover have f3: "lists s3 = lists s2" "exist_task_num s3 = exist_task_num s2" by (simp_all add: s3_def upd_task_def)
  ultimately have ok4: "sched_ok (elems (lists s4)) c s4" using sched_ok_same[of "elems (lists s2)" c s3 s4] by simp
  have "pendsv s4 = (pendsv s \<or> suspend_cnt s = 0)"
  proof -
    have "pendsv s3 = (pendsv s \<or> suspend_cnt s = 0 \<and> pending_ctxt_switch s)" "suspend_cnt s3 = suspend_cnt s + 1"
      by (simp_all add: s3_def upd_task_def s2(6,7) F(5,12))
    then show ?thesis using yield_pendsv[of True s3] by (auto simp: s4_def)
  qed
  moreover have "tasks s4 = tasks s3" "lists s4 = lists s2" "exist_task_num s4 = exist_task_num s + 1"
    using f4 f3 s2(5) F(4) by simp_all
  moreover have "elems (lists s2) = (elems (lists s))(Ready_List := elems (lists s) Ready_List @ [t])" using s2(2) by (simp add: F)
  moreover have "t_id n = t_id (tasks s c)" "t_entry_closure n = t_entry_closure (tasks s c)" "t_stack_config n = t_stack_config (tasks s c)"
    "t_priority n = Intrinsic (intrinsic_priority (t_priority (tasks s c)))" "t_restarted_from n = Some c" "\<not> t_is_unwinding n"
    using W by (simp_all add: set_unwind_flag_def)
  ultimately show ?thesis using r t2 ok4 by (intro exI[of _ n] exI[of _ s4] exI[of _ st']) simp
qed

text \<open>Without that memory the kernel stops.\<close>

lemma panic_restart_dies:
  assumes ok: "sched_ok (elems (lists s)) c s" and isr: "\<not> in_isr s"
    and kc: "kconf E = conf (stkenv T)" and cwf: "task_wf (kconf E) (tasks s c)"
    and nu: "\<not> t_is_unwinding (tasks s c)" and mr: "may_restart (kconf E) alive s (tasks s c)"
    and al: "alloc_initial_stacklet (stkenv T) cp (stack_alloc_size (t_stack_config (tasks s c))) st = None"
  shows "begin_unwind E T cp alive t x s st = Inl Die"
proof -
  let ?x = "set_unwind_flag True (tasks s c)"
  define s1 where "s1 = settle (upd_task c (set_unwind_flag True) (settle s))"
  have cu: "cur_task s = Some c" using ok by (simp add: sched_ok_def)
  note F = begin_state[OF s1_def] and R = begin_unwind_eq[OF cu isr nu s1_def]
  note x = flagged_state(1)[OF s1_def] and m = flagged_state(2)[OF s1_def] and xf = flagged_task[of "tasks s c"]
  have wf: "task_wf (conf (stkenv T)) ?x" using wf_fields(3)[OF cwf] kc by simp
  have rs: "is_restartable ?x" using mr xf(1) by (simp add: may_restart_def)
  note N = restart_needs_stack[OF wf rs, of cp c st, unfolded xf(2)]
  have "panicked_task E T cp alive t c (suspend s1) st = Inl Die"
    using panicked_dies[of E alive "suspend s1" c T cp st t] m mr x N al by simp
  then show ?thesis using R by simp
qed

text \<open>C11. The start of an unwinding in a task. A second panic while the task is being unwound is the end.
  Otherwise the task is marked as unwinding. If it is restartable concurrently, the task struct that it
  was itself restarted from is gone and there is room for another task, then a second instance of it is appended
  to the ready list (or the system dies for lack of memory for its stack): with the same identifier,
  entry closure, stack configuration and intrinsic priority, not unwinding and remembering its origin. The panicked task is then
  marked as restarted and falls to the priority for unwinding, and a context switch is requested unless the
  scheduler is suspended. A task that is restartable but not restarted now keeps its priority; a task that
  is not restartable falls to the priority for unwinding. The invariant of the scheduler is kept.\<close>

theorem panic_spec:
  assumes "kernel_lib E elems queued" "sched_ok (elems (lists s)) c s" "rq_free queued s" "unlinked (elems (lists s)) t" "t \<noteq> c"
    and "\<not> in_isr s" "suspend_cnt s + 1 \<noteq> 0" "kconf E = conf (stkenv T)" "config_ok (kconf E)" "task_wf (kconf E) (tasks s c)"
    and "r = begin_unwind E T cp alive t x s st"
  shows "if t_is_unwinding (tasks s c) then r = Inl Die
    else if may_restart (kconf E) alive s (tasks s c) then
      (if alloc_initial_stacklet (stkenv T) cp (stack_alloc_size (t_stack_config (tasks s c))) st = None then r = Inl Die
       else \<exists>n s' st'. r = Inr (x, s', st') \<and> elems (lists s') = (elems (lists s))(Ready_List := elems (lists s) Ready_List @ [t])
        \<and> tasks s' = (tasks s)(c := (demoted (kconf E) (tasks s c))\<lparr>t_has_restarted := True\<rparr>, t := n)
        \<and> sched_ok (elems (lists s')) c s' \<and> exist_task_num s' = exist_task_num s + 1 \<and> pendsv s' = (pendsv s \<or> suspend_cnt s = 0)
        \<and> t_id n = t_id (tasks s c) \<and> t_entry_closure n = t_entry_closure (tasks s c) \<and> t_stack_config n = t_stack_config (tasks s c)
        \<and> t_priority n = Intrinsic (intrinsic_priority (t_priority (tasks s c))) \<and> t_restarted_from n = Some c \<and> \<not> t_is_unwinding n)
    else \<exists>s'. r = Inr (x, s', st) \<and> lists s' = lists s \<and> sched_ok (elems (lists s')) c s' \<and> exist_task_num s' = exist_task_num s
        \<and> tasks s' = (tasks s)(c := if is_restartable (tasks s c) then set_unwind_flag True (tasks s c) else demoted (kconf E) (tasks s c))
        \<and> pendsv s' = (pendsv s \<or> suspend_cnt s = 0 \<and> (pending_ctxt_switch s \<or> \<not> is_restartable (tasks s c)))"
proof -
  have "cur_task s = Some c" using assms(2) by (simp add: sched_ok_def)
  then have "t_is_unwinding (tasks s c) \<Longrightarrow> r = Inl Die" using assms(6,11) by (simp add: begin_unwind_def is_unwinding_task)
  then show ?thesis
    using panic_no_restart[where elems = elems, OF assms(2,6) _ _ assms(11)] panic_restart_dies[where elems = elems, OF assms(2,6,8,10), of alive cp st t x]
      panic_restart[where elems = elems, OF assms(1-4,7,5,6,8-10) _ _ _ assms(11)] assms(11)
    by (simp only: if_split) blast
qed

text \<open>Sample: the running task of the sample state is restartable concurrently and panics.\<close>

definition restartable0 :: task where
  "restartable0 = (task0 1)\<lparr>t_id := 7, t_entry_closure := Some 0x20003000, t_downcast_func := Some (\<lambda>a. a), t_restart_entry_trampoline := Some 0x08006000,
     t_concurrent_restartable := True, t_stack_config := Dynamic (Some 128) None\<rparr>"

theorem panic_spec_witness:
  "\<exists>h s' st'. begin_unwind (list_env config0) tenv0 svc0 (\<lambda>_. False) 6 \<lparr>isr_unwinding = False, static_in_use = False\<rparr>
      (k0\<lparr>tasks := (tasks k0)(1 := restartable0)\<rparr>) (stk0 0 h) = Inr (\<lparr>isr_unwinding = False, static_in_use = False\<rparr>, s', st')
    \<and> lists s' Ready_List = [0, 2, 3, 6] \<and> t_id (tasks s' 6) = 7 \<and> effective_priority (t_priority (tasks s' 1)) = 14 \<and> pendsv s'"
proof -
  let ?s = "k0\<lparr>tasks := (tasks k0)(1 := restartable0)\<rparr>" and ?x = "\<lparr>isr_unwinding = False, static_in_use = False\<rparr>"
  obtain h fl where h: "heap_ok env0 h [(1008, True), (0x1EB08, False)] fl" "cached h = 0" "heap_start h = 0x20001104" by (rule stk0_heap)
  have k: "kconf (list_env config0) = config0" "kconf (list_env config0) = conf (stkenv tenv0)" by (simp_all add: list_env_def tenv0_def env1_def)
  have ok: "sched_ok (lists ?s) 1 ?s"
    using sched_ok_cur[OF k0_sched_ok, of restartable0] by (simp add: restartable0_def)
  have pre: "rq_free (\<lambda>q. q) ?s" "unlinked (lists ?s) 6" "(6 :: tid) \<noteq> 1" "\<not> in_isr ?s" "suspend_cnt ?s + 1 \<noteq> 0"
    by (simp_all add: rq_free_def unlinked_def lists0_def)
  have wf: "config_ok (kconf (list_env config0))" "task_wf (kconf (list_env config0)) (tasks ?s 1)" using config0_ok task0_wf[of 1]
    by (simp_all add: k(1) restartable0_def task_wf_def is_restartable_def)
  have m: "\<not> t_is_unwinding (tasks ?s 1)" "may_restart (kconf (list_env config0)) (\<lambda>_. False) ?s (tasks ?s 1)"
    by (simp_all add: may_restart_def is_restartable_def restartable0_def task0_def task_new_def k(1) k0_def)
  have al: "alloc_initial_stacklet (stkenv tenv0) svc0 (stack_alloc_size (t_stack_config (tasks ?s 1))) (stk0 0 h) \<noteq> None"
    using stk0_initial[OF h] by (simp add: tenv0_def restartable0_def)
  obtain n s' st' where r: "begin_unwind (list_env config0) tenv0 svc0 (\<lambda>_. False) 6 ?x ?s (stk0 0 h) = Inr (?x, s', st')"
    "lists s' = (lists ?s)(Ready_List := lists ?s Ready_List @ [6])"
    "tasks s' = (tasks ?s)(1 := (demoted (kconf (list_env config0)) (tasks ?s 1))\<lparr>t_has_restarted := True\<rparr>, 6 := n)"
    "pendsv s' = (pendsv ?s \<or> suspend_cnt ?s = 0)" "t_id n = t_id (tasks ?s 1)"
    using panic_spec[OF le.kernel_lib_axioms[of config0] ok pre k(2) wf refl, of svc0 "\<lambda>_. False" ?x "stk0 0 h"]
    unfolding if_not_P[OF m(1)] if_P[OF m(2)] if_not_P[OF al] by blast
  have "effective_priority (t_priority (demoted config0 restartable0)) = 14"
    by (simp add: demoted_def change_intrinsic_priority_def set_unwind_flag_def restartable0_def task0_def config0_def)
  then show ?thesis using r by (intro exI[of _ h] exI[of _ s'] exI[of _ st']) (simp add: lists0_def k(1) restartable0_def)
qed

end
