(* ===== verification/Cpu_Load.thy ===== *)
theory Cpu_Load
  imports Hopter_Prelude
begin

unbundle bit_operations_syntax

text \<open>
  The CPU load inspector, \<open>src/debug/cpu_load.rs\<close>. The clock is an argument of the callbacks: the
  microseconds it reads. The atomic variables are fields of a record.
\<close>

section \<open>The inspector\<close>

definition US_PER_SLOT :: u32 where "US_PER_SLOT = 2 ^ 20"
definition SLOT_PERIOD_MASK :: u32 where "SLOT_PERIOD_MASK = US_PER_SLOT - 1"

record load_inspector =
  idle_start_time_low :: u32
  idle_start_time_high :: u32
  slots :: "u32 list"
  recent_slot_idx :: nat
  completely_idle :: bool

definition inspector_new :: load_inspector where
  "inspector_new = \<lparr>idle_start_time_low = 0, idle_start_time_high = 0, slots = replicate 4 0, recent_slot_idx = 0, completely_idle = False\<rparr>"

definition swap_idle_start_timestamp :: "u64 \<Rightarrow> load_inspector \<Rightarrow> u64 \<times> load_inspector" where
  "swap_idle_start_timestamp cur_ts x =
     (let prev_low = idle_start_time_low x; prev_high = idle_start_time_high x;
          cur_low = ucast cur_ts; cur_high = ucast (drop_bit 32 cur_ts)
      in (push_bit 32 (ucast prev_high) OR ucast prev_low, x\<lparr>idle_start_time_low := cur_low, idle_start_time_high := cur_high\<rparr>))"

text \<open>The increment of a slot in the counting loop.\<close>

definition slot_incr :: "u64 \<Rightarrow> u64 \<Rightarrow> nat \<Rightarrow> nat \<Rightarrow> nat \<Rightarrow> u32" where
  "slot_incr from_ts to_ts from_slot_idx to_slot_idx idx =
     (if idx = from_slot_idx \<and> idx = to_slot_idx then ucast (to_ts - from_ts)
      else if idx = from_slot_idx then US_PER_SLOT - (ucast from_ts AND SLOT_PERIOD_MASK)
      else ucast to_ts AND SLOT_PERIOD_MASK)"

definition update_slots :: "u64 \<Rightarrow> u64 \<Rightarrow> load_inspector \<Rightarrow> load_inspector" where
  "update_slots from_ts to_ts x =
     (let from_ts_high = from_ts div ucast US_PER_SLOT; to_ts_high = to_ts div ucast US_PER_SLOT
      in if to_ts_high - from_ts_high \<ge> 2 then x\<lparr>completely_idle := True, slots := map (\<lambda>_. 0) (slots x)\<rparr>
         else
           let from_slot_idx = unat (from_ts_high mod 4); to_slot_idx = unat (to_ts_high mod 4);
               sl = fold (\<lambda>idx sl. sl[idx mod 4 := 0]) [to_slot_idx + 1..<to_slot_idx + 3] (slots x);
               sl = fold (\<lambda>idx sl. sl[idx mod 4 := sl ! (idx mod 4) + slot_incr from_ts to_ts from_slot_idx to_slot_idx (idx mod 4)])
                      [from_slot_idx..<to_slot_idx + 1] sl
           in x\<lparr>slots := sl, recent_slot_idx := to_slot_idx\<rparr>)"

definition get_cpu_load :: "load_inspector \<Rightarrow> u8 \<times> u8" where
  "get_cpu_load x =
     (if completely_idle x then (0, 0)
      else
        let slot = (recent_slot_idx x + 3) mod 4;
            idle_us = slots x ! slot;
            idle_ratio_x1000 = idle_us * 1000 div US_PER_SLOT;
            load_x1000 = 1000 - idle_ratio_x1000
        in (ucast (load_x1000 div 10), ucast (load_x1000 mod 10)))"

definition idle_begin :: "u64 \<Rightarrow> load_inspector \<Rightarrow> load_inspector" where
  "idle_begin cur_ts x = snd (swap_idle_start_timestamp cur_ts x)"

definition idle_end :: "u64 \<Rightarrow> load_inspector \<Rightarrow> load_inspector" where
  "idle_end cur_ts x = (case swap_idle_start_timestamp cur_ts x of (prev_ts, x) \<Rightarrow> update_slots prev_ts cur_ts x)"

section \<open>Timestamps\<close>

lemma swap_returns: "fst (swap_idle_start_timestamp t (snd (swap_idle_start_timestamp u x))) = u"
proof -
  have "push_bit 32 (ucast (ucast (drop_bit 32 u) :: u32)) OR ucast (ucast u :: u32) = (u :: u64)"
    by (rule bit_word_eqI) (auto simp: bit_or_iff bit_push_bit_iff bit_ucast_iff bit_drop_bit_eq)
  then show ?thesis by (simp add: swap_idle_start_timestamp_def Let_def)
qed

lemma idle_run: "idle_end t2 (idle_begin t1 x) = update_slots t1 t2 (snd (swap_idle_start_timestamp t2 x))"
proof -
  have "snd (swap_idle_start_timestamp t2 (snd (swap_idle_start_timestamp t1 x))) = snd (swap_idle_start_timestamp t2 x)"
    by (simp add: swap_idle_start_timestamp_def Let_def)
  then show ?thesis using swap_returns[of t2 t1 x] by (simp add: idle_end_def idle_begin_def split_def)
qed

section \<open>Counting the idle time\<close>

text \<open>The reference: the microseconds of the run \<open>[m, n)\<close> that lie in a period of slot \<open>i\<close>.\<close>

definition idle_us :: "nat \<Rightarrow> nat \<Rightarrow> nat \<Rightarrow> nat" where
  "idle_us m n i = length (filter (\<lambda>u. u div unat US_PER_SLOT mod 4 = i) [m..<n])"

lemma unat_US: "unat US_PER_SLOT = 2 ^ 20"
  by (simp add: US_PER_SLOT_def)

lemma idle_us_const:
  assumes "\<And>u. m \<le> u \<Longrightarrow> u < n \<Longrightarrow> u div unat US_PER_SLOT = h"
  shows "idle_us m n i = (if i = h mod 4 then n - m else 0)"
proof -
  have "filter (\<lambda>u. u div unat US_PER_SLOT mod 4 = i) [m..<n] = filter (\<lambda>u. i = h mod 4) [m..<n]"
    using assms by (intro filter_cong) auto
  then show ?thesis by (simp add: idle_us_def)
qed

lemma idle_us_split: "m \<le> k \<Longrightarrow> k \<le> n \<Longrightarrow> idle_us m n i = idle_us m k i + idle_us k n i"
  unfolding idle_us_def by (metis filter_append length_append le_add_diff_inverse upt_add_eq_append)

lemma period_bounds: "0 < P \<Longrightarrow> h * P \<le> u \<Longrightarrow> u < Suc h * P \<Longrightarrow> u div P = (h :: nat)"
  by (simp add: div_nat_eqI mult.commute)

lemma idle_us_same:
  assumes "m div unat US_PER_SLOT = n div unat US_PER_SLOT"
  shows "idle_us m n i = (if i = m div unat US_PER_SLOT mod 4 then n - m else 0)"
proof (rule idle_us_const)
  fix u assume "m \<le> u" "u < n"
  then show "u div unat US_PER_SLOT = m div unat US_PER_SLOT"
    using assms div_le_mono[of m u "unat US_PER_SLOT"] div_le_mono[of u n "unat US_PER_SLOT"] by (simp only: le_antisym less_imp_le)
qed

lemma idle_us_next:
  assumes "n div unat US_PER_SLOT = Suc (m div unat US_PER_SLOT)"
  shows "idle_us m n i =
    (if i = m div unat US_PER_SLOT mod 4 then unat US_PER_SLOT - m mod unat US_PER_SLOT else 0) +
    (if i = n div unat US_PER_SLOT mod 4 then n mod unat US_PER_SLOT else 0)"
proof -
  define P where "P = unat US_PER_SLOT"
  define h where "h = m div P"
  have P: "0 < P" by (simp add: P_def US_PER_SLOT_def)
  have m: "m = h * P + m mod P" "m mod P < P" using P by (simp_all add: h_def)
  have n: "n = Suc h * P + n mod P" "n mod P < P" using P assms by (simp_all add: h_def P_def flip: assms)
  have le: "m \<le> Suc h * P" "Suc h * P \<le> n" using m n by (simp_all only: mult_Suc)
  have a: "idle_us m (Suc h * P) i = (if i = h mod 4 then Suc h * P - m else 0)"
  proof (rule idle_us_const)
    fix u assume "m \<le> u" "u < Suc h * P"
    then show "u div unat US_PER_SLOT = h" unfolding P_def[symmetric] using P m by (intro period_bounds) simp_all
  qed
  have b: "idle_us (Suc h * P) n i = (if i = Suc h mod 4 then n - Suc h * P else 0)"
  proof (rule idle_us_const)
    fix u assume "Suc h * P \<le> u" "u < n"
    then show "u div unat US_PER_SLOT = Suc h" unfolding P_def[symmetric] using P n by (intro period_bounds) simp_all
  qed
  have "Suc h * P - m = P - m mod P" "n - Suc h * P = n mod P" using m n by (simp_all only: mult_Suc)
  then show ?thesis unfolding idle_us_split[OF le] a b using assms by (simp add: P_def h_def)
qed

section \<open>The update of the slots\<close>

lemma fold_upd_nth:
  assumes "distinct is" "set is \<subseteq> {..<length sl}" "i < length sl"
  shows "fold (\<lambda>k sl. sl[k := sl ! k + f k]) is sl ! i = (if i \<in> set is then sl ! i + f i else (sl ! i :: 'a :: plus))"
  using assms by (induction "is" arbitrary: sl) (auto simp: nth_list_update)

lemma length_fold_upd [simp]: "length (fold (\<lambda>k sl. sl[g k := h sl k]) is sl) = length sl"
  by (induction "is" arbitrary: sl) auto

lemma count_loop:
  assumes "length sl = 4" "b < (4 :: nat)" "i < 4"
  shows "fold (\<lambda>idx sl. sl[idx mod 4 := sl ! (idx mod 4) + f (idx mod 4)]) [a..<b + 1] sl ! i
    = (if a \<le> i \<and> i \<le> b then sl ! i + f i else (sl ! i :: 'a :: plus))"
proof -
  have "fold (\<lambda>idx sl. sl[idx mod 4 := sl ! (idx mod 4) + f (idx mod 4)]) [a..<b + 1] sl
      = fold (\<lambda>k sl. sl[k := sl ! k + f k]) [a..<b + 1] sl"
    using assms(2) by (intro fold_cong) auto
  moreover have "fold (\<lambda>k sl. sl[k := sl ! k + f k]) [a..<b + 1] sl ! i = (if i \<in> set [a..<b + 1] then sl ! i + f i else sl ! i)"
    using assms by (intro fold_upd_nth) auto
  ultimately show ?thesis by auto
qed

lemma clear_loop:
  assumes "length sl = 4" "i < (4 :: nat)"
  shows "fold (\<lambda>idx sl. sl[idx mod 4 := 0]) [b + 1..<b + 3] sl ! i = (if i = (b + 1) mod 4 \<or> i = (b + 2) mod 4 then 0 else (sl ! i :: u32))"
proof -
  have "[b + 1..<b + 3] = [b + 1, b + 2]" by (simp add: numeral_3_eq_3 upt_rec)
  then show ?thesis using assms by (auto simp: nth_list_update)
qed

lemma ucast_US: "(ucast US_PER_SLOT :: u64) = 2 ^ 20"
  by (simp add: US_PER_SLOT_def)

lemma period_index: "unat (t div ucast US_PER_SLOT) = unat t div unat US_PER_SLOT" for t :: u64
  by (simp add: ucast_US unat_US unat_div)

lemma slot_index: "unat (t div ucast US_PER_SLOT mod 4) = unat t div unat US_PER_SLOT mod 4" for t :: u64
  by (simp add: unat_mod period_index)

lemma mask_low: "(ucast t AND SLOT_PERIOD_MASK :: u32) = of_nat (unat t mod unat US_PER_SLOT)" for t :: u64
proof -
  have "SLOT_PERIOD_MASK = mask 20" by (simp add: SLOT_PERIOD_MASK_def US_PER_SLOT_def mask_eq_decr_exp)
  then have "(ucast t AND SLOT_PERIOD_MASK :: u32) = take_bit 20 (ucast t)" by (simp add: take_bit_eq_mask)
  also have "\<dots> = ucast (take_bit 20 t)" by (rule bit_word_eqI) (auto simp: bit_take_bit_iff bit_ucast_iff)
  also have "\<dots> = of_nat (unat (take_bit 20 t))" by simp
  also have "\<dots> = of_nat (take_bit 20 (unat t))" by (simp only: unsigned_take_bit_eq)
  finally show ?thesis by (simp add: take_bit_eq_mod unat_US)
qed

lemma slot_incr_idle:
  fixes t1 t2 :: u64
  assumes "t1 \<le> t2" and P: "P = unat US_PER_SLOT" and i: "i = unat t1 div P mod 4 \<or> i = unat t2 div P mod 4"
    and h: "unat t2 div P = unat t1 div P \<or> unat t2 div P = Suc (unat t1 div P)"
  shows "slot_incr t1 t2 (unat t1 div P mod 4) (unat t2 div P mod 4) i = of_nat (idle_us (unat t1) (unat t2) i)"
  using h
proof
  assume same: "unat t2 div P = unat t1 div P"
  have "(ucast (t2 - t1) :: u32) = of_nat (unat (t2 - t1))" by simp
  also have "unat (t2 - t1) = unat t2 - unat t1" using assms(1) by (simp add: unat_sub_if' word_le_nat_alt)
  finally show ?thesis using same i idle_us_same[of "unat t1" "unat t2" i] unfolding P slot_incr_def by simp
next
  assume nxt: "unat t2 div P = Suc (unat t1 div P)"
  have ne: "Suc k mod 4 \<noteq> k mod 4" for k :: nat by presburger
  have "US_PER_SLOT - of_nat (unat t1 mod P) = of_nat (P - unat t1 mod P)"
    by (simp add: P of_nat_diff US_PER_SLOT_def less_imp_le)
  then show ?thesis using i nxt idle_us_next[of "unat t2" "unat t1" i] ne[of "unat t1 div P"] unfolding P slot_incr_def mask_low
    by auto
qed

text \<open>The microseconds that a run adds to a slot: all of its idle time there, unless the run goes on
  from the last slot into the first, which the counting loop leaves out.\<close>

definition counted :: "nat \<Rightarrow> nat \<Rightarrow> nat \<Rightarrow> nat" where
  "counted m n i = (if m div unat US_PER_SLOT mod 4 \<le> n div unat US_PER_SLOT mod 4 then idle_us m n i else 0)"

lemma update_slots_long:
  assumes "t1 \<le> t2" "2 \<le> unat t2 div unat US_PER_SLOT - unat t1 div unat US_PER_SLOT"
  shows "update_slots t1 t2 x = x\<lparr>completely_idle := True, slots := map (\<lambda>_. 0) (slots x)\<rparr>"
proof -
  have "unat t1 div unat US_PER_SLOT \<le> unat t2 div unat US_PER_SLOT" using assms(1) by (simp add: div_le_mono word_le_nat_alt)
  then have "2 \<le> t2 div ucast US_PER_SLOT - t1 div ucast US_PER_SLOT"
    using assms(2) by (simp add: word_le_nat_alt unat_sub_if' period_index)
  then show ?thesis by (simp add: update_slots_def)
qed

lemma adjacent_slots:
  assumes "h2 = h1 \<or> h2 = Suc h1" "h1 mod 4 \<le> i" "i \<le> h2 mod (4 :: nat)"
  shows "i = h1 mod 4 \<or> i = h2 mod 4"
  using assms by (auto simp: mod_Suc split: if_splits)

lemma update_slots_short:
  assumes "t1 \<le> t2" "unat t2 div unat US_PER_SLOT - unat t1 div unat US_PER_SLOT < 2" "length (slots x) = 4" "i < 4"
  defines "b \<equiv> unat t2 div unat US_PER_SLOT mod 4"
  shows "slots (update_slots t1 t2 x) ! i = (if i = (b + 1) mod 4 \<or> i = (b + 2) mod 4 then 0 else slots x ! i) + of_nat (counted (unat t1) (unat t2) i)"
    "recent_slot_idx (update_slots t1 t2 x) = b" "completely_idle (update_slots t1 t2 x) = completely_idle x"
    "length (slots (update_slots t1 t2 x)) = 4"
proof -
  define a where "a = unat t1 div unat US_PER_SLOT mod 4"
  have le: "unat t1 div unat US_PER_SLOT \<le> unat t2 div unat US_PER_SLOT" using assms(1) by (simp add: div_le_mono word_le_nat_alt)
  then have step: "unat t2 div unat US_PER_SLOT = unat t1 div unat US_PER_SLOT \<or> unat t2 div unat US_PER_SLOT = Suc (unat t1 div unat US_PER_SLOT)"
    using assms(2) by linarith
  have "\<not> 2 \<le> t2 div ucast US_PER_SLOT - t1 div ucast US_PER_SLOT"
    using assms(2) le by (simp add: word_le_nat_alt unat_sub_if' period_index not_le)
  note upd = update_slots_def[of t1 t2 x, unfolded Let_def slot_index, folded a_def b_def, unfolded if_not_P[OF this]]
  have b4: "b < 4" by (simp add: b_def)
  have incr: "slot_incr t1 t2 a b i = of_nat (idle_us (unat t1) (unat t2) i)" if "i = a \<or> i = b"
    using slot_incr_idle[OF assms(1) refl _ step] that unfolding a_def b_def by blast
  have none: "idle_us (unat t1) (unat t2) i = 0" if "i \<noteq> a" "i \<noteq> b"
    using step
  proof
    assume "unat t2 div unat US_PER_SLOT = unat t1 div unat US_PER_SLOT"
    then show ?thesis using idle_us_same[of "unat t1" "unat t2" i] that by (simp add: a_def)
  next
    assume "unat t2 div unat US_PER_SLOT = Suc (unat t1 div unat US_PER_SLOT)"
    then show ?thesis using idle_us_next[of "unat t2" "unat t1" i] that by (simp add: a_def b_def)
  qed
  have between: "i = a \<or> i = b" if "a \<le> i" "i \<le> b" using adjacent_slots[OF step] that unfolding a_def b_def by blast
  have cnt: "(if a \<le> i \<and> i \<le> b then y + slot_incr t1 t2 a b i else y) = y + of_nat (counted (unat t1) (unat t2) i)" for y
    unfolding counted_def a_def[symmetric] b_def[symmetric] using incr none between by auto
  show "slots (update_slots t1 t2 x) ! i = (if i = (b + 1) mod 4 \<or> i = (b + 2) mod 4 then 0 else slots x ! i) + of_nat (counted (unat t1) (unat t2) i)"
  proof -
    have "slots (update_slots t1 t2 x) = fold (\<lambda>idx sl. sl[idx mod 4 := sl ! (idx mod 4) + slot_incr t1 t2 a b (idx mod 4)]) [a..<b + 1]
        (fold (\<lambda>idx sl. sl[idx mod 4 := 0]) [b + 1..<b + 3] (slots x))"
      unfolding upd by simp
    then show ?thesis using assms(3,4) b4 by (simp only: count_loop clear_loop length_fold_upd cnt)
  qed
  show "recent_slot_idx (update_slots t1 t2 x) = b" "completely_idle (update_slots t1 t2 x) = completely_idle x"
    "length (slots (update_slots t1 t2 x)) = 4" unfolding upd using assms(3) by simp_all
qed

section \<open>The load\<close>

lemma get_cpu_load_value:
  assumes "\<not> completely_idle x" "unat (slots x ! ((recent_slot_idx x + 3) mod 4)) \<le> 2 ^ 20"
  shows "10 * unat (fst (get_cpu_load x)) + unat (snd (get_cpu_load x)) = 1000 - unat (slots x ! ((recent_slot_idx x + 3) mod 4)) * 1000 div 2 ^ 20"
    "unat (fst (get_cpu_load x)) \<le> 100" "unat (snd (get_cpu_load x)) < 10"
proof -
  define w where "w = slots x ! ((recent_slot_idx x + 3) mod 4)"
  define r where "r = unat w * 1000 div 2 ^ 20"
  have w: "unat w \<le> 2 ^ 20" using assms(2) by (simp add: w_def)
  have r: "r \<le> 1000" unfolding r_def using w div_le_mono[of "unat w * 1000" "2 ^ 20 * 1000" "2 ^ 20"] by simp
  have "unat (w * 1000) = unat w * 1000" using w by (simp add: unat_word_ariths)
  then have "unat (w * 1000 div US_PER_SLOT) = r" by (simp add: unat_div unat_US r_def)
  then have l: "unat (1000 - w * 1000 div US_PER_SLOT) = 1000 - r" using r by (simp add: unat_sub_if')
  have u8: "unat (ucast v :: u8) = unat v" if "unat v < 256" for v :: u32 using that by (simp add: unsigned_ucast_eq take_bit_nat_eq_self)
  have q: "(1000 - r) div 10 \<le> 100" using div_le_mono[of "1000 - r" 1000 10] by simp
  have f: "unat (fst (get_cpu_load x)) = (1000 - r) div 10" and g: "unat (snd (get_cpu_load x)) = (1000 - r) mod 10"
    using assms(1) l q by (simp_all add: get_cpu_load_def Let_def w_def[symmetric] u8 unat_div unat_mod)
  show "unat (fst (get_cpu_load x)) \<le> 100" "unat (snd (get_cpu_load x)) < 10" using q by (simp_all add: f g)
  show "10 * unat (fst (get_cpu_load x)) + unat (snd (get_cpu_load x)) = 1000 - unat (slots x ! ((recent_slot_idx x + 3) mod 4)) * 1000 div 2 ^ 20"
    unfolding f g w_def[symmetric] r_def[symmetric] by (rule mult_div_mod_eq)
qed

text \<open>Two ways in which the report is wrong. Once a run of the idle task has spanned more than two
  periods the load is reported as zero forever, since nothing clears the flag. And a slot that is not
  cleared for four periods counts more than a period of idle time, upon which the load wraps around.\<close>

lemma update_slots_keeps_idle: "completely_idle x \<Longrightarrow> completely_idle (update_slots t1 t2 x)"
  by (simp add: update_slots_def Let_def)

lemma completely_idle_forever:
  assumes "completely_idle x"
  shows "get_cpu_load (fold (\<lambda>(t1, t2) x. idle_end t2 (idle_begin t1 x)) runs x) = (0, 0)"
proof -
  have "completely_idle (fold (\<lambda>(t1, t2) x. idle_end t2 (idle_begin t1 x)) runs x)" using assms
  proof (induction runs arbitrary: x)
    case (Cons r runs)
    have "completely_idle (snd (swap_idle_start_timestamp (snd r) x))"
      using Cons.prems by (simp add: swap_idle_start_timestamp_def Let_def)
    then have "completely_idle (idle_end (snd r) (idle_begin (fst r) x))"
      unfolding idle_run by (rule update_slots_keeps_idle)
    then show ?case using Cons.IH by (simp add: case_prod_unfold)
  qed simp
  then show ?thesis by (simp add: get_cpu_load_def)
qed


lemma half_period: "slots (idle_end 2097152 (idle_begin 1572864 inspector_new)) = [0, 524288, 0, 0]"
  by code_simp


lemma stale_slot_wraps:
  "get_cpu_load (inspector_new\<lparr>slots := [2 ^ 20 + 2 ^ 19, 0, 0, 0], recent_slot_idx := 1\<rparr>) = (103, 6)"
  by (simp add: get_cpu_load_def inspector_new_def US_PER_SLOT_def)

end
