(* ===== verification/Breathing.thy ===== *)
theory Breathing
  imports Channel
begin

text \<open>
  Breathing tasks, \<open>src/task/breathing.rs\<close>: the entry closure that a macro makes of the three closures
  \<open>init\<close>, \<open>wait\<close> and \<open>work\<close>, and the semaphore \<open>CONCUR_CTRL_SEM\<close> that bounds how many tasks are in
  \<open>work\<close>. The closures are arguments; a closure that panics returns \<open>None\<close>, and the guard is then dropped
  by the unwinding.
\<close>

section \<open>The entry closure\<close>

record ('s, 'i) breathing_closures =
  br_init :: "'s option"
  br_wait :: "'s \<Rightarrow> ('s \<times> 'i) option"
  br_work :: "'s \<Rightarrow> 'i \<Rightarrow> 's option"

definition concur_ctrl_sem :: "config \<Rightarrow> nat \<Rightarrow> nat \<Rightarrow> semaphore" where
  "concur_ctrl_sem cf i d = sem_new i d (of_nat (BREATHING_CONCURRENCY cf)) (of_nat (BREATHING_CONCURRENCY cf))"

definition sem_guard_drop :: "('w, 'q) kenv \<Rightarrow> semaphore \<times> ('w, 'q) kstate \<Rightarrow> (semaphore \<times> ('w, 'q) kstate) res" where
  "sem_guard_drop E st = bindr (try_up_allow_isr E st) (\<lambda>(_, st). Inr st)"

text \<open>Where the closure is: before \<open>init\<close>, before \<open>wait\<close>, at the semaphore with an item, in \<open>work\<close> with
  the guard alive, at the drop of the guard with the state that \<open>work\<close> left if it did not panic, or left.\<close>

datatype ('s, 'i) breathing_pc = At_Init | At_Wait 's | At_Down 's 'i | At_Work 's 'i | At_Drop "'s option" | Exited

fun entry_step ::
  "('w, 'q) kenv \<Rightarrow> ('s, 'i) breathing_closures \<Rightarrow> ('s, 'i) breathing_pc \<Rightarrow> semaphore \<times> ('w, 'q) kstate
     \<Rightarrow> (('s, 'i) breathing_pc \<times> semaphore \<times> ('w, 'q) kstate) res" where
  "entry_step E F At_Init st = Inr (case br_init F of Some state \<Rightarrow> At_Wait state | None \<Rightarrow> Exited, st)"
| "entry_step E F (At_Wait state) st = Inr (case br_wait F state of Some (state, item) \<Rightarrow> At_Down state item | None \<Rightarrow> Exited, st)"
| "entry_step E F (At_Down state item) st =
     bindr (sem_down E st) (\<lambda>(r, st). Inr (if r = Done then At_Work state item else At_Down state item, st))"
| "entry_step E F (At_Work state item) st = Inr (At_Drop (br_work F state item), st)"
| "entry_step E F (At_Drop r) st =
     bindr (sem_guard_drop E st) (\<lambda>st. Inr (case r of Some state \<Rightarrow> At_Wait state | None \<Rightarrow> Exited, st))"
| "entry_step E F Exited st = Inr (Exited, st)"

section \<open>Breathing tasks together\<close>

text \<open>All breathing tasks of the system, interleaved at these steps, each with any closures. Between the
  steps any task may run, in any state the kernel's invariant allows. A task at the semaphore may
  block; one whose closure has been left may be started again.\<close>

inductive breathing_step ::
  "('w, 'q) kenv \<Rightarrow> ('w \<Rightarrow> lid \<Rightarrow> tid list) \<Rightarrow> ('q \<Rightarrow> tid list) \<Rightarrow> semaphore \<times> (tid \<Rightarrow> ('s, 'i) breathing_pc)
     \<Rightarrow> semaphore \<times> (tid \<Rightarrow> ('s, 'i) breathing_pc) \<Rightarrow> bool"
  for E elems queued where
  run: "\<lbrakk>kern_ok elems queued t s; may_block t s; entry_step E F (pcs t) (m, s) = Inr (pc, m', s')\<rbrakk> \<Longrightarrow>
    breathing_step E elems queued (m, pcs) (m', pcs(t := pc))"
| start: "pcs t = Exited \<Longrightarrow> breathing_step E elems queued (m, pcs) (m, pcs(t := At_Init))"

inductive_cases breathing_stepE: "breathing_step E elems queued x y"

text \<open>A task has the guard in \<open>work\<close> and until the drop is done.\<close>

fun guarded :: "('s, 'i) breathing_pc \<Rightarrow> bool" where
  "guarded (At_Work _ _) = True"
| "guarded (At_Drop _) = True"
| "guarded _ = False"

definition guards :: "(tid \<Rightarrow> ('s, 'i) breathing_pc) \<Rightarrow> tid set" where
  "guards pcs = {t. guarded (pcs t)}"

lemma guards_upd: "guards (pcs(t := pc)) = (if guarded pc then insert t (guards pcs) else guards pcs - {t})"
  by (auto simp: guards_def)

definition breathing_inv :: "u32 \<Rightarrow> semaphore \<times> (tid \<Rightarrow> ('s, 'i) breathing_pc) \<Rightarrow> bool" where
  "breathing_inv n = (\<lambda>(m, pcs). sem_ok m \<and> max_count m = n \<and> finite (guards pcs) \<and> card (guards pcs) + unat (sem_count m) = unat n)"

lemma inv_same: "breathing_inv n (m, pcs) \<Longrightarrow> guarded pc = guarded (pcs t) \<Longrightarrow> breathing_inv n (m, pcs(t := pc))"
proof -
  assume i: "breathing_inv n (m, pcs)" and g: "guarded pc = guarded (pcs t)"
  have "guards (pcs(t := pc)) = guards pcs" using g by (auto simp: guards_def)
  then show ?thesis using i by (simp add: breathing_inv_def)
qed

lemma inv_acquire:
  assumes "breathing_inv n (m, pcs)" "sem_count m \<noteq> 0" "\<not> guarded (pcs t)" "guarded pc"
  shows "breathing_inv n (sem_dec m, pcs(t := pc))"
  using assms sem_dec_ok[of m] by (auto simp: breathing_inv_def guards_upd) (auto simp: guards_def)

lemma inv_guard_room:
  assumes "breathing_inv n (m, pcs)" "guarded (pcs t)"
  shows "sem_count m \<noteq> max_count m"
proof
  assume "sem_count m = max_count m"
  then have "card (guards pcs) = 0" "finite (guards pcs)" using assms(1) by (auto simp: breathing_inv_def)
  moreover have "t \<in> guards pcs" using assms(2) by (simp add: guards_def)
  ultimately show False by auto
qed

lemma inv_release:
  assumes "breathing_inv n (m, pcs)" "guarded (pcs t)" "\<not> guarded pc"
  shows "breathing_inv n (sem_inc m, pcs(t := pc))"
proof -
  have t: "t \<in> guards pcs" "finite (guards pcs)" using assms by (auto simp: guards_def breathing_inv_def)
  have "Suc (card (guards pcs - {t})) = card (guards pcs)" by (rule card.remove[OF t(2,1), symmetric])
  then show ?thesis using assms t sem_inc_ok[of m] inv_guard_room[OF assms(1,2)] by (auto simp: breathing_inv_def guards_upd)
qed

context kernel_lib
begin

lemma guard_drop_eq:
  assumes "breathing_inv n (m, pcs)" "guarded (pcs t)" "kern_ok elems queued c s"
  shows "\<exists>s'. sem_guard_drop E (m, s) = Inr (sem_inc m, s') \<and> kern_ok elems queued c s'
    \<and> woken (elems (lists s)) (Wait_List (wq_list (cv_incremented m))) s (elems (lists s'))"
proof -
  have "sem_ok m" using assms(1) by (simp add: breathing_inv_def)
  from try_up_eq[OF assms(3) this inv_guard_room[OF assms(1,2)]] show ?thesis by (auto simp: sem_guard_drop_def)
qed

lemma breathing_step_inv:
  assumes "breathing_step E elems queued x y" "breathing_inv n x"
  shows "breathing_inv n y"
  using assms
proof (cases rule: breathing_step.cases)
  case (run t s F pcs m pc m' s')
  have i: "breathing_inv n (m, pcs)" and m: "sem_ok m" using assms(2) run(1) by (auto simp: breathing_inv_def)
  show ?thesis
  proof (cases "pcs t")
    case (At_Down state item)
    with run(5) obtain r where r: "sem_down E (m, s) = Inr (r, m', s')" "pc = (if r = Done then At_Work state item else At_Down state item)"
      by (auto simp: bindr_Inr)
    from sem_down_cases[OF run(3) m run(4) r(1)] show ?thesis
      using run(2) r(2) At_Down inv_acquire[OF i, of t pc] inv_same[OF i, of pc t] by (auto split: if_splits)
  next
    case (At_Drop r)
    with run(5) obtain s1 where "sem_guard_drop E (m, s) = Inr (m', s1)" "\<not> guarded pc"
      by (auto simp: bindr_Inr split: option.splits)
    moreover have "guarded (pcs t)" using At_Drop by simp
    ultimately show ?thesis using run(2) guard_drop_eq[OF i _ run(3), of t] inv_release[OF i, of t pc] by auto
  qed (use run(2,5) inv_same[OF i, of pc t] in \<open>auto split: option.splits\<close>)
next
  case (start pcs t m)
  then show ?thesis using inv_same[of n m pcs At_Init t] assms(2) by simp
qed

lemma breathing_steps_inv: "(breathing_step E elems queued)\<^sup>*\<^sup>* x y \<Longrightarrow> breathing_inv n x \<Longrightarrow> breathing_inv n y"
  by (induction rule: rtranclp_induct) (auto intro: breathing_step_inv)

end

section \<open>Properties\<close>

lemma breathing_inv_new: "breathing_inv (of_nat (BREATHING_CONCURRENCY cf)) (concur_ctrl_sem cf i d, \<lambda>_. Exited)"
  by (simp add: breathing_inv_def concur_ctrl_sem_def sem_new_def sem_ok_def wq_free_def wq_new_def guards_def)

text \<open>C13. However breathing tasks interleave, panic in any of their closures and are started again, at
  most \<open>BREATHING_CONCURRENCY\<close> of them are in \<open>work\<close>. A task that has an item enters \<open>work\<close> at once
  while fewer are, and blocks otherwise. A task that leaves \<open>work\<close>, by returning or by a panic, always
  gives its place back, which makes the first task that waits for one ready: nothing dies and no
  place is lost.\<close>

theorem breathing_concurrency:
  fixes pcs :: "tid \<Rightarrow> ('s, 'i) breathing_pc"
  assumes "kernel_lib E elems queued"
    and "(breathing_step E elems queued)\<^sup>*\<^sup>* (concur_ctrl_sem (kconf E) i d, \<lambda>_. Exited) (m, pcs)"
    and "BREATHING_CONCURRENCY (kconf E) < 2 ^ 32"
    and "kern_ok elems queued t s" "may_block t s"
  defines "free \<equiv> BREATHING_CONCURRENCY (kconf E) - card (guards pcs)"
  shows "card (guards pcs) \<le> BREATHING_CONCURRENCY (kconf E)
    \<and> (pcs t = At_Down state item \<longrightarrow>
      (if 0 < free
       then \<exists>m' s'. entry_step E F (pcs t) (m, s) = Inr (At_Work state item, m', s') \<and> kern_ok elems queued t s'
       else \<exists>s'. entry_step E F (pcs t) (m, s) = Inr (At_Down state item, m, s') \<and> kern_ok elems queued t s' \<and> t_state (tasks s' t) = Blocked))
    \<and> (pcs t = At_Drop r \<longrightarrow>
      (\<exists>m' s'. entry_step E F (pcs t) (m, s) = Inr (case r of Some state \<Rightarrow> At_Wait state | None \<Rightarrow> Exited, m', s') \<and> kern_ok elems queued t s'
         \<and> unat (sem_count m') = Suc free \<and> woken (elems (lists s)) (Wait_List (wq_list (cv_incremented m))) s (elems (lists s'))))"
proof -
  let ?n = "BREATHING_CONCURRENCY (kconf E)"
  have i: "breathing_inv (of_nat ?n) (m, pcs)" by (rule kernel_lib.breathing_steps_inv[OF assms(1,2) breathing_inv_new])
  have "unat (of_nat ?n :: u32) = ?n" using assms(3) by (simp add: unsigned_of_nat take_bit_nat_eq_self)
  then have m: "sem_ok m" and c: "card (guards pcs) + unat (sem_count m) = ?n" using i by (auto simp: breathing_inv_def)
  have le: "card (guards pcs) \<le> ?n" using c by simp
  have free: "free = unat (sem_count m)" using c by (simp add: free_def)
  have z: "0 < free \<longleftrightarrow> sem_count m \<noteq> 0" by (simp add: free unat_gt_0)
  have b: "suspend_cnt s = 0" "\<not> in_isr s" using assms(5) by (simp_all add: may_block_def)
  have down: "if 0 < free
       then \<exists>m' s'. entry_step E F (pcs t) (m, s) = Inr (At_Work state item, m', s') \<and> kern_ok elems queued t s'
       else \<exists>s'. entry_step E F (pcs t) (m, s) = Inr (At_Down state item, m, s') \<and> kern_ok elems queued t s' \<and> t_state (tasks s' t) = Blocked"
    if "pcs t = At_Down state item"
    using kernel_lib.sem_down_pass[OF assms(1,4) m _ b] kernel_lib.sem_down_block[OF assms(1,4) m assms(5)] by (auto simp: that z)
  have drop: "\<exists>m' s'. entry_step E F (pcs t) (m, s) = Inr (case r of Some state \<Rightarrow> At_Wait state | None \<Rightarrow> Exited, m', s') \<and> kern_ok elems queued t s'
         \<and> unat (sem_count m') = Suc free \<and> woken (elems (lists s)) (Wait_List (wq_list (cv_incremented m))) s (elems (lists s'))"
    if p: "pcs t = At_Drop r"
  proof -
    have g: "guarded (pcs t)" by (simp add: p)
    show ?thesis using kernel_lib.guard_drop_eq[OF assms(1) i g assms(4)] sem_inc_ok[OF m inv_guard_room[OF i g]] by (auto simp: p free)
  qed
  show ?thesis using le down drop by (intro conjI impI)
qed

text \<open>Sample: task 1 has come to the semaphore, which nobody has taken.\<close>

theorem breathing_concurrency_witness:
  "\<exists>m s'. entry_step (list_env config0) \<lparr>br_init = Some (), br_wait = (\<lambda>_. Some ((), ())), br_work = (\<lambda>_ _. None)\<rparr>
     (At_Down () ()) (concur_ctrl_sem config0 7 8, kw0) = Inr (At_Work () (), m, s')"
proof -
  let ?F = "\<lparr>br_init = Some (), br_wait = (\<lambda>_. Some ((), ())), br_work = (\<lambda>_ _. None)\<rparr>"
  let ?R = "breathing_step (list_env config0) (\<lambda>w. w) (\<lambda>q. q)"
  let ?m = "concur_ctrl_sem config0 7 8"
  let ?p = "(\<lambda>_. Exited) :: tid \<Rightarrow> (unit, unit) breathing_pc"
  note run = breathing_step.run[OF kw0_kern, of "list_env config0" ?F _ ?m _ ?m kw0]
  have "?R (?m, ?p) (?m, ?p(1 := At_Init))" by (rule breathing_step.start) simp
  also have "?R\<^sup>*\<^sup>* (?m, ?p(1 := At_Init)) (?m, (?p(1 := At_Init))(1 := At_Wait ()))"
    by (rule r_into_rtranclp, rule run) simp
  also have "?R\<^sup>*\<^sup>* (?m, (?p(1 := At_Init))(1 := At_Wait ())) (?m, (?p(1 := At_Init, 1 := At_Wait ()))(1 := At_Down () ()))"
    by (rule r_into_rtranclp, rule run) simp
  finally have r: "?R\<^sup>*\<^sup>* (?m, ?p) (?m, ?p(1 := At_Down () ()))" by simp
  then have r': "?R\<^sup>*\<^sup>* (concur_ctrl_sem (kconf (list_env config0)) 7 8, ?p) (?m, ?p(1 := At_Down () ()))" by simp
  have g: "guards (?p(1 := At_Down () ())) = {}" by (auto simp: guards_def)
  have n: "BREATHING_CONCURRENCY (kconf (list_env config0)) < 2 ^ 32" "0 < BREATHING_CONCURRENCY config0" by (simp_all add: config0_def)
  show ?thesis
    using breathing_concurrency[OF le.kernel_lib_axioms[of config0] r' n(1) kw0_kern, where F = ?F and state = "()" and item = "()"] n(2)
    unfolding g fun_upd_same card.empty kconf_list_env diff_zero by (auto simp del: entry_step.simps)
qed

end
