(* ===== verification/Irq_Mask.thy ===== *)
theory Irq_Mask
  imports Spin_Lock
begin

text \<open>
  Masking of interrupts, \<open>src/interrupt/mask.rs\<close> and the macro of \<open>src/interrupt/declare.rs\<close>: nested mask
  counts, one for each declared interrupt in the interrupt controller, and one for all interrupts but
  SVC by the register BASEPRI. The registers and counters are a record beside the kernel state.
\<close>

section \<open>State\<close>

text \<open>\<open>nvic_masked\<close> tells which interrupt numbers the interrupt controller masks; a declared interrupt has
  a name for its counter.\<close>

record irq_state =
  nvic_masked :: "nat \<Rightarrow> bool"
  irq_mask_cnt :: "string \<Rightarrow> u32"
  basepri :: u8
  svcall_priority :: u8
  all_irq_mask_cnt :: u32

text \<open>How the processor uses BASEPRI: if it is not zero, no exception of that or a lower priority, which
  is a higher number, is taken.\<close>

definition blocks :: "irq_state \<Rightarrow> u8 \<Rightarrow> bool" where
  "blocks x p \<longleftrightarrow> basepri x \<noteq> 0 \<and> basepri x \<le> p"

section \<open>Maskable interrupts\<close>

record 's maskable_irq =
  disable_recursive :: "'s \<Rightarrow> 's res"
  enable_recursive :: "'s \<Rightarrow> 's res"

definition declared_irq :: "string \<Rightarrow> nat \<Rightarrow> (irq_state \<times> 's) maskable_irq" where
  "declared_irq name irq =
     \<lparr>disable_recursive = (\<lambda>(x, s).
        let x = x\<lparr>nvic_masked := (nvic_masked x)(irq := True)\<rparr>;
            prev_cnt = irq_mask_cnt x name;
            x = x\<lparr>irq_mask_cnt := (irq_mask_cnt x)(name := prev_cnt + 1)\<rparr>
        in if prev_cnt < - 1 then Inr (x, s) else Inl Panic),
      enable_recursive = (\<lambda>(x, s).
        let prev_cnt = irq_mask_cnt x name;
            x = x\<lparr>irq_mask_cnt := (irq_mask_cnt x)(name := prev_cnt - 1)\<rparr>
        in if \<not> prev_cnt > 0 then Inl Panic
           else Inr (if prev_cnt = 1 then x\<lparr>nvic_masked := (nvic_masked x)(irq := False)\<rparr> else x, s))\<rparr>"

definition all_irq_except_svc :: "config \<Rightarrow> (irq_state \<times> ('w, 'q) kstate) maskable_irq" where
  "all_irq_except_svc cf =
     \<lparr>disable_recursive = (\<lambda>(x, s).
        let s = hold hold_scheduler s;
            x = x\<lparr>svcall_priority := SVC_RAISED_PRIORITY cf\<rparr>;
            x = x\<lparr>basepri := IRQ_DISABLE_BASEPRI_PRIORITY cf\<rparr>;
            prev_cnt = all_irq_mask_cnt x;
            x = x\<lparr>all_irq_mask_cnt := prev_cnt + 1\<rparr>
        in if prev_cnt < - 1 then Inr (x, s) else Inl Panic),
      enable_recursive = (\<lambda>(x, s).
        let prev_cnt = all_irq_mask_cnt x;
            x = x\<lparr>all_irq_mask_cnt := prev_cnt - 1\<rparr>
        in if \<not> prev_cnt > 0 then Inl Panic
           else
             let x = (if prev_cnt = 1
                      then x\<lparr>basepri := IRQ_ENABLE_BASEPRI_PRIORITY cf, svcall_priority := SVC_NORMAL_PRIORITY cf\<rparr>
                      else x)
             in Inr (x, force_unhold hold_scheduler s))\<rparr>"

text \<open>A tuple masks in the order of its components and unmasks in reverse order.\<close>

definition irq_tuple :: "'s maskable_irq list \<Rightarrow> 's maskable_irq" where
  "irq_tuple Is =
     \<lparr>disable_recursive = (\<lambda>s. fold (\<lambda>I r. bindr r (disable_recursive I)) Is (Inr s)),
      enable_recursive = (\<lambda>s. fold (\<lambda>I r. bindr r (enable_recursive I)) (rev Is) (Inr s))\<rparr>"

text \<open>\<open>mask\<close> (and \<open>hold\<close>) creates a guard, \<open>Drop for HeldInterrupt\<close> (and \<open>force_unhold\<close>) ends it.\<close>

datatype irq_op = Mask | Unmask

definition irq_mask :: "'s maskable_irq \<Rightarrow> 's \<Rightarrow> 's res" where
  "irq_mask I s = disable_recursive I s"

definition held_interrupt_drop :: "'s maskable_irq \<Rightarrow> 's \<Rightarrow> 's res" where
  "held_interrupt_drop I s = enable_recursive I s"

section \<open>The contract\<close>

text \<open>A run of mask and drop operations, and the guards alive after it: none when a guard would be
  dropped that does not exist.\<close>

fun mask_run :: "'s maskable_irq \<Rightarrow> irq_op list \<Rightarrow> 's \<Rightarrow> 's res" where
  "mask_run I [] s = Inr s"
| "mask_run I (Mask # ops) s = bindr (irq_mask I s) (mask_run I ops)"
| "mask_run I (Unmask # ops) s = bindr (held_interrupt_drop I s) (mask_run I ops)"

fun guards_after :: "irq_op list \<Rightarrow> nat \<Rightarrow> nat option" where
  "guards_after [] n = Some n"
| "guards_after (Mask # ops) n = guards_after ops (Suc n)"
| "guards_after (Unmask # ops) 0 = None"
| "guards_after (Unmask # ops) (Suc n) = guards_after ops n"

text \<open>What \<open>MaskableIrq\<close> promises: \<open>rep n s\<close> holds in a state with \<open>n\<close> guards.\<close>

locale maskable =
  fixes I :: "'s maskable_irq" and rep :: "nat \<Rightarrow> 's \<Rightarrow> bool"
  assumes disable: "rep n s \<Longrightarrow> n + 1 < 2 ^ 32 \<Longrightarrow> \<exists>s'. disable_recursive I s = Inr s' \<and> rep (Suc n) s'"
    and enable: "rep (Suc n) s \<Longrightarrow> n + 1 < 2 ^ 32 \<Longrightarrow> \<exists>s'. enable_recursive I s = Inr s' \<and> rep n s'"
begin

lemma mask_run_rep:
  assumes "rep n s" "n + length ops < 2 ^ 32" "guards_after ops n = Some k"
  shows "\<exists>s'. mask_run I ops s = Inr s' \<and> rep k s'"
  using assms
proof (induction ops n arbitrary: s rule: guards_after.induct)
  case (2 ops n)
  then show ?case using disable[of n s] by (fastforce simp: irq_mask_def)
next
  case (4 ops n)
  then show ?case using enable[of n s] by (fastforce simp: held_interrupt_drop_def)
qed simp_all

end

text \<open>Two maskable interrupts that do not touch each other are maskable together.\<close>

locale maskable_pair = fst: maskable I rep + snd: maskable J sep
  for I :: "'s maskable_irq" and rep and J :: "'s maskable_irq" and sep +
  assumes disable_fst: "disable_recursive I s = Inr s' \<Longrightarrow> sep n s' = sep n s"
    and enable_fst: "enable_recursive I s = Inr s' \<Longrightarrow> sep n s' = sep n s"
    and disable_snd: "disable_recursive J s = Inr s' \<Longrightarrow> rep n s' = rep n s"
    and enable_snd: "enable_recursive J s = Inr s' \<Longrightarrow> rep n s' = rep n s"

sublocale maskable_pair \<subseteq> pair: maskable "irq_tuple [I, J]" "\<lambda>n s. rep n s \<and> sep n s"
proof unfold_locales
  fix n s
  assume r: "rep n s \<and> sep n s" and n: "n + 1 < 2 ^ 32"
  from fst.disable[OF conjunct1[OF r] n] obtain s1 where s1: "disable_recursive I s = Inr s1" "rep (Suc n) s1" by blast
  moreover from snd.disable[of n s1] r n disable_fst[OF s1(1)] obtain s2 where "disable_recursive J s1 = Inr s2" "sep (Suc n) s2" by blast
  ultimately show "\<exists>s'. disable_recursive (irq_tuple [I, J]) s = Inr s' \<and> rep (Suc n) s' \<and> sep (Suc n) s'"
    using disable_snd[of s1 s2] by (auto simp: irq_tuple_def)
next
  fix n s
  assume r: "rep (Suc n) s \<and> sep (Suc n) s" and n: "n + 1 < 2 ^ 32"
  from snd.enable[OF conjunct2[OF r] n] obtain s1 where s1: "enable_recursive J s = Inr s1" "sep n s1" by blast
  moreover from fst.enable[of n s1] r n enable_snd[OF s1(1)] obtain s2 where "enable_recursive I s1 = Inr s2" "rep n s2" by blast
  ultimately show "\<exists>s'. enable_recursive (irq_tuple [I, J]) s = Inr s' \<and> rep n s' \<and> sep n s'"
    using enable_fst[of s1 s2] by (auto simp: irq_tuple_def)
qed

section \<open>The instances\<close>

text \<open>A declared interrupt: its counter, and its bit in the interrupt controller.\<close>

definition declared_rep :: "string \<Rightarrow> nat \<Rightarrow> nat \<Rightarrow> irq_state \<times> 's \<Rightarrow> bool" where
  "declared_rep name irq n = (\<lambda>(x, _). n < 2 ^ 32 \<and> irq_mask_cnt x name = of_nat n \<and> (nvic_masked x irq \<longleftrightarrow> 0 < n))"

text \<open>All interrupts: the counter, the two priorities, and the scheduler suspended \<open>n\<close> times more often than
  the \<open>b\<close> times of the surroundings.\<close>

definition all_rep :: "config \<Rightarrow> u32 \<Rightarrow> nat \<Rightarrow> irq_state \<times> ('w, 'q) kstate \<Rightarrow> bool" where
  "all_rep cf b n = (\<lambda>(x, s). n < 2 ^ 32 \<and> all_irq_mask_cnt x = of_nat n \<and> suspend_cnt s = b + of_nat n
     \<and> basepri x = (if 0 < n then IRQ_DISABLE_BASEPRI_PRIORITY cf else IRQ_ENABLE_BASEPRI_PRIORITY cf)
     \<and> svcall_priority x = (if 0 < n then SVC_RAISED_PRIORITY cf else SVC_NORMAL_PRIORITY cf))"

lemma cnt_bounds:
  assumes "n + 1 < 2 ^ 32"
  shows "(of_nat n :: u32) < - 1" "(0 :: u32) < of_nat (Suc n)" "(of_nat (Suc n) :: u32) = 1 \<longleftrightarrow> n = 0"
proof -
  have u: "unat (of_nat k :: u32) = k" if "k \<le> Suc n" for k using that assms by (simp add: unsigned_of_nat take_bit_nat_eq_self)
  show "(of_nat n :: u32) < - 1" using assms u[of n] by (simp add: word_less_nat_alt unsigned_minus_1_eq_mask mask_eq_exp_minus_1)
  show "(0 :: u32) < of_nat (Suc n)" using u[of "Suc n", OF le_refl] by (simp only: word_less_nat_alt unat_0 zero_less_Suc)
  show "(of_nat (Suc n) :: u32) = 1 \<longleftrightarrow> n = 0" using u[of "Suc n", OF le_refl] by (simp only: word_unat_eq_iff unat_1 One_nat_def nat.inject)
qed

interpretation di: maskable "declared_irq name irq" "declared_rep name irq" for name irq
proof unfold_locales
  fix n and s :: "irq_state \<times> 'b"
  assume r: "declared_rep name irq n s" and n: "n + 1 < 2 ^ 32"
  then show "\<exists>s'. disable_recursive (declared_irq name irq) s = Inr s' \<and> declared_rep name irq (Suc n) s'"
    using cnt_bounds[OF n] by (auto simp: declared_irq_def declared_rep_def Let_def)
next
  fix n and s :: "irq_state \<times> 'b"
  assume r: "declared_rep name irq (Suc n) s" and n: "n + 1 < 2 ^ 32"
  obtain x y where s: "s = (x, y)" by (cases s)
  have c: "irq_mask_cnt x name = of_nat (Suc n)" "irq_mask_cnt x name - 1 = of_nat n" "nvic_masked x irq"
    using r by (auto simp: s declared_rep_def)
  show "\<exists>s'. enable_recursive (declared_irq name irq) s = Inr s' \<and> declared_rep name irq n s'"
    using cnt_bounds[OF n] c n by (auto simp: s declared_irq_def declared_rep_def Let_def simp del: of_nat_Suc)
qed

interpretation ai: maskable "all_irq_except_svc cf" "all_rep cf b" for cf b
proof unfold_locales
  fix n and s :: "irq_state \<times> ('a, 'b) kstate"
  assume r: "all_rep cf b n s" and n: "n + 1 < 2 ^ 32"
  then show "\<exists>s'. disable_recursive (all_irq_except_svc cf) s = Inr s' \<and> all_rep cf b (Suc n) s'"
    using cnt_bounds[OF n] by (auto simp: all_irq_except_svc_def all_rep_def Let_def add.commute)
next
  fix n and s :: "irq_state \<times> ('a, 'b) kstate"
  assume r: "all_rep cf b (Suc n) s" and n: "n + 1 < 2 ^ 32"
  obtain x y where s: "s = (x, y)" by (cases s)
  have c: "all_irq_mask_cnt x = of_nat (Suc n)" "all_irq_mask_cnt x - 1 = of_nat n" "suspend_cnt y = b + of_nat n + 1"
    "basepri x = IRQ_DISABLE_BASEPRI_PRIORITY cf" "svcall_priority x = SVC_RAISED_PRIORITY cf"
    using r by (auto simp: s all_rep_def)
  have "suspend_cnt (resume y) = b + of_nat n" using resume_eq[OF c(3)] by simp
  then show "\<exists>s'. enable_recursive (all_irq_except_svc cf) s = Inr s' \<and> all_rep cf b n s'"
    using cnt_bounds[OF n] c n by (auto simp: s all_irq_except_svc_def all_rep_def Let_def simp del: of_nat_Suc)
qed

text \<open>A declared interrupt and all interrupts together; \<open>rep\<close> of neither speaks of the other's registers.\<close>

interpretation da: maskable_pair "declared_irq name irq" "declared_rep name irq" "all_irq_except_svc cf" "all_rep cf b" for name irq cf b
proof unfold_locales
  fix n and s s' :: "irq_state \<times> ('a, 'b) kstate"
  show "disable_recursive (declared_irq name irq) s = Inr s' \<Longrightarrow> all_rep cf b n s' = all_rep cf b n s"
    "enable_recursive (declared_irq name irq) s = Inr s' \<Longrightarrow> all_rep cf b n s' = all_rep cf b n s"
    "disable_recursive (all_irq_except_svc cf) s = Inr s' \<Longrightarrow> declared_rep name irq n s' = declared_rep name irq n s"
    "enable_recursive (all_irq_except_svc cf) s = Inr s' \<Longrightarrow> declared_rep name irq n s' = declared_rep name irq n s"
    by (cases s; auto simp: declared_irq_def all_irq_except_svc_def declared_rep_def all_rep_def Let_def split: if_splits)+
qed

section \<open>Properties\<close>

lemma basepri_blocks:
  assumes "irq_config_ok cf" "all_rep cf b n (x, s)"
  shows "if n = 0 then \<forall>p. \<not> blocks x p
    else (\<forall>p. IRQ_MAX_PRIORITY cf \<le> p \<longrightarrow> blocks x p) \<and> \<not> blocks x (svcall_priority x)"
proof -
  have d: "SVC_RAISED_PRIORITY cf < IRQ_DISABLE_BASEPRI_PRIORITY cf" "IRQ_DISABLE_BASEPRI_PRIORITY cf \<le> IRQ_MAX_PRIORITY cf"
    "IRQ_ENABLE_BASEPRI_PRIORITY cf = 0" using assms(1) by (simp_all add: irq_config_ok_def)
  then have "IRQ_DISABLE_BASEPRI_PRIORITY cf \<noteq> 0" by auto
  then show ?thesis using d assms(2) by (auto simp: all_rep_def blocks_def intro: order_trans)
qed

text \<open>C14. Masking nests. After any run of mask and drop operations on all interrupts but SVC, on a declared
  interrupt, or on the two as a tuple, in which no guard is dropped that does not exist: nothing
  panics; with \<open>n\<close> guards alive, \<open>n > 0\<close>, every interrupt priority of the configuration is blocked while SVC
  is not, the declared interrupt is masked, and the scheduler is suspended \<open>n\<close> times more than before;
  without guards nothing is blocked and everything is as before. Dropping one guard too many panics.\<close>

theorem irq_mask_nesting:
  assumes "irq_config_ok cf" and "guards_after ops 0 = Some n" "length ops < 2 ^ 32"
    and "all_irq_mask_cnt x = 0" "basepri x = IRQ_ENABLE_BASEPRI_PRIORITY cf" "svcall_priority x = SVC_NORMAL_PRIORITY cf"
    and "irq_mask_cnt x name = 0" "\<not> nvic_masked x irq"
  shows "(\<exists>x' s'. mask_run (all_irq_except_svc cf) ops (x, s) = Inr (x', s') \<and> suspend_cnt s' = suspend_cnt s + of_nat n
        \<and> (if n = 0 then (\<forall>p. \<not> blocks x' p) \<and> svcall_priority x' = SVC_NORMAL_PRIORITY cf \<and> held_interrupt_drop (all_irq_except_svc cf) (x', s') = Inl Panic
           else (\<forall>p. IRQ_MAX_PRIORITY cf \<le> p \<longrightarrow> blocks x' p) \<and> \<not> blocks x' (svcall_priority x')))
    \<and> (\<exists>x' s'. mask_run (declared_irq name irq) ops (x, s) = Inr (x', s') \<and> (nvic_masked x' irq \<longleftrightarrow> n \<noteq> 0)
        \<and> (n = 0 \<longrightarrow> held_interrupt_drop (declared_irq name irq) (x', s') = Inl Panic))
    \<and> (\<exists>x' s'. mask_run (irq_tuple [declared_irq name irq, all_irq_except_svc cf]) ops (x, s) = Inr (x', s')
        \<and> (nvic_masked x' irq \<longleftrightarrow> n \<noteq> 0) \<and> suspend_cnt s' = suspend_cnt s + of_nat n \<and> (\<forall>p. IRQ_MAX_PRIORITY cf \<le> p \<longrightarrow> (blocks x' p \<longleftrightarrow> n \<noteq> 0)))"
proof -
  have a: "all_rep cf (suspend_cnt s) 0 (x, s)" and d: "declared_rep name irq 0 (x, s)"
    using assms by (simp_all add: all_rep_def declared_rep_def)
  have len: "0 + length ops < 2 ^ 32" using assms(3) by simp
  obtain x1 s1 where 1: "mask_run (all_irq_except_svc cf) ops (x, s) = Inr (x1, s1)" "all_rep cf (suspend_cnt s) n (x1, s1)"
    using ai.mask_run_rep[OF a len assms(2)] by auto
  obtain x2 s2 where 2: "mask_run (declared_irq name irq) ops (x, s) = Inr (x2, s2)" "declared_rep name irq n (x2, s2)"
    using di.mask_run_rep[OF d len assms(2)] by auto
  obtain x3 s3 where 3: "mask_run (irq_tuple [declared_irq name irq, all_irq_except_svc cf]) ops (x, s) = Inr (x3, s3)"
      "declared_rep name irq n (x3, s3)" "all_rep cf (suspend_cnt s) n (x3, s3)"
    using da.pair.mask_run_rep[OF conjI[OF d a] len assms(2)] by auto
  have u: "held_interrupt_drop (all_irq_except_svc cf) (x1, s1) = Inl Panic" "held_interrupt_drop (declared_irq name irq) (x2, s2) = Inl Panic" if "n = 0"
    using 1(2) 2(2) that by (simp_all add: held_interrupt_drop_def all_irq_except_svc_def declared_irq_def all_rep_def declared_rep_def)
  have "svcall_priority x1 = SVC_NORMAL_PRIORITY cf" if "n = 0" using 1(2) that by (simp add: all_rep_def)
  moreover have "suspend_cnt s1 = suspend_cnt s + of_nat n" "suspend_cnt s3 = suspend_cnt s + of_nat n" using 1(2) 3(3) by (simp_all add: all_rep_def)
  moreover have "nvic_masked x2 irq \<longleftrightarrow> n \<noteq> 0" "nvic_masked x3 irq \<longleftrightarrow> n \<noteq> 0" using 2(2) 3(2) by (auto simp: declared_rep_def)
  moreover note basepri_blocks[OF assms(1) 1(2)] basepri_blocks[OF assms(1) 3(3)]
  ultimately show ?thesis using 1(1) 2(1) 3(1) u by (intro conjI) (auto split: if_splits)
qed

definition irq0 :: irq_state where
  "irq0 = \<lparr>nvic_masked = (\<lambda>_. False), irq_mask_cnt = (\<lambda>_. 0), basepri = IRQ_ENABLE_BASEPRI_PRIORITY config0,
     svcall_priority = SVC_NORMAL_PRIORITY config0, all_irq_mask_cnt = 0\<rparr>"

theorem irq_mask_nesting_witness:
  "\<exists>x' s'. mask_run (all_irq_except_svc config0) [Mask, Mask, Unmask] (irq0, kw0) = Inr (x', s') \<and> blocks x' (SYSTICK_PRIORITY config0)
     \<and> \<not> blocks x' (svcall_priority x')"
proof -
  have c: "irq_config_ok config0" "IRQ_MAX_PRIORITY config0 \<le> SYSTICK_PRIORITY config0" by (simp_all add: irq_config_ok_def config0_def)
  have g: "guards_after [Mask, Mask, Unmask] 0 = Some 1" by simp
  show ?thesis using irq_mask_nesting[OF c(1) g, of irq0 "''TIM2''" 28 kw0] c(2) by (auto simp: irq0_def)
qed

end
