(* ===== verification/System_Start.thy ===== *)
theory System_Start
  imports Spawn_Correct Irq_Mask
begin

text \<open>
  From reset to the first task: \<open>system_start\<close> and \<open>enable_systick\<close> of \<open>src/boot/system_init.rs\<close>,
  \<open>start\<close> of \<open>src/schedule/scheduler.rs\<close> and the idle task of \<open>src/schedule/idle.rs\<close>. The system
  registers that these functions write are a record. \<open>Box::new\<close> and \<open>Arc::new\<close> are abstract: the
  addresses of the task structs and of the entry closure of the main task are arguments.
\<close>

section \<open>Registers\<close>

text \<open>The priorities of the exceptions other than SVC, the SysTick timer, and what the switch to the
  stack of a task sets. \<open>tls_mem\<close> is the memory at \<open>__TLS_MEM_ADDR\<close>.\<close>

record sys_regs =
  pendsv_priority :: u8
  systick_priority :: u8
  fpu_enabled :: bool
  syst_csr :: u32
  syst_rvr :: u32
  syst_cvr :: u32
  psp :: u32
  msp :: u32
  control_reg :: u32
  tls_mem :: task_local_storage

section \<open>Starting the scheduler\<close>

text \<open>The registers when the processor jumps to the idle task. The floating point instruction sets the
  bit 2 of the control register.\<close>

definition enter_idle :: "config \<Rightarrow> task \<Rightarrow> sys_regs \<Rightarrow> sys_regs" where
  "enter_idle cf idle g =
     (let stack_bottom = ctx_sp (t_ctxt idle);
          idle_stk_bound = stklet_bound (ctx_tls (t_ctxt idle));
          g = g\<lparr>control_reg := control_reg g OR 4\<rparr>;
          g = g\<lparr>psp := stack_bottom\<rparr>;
          g = g\<lparr>tls_mem := \<lparr>stklet_bound = idle_stk_bound, nested_drop_cnt = 0, unwind_pending = 0\<rparr>\<rparr>;
          g = g\<lparr>control_reg := control_reg g OR 2\<rparr>
      in g\<lparr>msp := CONTIGUOUS_STACK_BOTTOM cf\<rparr>)"

text \<open>The struct of the idle task is put at the address \<open>t\<close>; \<open>created\<close> is the static flag of
  \<open>build_idle\<close> and \<open>f\<close> its closure.\<close>

definition scheduler_start ::
  "config \<Rightarrow> task_env \<Rightarrow> cpu \<Rightarrow> tid \<Rightarrow> bool \<Rightarrow> entry \<Rightarrow> sys_regs \<Rightarrow> ('w, 'q) kstate \<Rightarrow> stk_state
     \<Rightarrow> (sys_regs \<times> ('w, 'q) kstate \<times> stk_state) res" where
  "scheduler_start cf T cp t created f g s st =
     (case request_task_quota cf s of
        (None, s) \<Rightarrow> Inl Die
      | (Some _, s) \<Rightarrow>
          bindr (or_die (build_idle T cp created f st)) (\<lambda>(idle, st).
            bindr (update_cur_task t (s\<lparr>tasks := (tasks s)(t := idle)\<rparr>)) (\<lambda>s.
              let s = s\<lparr>cur_task_idle := True\<rparr>;
                  s = s\<lparr>started := True\<rparr>
              in Inr (enter_idle cf idle g, s, st))))"

text \<open>The idle task: one yield, and then it waits for events.\<close>

definition idle_task :: "('w, 'q) kstate \<Rightarrow> ('w, 'q) kstate" where
  "idle_task s = yield_current_task s"

text \<open>The list of callbacks is abstract but for its length.\<close>

definition insert_idle_callback :: "('w, 'q) kstate \<Rightarrow> ('w, 'q) kstate" where
  "insert_idle_callback s = s\<lparr>idle_callbacks := idle_callbacks s + 1\<rparr>"

section \<open>Initialization\<close>

definition main_builder :: "config \<Rightarrow> entry \<Rightarrow> task_builder" where
  "main_builder cf main =
     set_priority (MAIN_TASK_PRIORITY cf) (set_stack_init_size (MAIN_TASK_INITIAL_STACK_SIZE cf)
       (set_entry main (set_id (MAIN_TASK_ID cf) builder_new)))"

text \<open>\<open>d\<close> is the end of the static data, where the heap starts, \<open>mt\<close> and \<open>it\<close> are the addresses of the
  structs of the main and of the idle task. On armv7em.\<close>

definition system_start ::
  "('w, 'q) kenv \<Rightarrow> task_env \<Rightarrow> cpu \<Rightarrow> u32 \<Rightarrow> tid \<Rightarrow> tid \<Rightarrow> entry \<Rightarrow> bool \<Rightarrow> entry \<Rightarrow> irq_state \<Rightarrow> sys_regs \<Rightarrow> ('w, 'q) kstate \<Rightarrow> stk_state
     \<Rightarrow> (irq_state \<times> sys_regs \<times> ('w, 'q) kstate \<times> stk_state) res" where
  "system_start E T cp d mt it main created f x g s st =
     bindr (allocator_init (henv (stkenv T)) d (ka st)) (\<lambda>k.
       let cf = kconf E;
           st = st\<lparr>ka := k\<rparr>;
           x = x\<lparr>svcall_priority := SVC_NORMAL_PRIORITY cf\<rparr>;
           g = g\<lparr>pendsv_priority := PENDSV_PRIORITY cf\<rparr>;
           x = x\<lparr>basepri := IRQ_ENABLE_BASEPRI_PRIORITY cf\<rparr>;
           g = g\<lparr>fpu_enabled := True\<rparr>
       in bindr (spawn E T cp mt (main_builder cf main) s st) (\<lambda>(r, s, st).
            case r of
              Inl _ \<Rightarrow> Inl Die
            | Inr _ \<Rightarrow> bindr (scheduler_start cf T cp it created f g s st) (\<lambda>(g, s, st). Inr (x, g, s, st))))"

text \<open>The first action of the main task: the timer runs on the processor clock (bit 2), counts (bit 0) and
  interrupts (bit 1).\<close>

definition enable_systick :: "config \<Rightarrow> sys_regs \<Rightarrow> sys_regs" where
  "enable_systick cf g =
     (let g = g\<lparr>syst_csr := syst_csr g OR 4\<rparr>;
          g = g\<lparr>syst_rvr := SYSTICK_FREQUENCY_HZ cf div 1000\<rparr>;
          g = g\<lparr>syst_cvr := 0\<rparr>;
          g = g\<lparr>syst_csr := syst_csr g OR 1\<rparr>;
          g = g\<lparr>systick_priority := SYSTICK_PRIORITY cf\<rparr>
      in g\<lparr>syst_csr := syst_csr g OR 2\<rparr>)"

section \<open>Spawning before the scheduler has started\<close>

text \<open>The values of the static variables.\<close>

definition boot_state :: "('w \<Rightarrow> lid \<Rightarrow> tid list) \<Rightarrow> ('q \<Rightarrow> tid list) \<Rightarrow> ('w, 'q) kstate \<Rightarrow> bool" where
  "boot_state elems queued s \<longleftrightarrow> (\<forall>l. elems (lists s) l = []) \<and> cur_task s = None \<and> \<not> started s \<and> rq_free queued s
     \<and> suspend_cnt s = 0 \<and> \<not> pending_ctxt_switch s \<and> exist_task_num s = 0 \<and> (\<forall>t. \<not> t_ctxt_locked (tasks s t))"

context kernel_lib
begin

lemma accept_task_boot:
  assumes "\<not> started s" "\<not> rq_locked s" "\<not> rq_pending s" "unlinked (elems (lists s)) t" "\<not> pending_ctxt_switch s"
  shows "\<exists>w. accept_task E t s = Inr ((), s\<lparr>tasks := ready_all [t] (tasks s), lists := w\<rparr>)
      \<and> elems w = (elems (lists s))(Ready_List := elems (lists s) Ready_List @ [t])"
proof -
  obtain w where w: "ll_push_back E Ready_List t (lists s) = Inr w"
    "elems w = (elems (lists s))(Ready_List := elems (lists s) Ready_List @ [t])"
    using push_unlinked[OF assms(4)] by blast
  have "insert_full E t ((suspend s)\<lparr>rq_locked := True\<rparr>) =
    Inr ((), (suspend s)\<lparr>rq_locked := True, tasks := ready_all [t] (tasks s), lists := w\<rparr>)"
    using assms w(1) by (simp add: insert_full_def upd_task_def suspend_def Let_def ready_all_one)
  then have "must_with_full_access (ready_queue E) (insert_full E t) (suspend s) =
    Inr ((), (suspend s)\<lparr>rq_locked := False, rq_pending := False, tasks := ready_all [t] (tasks s), lists := w\<rparr>)"
    using assms by (simp add: must_with_full_access_def rq.guard_drop_eq)
  then show ?thesis using assms w(2)
    by (intro exI[of _ w]) (simp add: accept_task_def with_suspended_scheduler_def rq.with_access_full resume_eq suspend_def)
qed

end

text \<open>The main task in the ready list.\<close>

definition main_ready :: "('w \<Rightarrow> lid \<Rightarrow> tid list) \<Rightarrow> config \<Rightarrow> tid \<Rightarrow> ('w, 'q) kstate \<Rightarrow> ('w, 'q) kstate \<Rightarrow> bool" where
  "main_ready elems cf mt s s' \<longleftrightarrow> (\<exists>n w. s' = s\<lparr>exist_task_num := 1, tasks := (tasks s)(mt := n), lists := w\<rparr>
     \<and> elems w = (\<lambda>l. if l = Ready_List then [mt] else []) \<and> t_state n = Ready \<and> \<not> t_ctxt_locked n \<and> \<not> t_is_idle n
     \<and> t_id n = MAIN_TASK_ID cf \<and> t_priority n = Intrinsic (MAIN_TASK_PRIORITY cf))"

lemma main_stack_config:
  "parse_stack_config (main_builder cf main) = Inr (Dynamic (non_zero (MAIN_TASK_INITIAL_STACK_SIZE cf)) None)"
  "stack_alloc_size (Dynamic (non_zero (MAIN_TASK_INITIAL_STACK_SIZE cf)) None) = MAIN_TASK_INITIAL_STACK_SIZE cf"
  "entry_closure (main_builder cf main) = Some main" "b_priority (main_builder cf main) = Some (MAIN_TASK_PRIORITY cf)"
  "b_id (main_builder cf main) = Some (MAIN_TASK_ID cf)"
  by (simp_all add: parse_stack_config_def main_builder_def set_priority_def set_stack_init_size_def set_entry_def set_id_def builder_new_def non_zero_def)

lemma spawn_main:
  assumes K: "kernel_lib E elems queued" and B: "boot_state elems queued s" and c: "kconf E = conf (stkenv T)" "config_ok (kconf E)"
    and R: "kalloc_rep (henv (stkenv T)) (ka st) {}" and m: "0 < MAX_TASK_NUMBER (kconf E)"
  shows "alloc_initial_stacklet (stkenv T) cp (MAIN_TASK_INITIAL_STACK_SIZE (kconf E)) st = None \<Longrightarrow>
      spawn E T cp mt (main_builder (kconf E) main) s st = Inl Die"
    and "alloc_initial_stacklet (stkenv T) cp (MAIN_TASK_INITIAL_STACK_SIZE (kconf E)) st \<noteq> None \<Longrightarrow>
      \<exists>s' st' p l. spawn E T cp mt (main_builder (kconf E) main) s st = Inr (Inr (), s', st') \<and> main_ready elems (kconf E) mt s s'
        \<and> 128 + unat (MAIN_TASK_INITIAL_STACK_SIZE (kconf E)) \<le> l \<and> kalloc_rep (henv (stkenv T)) (ka st') {(p, l)}
        \<and> starts_at T (closure_addr main) (task_entry main) (unat (MAIN_TASK_INITIAL_STACK_SIZE (kconf E))) p (smem st') (tasks s' mt)"
proof -
  let ?cf = "kconf E" and ?sc = "Dynamic (non_zero (MAIN_TASK_INITIAL_STACK_SIZE (kconf E))) None"
  let ?s = "s\<lparr>exist_task_num := 1\<rparr>"
  have b: "(task_build, \<lambda>f. (closure_addr f, task_entry f)) \<in> spawn_methods" by (simp add: spawn_methods_def)
  have p: "MAIN_TASK_PRIORITY ?cf < TASK_PRIORITY_LEVELS (conf (stkenv T))" using c by (auto simp: config_ok_def task_config_ok_def)
  note B' = method_builds[OF b c(2)[unfolded c(1)] parse_stack_config_wf[OF main_stack_config(1)] R, unfolded main_stack_config(2)]
  have e: "spawn E T cp mt (main_builder ?cf main) s st = build_and_accept task_build E T cp mt (MAIN_TASK_ID ?cf) main ?sc (MAIN_TASK_PRIORITY ?cf) ?s st"
    using m B by (simp add: spawn_def define_task_spawn_def main_stack_config request_task_quota_def boot_state_def Let_def)
  show "spawn E T cp mt (main_builder ?cf main) s st = Inl Die" if "alloc_initial_stacklet (stkenv T) cp (MAIN_TASK_INITIAL_STACK_SIZE ?cf) st = None"
    unfolding e build_and_accept_def using B'(2)[OF p that] by simp
  assume a: "alloc_initial_stacklet (stkenv T) cp (MAIN_TASK_INITIAL_STACK_SIZE ?cf) st \<noteq> None"
  obtain n st' p l where n: "task_build T cp (MAIN_TASK_ID ?cf) main ?sc (MAIN_TASK_PRIORITY ?cf) st = Some (Inr n, st')"
    "t_state n = Ready" "\<not> t_ctxt_locked n" "\<not> t_is_idle n" "t_id n = MAIN_TASK_ID ?cf" "t_priority n = Intrinsic (MAIN_TASK_PRIORITY ?cf)"
    "128 + unat (MAIN_TASK_INITIAL_STACK_SIZE ?cf) \<le> l" "kalloc_rep (henv (stkenv T)) (ka st') {(p, l)}"
    "starts_at T (closure_addr main) (task_entry main) (unat (MAIN_TASK_INITIAL_STACK_SIZE ?cf)) p (smem st') n"
    using B'(3)[OF p a, of "MAIN_TASK_ID ?cf" main] by auto
  let ?t = "?s\<lparr>tasks := (tasks s)(mt := n)\<rparr>"
  have u: "\<not> started ?t" "\<not> rq_locked ?t" "\<not> rq_pending ?t" "unlinked (elems (lists ?t)) mt" "\<not> pending_ctxt_switch ?t"
    using B by (simp_all add: boot_state_def rq_free_def unlinked_def)
  obtain w where w: "accept_task E mt ?t = Inr ((), ?t\<lparr>tasks := ready_all [mt] (tasks ?t), lists := w\<rparr>)"
    "elems w = (elems (lists ?t))(Ready_List := elems (lists ?t) Ready_List @ [mt])"
    using kernel_lib.accept_task_boot[OF K u] by blast
  have "ready_all [mt] (tasks ?t) = (tasks s)(mt := n)" using n(2) by (auto simp: ready_all_def set_state_def fun_eq_iff)
  moreover have "elems w = (\<lambda>l. if l = Ready_List then [mt] else [])" using w(2) B by (auto simp: boot_state_def fun_eq_iff)
  ultimately show "\<exists>s' st' p l. spawn E T cp mt (main_builder ?cf main) s st = Inr (Inr (), s', st') \<and> main_ready elems ?cf mt s s'
        \<and> 128 + unat (MAIN_TASK_INITIAL_STACK_SIZE ?cf) \<le> l \<and> kalloc_rep (henv (stkenv T)) (ka st') {(p, l)}
        \<and> starts_at T (closure_addr main) (task_entry main) (unat (MAIN_TASK_INITIAL_STACK_SIZE ?cf)) p (smem st') (tasks s' mt)"
    using w(1) n unfolding e build_and_accept_def main_ready_def
    by (intro exI[of _ "?t\<lparr>lists := w\<rparr>"] exI[of _ st'] exI[of _ p] exI[of _ l]) auto
qed

section \<open>The idle task\<close>

lemma build_idle_ok:
  assumes C: "config_ok (conf (stkenv T))" and R: "kalloc_rep (henv (stkenv T)) (ka st) L"
  shows "alloc_initial_stacklet (stkenv T) cp 0 st = None \<Longrightarrow> build_idle T cp False f st = None"
    and "alloc_initial_stacklet (stkenv T) cp 0 st \<noteq> None \<Longrightarrow>
      \<exists>n st' p l. build_idle T cp False f st = Some (n, st') \<and> t_state n = Running \<and> \<not> t_ctxt_locked n \<and> t_is_idle n
        \<and> t_priority n = Intrinsic (IDLE_TASK_PRIORITY (conf (stkenv T))) \<and> unat (ctx_sp (t_ctxt n)) = p + 128
        \<and> unat (stklet_bound (ctx_tls (t_ctxt n))) = p + 128
        \<and> (p, l) \<notin> L \<and> 128 \<le> l \<and> kalloc_rep (henv (stkenv T)) (ka st') (insert (p, l) L) \<and> unchanged L (smem st) (smem st')"
proof -
  let ?cf = "conf (stkenv T)"
  let ?t = "task_new ?cf True"
  have p: "IDLE_TASK_PRIORITY ?cf < TASK_PRIORITY_LEVELS ?cf" "0 < TASK_PRIORITY_LEVELS ?cf"
    using C by (auto simp: config_ok_def task_config_ok_def word_le_nat_alt word_less_nat_alt)
  show "build_idle T cp False f st = None" if "alloc_initial_stacklet (stkenv T) cp 0 st = None"
    using that p by (simp add: build_idle_def initialize_def initialize_common_def Let_def not_le)
  assume "alloc_initial_stacklet (stkenv T) cp 0 st \<noteq> None"
  then obtain b en st' where a: "alloc_initial_stacklet (stkenv T) cp 0 st = Some ((b, en), st')" by auto
  define n where "n = ?t\<lparr>t_scb := Some (scb_default ?cf), t_initial_stklet := b, t_stack_config := Dynamic None None,
      t_ctxt := (t_ctxt ?t)\<lparr>ctx_sp := en, ctx_tls := (ctx_tls (t_ctxt ?t))\<lparr>stklet_bound := stklet_ptr_to_bound b\<rparr>\<rparr>,
      t_id := IDLE_TASK_ID ?cf, t_state := Running, t_priority := new_intrinsic (IDLE_TASK_PRIORITY ?cf)\<rparr>"
  have i: "build_idle T cp False f st = Some (n, st')" unfolding n_def
    using a p by (simp add: build_idle_def initialize_def initialize_common_def task_new_def Let_def not_le)
  obtain p l where "(p, l) \<notin> L" "128 \<le> l" "kalloc_rep (henv (stkenv T)) (ka st') (insert (p, l) L)" "unchanged L (smem st) (smem st')"
    "unat (stklet_ptr_to_bound b) = p + 128" "unat en = p + 128"
    using initial_stacklet_ok[OF R a] by auto
  then show "\<exists>n st' p l. build_idle T cp False f st = Some (n, st') \<and> t_state n = Running \<and> \<not> t_ctxt_locked n \<and> t_is_idle n
        \<and> t_priority n = Intrinsic (IDLE_TASK_PRIORITY ?cf) \<and> unat (ctx_sp (t_ctxt n)) = p + 128
        \<and> unat (stklet_bound (ctx_tls (t_ctxt n))) = p + 128
        \<and> (p, l) \<notin> L \<and> 128 \<le> l \<and> kalloc_rep (henv (stkenv T)) (ka st') (insert (p, l) L) \<and> unchanged L (smem st) (smem st')"
    using i by (intro exI[of _ n] exI[of _ st'] exI[of _ p] exI[of _ l]) (simp add: n_def task_new_def new_intrinsic_def)
qed

text \<open>The idle task becomes the running task, and the invariant of the scheduler holds from there on.\<close>

lemma idle_current:
  assumes B: "boot_state elems queued s" and M: "main_ready elems cf mt s s1" and n: "it \<noteq> mt"
    and i: "t_state idle = Running" "\<not> t_ctxt_locked idle" "t_is_idle idle"
    and s': "s' = s1\<lparr>exist_task_num := 2, tasks := (tasks s1)(it := idle\<lparr>t_ctxt_locked := True\<rparr>), cur_task := Some it, cur_task_idle := True, started := True\<rparr>"
  shows "sched_ok (elems (lists s')) it s' \<and> rq_free queued s' \<and> suspend_cnt s' = 0"
proof -
  obtain m w where m: "s1 = s\<lparr>exist_task_num := 1, tasks := (tasks s)(mt := m), lists := w\<rparr>" "elems w = (\<lambda>l. if l = Ready_List then [mt] else [])"
    "t_state m = Ready" "\<not> t_ctxt_locked m" using M by (auto simp: main_ready_def)
  have "lists_ok (elems w)" "unlinked (elems w) it" using n by (auto simp: m(2) lists_ok_def unlinked_def)
  then show ?thesis using B n i m(3,4) unfolding s' m(1) by (auto simp: boot_state_def sched_ok_def m(2) rq_free_def)
qed

lemma scheduler_start_ok:
  assumes B: "boot_state elems queued s" and M: "main_ready elems cf mt s s1" and n: "it \<noteq> mt" and c: "cf = conf (stkenv T)" "config_ok cf"
    and R: "kalloc_rep (henv (stkenv T)) (ka st) L" and m: "2 \<le> MAX_TASK_NUMBER cf"
  shows "alloc_initial_stacklet (stkenv T) cp 0 st = None \<Longrightarrow> scheduler_start cf T cp it False f g s1 st = Inl Die"
    and "alloc_initial_stacklet (stkenv T) cp 0 st \<noteq> None \<Longrightarrow>
      \<exists>idle s' st' p l. scheduler_start cf T cp it False f g s1 st = Inr (enter_idle cf idle g, s', st')
        \<and> sched_ok (elems (lists s')) it s' \<and> rq_free queued s' \<and> suspend_cnt s' = 0 \<and> lists s' = lists s1 \<and> exist_task_num s' = 2
        \<and> tasks s' = (tasks s1)(it := idle\<lparr>t_ctxt_locked := True\<rparr>) \<and> t_state idle = Running
        \<and> t_priority idle = Intrinsic (IDLE_TASK_PRIORITY cf) \<and> unat (ctx_sp (t_ctxt idle)) = p + 128
        \<and> unat (stklet_bound (ctx_tls (t_ctxt idle))) = p + 128
        \<and> (p, l) \<notin> L \<and> 128 \<le> l \<and> kalloc_rep (henv (stkenv T)) (ka st') (insert (p, l) L) \<and> unchanged L (smem st) (smem st')"
proof -
  have q: "request_task_quota cf s1 = (Some (), s1\<lparr>exist_task_num := 2\<rparr>)" "cur_task s1 = None"
    using B M m by (auto simp: request_task_quota_def main_ready_def boot_state_def)
  note I = build_idle_ok[OF c(2)[unfolded c(1)] R, of cp f]
  show "scheduler_start cf T cp it False f g s1 st = Inl Die" if "alloc_initial_stacklet (stkenv T) cp 0 st = None"
    using I(1)[OF that] q by (simp add: scheduler_start_def)
  assume a: "alloc_initial_stacklet (stkenv T) cp 0 st \<noteq> None"
  obtain idle st' p l where i: "build_idle T cp False f st = Some (idle, st')" "t_state idle = Running" "\<not> t_ctxt_locked idle" "t_is_idle idle"
    "t_priority idle = Intrinsic (IDLE_TASK_PRIORITY cf)" "unat (ctx_sp (t_ctxt idle)) = p + 128" "unat (stklet_bound (ctx_tls (t_ctxt idle))) = p + 128"
    "(p, l) \<notin> L" "128 \<le> l" "kalloc_rep (henv (stkenv T)) (ka st') (insert (p, l) L)" "unchanged L (smem st) (smem st')"
    using I(2)[OF a] unfolding c(1) by blast
  define s' where "s' = s1\<lparr>exist_task_num := 2, tasks := (tasks s1)(it := idle\<lparr>t_ctxt_locked := True\<rparr>), cur_task := Some it, cur_task_idle := True, started := True\<rparr>"
  have "scheduler_start cf T cp it False f g s1 st = Inr (enter_idle cf idle g, s', st')"
    using i(1,3) q by (simp add: scheduler_start_def update_cur_task_def lock_ctxt_def s'_def Let_def)
  moreover have "sched_ok (elems (lists s')) it s' \<and> rq_free queued s' \<and> suspend_cnt s' = 0" by (rule idle_current[OF B M n i(2-4) s'_def])
  moreover have "lists s' = lists s1" "exist_task_num s' = 2" "tasks s' = (tasks s1)(it := idle\<lparr>t_ctxt_locked := True\<rparr>)" by (simp_all add: s'_def)
  ultimately show "\<exists>idle s' st' p l. scheduler_start cf T cp it False f g s1 st = Inr (enter_idle cf idle g, s', st')
        \<and> sched_ok (elems (lists s')) it s' \<and> rq_free queued s' \<and> suspend_cnt s' = 0 \<and> lists s' = lists s1 \<and> exist_task_num s' = 2
        \<and> tasks s' = (tasks s1)(it := idle\<lparr>t_ctxt_locked := True\<rparr>) \<and> t_state idle = Running
        \<and> t_priority idle = Intrinsic (IDLE_TASK_PRIORITY cf) \<and> unat (ctx_sp (t_ctxt idle)) = p + 128
        \<and> unat (stklet_bound (ctx_tls (t_ctxt idle))) = p + 128
        \<and> (p, l) \<notin> L \<and> 128 \<le> l \<and> kalloc_rep (henv (stkenv T)) (ka st') (insert (p, l) L) \<and> unchanged L (smem st) (smem st')"
    using i by (intro exI[of _ idle] exI[of _ s'] exI[of _ st'] exI[of _ p] exI[of _ l]) simp
qed

section \<open>The first context switch\<close>

lemma first_switch:
  assumes K: "kernel_lib E elems queued" and S: "sched_ok (elems (lists s)) it s" "rq_free queued s" "suspend_cnt s = 0"
    and l: "elems (lists s) Ready_List = [mt]" and i: "t_state (tasks s it) = Running" and p: "t_priority (tasks s mt) \<le> t_priority (tasks s it)"
  shows "\<exists>s'. pendsv_handler E 0xffffffed (idle_task s) = Inr ((), s') \<and> cur_task s' = Some mt \<and> t_state (tasks s' mt) = Running
    \<and> elems (lists s') Ready_List = [it] \<and> sched_ok (elems (lists s')) mt s'"
proof -
  let ?s = "s\<lparr>pendsv := False\<rparr>"
  have S': "sched_ok (elems (lists ?s)) it ?s" "rq_free queued ?s" "suspend_cnt ?s = 0" using S by (simp_all add: sched_ok_def rq_free_def)
  have c: "candidates (elems (lists ?s)) it ?s = [mt, it]" using l i by (simp add: candidates_def)
  obtain k s' where k: "is_top (tasks ?s) [mt, it] k" "pick_next E ?s = Inr ((), s')"
    "elems (lists s') = (elems (lists ?s))(Ready_List := take k [mt, it] @ drop (Suc k) [mt, it])"
    "sched_ok (elems (lists s')) ([mt, it] ! k) s'" "t_state (tasks s' ([mt, it] ! k)) = Running"
    using kernel_lib.pick_next_eq[OF K S'] unfolding c by blast
  have "\<not> 0 < k"
  proof
    assume "0 < k"
    then have "k = 1" "t_priority (tasks s it) < t_priority (tasks s mt)" using k(1) by (auto simp: is_top_def less_Suc_eq)
    then show False using p by (auto simp: less_task_priority_def less_eq_task_priority_def)
  qed
  then show ?thesis using k(2-5) by (intro exI[of _ s']) (auto simp: pendsv_handler_def idle_task_def yield_current_task_def sched_ok_def)
qed

text \<open>The stack of the main task keeps its contents while the idle task is built.\<close>

lemma starts_at_unchanged:
  assumes "starts_at T closure trampoline n p m t" "unchanged {(p, l)} m m'" "128 + n \<le> l" "p + l < 2 ^ 32"
  shows "starts_at T closure trampoline n p m' t"
proof -
  let ?sp = "ctx_sp (t_ctxt t)"
  have sp: "unat ?sp = p + 24 + n" using assms(1) by (simp add: starts_at_def)
  then have a: "unat (?sp + 20) = unat ?sp + 20" "unat (?sp + 24) = unat ?sp + 24" "unat (?sp + 28) = unat ?sp + 28"
    using assms(3,4) by (simp_all add: unat_add_small)
  have "m' w = m w" if "unat ?sp \<le> w" "w \<le> unat ?sp + 28" for w using assms(2,3) that sp by (auto simp: unchanged_def)
  then have "m' (tf_r0 ?sp) = m (tf_r0 ?sp)" "m' (tf_pc ?sp) = m (tf_pc ?sp)" "m' (tf_lr ?sp) = m (tf_lr ?sp)" "m' (tf_xpsr ?sp) = m (tf_xpsr ?sp)"
    unfolding tf_r0_def tf_pc_def tf_lr_def tf_xpsr_def a by simp_all
  then show ?thesis using assms(1) by (simp add: starts_at_def)
qed

lemma allocator_init_ok:
  assumes "link_script_ok env d" "cached h = 0" "cur_alloc_size h = 0"
  shows "\<exists>h'. allocator_init env d (kalloc0 h) = Inr ((kalloc0 h)\<lparr>kheap := h', initialized := True\<rparr>)
    \<and> kalloc_rep env ((kalloc0 h)\<lparr>kheap := h', initialized := True\<rparr>) {}"
  by (rule init_outcome[OF assms]) (auto simp: allocator_init_def kalloc0_def kalloc_rep_def dest: init_rep)

text \<open>With fewer than two quotas there is no idle task.\<close>

lemma boot_needs_two:
  assumes K: "kernel_lib E elems queued" "boot_state elems queued s" "kconf E = conf (stkenv T)" "config_ok (kconf E)"
    and k: "allocator_init (henv (stkenv T)) d (ka st) = Inr k" "kalloc_rep (henv (stkenv T)) k {}" and m: "MAX_TASK_NUMBER (kconf E) < 2"
  shows "system_start E T cp d mt it main created f x g s st = Inl Die"
proof (cases "MAX_TASK_NUMBER (kconf E) = 0")
  case True
  then show ?thesis using k(1) by (simp add: system_start_def spawn_def define_task_spawn_def main_stack_config request_task_quota_def Let_def)
next
  case False
  have R: "kalloc_rep (henv (stkenv T)) (ka (st\<lparr>ka := k\<rparr>)) {}" "0 < MAX_TASK_NUMBER (kconf E)" using k(2) False by simp_all
  note S = spawn_main[OF K R, of cp mt main]
  have q: "scheduler_start (kconf E) T cp it created f g' s1 st1 = Inl Die" if "main_ready elems (kconf E) mt s s1" for g' s1 st1
    using that m by (auto simp: scheduler_start_def request_task_quota_def main_ready_def)
  show ?thesis
  proof (cases "alloc_initial_stacklet (stkenv T) cp (MAIN_TASK_INITIAL_STACK_SIZE (kconf E)) (st\<lparr>ka := k\<rparr>)")
    case None
    then show ?thesis using S(1) k(1) by (simp add: system_start_def Let_def)
  next
    case (Some a)
    then obtain s1 st1 where "spawn E T cp mt (main_builder (kconf E) main) s (st\<lparr>ka := k\<rparr>) = Inr (Inr (), s1, st1)" "main_ready elems (kconf E) mt s s1"
      using S(2) by blast
    then show ?thesis using k(1) q by (simp add: system_start_def Let_def)
  qed
qed

text \<open>From the spawned main task to its first run.\<close>

lemma boot_result:
  assumes K: "kernel_lib E elems queued" "boot_state elems queued s" "kconf E = conf (stkenv T)" "config_ok (kconf E)"
    and n: "it \<noteq> mt" "MAIN_TASK_PRIORITY (kconf E) \<le> IDLE_TASK_PRIORITY (kconf E)" "2 \<le> MAX_TASK_NUMBER (kconf E)"
    and M: "main_ready elems (kconf E) mt s s1" "128 + unat (MAIN_TASK_INITIAL_STACK_SIZE (kconf E)) \<le> l" "kalloc_rep (henv (stkenv T)) (ka st1) {(p, l)}"
      "starts_at T (closure_addr main) (task_entry main) (unat (MAIN_TASK_INITIAL_STACK_SIZE (kconf E))) p (smem st1) (tasks s1 mt)"
    and a: "alloc_initial_stacklet (stkenv T) cp 0 st1 \<noteq> None"
  shows "\<exists>g' s' st' q k s2. scheduler_start (kconf E) T cp it False f g s1 st1 = Inr (g', s', st') \<and> sched_ok (elems (lists s')) it s'
    \<and> elems (lists s') Ready_List = [mt] \<and> exist_task_num s' = 2 \<and> t_id (tasks s' mt) = MAIN_TASK_ID (kconf E)
    \<and> kalloc_rep (henv (stkenv T)) (ka st') {(p, l), (q, k)} \<and> p \<noteq> q
    \<and> starts_at T (closure_addr main) (task_entry main) (unat (MAIN_TASK_INITIAL_STACK_SIZE (kconf E))) p (smem st') (tasks s' mt)
    \<and> unat (psp g') = q + 128 \<and> unat (stklet_bound (tls_mem g')) = q + 128 \<and> pendsv_priority g' = pendsv_priority g
    \<and> pendsv_handler E 0xffffffed (idle_task s') = Inr ((), s2) \<and> cur_task s2 = Some mt \<and> t_state (tasks s2 mt) = Running
    \<and> elems (lists s2) Ready_List = [it] \<and> sched_ok (elems (lists s2)) mt s2"
proof -
  let ?cf = "kconf E" and ?e = "henv (stkenv T)"
  obtain idle s' st' q k where s': "scheduler_start ?cf T cp it False f g s1 st1 = Inr (enter_idle ?cf idle g, s', st')"
    "sched_ok (elems (lists s')) it s'" "rq_free queued s'" "suspend_cnt s' = 0" "lists s' = lists s1" "exist_task_num s' = 2"
    "tasks s' = (tasks s1)(it := idle\<lparr>t_ctxt_locked := True\<rparr>)" "t_state idle = Running" "t_priority idle = Intrinsic (IDLE_TASK_PRIORITY ?cf)"
    "unat (ctx_sp (t_ctxt idle)) = q + 128" "unat (stklet_bound (ctx_tls (t_ctxt idle))) = q + 128"
    "(q, k) \<notin> {(p, l)}" "kalloc_rep ?e (ka st') {(q, k), (p, l)}" "unchanged {(p, l)} (smem st1) (smem st')"
    using scheduler_start_ok(2)[OF K(2) M(1) n(1) K(3,4) M(3) n(3) a, of f g] by blast
  have m: "elems (lists s') Ready_List = [mt]" "t_id (tasks s' mt) = MAIN_TASK_ID ?cf" "t_priority (tasks s' mt) \<le> t_priority (tasks s' it)"
    "t_state (tasks s' it) = Running" "tasks s' mt = tasks s1 mt"
    using M(1) n(1,2) s'(5,7,8,9) by (auto simp: main_ready_def less_eq_task_priority_def)
  have pl: "p + l < 2 ^ 32" "0 < l" "0 < k" using kalloc_chunk[OF s'(13), of p l] kalloc_chunk[OF s'(13), of q k] by auto
  have pq: "p \<noteq> q" using kalloc_disjoint[OF s'(13), of p l q k] s'(12) pl by auto
  have st: "starts_at T (closure_addr main) (task_entry main) (unat (MAIN_TASK_INITIAL_STACK_SIZE ?cf)) p (smem st') (tasks s' mt)"
    using starts_at_unchanged[OF M(4) s'(14) M(2) pl(1)] m(5) by simp
  obtain s2 where s2: "pendsv_handler E 0xffffffed (idle_task s') = Inr ((), s2)" "cur_task s2 = Some mt" "t_state (tasks s2 mt) = Running"
    "elems (lists s2) Ready_List = [it]" "sched_ok (elems (lists s2)) mt s2"
    using first_switch[OF K(1) s'(2-4) m(1,4,3)] by blast
  have g: "psp (enter_idle ?cf idle g) = ctx_sp (t_ctxt idle)" "stklet_bound (tls_mem (enter_idle ?cf idle g)) = stklet_bound (ctx_tls (t_ctxt idle))"
    "pendsv_priority (enter_idle ?cf idle g) = pendsv_priority g" by (simp_all add: enter_idle_def Let_def)
  show ?thesis
    by (rule exI[of _ "enter_idle ?cf idle g"], rule exI[of _ s'], rule exI[of _ st'], rule exI[of _ q], rule exI[of _ k], rule exI[of _ s2])
       (use s'(1,2,6,10,11,13) m(1,2) pq st s2 g in \<open>simp add: insert_commute\<close>)
qed


section \<open>A concrete start\<close>

definition boot0 :: cpu where
  "boot0 = \<lparr>ipsr = 0, control = 0, sched_started = False\<rparr>"

lemma heap_ok_fill:
  assumes "heap_ok env h bs fl" "(a, n, True) \<in> blks (heap_start h) bs" "\<And>w. w < a + 4 \<or> a + n \<le> w \<Longrightarrow> m w = mem h w"
  shows "heap_ok env (h\<lparr>mem := m\<rparr>) bs fl"
  using assms mem_ok_store[of env "heap_start h" "mem h" bs fl a n m] by (auto simp: heap_ok_def)

text \<open>A stack from the free rest of the heap.\<close>

lemma boot_stacklet:
  assumes "heap_ok env0 (kheap (ka st)) (xs @ [(n, False)]) fl" "\<And>j b. (j, b) \<in> set xs \<Longrightarrow> b" "cached (kheap (ka st)) = 0"
    and i: "initialized (ka st)" "\<not> active (ka st)" and n: "148 \<le> n" "list_index n = 5"
    and p: "p = heap_start (kheap (ka st)) + bsum xs + 4" "p + 132 < 2 ^ 32"
  shows "\<exists>st' fl'. alloc_initial_stacklet env1 boot0 0 st = Some ((of_nat p, of_nat p + 128), st')
    \<and> heap_ok env0 (kheap (ka st')) ((xs @ [(136, True)]) @ [(n - 136, False)]) fl' \<and> cached (kheap (ka st')) = 0
    \<and> initialized (ka st') \<and> \<not> active (ka st') \<and> heap_start (kheap (ka st')) = heap_start (kheap (ka st))"
proof -
  let ?bs = "(xs @ [(136, True)]) @ [(n - 136, False)]"
    and ?m = "\<lparr>prev_stklet_bound = 0, prev_sp = 0, extend_cnt = 0, count_size = 0\<rparr>"
  have rq: "request_size 128 = 136" by (simp add: request_size_eq)
  obtain h fl' where h: "mcu_malloc env0 128 (kheap (ka st)) = Some (p, h)" "heap_ok env0 h ?bs fl'" "cached h = 0"
    "heap_start h = heap_start (kheap (ka st))"
    unfolding p(1) by (rule malloc_tail[OF assms(1-3), where sz = 128 and k = 136]) (use n rq in auto)
  obtain k where k: "alloc_impl env0 boot0 (active_stacklet_count st) 128 (ka st) = Some (p, k)" "initialized k" "\<not> active k"
    "kheap k = h\<lparr>high_water_mark_just_updated := False\<rparr> \<or> kheap k = h"
    using h(1) i p(1) by (cases "high_water_mark_just_updated h") (auto simp: alloc_impl_def boot0_def kernel_malloc_def die_if_not_in_svc_def Let_def)
  have P: "unat (of_nat p :: u32) = p" by (rule unat_of_nat_small) (use p(2) in linarith)
  have H: "heap_ok env0 (kheap k) ?bs fl'" "heap_start (kheap k) = heap_start h" "cached (kheap k) = 0" using k(4) h(2,3) by (auto simp: heap_ok_def)
  have b: "(p - 4, 136, True) \<in> blks (heap_start (kheap k)) ?bs" using H(2) h(4) p(1) by simp
  have "heap_ok env0 ((kheap k)\<lparr>mem := write_meta (of_nat p) ?m (mem (kheap k))\<rparr>) ?bs fl'"
    by (rule heap_ok_fill[OF H(1) b], rule write_meta_out) (use p P in \<open>simp_all, linarith\<close>)
  moreover have "p \<noteq> 0" using p(1) by simp
  ultimately show ?thesis using k(1-3) H(2,3) h(4)
    by (intro exI[of _ "upd_mem (write_meta (of_nat p) ?m) (st\<lparr>ka := k\<rparr>)"] exI[of _ fl'])
       (simp add: alloc_initial_stacklet_def checked_add_def overhead kalloc_layout_def env1_def upd_mem_def smem_def Let_def)
qed

definition g0 :: sys_regs where
  "g0 = \<lparr>pendsv_priority = 0, systick_priority = 0, fpu_enabled = True, syst_csr = 0, syst_rvr = 0, syst_cvr = 0, psp = 0x20001300, msp = 0x20001000,
     control_reg = 6, tls_mem = \<lparr>stklet_bound = 0x20001188, nested_drop_cnt = 0, unwind_pending = 0\<rparr>\<rparr>"

definition kb0 :: "(lid \<Rightarrow> tid list, tid list) kstate" where
  "kb0 = k0\<lparr>tasks := (\<lambda>_. task_new config0 False), lists := (\<lambda>_. []), cur_task := None, started := False, exist_task_num := 0\<rparr>"

text \<open>What is left of the heap after the stack of the main task serves the idle task.\<close>

lemma boot0_second_stack:
  assumes "heap_ok env0 h [(0x1EEF8, False)] fl" "cached h = 0" "heap_start h = 0x20001104"
    and st: "ka st = (kalloc0 heap0)\<lparr>kheap := h, initialized := True\<rparr>"
  shows "alloc_initial_stacklet env1 boot0 0 st \<noteq> None"
    and "spawn E tenv0 boot0 1 (main_builder config0 entry0) s st = Inr (Inr (), s1, st1) \<Longrightarrow> alloc_initial_stacklet env1 boot0 0 st1 \<noteq> None"
proof -
  have ka: "kheap (ka st) = h" "initialized (ka st)" "\<not> active (ka st)" by (simp_all add: st kalloc0_def)
  obtain st' fl' where a: "alloc_initial_stacklet env1 boot0 0 st = Some ((0x20001108, 0x20001108 + 128), st')"
    "heap_ok env0 (kheap (ka st')) [(136, True), (0x1EE70, False)] fl'" "cached (kheap (ka st')) = 0" "initialized (ka st')" "\<not> active (ka st')"
    "heap_start (kheap (ka st')) = 0x20001104"
    using boot_stacklet[of st "[]" "0x1EEF8" fl "0x20001108"] assms(1-3) ka list_index_samples by auto
  then show "alloc_initial_stacklet env1 boot0 0 st \<noteq> None" by simp
  assume "spawn E tenv0 boot0 1 (main_builder config0 entry0) s st = Inr (Inr (), s1, st1)"
  then obtain n where "task_build tenv0 boot0 (MAIN_TASK_ID config0) entry0 (Dynamic None None) (MAIN_TASK_PRIORITY config0) st = Some (Inr n, st1)"
    by (auto simp: spawn_def define_task_spawn_def main_stack_config build_and_accept_def request_task_quota_def bindr_Inr Let_def non_zero_def config0_def
        split: if_splits option.splits sum.splits)
  then have st1: "st1 = upd_mem (write_initial_frame tenv0 (closure_addr entry0) (task_entry entry0) 0x20001120) st'"
    using a(1) by (auto simp: task_build_def initialize_def initialize_common_def tenv0_def task_new_def TRAP_FRAME_SIZE_def Let_def split: if_splits)
  let ?h = "(kheap (ka st'))\<lparr>mem := write_initial_frame tenv0 (closure_addr entry0) (task_entry entry0) 0x20001120 (mem (kheap (ka st')))\<rparr>"
  have "heap_ok env0 ?h [(136, True), (0x1EE70, False)] fl'"
    by (rule heap_ok_fill[OF a(2), of "0x20001104" 136], use a(6) in simp, rule initial_frame_out) auto
  then have "heap_ok env0 (kheap (ka st1)) ([(136, True)] @ [(0x1EE70, False)]) fl'" "cached (kheap (ka st1)) = 0" "initialized (ka st1)" "\<not> active (ka st1)"
    "heap_start (kheap (ka st1)) = 0x20001104" using a(3-6) by (simp_all add: st1 upd_mem_def smem_def)
  moreover have "list_index 0x1EE70 = 5" by (simp add: chunk_size_to_list_index_def leading_zeros_def compute_floorlog)
  ultimately show "alloc_initial_stacklet env1 boot0 0 st1 \<noteq> None"
    using boot_stacklet[of st1 "[(136, True)]" "0x1EE70" fl' "0x20001190"] by auto
qed


end
