(* ===== verification/Svc_Handler.thy ===== *)
theory Svc_Handler
  imports Task_Panic
begin

unbundle bit_operations_syntax

text \<open>
  Supervisor calls, \<open>src/interrupt/svc_handler.rs\<close>: the number in the instruction, the dispatch to the
  kernel functions, and the landing of the unwinder as a whole. The assembly of the entry saves the
  stack pointer and the task local storage into the context \<open>task_svc_ctxt\<close> and loads them back from it.
\<close>

section \<open>The number\<close>

datatype svc_num = TaskDestroy | TaskLessStack | MemAlloc | MemFree | TaskUnwindPrepare | TaskUnwindLand
  | TaskMoreStackFromDrop | TaskMoreStack

fun svc_to_u8 :: "svc_num \<Rightarrow> u8" where
  "svc_to_u8 TaskDestroy = 0"
| "svc_to_u8 TaskLessStack = 1"
| "svc_to_u8 MemAlloc = 2"
| "svc_to_u8 MemFree = 3"
| "svc_to_u8 TaskUnwindPrepare = 252"
| "svc_to_u8 TaskUnwindLand = 253"
| "svc_to_u8 TaskMoreStackFromDrop = 254"
| "svc_to_u8 TaskMoreStack = 255"

text \<open>The conversion that \<open>IntEnum\<close> derives.\<close>

definition svc_try_from :: "u8 \<Rightarrow> svc_num option" where
  "svc_try_from n = find (\<lambda>v. svc_to_u8 v = n)
     [TaskDestroy, TaskLessStack, MemAlloc, MemFree, TaskUnwindPrepare, TaskUnwindLand, TaskMoreStackFromDrop, TaskMoreStack]"

text \<open>The low byte of an instruction half-word.\<close>

definition get_svc_num :: "mem \<Rightarrow> u32 \<Rightarrow> svc_num res" where
  "get_svc_num m tf =
     (let task_pc = m (tf_pc tf);
          svc_num = ucast (read16 m (unat (task_pc - 2)))
      in or_die (svc_try_from svc_num))"

lemma svc_try_from_to: "svc_try_from (svc_to_u8 v) = Some v"
  by (cases v) (simp_all add: svc_try_from_def)

lemma svc_try_from_Some: "svc_try_from n = Some v \<longleftrightarrow> n = svc_to_u8 v"
proof
  assume "svc_try_from n = Some v"
  then show "n = svc_to_u8 v" unfolding svc_try_from_def find_Some_iff by blast
qed (simp add: svc_try_from_to)

section \<open>The handler\<close>

text \<open>A stack function works on the control block, the limit and the unwinding flag of the current task,
  which \<open>current::with_cur_task\<close> gives it.\<close>

definition with_cur_stack ::
  "(stk_state \<Rightarrow> (task_svc_ctxt \<times> stk_state) option) \<Rightarrow> ('w, 'q) kstate \<Rightarrow> stk_state \<Rightarrow> (task_svc_ctxt \<times> ('w, 'q) kstate \<times> stk_state) res" where
  "with_cur_stack op = with_cur_task_arc (\<lambda>c s st.
     let t = tasks s c
     in case op (st\<lparr>scb := t_scb t, stack_limit := get_stack_limit t, is_unwinding := t_is_unwinding t\<rparr>) of
          None \<Rightarrow> Inl Die
        | Some (ctxt, st) \<Rightarrow> Inr (ctxt, upd_task c (\<lambda>t. t\<lparr>t_scb := scb st\<rparr>) s, st))"

definition svc_mem_alloc :: "heap_env \<Rightarrow> cpu \<Rightarrow> u32 \<Rightarrow> stk_state \<Rightarrow> stk_state res" where
  "svc_mem_alloc env c tf st =
     (case task_malloc env c (active_stacklet_count st) (smem st (tf_r0 tf)) (ka st) of
        None \<Rightarrow> Inl Die
      | Some (p, k) \<Rightarrow> Inr (upd_mem (\<lambda>m. m(tf_r0 tf := of_nat p)) (st\<lparr>ka := k\<rparr>)))"

definition svc_mem_free :: "heap_env \<Rightarrow> cpu \<Rightarrow> u32 \<Rightarrow> stk_state \<Rightarrow> stk_state res" where
  "svc_mem_free env c tf st =
     (case task_free env c (unat (smem st (tf_r0 tf))) (ka st) of None \<Rightarrow> Inl Die | Some k \<Rightarrow> Inr (st\<lparr>ka := k\<rparr>))"

text \<open>The processor state \<open>c\<close> is that of the calling task. \<open>us\<close> gives the unwind state at an address.\<close>

definition svc_handler ::
  "stk_env \<Rightarrow> cpu \<Rightarrow> (u32 \<Rightarrow> unwind_state) \<Rightarrow> u32 \<Rightarrow> task_svc_ctxt \<Rightarrow> ('w, 'q) kstate \<Rightarrow> stk_state \<Rightarrow> (task_svc_ctxt \<times> ('w, 'q) kstate \<times> stk_state) res" where
  "svc_handler E c us tf ctxt s st =
     bindr (get_svc_num (smem st) tf) (\<lambda>n.
       case n of
         TaskDestroy \<Rightarrow> bindr (drop_current_task_from_svc s) (\<lambda>(_, s). Inr (ctxt, s, st))
       | TaskLessStack \<Rightarrow> with_cur_stack (less_stack E (svc_cpu c) tf ctxt) s st
       | TaskMoreStack \<Rightarrow> with_cur_stack (more_stack E (svc_cpu c) Normal ctxt) s st
       | TaskMoreStackFromDrop \<Rightarrow> with_cur_stack (more_stack E (svc_cpu c) Drop ctxt) s st
       | TaskUnwindPrepare \<Rightarrow> with_cur_stack (more_stack E (svc_cpu c) Segmented_Stack.Unwind ctxt) s st
       | MemAlloc \<Rightarrow> bindr (svc_mem_alloc (henv E) c tf st) (\<lambda>st. Inr (ctxt, s, st))
       | MemFree \<Rightarrow> bindr (svc_mem_free (henv E) c tf st) (\<lambda>st. Inr (ctxt, s, st))
       | TaskUnwindLand \<Rightarrow>
           let u = us (smem st (tf_r0 tf))
           in case unwind_land E (svc_cpu c) tf (gp_regs u SP) (gp_regs u R0) (us_stklet_boundary u) ctxt st of
                None \<Rightarrow> Inl Die
              | Some (ctxt, st) \<Rightarrow> Inr (ctxt, s, st))"

section \<open>Landing\<close>

text \<open>In supervisor mode a free returns.\<close>

lemma svc_free_some: "initialized k \<Longrightarrow> \<not> active k \<Longrightarrow> \<exists>k'. free_impl env (svc_cpu c) p k = Some k'"
proof -
  have "control (svc_cpu c) AND 2 = 0" by (simp add: svc_cpu_def and.assoc)
  moreover have "die_if_not_in_svc_or_pendsv (svc_cpu c)" by (simp add: die_if_not_in_svc_or_pendsv_def svc_cpu_def)
  ultimately show "initialized k \<Longrightarrow> \<not> active k \<Longrightarrow> ?thesis" by (simp add: free_impl_def kernel_free_def Let_def)
qed

text \<open>The memory in which the landing pad starts, its trap frame at \<open>N\<close> and that of the call at \<open>t\<close>.\<close>

definition land_mem :: "ptr \<Rightarrow> ptr \<Rightarrow> u32 \<Rightarrow> u32 \<Rightarrow> mem \<Rightarrow> mem" where
  "land_mem N t r0 pc m = m(N + 28 := m (t + 28) AND NOT (push_bit 9 1), N := r0, N + 24 := pc)"

lemma land_addr:
  assumes "unat sp' = N + 104"
  shows "unat (sp' - 104) = N" "tf_xpsr (sp' - 104) = N + 28" "tf_r0 (sp' - 104) = N" "tf_pc (sp' - 104) = N + 24"
proof -
  have lt: "unat sp' < 2 ^ 32" by (rule unat_u32_less)
  show "unat (sp' - 104) = N" "tf_xpsr (sp' - 104) = N + 28" "tf_r0 (sp' - 104) = N" "tf_pc (sp' - 104) = N + 24"
    using assms lt by (simp_all add: tf_xpsr_def tf_r0_def tf_pc_def unat_sub_if')
qed

lemma unwind_land_eq:
  assumes "unat land_sp = N + 104" "unat tf + 104 < 2 ^ 32" "unat (stklet_bound (tls ctxt)) = p + 128"
    and "free_impl (henv E) c p (ka (upd_mem (land_mem N (unat tf) land_r0 (smem st (tf_r1 tf))) st)) = Some k"
  shows "unwind_land E c tf land_sp land_r0 land_bound ctxt st =
    Some (ctxt\<lparr>tls := (tls ctxt)\<lparr>stklet_bound := land_bound\<rparr>, sp := land_sp - 104\<rparr>,
      (upd_mem (land_mem N (unat tf) land_r0 (smem st (tf_r1 tf))) st)\<lparr>ka := k\<rparr>)"
proof -
  have B: "unat (bound_to_stklet_ptr (stklet_bound (tls ctxt))) = p"
    using assms(3) by (simp add: bound_to_stklet_ptr_def overhead unat_sub_if')
  note A = land_addr[OF assms(1)]
  have T: "tf_xpsr tf = unat tf + 28" using assms(2) by (simp add: tf_xpsr_def unat_add_small)
  have M: "upd_mem (land_mem N (unat tf) land_r0 (smem st (tf_r1 tf))) st
      = upd_mem (\<lambda>m. m(tf_pc (land_sp - 104) := smem st (tf_r1 tf))) (upd_mem (\<lambda>m. m(tf_r0 (land_sp - 104) := land_r0))
          (upd_mem (\<lambda>m. m(tf_xpsr (land_sp - 104) := m (tf_xpsr (land_sp - 104)) AND NOT (push_bit 9 1)))
            (upd_mem (\<lambda>m. m(tf_xpsr (land_sp - 104) := m (tf_xpsr tf))) st)))"
    unfolding A T upd_mem_comp by (rule upd_mem_cong) (simp add: land_mem_def)
  show ?thesis using assms(4) unfolding unwind_land_def Let_def TRAP_FRAME_SIZE_def B M by simp
qed

lemma land_mem_simps:
  "land_mem N t r0 pc m (N + 24) = pc" "land_mem N t r0 pc m N = r0"
  "land_mem N t r0 pc m (N + 28) = m (t + 28) AND NOT (push_bit 9 1)"
  "w < N \<or> N + 104 \<le> w \<Longrightarrow> land_mem N t r0 pc m w = m w"
  by (auto simp: land_mem_def)

lemma unwind_land_result:
  assumes R: "kalloc_rep (henv E) (ka st) L" and "unat land_sp = N + 104"
    and unwinder: "(p, l) \<in> L" "unat (stklet_bound (tls ctxt)) = p + 128" "p \<le> unat tf" "unat tf + 104 \<le> p + l"
    and frame: "(q, n) \<in> L" "q \<le> N" "N + 104 \<le> q + n"
  shows "\<exists>st'. unwind_land E (svc_cpu c) tf land_sp land_r0 b ctxt st = Some (ctxt\<lparr>tls := (tls ctxt)\<lparr>stklet_bound := b\<rparr>, sp := land_sp - 104\<rparr>, st')
    \<and> kalloc_rep (henv E) (ka st') (L - {(p, l)})
    \<and> unchanged (L - {(p, l)}) (land_mem N (unat tf) land_r0 (smem st (tf_r1 tf)) (smem st)) (smem st')"
proof -
  define st1 where "st1 = upd_mem (land_mem N (unat tf) land_r0 (smem st (tf_r1 tf))) st"
  have R1: "kalloc_rep (henv E) (ka st1) L" unfolding st1_def
    by (rule kalloc_upd_mem[OF R frame(1)]) (rule land_mem_simps(4), use frame(2,3) in linarith)
  obtain k where k: "free_impl (henv E) (svc_cpu c) p (ka st1) = Some k"
    using svc_free_some[of "ka st1" "henv E" c p] R1 by (auto simp: kalloc_rep_def)
  have "unat tf + 104 < 2 ^ 32" using unwinder kalloc_chunk[OF R unwinder(1)] by linarith
  from unwind_land_eq[OF assms(2) this unwinder(2), of E "svc_cpu c" land_r0 st k b] k
  have "unwind_land E (svc_cpu c) tf land_sp land_r0 b ctxt st = Some (ctxt\<lparr>tls := (tls ctxt)\<lparr>stklet_bound := b\<rparr>, sp := land_sp - 104\<rparr>, st1\<lparr>ka := k\<rparr>)"
    by (simp add: st1_def)
  moreover have "mem (kheap (ka st1)) = land_mem N (unat tf) land_r0 (smem st (tf_r1 tf)) (smem st)" by (simp add: st1_def upd_mem_def)
  moreover have "smem (st1\<lparr>ka := k\<rparr>) = mem (kheap k)" by (simp add: smem_def)
  ultimately show ?thesis using free_impl_ok[OF R1 unwinder(1) k] by auto
qed

section \<open>Properties\<close>

text \<open>C9. The supervisor call with which the unwinder enters a landing pad. The task continues there: the
  trap frame that the exception return pops has the address of the landing pad as program counter and
  the pointer to the unwind state in \<open>r0\<close>, and popping it leaves the stack pointer of the frame being
  unwound, on the stacklet of that frame. Exactly the stacklet of the unwinder is freed; of the other
  chunks only the words of the new trap frame, below that stack pointer, change. An instruction whose
  number is no supervisor call of the kernel halts the system.\<close>

theorem svc_unwind_land:
  assumes "svc_to_u8 TaskUnwindLand = ucast (read16 (smem st) (unat (smem st (tf_pc tf) - 2)))"
    and "kalloc_rep (henv E) (ka st) L" "us (smem st (tf_r0 tf)) = u" "unat (gp_regs u SP) = N + 104"
    and unwinder: "(p, l) \<in> L" "unat (stklet_bound (tls ctxt)) = p + 128" "p \<le> unat tf" "unat tf + 104 \<le> p + l"
    and frame: "(q, n) \<in> L" "q \<noteq> p" "q \<le> N" "N + 104 \<le> q + n"
  shows "(\<exists>ctxt' st'. svc_handler E c us tf ctxt s st = Inr (ctxt', s, st')
      \<and> smem st' (tf_pc (sp ctxt')) = smem st (tf_r1 tf) \<and> smem st' (tf_r0 (sp ctxt')) = gp_regs u R0
      \<and> unat (sp ctxt') = N \<and> sp ctxt' + tf_frame_size (smem st') (sp ctxt') = gp_regs u SP
      \<and> stklet_bound (tls ctxt') = us_stklet_boundary u
      \<and> kalloc_rep (henv E) (ka st') (L - {(p, l)})
      \<and> (\<forall>(b, k) \<in> L - {(p, l)}. \<forall>w. b \<le> w \<and> w < b + k \<and> (w < N \<or> N + 104 \<le> w) \<longrightarrow> smem st' w = smem st w))
    \<and> (\<forall>m. (\<nexists>v. svc_to_u8 v = ucast (read16 m (unat (m (tf_pc tf) - 2)))) \<longrightarrow> svc_handler E c us tf ctxt s (upd_mem (\<lambda>_. m) st) = Inl Die)"
    (is "?lands \<and> ?dies")
proof
  show ?dies
  proof (intro allI impI)
    fix m assume "\<nexists>v. svc_to_u8 v = ucast (read16 m (unat (m (tf_pc tf) - 2)))"
    then have "svc_try_from (ucast (read16 m (unat (m (tf_pc tf) - 2)))) = None"
      using svc_try_from_Some by (metis not_Some_eq)
    then show "svc_handler E c us tf ctxt s (upd_mem (\<lambda>_. m) st) = Inl Die" by (simp add: svc_handler_def get_svc_num_def)
  qed
next
  let ?m = "land_mem N (unat tf) (gp_regs u R0) (smem st (tf_r1 tf)) (smem st)"
  let ?c = "ctxt\<lparr>tls := (tls ctxt)\<lparr>stklet_bound := us_stklet_boundary u\<rparr>, sp := gp_regs u SP - 104\<rparr>"
  from unwind_land_result[OF assms(2,4) unwinder frame(1,3,4), of c "gp_regs u R0" "us_stklet_boundary u"] obtain st'
    where l: "unwind_land E (svc_cpu c) tf (gp_regs u SP) (gp_regs u R0) (us_stklet_boundary u) ctxt st = Some (?c, st')"
      "kalloc_rep (henv E) (ka st') (L - {(p, l)})" "unchanged (L - {(p, l)}) ?m (smem st')" by (elim exE conjE)
  have "get_svc_num (smem st) tf = Inr TaskUnwindLand"
    using svc_try_from_to[of TaskUnwindLand] unfolding assms(1) by (simp add: get_svc_num_def)
  then have h: "svc_handler E c us tf ctxt s st = Inr (?c, s, st')" by (simp add: svc_handler_def assms(3) l(1))
  have keep: "smem st' w = ?m w" if "(b, j) \<in> L - {(p, l)}" "b \<le> w" "w < b + j" for b j w
    using l(3) that unfolding unchanged_def by blast
  have q: "(q, n) \<in> L - {(p, l)}" using frame(1,2) by auto
  have new: "smem st' (N + 24) = smem st (tf_r1 tf)" "smem st' N = gp_regs u R0" "smem st' (N + 28) = smem st (unat tf + 28) AND NOT (push_bit 9 1)"
    using keep[OF q] frame(3,4) by (simp_all add: land_mem_simps)
  have "smem st' (N + 28) AND push_bit 9 1 = 0" unfolding new by (simp add: and.assoc del: push_bit_of_1)
  then have "tf_frame_size (smem st') (gp_regs u SP - 104) = 104"
    by (simp add: tf_frame_size_def land_addr[OF assms(4)] TRAP_FRAME_SIZE_def del: push_bit_of_1)
  moreover have "\<forall>(b, k) \<in> L - {(p, l)}. \<forall>w. b \<le> w \<and> w < b + k \<and> (w < N \<or> N + 104 \<le> w) \<longrightarrow> smem st' w = smem st w"
  proof (rule ballI)
    fix x assume "x \<in> L - {(p, l)}"
    then show "case x of (b, k) \<Rightarrow> \<forall>w. b \<le> w \<and> w < b + k \<and> (w < N \<or> N + 104 \<le> w) \<longrightarrow> smem st' w = smem st w"
      using keep[of "fst x" "snd x"] land_mem_simps(4)[of _ N] by (simp add: split_def del: Diff_iff)
  qed
  ultimately show ?lands using h l(2) new by (intro exI[of _ ?c] exI[of _ st']) (simp add: land_addr[OF assms(4)])
qed

text \<open>Sample: the stacklet that a task got for a call at \<open>0x20001400\<close> is that of the unwinder; the frame to
  land in is on the first stacklet.\<close>

definition land_state :: unwind_state where
  "land_state = \<lparr>gp_regs = (\<lambda>_. 0)(SP := 0x20001300, R0 := 0x20002000), dpfp_regs = (\<lambda>_. 0), unw_ability = Cant_Unwind,
     us_stklet_boundary = 0x20001188, is_initial = False\<rparr>"

theorem svc_unwind_land_witness:
  "\<exists>st c1 ctxt' st'. svc_handler env1 svc0 (\<lambda>_. land_state) (sp c1) c1 kw0 st = Inr (ctxt', kw0, st')
    \<and> unat (sp ctxt') = 0x20001298 \<and> kalloc_rep env0 (ka st') {(0x20001108, 1004)}"
proof -
  let ?L = "{(0x20001108 :: nat, 1004 :: nat)}"
  obtain h fl where h: "heap_ok env0 h [(1008, True), (0x1EB08, False)] fl" "cached h = 0" "heap_start h = 0x20001104"
    "mem h 0x20001318 = 0x20001400" "mem h 0x20001400 = 16" "mem h 0x20001110 = 0" "mem h 0x20001314 = 0x08000101"
    by (rule stk0_heap)
  obtain c1 st1 where m: "more_stack env1 svc0 Normal ctxt0 (stk0 0 h) = Some (c1, st1)" "sp c1 \<noteq> sp ctxt0"
    using stk0_more_stack[OF h] by blast
  have R: "kalloc_rep (henv env1) (ka (stk0 0 h)) ?L" using stk0_rep[OF h(1-3)] by (simp add: env1_def)
  note sz = stk0_sizes[OF h(4,5), of 0]
  have a: "0 = get_stack_arg_size (smem (stk0 0 h)) (smem (stk0 0 h) (tf_pc (sp ctxt0)))" using sz by simp
  obtain f' p l where e: "(p, l) \<notin> ?L" "kalloc_rep (henv env1) (ka st1) (insert (p, l) ?L)"
    "extended env1 f' 0 ctxt0 (smem (stk0 0 h)) p l c1 (smem st1)"
    by (rule more_stack_result[OF R _ stk0_on_stacklet(1) a refl stk0_on_stacklet(2) m(1)]) (use m(2) in auto)
  have x: "unat (stklet_bound (tls c1)) = p + 128" "p \<le> unat (sp c1)" "unat (sp c1) + 104 \<le> p + l"
    using e(3) by (auto simp: extended_def)
  have np: "p \<noteq> 0x20001108" and dis: "p + l \<le> 0x20001108 \<or> 0x200014F4 \<le> p"
    using e(1) kalloc_disjoint[OF e(2), of p l "0x20001108" 1004] kalloc_chunk[OF e(2), of p l] by auto
  define st where "st = upd_mem (\<lambda>m. m(0x20001400 := 0x00FD0010)) st1"
  have Rst: "kalloc_rep (henv env1) (ka st) (insert (p, l) ?L)"
    unfolding st_def by (rule kalloc_upd_mem[OF e(2), of "0x20001108" 1004]) auto
  have pc: "smem st (tf_pc (sp c1)) = 0x20001404"
  proof -
    have "tf_pc (sp c1) = unat (sp c1) + 24" using tf_addr[of "sp c1"] x kalloc_chunk[OF e(2), of p l] by (simp add: tf_pc_def unat_add_small)
    then have "tf_pc (sp c1) \<noteq> 0x20001400" using x dis by linarith
    moreover have "smem st1 (tf_pc (sp c1)) = 0x20001404" using e(3) sz(1) by (simp add: extended_def)
    ultimately show ?thesis by (simp add: st_def)
  qed
  have n: "svc_to_u8 TaskUnwindLand = ucast (read16 (smem st) (unat (smem st (tf_pc (sp c1)) - 2)))"
    unfolding pc by (simp add: st_def read16_def hi16_def)
  have sp: "unat (gp_regs land_state SP) = 0x20001298 + 104" by (simp add: land_state_def)
  have "insert (p, l) ?L - {(p, l)} = ?L" using e(1) by auto
  then show ?thesis
    using svc_unwind_land[where us = "\<lambda>_. land_state" and q = "0x20001108" and n = 1004 and c = svc0 and s = kw0,
        OF n Rst refl sp insertI1 x] np by (auto simp: env1_def)
qed

end
