(* ===== verification/Context_Switch.thy ===== *)
theory Context_Switch
  imports System_Start Svc_Handler
begin

text \<open>
  The exception entries around the handlers, for armv7em: \<open>pendsv_entry\<close> of
  \<open>src/interrupt/context_switch.rs\<close>, which saves the registers of the running task and loads those of the
  chosen one, and \<open>svc_entry\<close> of \<open>src/interrupt/svc_handler.rs\<close>. The registers that the hardware does not
  push on the stack of the task are lists beside the system registers; a call to a handler leaves
  them as they are, as the calling convention requires.
\<close>

section \<open>Entries\<close>

record core =
  sysr :: sys_regs
  r4_r11 :: "u32 list"
  s16_s31 :: "u32 list"

text \<open>The context of the running task, as it is in the registers and in the thread-local storage.\<close>

definition live_ctxt :: "core \<Rightarrow> task_ctxt" where
  "live_ctxt k = task_ctxt.make (tls_mem (sysr k)) (psp (sysr k)) (r4_r11 k) (s16_s31 k)"

definition kernel_tls :: "config \<Rightarrow> core \<Rightarrow> core" where
  "kernel_tls cf k = k\<lparr>sysr := (sysr k)\<lparr>tls_mem := \<lparr>stklet_bound = CONTIGUOUS_STACK_BOUNDARY cf, nested_drop_cnt = 0, unwind_pending = 0\<rparr>\<rparr>\<rparr>"

definition load_ctxt :: "task_ctxt \<Rightarrow> core \<Rightarrow> core" where
  "load_ctxt x k = k\<lparr>sysr := (sysr k)\<lparr>psp := ctx_sp x, tls_mem := ctx_tls x\<rparr>, r4_r11 := task_ctxt.gp_regs x, s16_s31 := task_ctxt.fp_regs x\<rparr>"

text \<open>\<open>CUR_TASK_CTXT_PTR\<close> points to the context of the current task.\<close>

definition pendsv_entry :: "('w, 'q) kenv \<Rightarrow> u32 \<Rightarrow> core \<times> ('w, 'q) kstate \<Rightarrow> (core \<times> ('w, 'q) kstate) res" where
  "pendsv_entry E lr = (\<lambda>(k, s).
     bindr (or_die (cur_task s)) (\<lambda>c.
       let s = upd_task c (\<lambda>t. t\<lparr>t_ctxt := live_ctxt k\<rparr>) s;
           k = kernel_tls (kconf E) k
       in bindr (pendsv_handler E lr s) (\<lambda>(_, s).
          bindr (or_die (cur_task s)) (\<lambda>n.
            let k = load_ctxt (t_ctxt (tasks s n)) k
            in if CONTIGUOUS_STACK_BOTTOM (kconf E) \<noteq> msp (sysr k) then Inl Die else Inr (k, s)))))"

definition svc_entry ::
  "stk_env \<Rightarrow> cpu \<Rightarrow> (u32 \<Rightarrow> unwind_state) \<Rightarrow> u32 \<Rightarrow> core \<times> ('w, 'q) kstate \<times> stk_state \<Rightarrow> (core \<times> ('w, 'q) kstate \<times> stk_state) res" where
  "svc_entry E c us lr = (\<lambda>(k, s, st).
     if lr \<noteq> 0xffffffed then Inl Die
     else
       let ctxt = \<lparr>sp = psp (sysr k), tls = tls_mem (sysr k)\<rparr>;
           k = kernel_tls (conf E) k
       in bindr (svc_handler E c us (sp ctxt) ctxt s st) (\<lambda>(ctxt, s, st).
            Inr (k\<lparr>sysr := (sysr k)\<lparr>psp := sp ctxt, tls_mem := tls ctxt\<rparr>\<rparr>, s, st)))"

section \<open>The scheduler leaves the saved contexts alone\<close>

definition same_ctxts :: "('w, 'q) kstate \<Rightarrow> ('w, 'q) kstate \<Rightarrow> bool" where
  "same_ctxts s s' \<longleftrightarrow> (\<forall>t. t_ctxt (tasks s' t) = t_ctxt (tasks s t)) \<and> rq_pending s' = rq_pending s"

lemma same_ctxts_trans [trans]: "same_ctxts s s' \<Longrightarrow> same_ctxts s' s'' \<Longrightarrow> same_ctxts s s''"
  by (simp add: same_ctxts_def)

lemma update_cur_ctxts: "update_cur_task t s = Inr s' \<Longrightarrow> same_ctxts s s'"
  by (auto simp: update_cur_task_def lock_ctxt_def upd_task_def force_unlock_ctxt_def same_ctxts_def Let_def bindr_Inr split: if_splits option.splits)

lemma clean_up_ctxts: "clean_up_current E c s = Inr (r, s') \<Longrightarrow> same_ctxts s s'"
  by (auto simp: clean_up_current_def upd_task_def set_state_def same_ctxts_def Let_def bindr_Inr split: task_state.splits)

lemma idle_callbacks_ctxts: "same_ctxts s (run_idle_callbacks b b' s)"
  by (simp add: run_idle_callbacks_def suspend_def resume_def yield_current_task_def same_ctxts_def Let_def)

lemma pick_full_ctxts:
  assumes "pick_full E s = Inr (r, s')"
  shows "same_ctxts s s'"
proof -
  obtain s1 w t s2 where s: "with_cur_task_explicit_sched_suspend (clean_up_current E) s = Inr ((), s1)"
    "update_cur_task t (run_idle_callbacks (cur_task_idle s1) (t_is_idle (tasks (upd_task t (set_state Running) (s1\<lparr>lists := w\<rparr>)) t))
      ((upd_task t (set_state Running) (s1\<lparr>lists := w\<rparr>))\<lparr>cur_task_idle := t_is_idle (tasks (upd_task t (set_state Running) (s1\<lparr>lists := w\<rparr>)) t)\<rparr>)) = Inr s2"
    "s' = s2\<lparr>pending_ctxt_switch := False\<rparr>"
    using assms by (auto simp: pick_full_def bindr_Inr Let_def upd_task_def)
  have 1: "same_ctxts s s1" using s(1) by (auto simp: with_cur_task_explicit_sched_suspend_def clean_up_ctxts split: option.splits)
  have 2: "same_ctxts s1 ((upd_task t (set_state Running) (s1\<lparr>lists := w\<rparr>))\<lparr>cur_task_idle := b\<rparr>)" for b
    by (simp add: same_ctxts_def upd_task_def set_state_def)
  have 3: "same_ctxts s2 s'" by (simp add: s(3) same_ctxts_def)
  from 1 2 have "same_ctxts s ((upd_task t (set_state Running) (s1\<lparr>lists := w\<rparr>))\<lparr>cur_task_idle := b\<rparr>)" for b by (rule same_ctxts_trans)
  from same_ctxts_trans[OF same_ctxts_trans[OF this idle_callbacks_ctxts] update_cur_ctxts[OF s(2)]] 3 show ?thesis by (rule same_ctxts_trans)
qed

lemma pick_next_ctxts:
  assumes "pick_next E s = Inr (r, s')" "\<not> rq_pending s"
  shows "t_ctxt (tasks s' t) = t_ctxt (tasks s t)"
proof -
  obtain s1 where s1: "pick_full E ((suspend s)\<lparr>rq_locked := True\<rparr>) = Inr (r, s1)"
    "bindr (guard_drop (ready_queue E) s1) (\<lambda>s. Inr (r, resume s)) = Inr (r, s')"
    using assms(1) by (auto simp: pick_next_def with_suspended_scheduler_def must_with_full_access_def bindr_Inr split: if_splits)
  have "same_ctxts s s1" using pick_full_ctxts[OF s1(1)] by (simp add: same_ctxts_def suspend_def)
  moreover from this have "\<not> rq_pending s1" using assms(2) by (simp add: same_ctxts_def)
  then have "s' = resume (s1\<lparr>rq_pending := False, rq_locked := False\<rparr>)" using s1(2) by (simp add: rq.guard_drop_eq)
  then have "tasks s' = tasks s1" by (simp add: resume_def yield_current_task_def Let_def)
  ultimately show ?thesis by (simp add: same_ctxts_def)
qed

text \<open>A supervisor call that does not concern the stack leaves the registers of the task as they are.\<close>

lemma svc_entry_ctxt:
  assumes "svc_entry E c us lr (k, s, st) = Inr (k', s', st')" "get_svc_num (smem st) (psp (sysr k)) = Inr n" "n \<in> {TaskDestroy, MemAlloc, MemFree}"
  shows "live_ctxt k' = live_ctxt k"
  using assms by (auto simp: svc_entry_def svc_handler_def kernel_tls_def live_ctxt_def Let_def bindr_Inr split: if_splits)

section \<open>Switching\<close>

text \<open>The context of a task, wherever it is.\<close>

definition task_view :: "core \<times> ('w, 'q) kstate \<Rightarrow> tid \<Rightarrow> task_ctxt" where
  "task_view = (\<lambda>(k, s) t. if cur_task s = Some t then live_ctxt k else t_ctxt (tasks s t))"

lemma load_live [simp]: "live_ctxt (load_ctxt x k) = x"
  by (simp add: live_ctxt_def load_ctxt_def task_ctxt.defs)

lemma msp_load [simp]: "msp (sysr (load_ctxt x k)) = msp (sysr k)" "msp (sysr (kernel_tls cf k)) = msp (sysr k)"
  by (simp_all add: load_ctxt_def kernel_tls_def)

lemma switch_result:
  assumes K: "kernel_lib E elems queued" and S: "sched_ok (elems (lists s)) c s" "rq_free queued s" "suspend_cnt s = 0"
  shows "\<exists>k' s' n. pendsv_entry E 0xffffffed (k, s) = (if msp (sysr k) = CONTIGUOUS_STACK_BOTTOM (kconf E) then Inr (k', s') else Inl Die)
    \<and> task_view (k', s') = task_view (k, s) \<and> n \<in> set (candidates (elems (lists s)) c s) \<and> sched_ok (elems (lists s')) n s' \<and> rq_free queued s' \<and> suspend_cnt s' = 0"
proof -
  define s0 where "s0 = (upd_task c (\<lambda>t. t\<lparr>t_ctxt := live_ctxt k\<rparr>) s)\<lparr>pendsv := False\<rparr>"
  have c: "cur_task s = Some c" using S(1) by (simp add: sched_ok_def)
  have S0: "sched_ok (elems (lists s0)) c s0" "rq_free queued s0" "suspend_cnt s0 = 0" "candidates (elems (lists s0)) c s0 = candidates (elems (lists s)) c s"
    using S by (auto simp: s0_def upd_task_def sched_ok_def rq_free_def candidates_def)
  obtain i s' where s': "is_top (tasks s0) (candidates (elems (lists s0)) c s0) i" "pick_next E s0 = Inr ((), s')"
    "sched_ok (elems (lists s')) (candidates (elems (lists s0)) c s0 ! i) s'" "rq_free queued s'" "suspend_cnt s' = 0"
    using kernel_lib.pick_next_eq[OF K S0(1-3)] by blast
  define n where "n = candidates (elems (lists s0)) c s0 ! i"
  have n: "cur_task s' = Some n" using s'(3) by (simp add: sched_ok_def n_def)
  let ?k = "load_ctxt (t_ctxt (tasks s' n)) (kernel_tls (kconf E) k)"
  have e: "pendsv_entry E 0xffffffed (k, s) = (if msp (sysr k) = CONTIGUOUS_STACK_BOTTOM (kconf E) then Inr (?k, s') else Inl Die)"
    using c n s'(2) by (simp add: pendsv_entry_def pendsv_handler_def Let_def s0_def)
  have x: "t_ctxt (tasks s' t) = (if t = c then live_ctxt k else t_ctxt (tasks s t))" for t
    using pick_next_ctxts[OF s'(2), of t] S0(2) by (simp add: rq_free_def s0_def upd_task_def)
  have "task_view (?k, s') = task_view (k, s)" by (auto simp: task_view_def n c x fun_eq_iff)
  then show ?thesis using e s' S0(4) unfolding n_def[symmetric]
    by (intro exI[of _ ?k] exI[of _ s'] exI[of _ n]) (auto simp: n_def is_top_def)
qed

lemma switch_view:
  assumes "pendsv_entry E lr (k, s) = Inr (k', s')" "\<not> rq_pending s"
  shows "task_view (k', s') = task_view (k, s)"
proof -
  obtain c n where c: "cur_task s = Some c" "cur_task s' = Some n" "k' = load_ctxt (t_ctxt (tasks s' n)) (kernel_tls (kconf E) k)"
    and p: "pick_next E ((upd_task c (\<lambda>t. t\<lparr>t_ctxt := live_ctxt k\<rparr>) s)\<lparr>pendsv := False\<rparr>) = Inr ((), s')"
    using assms(1) by (auto simp: pendsv_entry_def pendsv_handler_def Let_def bindr_Inr or_die_def split: if_splits option.splits)
  have x: "t_ctxt (tasks s' t) = (if t = c then live_ctxt k else t_ctxt (tasks s t))" for t
    using pick_next_ctxts[OF p, of t] assms(2) by (simp add: upd_task_def)
  show ?thesis by (auto simp: task_view_def c x fun_eq_iff)
qed

text \<open>The steps of the system while the task \<open>t\<close> does not run: context switches, and other tasks at work,
  with everything that they and the interrupt handlers do to the kernel but to the saved context of
  \<open>t\<close>.\<close>

inductive away :: "('w, 'q) kenv \<Rightarrow> tid \<Rightarrow> core \<times> ('w, 'q) kstate \<Rightarrow> core \<times> ('w, 'q) kstate \<Rightarrow> bool" for E t x where
  away_refl: "away E t x x"
| away_switch: "away E t x (k, s) \<Longrightarrow> \<not> rq_pending s \<Longrightarrow> pendsv_entry E lr (k, s) = Inr (k', s') \<Longrightarrow> away E t x (k', s')"
| away_run: "away E t x (k, s) \<Longrightarrow> cur_task s = Some c \<Longrightarrow> c \<noteq> t \<Longrightarrow> cur_task s' = Some c \<Longrightarrow> t_ctxt (tasks s' t) = t_ctxt (tasks s t) \<Longrightarrow>
    away E t x (k', s')"

inductive_cases awayE: "away E t x (k, s)"

lemma away_view: "away E t x y \<Longrightarrow> task_view y t = task_view x t"
proof (induction rule: away.induct)
  case (away_switch k s lr k' s')
  then show ?case using switch_view[OF away_switch.hyps(3,2)] by simp
next
  case (away_run k s c s' k')
  then show ?case by (simp add: task_view_def)
qed simp

text \<open>C21. A context switch is transparent to the tasks. The entry of PendSV ends, on a task out of those
  that may run, with the registers, the stack pointer and the thread-local storage that this task had
  saved, keeps the invariant of the scheduler and loses no context; and whatever runs and switches
  in the meantime, when the task that was switched out runs again it has the registers with which
  it left. It dies if the kernel stack is not empty.\<close>

theorem context_switch_transparent:
  assumes "kernel_lib E elems queued" "sched_ok (elems (lists s)) c s" "rq_free queued s" "suspend_cnt s = 0"
  shows "if msp (sysr k) = CONTIGUOUS_STACK_BOTTOM (kconf E)
    then \<exists>k' s' n. pendsv_entry E 0xffffffed (k, s) = Inr (k', s') \<and> cur_task s' = Some n \<and> n \<in> set (candidates (elems (lists s)) c s)
      \<and> live_ctxt k' = (if n = c then live_ctxt k else t_ctxt (tasks s n)) \<and> (n \<noteq> c \<longrightarrow> t_ctxt (tasks s' c) = live_ctxt k)
      \<and> (\<forall>t. t \<noteq> c \<longrightarrow> t \<noteq> n \<longrightarrow> t_ctxt (tasks s' t) = t_ctxt (tasks s t)) \<and> sched_ok (elems (lists s')) n s' \<and> rq_free queued s'
      \<and> (\<forall>k2 s2. away E c (k', s') (k2, s2) \<longrightarrow> cur_task s2 = Some c \<longrightarrow> live_ctxt k2 = live_ctxt k)
    else pendsv_entry E 0xffffffed (k, s) = Inl Die"
proof -
  have c: "cur_task s = Some c" using assms(2) by (simp add: sched_ok_def)
  obtain k' s' n where r: "pendsv_entry E 0xffffffed (k, s) = (if msp (sysr k) = CONTIGUOUS_STACK_BOTTOM (kconf E) then Inr (k', s') else Inl Die)"
    "task_view (k', s') = task_view (k, s)" "n \<in> set (candidates (elems (lists s)) c s)" "sched_ok (elems (lists s')) n s'" "rq_free queued s'"
    using switch_result[OF assms] by blast
  have n: "cur_task s' = Some n" using r(4) by (simp add: sched_ok_def)
  note v = fun_cong[OF r(2), unfolded task_view_def prod.case c n option.inject]
  have 1: "live_ctxt k' = (if n = c then live_ctxt k else t_ctxt (tasks s n))" "n \<noteq> c \<Longrightarrow> t_ctxt (tasks s' c) = live_ctxt k"
    using v[of n] v[of c] by (auto split: if_splits)
  have 2: "t_ctxt (tasks s' t) = t_ctxt (tasks s t)" if "t \<noteq> c" "t \<noteq> n" for t using v[of t] that by auto
  have 3: "live_ctxt k2 = live_ctxt k" if "away E c (k', s') (k2, s2)" "cur_task s2 = Some c" for k2 s2
    using away_view[OF that(1)] fun_cong[OF r(2), of c] that(2) c by (simp add: task_view_def)
  show ?thesis
  proof (cases "msp (sysr k) = CONTIGUOUS_STACK_BOTTOM (kconf E)")
    case True
    have e: "pendsv_entry E 0xffffffed (k, s) = Inr (k', s')" using r(1) True by simp
    show ?thesis unfolding if_P[OF True]
      by (rule exI[of _ k'], rule exI[of _ s'], rule exI[of _ n]) (use e r(3-5) n 1 2 3 in blast)
  qed (use r(1) in simp)
qed

text \<open>Sample: the running task 1 of the sample scheduler state, with its registers.\<close>

definition core0 :: core where
  "core0 = \<lparr>sysr = g0, r4_r11 = [4, 5, 6, 7, 8, 9, 10, 11], s16_s31 = replicate 16 1\<rparr>"

theorem context_switch_transparent_witness:
  "\<exists>k s n. pendsv_entry (list_env config0) 0xffffffed (core0, k0) = Inr (k, s) \<and> n \<in> {0, 1, 2, 3} \<and> cur_task s = Some n
     \<and> live_ctxt k = (if n = 1 then live_ctxt core0 else t_ctxt (task0 n))"
proof -
  have m: "msp (sysr core0) = CONTIGUOUS_STACK_BOTTOM (kconf (list_env config0))" by (simp add: core0_def g0_def list_env_def config0_def)
  have p: "rq_free (\<lambda>q. q) k0" "suspend_cnt k0 = 0" by (simp_all add: rq_free_def)
  have cand: "candidates (lists k0) 1 k0 = [0, 2, 3, 1]" by (simp add: candidates_def k0_def lists0_def task0_def)
  from context_switch_transparent[OF le.kernel_lib_axioms[of config0] k0_sched_ok p, of core0, unfolded if_P[OF m] cand]
  show ?thesis by (elim exE conjE) (intro exI conjI, assumption, auto)
qed

end
