(* ===== verification/Memops.thy ===== *)
theory Memops
  imports Hopter_Prelude
begin

text \<open>
  The memory functions in assembly: \<open>src/assembly/memops.rs\<close> and \<open>src/assembly/aeabi_memops.rs\<close>, for
  armv7em and armv6m. A small semantics of the Thumb instructions that they use executes the listings.
  The addresses that the linker gives to the symbols are a parameter.
\<close>

section \<open>Instructions\<close>

datatype reg = R0 | R1 | R2 | R3 | R12

text \<open>The functions; the other names of the ABI are aliases.\<close>

datatype sym = Memset | Memclr | Memcpy | Memcpy_fwd | Memmove | Aeabi_memset | Aeabi_memclr

text \<open>A local label is the index of its instruction. A load or store with post-indexing adds the last
  operand to the address register; without it the operand is 0. An offset may be in a register.\<close>

datatype instr =
    Cbz reg nat | Mov reg reg | Subs reg u32 | Adds reg u32 | Adds_reg reg reg | Eors reg reg
  | Ldrb reg reg u32 | Strb reg reg u32 | Ldrb_reg reg reg reg | Strb_reg reg reg reg
  | Cmp_imm reg u32 | Cmp reg reg | Bne nat | Beq nat | Ble nat
  | B_sym sym | Ldr_sym reg sym | Bx reg | Bx_lr

record machine =
  regs :: "reg \<Rightarrow> u32"
  flag_n :: bool
  flag_z :: bool
  flag_v :: bool
  bytes :: "u32 \<Rightarrow> 8 word"

datatype arch = Armv7em | Armv6m

section \<open>The listings\<close>

fun memset_text :: "arch \<Rightarrow> instr list" where
  "memset_text Armv7em = [Cbz R2 5, Mov R3 R0, Subs R2 1, Strb R1 R3 1, Bne 2, Bx_lr]"
| "memset_text Armv6m = [Cmp_imm R2 0, Beq 7, Mov R3 R0, Strb R1 R3 0, Adds R3 1, Subs R2 1, Bne 3, Bx_lr]"

fun memclr_text :: "arch \<Rightarrow> instr list" where
  "memclr_text Armv7em = [Mov R2 R1, Eors R1 R1, B_sym Memset]"
| "memclr_text Armv6m = [Mov R2 R1, Eors R1 R1, Ldr_sym R3 Memset, Bx R3]"

fun memcpy_text :: "arch \<Rightarrow> instr list" where
  "memcpy_text Armv7em = [Cbz R2 5, Subs R2 1, Ldrb_reg R3 R1 R2, Strb_reg R3 R0 R2, Bne 1, Bx_lr]"
| "memcpy_text Armv6m = [Cmp_imm R2 0, Beq 6, Subs R2 1, Ldrb_reg R3 R1 R2, Strb_reg R3 R0 R2, Bne 2, Bx_lr]"

fun memcpy_fwd_text :: "arch \<Rightarrow> instr list" where
  "memcpy_fwd_text Armv7em =
     [Cbz R2 8, Mov R12 R0, Adds_reg R2 R0, Ldrb R3 R1 1, Strb R3 R0 1, Cmp R2 R0, Bne 3, Mov R0 R12, Bx_lr]"
| "memcpy_fwd_text Armv6m =
     [Cmp_imm R2 0, Beq 11, Mov R12 R0, Adds_reg R2 R0, Ldrb R3 R1 0, Adds R1 1, Strb R3 R0 0, Adds R0 1, Cmp R2 R0, Bne 4,
      Mov R0 R12, Bx_lr]"

fun memmove_text :: "arch \<Rightarrow> instr list" where
  "memmove_text Armv7em = [Cmp R0 R1, Ble 3, B_sym Memcpy, B_sym Memcpy_fwd]"
| "memmove_text Armv6m = [Cmp R0 R1, Ble 4, Ldr_sym R3 Memcpy, Bx R3, Ldr_sym R3 Memcpy_fwd, Bx R3]"

fun aeabi_memset_text :: "arch \<Rightarrow> instr list" where
  "aeabi_memset_text Armv7em = [Mov R3 R2, Mov R2 R1, Mov R1 R3, B_sym Memset]"
| "aeabi_memset_text Armv6m = [Mov R3 R2, Mov R2 R1, Mov R1 R3, Ldr_sym R3 Memset, Bx R3]"

fun aeabi_memclr_text :: "arch \<Rightarrow> instr list" where
  "aeabi_memclr_text Armv7em = [Mov R2 R1, Eors R1 R1, B_sym Memset]"
| "aeabi_memclr_text Armv6m = [Mov R2 R1, Eors R1 R1, Ldr_sym R3 Memset, Bx R3]"

fun asm_text :: "arch \<Rightarrow> sym \<Rightarrow> instr list" where
  "asm_text A Memset = memset_text A"
| "asm_text A Memclr = memclr_text A"
| "asm_text A Memcpy = memcpy_text A"
| "asm_text A Memcpy_fwd = memcpy_fwd_text A"
| "asm_text A Memmove = memmove_text A"
| "asm_text A Aeabi_memset = aeabi_memset_text A"
| "asm_text A Aeabi_memclr = aeabi_memclr_text A"

definition aeabi_alias :: "(string \<times> sym) list" where
  "aeabi_alias =
     [(''__aeabi_memset4'', Aeabi_memset), (''__aeabi_memset8'', Aeabi_memset),
      (''__aeabi_memcpy'', Memcpy), (''__aeabi_memcpy4'', Memcpy), (''__aeabi_memcpy8'', Memcpy),
      (''__aeabi_memclr4'', Aeabi_memclr), (''__aeabi_memclr8'', Aeabi_memclr),
      (''__aeabi_memmove'', Memmove), (''__aeabi_memmove4'', Memmove), (''__aeabi_memmove8'', Memmove)]"

section \<open>Execution\<close>

text \<open>What the linker provides: the address of a symbol, and the symbol at an address.\<close>

record linkage =
  sym_addr :: "sym \<Rightarrow> u32"
  sym_at :: "u32 \<Rightarrow> sym option"

definition linked :: "linkage \<Rightarrow> bool" where
  "linked L \<longleftrightarrow> (\<forall>f. sym_at L (sym_addr L f) = Some f)"

datatype outcome = Goto sym nat machine | Return machine | Fault

definition set_reg :: "reg \<Rightarrow> u32 \<Rightarrow> machine \<Rightarrow> machine" where
  "set_reg r v m = m\<lparr>regs := (regs m)(r := v)\<rparr>"

text \<open>The flags of a result, and of a comparison; no branch of the listings reads the carry flag.\<close>

definition set_nz :: "u32 \<Rightarrow> machine \<Rightarrow> machine" where
  "set_nz v m = m\<lparr>flag_n := sint v < 0, flag_z := v = 0\<rparr>"

definition compare :: "u32 \<Rightarrow> u32 \<Rightarrow> machine \<Rightarrow> machine" where
  "compare a b m = (set_nz (a - b) m)\<lparr>flag_v := sint (a - b) \<noteq> sint a - sint b\<rparr>"

definition add_flags :: "u32 \<Rightarrow> u32 \<Rightarrow> machine \<Rightarrow> machine" where
  "add_flags a b m = (set_nz (a + b) m)\<lparr>flag_v := sint (a + b) \<noteq> sint a + sint b\<rparr>"

definition branch :: "bool \<Rightarrow> sym \<Rightarrow> nat \<Rightarrow> nat \<Rightarrow> machine \<Rightarrow> outcome" where
  "branch c f l pc m = Goto f (if c then l else pc + 1) m"

fun exec_instr :: "linkage \<Rightarrow> sym \<Rightarrow> nat \<Rightarrow> instr \<Rightarrow> machine \<Rightarrow> outcome" where
  "exec_instr L f pc (Cbz r l) m = branch (regs m r = 0) f l pc m"
| "exec_instr L f pc (Mov r s) m = Goto f (pc + 1) (set_reg r (regs m s) m)"
| "exec_instr L f pc (Subs r k) m = Goto f (pc + 1) (set_reg r (regs m r - k) (compare (regs m r) k m))"
| "exec_instr L f pc (Adds r k) m = Goto f (pc + 1) (set_reg r (regs m r + k) (add_flags (regs m r) k m))"
| "exec_instr L f pc (Adds_reg r s) m = Goto f (pc + 1) (set_reg r (regs m r + regs m s) (add_flags (regs m r) (regs m s) m))"
| "exec_instr L f pc (Eors r s) m = (let v = regs m r XOR regs m s in Goto f (pc + 1) (set_reg r v (set_nz v m)))"
| "exec_instr L f pc (Ldrb r s k) m = Goto f (pc + 1) (set_reg r (ucast (bytes m (regs m s))) (set_reg s (regs m s + k) m))"
| "exec_instr L f pc (Strb r s k) m =
     Goto f (pc + 1) (set_reg s (regs m s + k) (m\<lparr>bytes := (bytes m)(regs m s := ucast (regs m r))\<rparr>))"
| "exec_instr L f pc (Ldrb_reg r s t) m = Goto f (pc + 1) (set_reg r (ucast (bytes m (regs m s + regs m t))) m)"
| "exec_instr L f pc (Strb_reg r s t) m = Goto f (pc + 1) (m\<lparr>bytes := (bytes m)(regs m s + regs m t := ucast (regs m r))\<rparr>)"
| "exec_instr L f pc (Cmp_imm r k) m = Goto f (pc + 1) (compare (regs m r) k m)"
| "exec_instr L f pc (Cmp r s) m = Goto f (pc + 1) (compare (regs m r) (regs m s) m)"
| "exec_instr L f pc (Bne l) m = branch (\<not> flag_z m) f l pc m"
| "exec_instr L f pc (Beq l) m = branch (flag_z m) f l pc m"
| "exec_instr L f pc (Ble l) m = branch (flag_z m \<or> flag_n m \<noteq> flag_v m) f l pc m"
| "exec_instr L f pc (B_sym g) m = Goto g 0 m"
| "exec_instr L f pc (Ldr_sym r g) m = Goto f (pc + 1) (set_reg r (sym_addr L g) m)"
| "exec_instr L f pc (Bx r) m = (case sym_at L (regs m r) of Some g \<Rightarrow> Goto g 0 m | None \<Rightarrow> Fault)"
| "exec_instr L f pc Bx_lr m = Return m"

text \<open>A run up to the return; \<open>None\<close> if it leaves the listings or never returns.\<close>

partial_function (option) run_asm :: "arch \<Rightarrow> linkage \<Rightarrow> sym \<Rightarrow> nat \<Rightarrow> machine \<Rightarrow> machine option" where
  "run_asm A L f pc m =
     (if pc < length (asm_text A f)
      then case exec_instr L f pc (asm_text A f ! pc) m of
             Goto g l m \<Rightarrow> run_asm A L g l m
           | Return m \<Rightarrow> Some m
           | Fault \<Rightarrow> None
      else None)"

section \<open>Reference definitions\<close>

text \<open>Over the addresses modulo \<open>2 ^ 32\<close>.\<close>

definition ref_set :: "u32 \<Rightarrow> 8 word \<Rightarrow> nat \<Rightarrow> (u32 \<Rightarrow> 8 word) \<Rightarrow> u32 \<Rightarrow> 8 word" where
  "ref_set d v n mem = (\<lambda>a. if unat (a - d) < n then v else mem a)"

definition ref_copy :: "u32 \<Rightarrow> u32 \<Rightarrow> nat \<Rightarrow> (u32 \<Rightarrow> 8 word) \<Rightarrow> u32 \<Rightarrow> 8 word" where
  "ref_copy d s n mem = (\<lambda>a. if unat (a - d) < n then mem (s + (a - d)) else mem a)"

lemma unat_pred: "(x :: u32) \<noteq> 0 \<Longrightarrow> unat (x - 1) = unat x - 1"
  by (simp add: unat_gt_0 unat_sub_if' Suc_leI)

lemma ref_set_step:
  assumes "k < 2 ^ 32 - 1"
  shows "ref_set (d + 1) v k (mem(d := v)) = ref_set d v (Suc k) mem"
proof
  fix a
  have "a = d \<or> unat (a - (d + 1)) = unat (a - d) - 1 \<and> 0 < unat (a - d)"
    using unat_pred[of "a - d"] by (auto simp: algebra_simps unat_gt_0)
  then show "ref_set (d + 1) v k (mem(d := v)) a = ref_set d v (Suc k) mem a" by (auto simp: ref_set_def)
qed

lemma ref_copy_one: "ref_copy d s (Suc 0) mem = mem(d := mem s)"
  by (auto simp: ref_copy_def fun_eq_iff unat_eq_0)

lemma ref_copy_back:
  assumes "s = d \<or> Suc k \<le> unat (s - d)" "k < 2 ^ 32"
  shows "ref_copy d s k (mem(d + of_nat k := mem (s + of_nat k))) = ref_copy d s (Suc k) mem"
proof
  fix a
  let ?j = "unat (a - d)"
  have k: "unat (of_nat k :: u32) = k" using assms(2) by (simp add: unat_of_nat take_bit_nat_eq_self)
  have a: "a = d + of_nat k \<longleftrightarrow> ?j = k" using k word_unat_eq_iff[of "a - d" "of_nat k"] by (auto simp: algebra_simps)
  have "s + (a - d) \<noteq> d + of_nat k" if "?j < k"
  proof
    assume e: "s + (a - d) = d + of_nat k"
    then have sd: "s - d = of_nat k - (a - d)" by (simp add: algebra_simps)
    have "unat (of_nat k - (a - d)) = k - ?j" using unat_sub[of "a - d" "of_nat k"] that k by (simp only: word_le_nat_alt)
    then have "unat (s - d) = k - ?j" unfolding sd .
    then show False using assms(1) that by auto
  qed
  moreover have "s + (a - d) = s + of_nat k" if "?j = k" using that a by simp
  ultimately show "ref_copy d s k (mem(d + of_nat k := mem (s + of_nat k))) a = ref_copy d s (Suc k) mem a"
    using a by (auto simp: ref_copy_def less_Suc_eq)
qed

lemma ref_copy_fwd:
  assumes "d = s \<or> Suc k \<le> unat (d - s)" "k < 2 ^ 32 - 1"
  shows "ref_copy (d + 1) (s + 1) k (mem(d := mem s)) = ref_copy d s (Suc k) mem"
proof
  fix a
  have *: "a = d \<or> unat (a - (d + 1)) = unat (a - d) - 1 \<and> 0 < unat (a - d)"
    using unat_pred[of "a - d"] by (auto simp: algebra_simps unat_gt_0)
  have "s + (a - d) \<noteq> d" if "a \<noteq> d" "unat (a - d) < Suc k"
  proof
    assume "s + (a - d) = d"
    then have "a - d = d - s" by (simp add: algebra_simps)
    then show False using assms(1) that by auto
  qed
  moreover have "s + 1 + (a - (d + 1)) = s + (a - d)" by simp
  ultimately show "ref_copy (d + 1) (s + 1) k (mem(d := mem s)) a = ref_copy d s (Suc k) mem a"
    using * assms(2) by (auto simp: ref_copy_def)
qed

section \<open>The loops\<close>

lemma byte_ucast [simp]: "ucast (ucast (b :: 8 word) :: u32) = b"
  by (simp add: ucast_up_ucast_id is_up)

lemmas exec_simps = branch_def compare_def add_flags_def set_nz_def set_reg_def

text \<open>One round of each loop.\<close>

lemma memset_round:
  "\<exists>m'. regs m' = (regs m)(R2 := regs m R2 - 1, R3 := regs m R3 + 1) \<and> bytes m' = (bytes m)(regs m R3 := ucast (regs m R1))
    \<and> run_asm Armv7em L Memset 2 m = (if regs m R2 = 1 then Some m' else run_asm Armv7em L Memset 2 m')"
  "\<exists>m'. regs m' = (regs m)(R2 := regs m R2 - 1, R3 := regs m R3 + 1) \<and> bytes m' = (bytes m)(regs m R3 := ucast (regs m R1))
    \<and> run_asm Armv6m L Memset 3 m = (if regs m R2 = 1 then Some m' else run_asm Armv6m L Memset 3 m')"
proof (goal_cases)
  case 1
  show ?case
    by (rule exI[of _ "set_reg R3 (regs m R3 + 1) ((set_reg R2 (regs m R2 - 1) (compare (regs m R2) 1 m))\<lparr>bytes := (bytes m)(regs m R3 := ucast (regs m R1))\<rparr>)"],
        subst run_asm.simps)
       (simp add: exec_simps run_asm.simps[of Armv7em L Memset 3] run_asm.simps[of Armv7em L Memset 4] run_asm.simps[of Armv7em L Memset 5])
next
  case 2
  show ?case
    by (rule exI[of _ "set_reg R2 (regs m R2 - 1) (compare (regs m R2) 1 (set_reg R3 (regs m R3 + 1)
          (add_flags (regs m R3) 1 (m\<lparr>bytes := (bytes m)(regs m R3 := ucast (regs m R1))\<rparr>))))"], subst run_asm.simps)
       (simp add: exec_simps fun_upd_twist run_asm.simps[of Armv6m L Memset 4] run_asm.simps[of Armv6m L Memset 5] run_asm.simps[of Armv6m L Memset 6]
         run_asm.simps[of Armv6m L Memset 7])
qed

lemma memcpy_round:
  "\<exists>m'. regs m' = (regs m)(R2 := regs m R2 - 1, R3 := ucast (bytes m (regs m R1 + (regs m R2 - 1))))
    \<and> bytes m' = (bytes m)(regs m R0 + (regs m R2 - 1) := bytes m (regs m R1 + (regs m R2 - 1)))
    \<and> run_asm Armv7em L Memcpy 1 m = (if regs m R2 = 1 then Some m' else run_asm Armv7em L Memcpy 1 m')"
  "\<exists>m'. regs m' = (regs m)(R2 := regs m R2 - 1, R3 := ucast (bytes m (regs m R1 + (regs m R2 - 1))))
    \<and> bytes m' = (bytes m)(regs m R0 + (regs m R2 - 1) := bytes m (regs m R1 + (regs m R2 - 1)))
    \<and> run_asm Armv6m L Memcpy 2 m = (if regs m R2 = 1 then Some m' else run_asm Armv6m L Memcpy 2 m')"
proof (goal_cases)
  let ?i = "regs m R2 - 1"
  let ?m = "(set_reg R3 (ucast (bytes m (regs m R1 + ?i))) (set_reg R2 ?i (compare (regs m R2) 1 m)))\<lparr>bytes := (bytes m)(regs m R0 + ?i := bytes m (regs m R1 + ?i))\<rparr>"
  case 1
  show ?case
    by (rule exI[of _ ?m], subst run_asm.simps)
       (simp add: exec_simps run_asm.simps[of Armv7em L Memcpy "Suc (Suc 0)"] run_asm.simps[of Armv7em L Memcpy "Suc (Suc (Suc 0))"] run_asm.simps[of Armv7em L Memcpy "Suc (Suc (Suc (Suc 0)))"]
         run_asm.simps[of Armv7em L Memcpy "Suc (Suc (Suc (Suc (Suc 0))))"])
  case 2
  show ?case
    by (rule exI[of _ ?m], subst run_asm.simps)
       (simp add: exec_simps run_asm.simps[of Armv6m L Memcpy 3] run_asm.simps[of Armv6m L Memcpy 4] run_asm.simps[of Armv6m L Memcpy 5]
         run_asm.simps[of Armv6m L Memcpy 6])
qed

lemma memcpy_fwd_round:
  "\<exists>m'. regs m' = (regs m)(R3 := ucast (bytes m (regs m R1)), R1 := regs m R1 + 1, R0 := regs m R0 + 1) \<and> bytes m' = (bytes m)(regs m R0 := bytes m (regs m R1))
    \<and> run_asm Armv7em L Memcpy_fwd 3 m = run_asm Armv7em L Memcpy_fwd (if regs m R2 = regs m R0 + 1 then 7 else 3) m'"
  "\<exists>m'. regs m' = (regs m)(R3 := ucast (bytes m (regs m R1)), R1 := regs m R1 + 1, R0 := regs m R0 + 1) \<and> bytes m' = (bytes m)(regs m R0 := bytes m (regs m R1))
    \<and> run_asm Armv6m L Memcpy_fwd 4 m = run_asm Armv6m L Memcpy_fwd (if regs m R2 = regs m R0 + 1 then 10 else 4) m'"
proof (goal_cases)
  case 1
  show ?case
    by (rule exI[of _ "compare (regs m R2) (regs m R0 + 1) (set_reg R0 (regs m R0 + 1)
          ((set_reg R3 (ucast (bytes m (regs m R1))) (set_reg R1 (regs m R1 + 1) m))\<lparr>bytes := (bytes m)(regs m R0 := bytes m (regs m R1))\<rparr>))"], subst run_asm.simps)
       (simp add: exec_simps fun_upd_twist run_asm.simps[of Armv7em L Memcpy_fwd 4] run_asm.simps[of Armv7em L Memcpy_fwd 5] run_asm.simps[of Armv7em L Memcpy_fwd 6])
  case 2
  show ?case
    by (rule exI[of _ "compare (regs m R2) (regs m R0 + 1) (set_reg R0 (regs m R0 + 1) (add_flags (regs m R0) 1
          ((set_reg R1 (regs m R1 + 1) (add_flags (regs m R1) 1 (set_reg R3 (ucast (bytes m (regs m R1))) m)))\<lparr>bytes := (bytes m)(regs m R0 := bytes m (regs m R1))\<rparr>)))"],
        subst run_asm.simps)
       (simp add: exec_simps fun_upd_twist run_asm.simps[of Armv6m L Memcpy_fwd 5] run_asm.simps[of Armv6m L Memcpy_fwd 6] run_asm.simps[of Armv6m L Memcpy_fwd 7]
         run_asm.simps[of Armv6m L Memcpy_fwd 8] run_asm.simps[of Armv6m L Memcpy_fwd 9])
qed

text \<open>A loop for \<open>n\<close> bytes ends, leaves the register of the result and computes the reference.\<close>

definition loop_ends :: "arch \<Rightarrow> linkage \<Rightarrow> sym \<Rightarrow> nat \<Rightarrow> machine \<Rightarrow> u32 \<Rightarrow> (u32 \<Rightarrow> 8 word) \<Rightarrow> bool" where
  "loop_ends A L f l m v mem \<longleftrightarrow> (\<exists>m'. run_asm A L f l m = Some m' \<and> regs m' R0 = v \<and> bytes m' = mem)"

lemma loop_last: "run_asm A L f l m = Some m' \<Longrightarrow> regs m' R0 = v \<Longrightarrow> bytes m' = mem \<Longrightarrow> loop_ends A L f l m v mem"
  by (simp add: loop_ends_def)

lemma loop_again: "run_asm A L f l m = run_asm A L g k m' \<Longrightarrow> loop_ends A L g k m' v mem \<Longrightarrow> loop_ends A L f l m v mem"
  by (simp add: loop_ends_def)

lemma Suc_bound: "unat (x :: u32) = Suc k \<Longrightarrow> k < 2 ^ 32 - 1"
  using unsigned_less[of x, where ?'a = nat] by simp

lemma memset_either:
  "A = Armv7em \<and> l = 2 \<or> A = Armv6m \<and> l = 3 \<Longrightarrow>
    \<exists>m'. regs m' = (regs m)(R2 := regs m R2 - 1, R3 := regs m R3 + 1) \<and> bytes m' = (bytes m)(regs m R3 := ucast (regs m R1))
    \<and> run_asm A L Memset l m = (if regs m R2 = 1 then Some m' else run_asm A L Memset l m')"
  by (elim disjE conjE; hypsubst; rule memset_round)

lemma memcpy_either:
  "A = Armv7em \<and> l = 1 \<or> A = Armv6m \<and> l = 2 \<Longrightarrow>
    \<exists>m'. regs m' = (regs m)(R2 := regs m R2 - 1, R3 := ucast (bytes m (regs m R1 + (regs m R2 - 1))))
    \<and> bytes m' = (bytes m)(regs m R0 + (regs m R2 - 1) := bytes m (regs m R1 + (regs m R2 - 1)))
    \<and> run_asm A L Memcpy l m = (if regs m R2 = 1 then Some m' else run_asm A L Memcpy l m')"
  by (elim disjE conjE; hypsubst; rule memcpy_round)

lemma memcpy_fwd_either:
  "A = Armv7em \<and> l = 3 \<and> e = 7 \<or> A = Armv6m \<and> l = 4 \<and> e = 10 \<Longrightarrow>
    \<exists>m'. regs m' = (regs m)(R3 := ucast (bytes m (regs m R1)), R1 := regs m R1 + 1, R0 := regs m R0 + 1)
    \<and> bytes m' = (bytes m)(regs m R0 := bytes m (regs m R1))
    \<and> run_asm A L Memcpy_fwd l m = run_asm A L Memcpy_fwd (if regs m R2 = regs m R0 + 1 then e else l) m'"
  by (elim disjE conjE; hypsubst; rule memcpy_fwd_round)

lemma unat_Suc_Suc:
  assumes "unat (x :: u32) = Suc (Suc k)"
  shows "x \<noteq> 1" "unat (x - 1) = Suc k"
proof -
  have "x \<noteq> 0" using assms by auto
  then show "x \<noteq> 1" "unat (x - 1) = Suc k" using unat_pred[of x] assms by auto
qed

lemma memset_loop:
  assumes "A = Armv7em \<and> l = 2 \<or> A = Armv6m \<and> l = 3" "unat (regs m R2) = Suc k"
  shows "loop_ends A L Memset l m (regs m R0) (ref_set (regs m R3) (ucast (regs m R1)) (Suc k) (bytes m))"
  using assms(2)
proof (induction k arbitrary: m)
  case (0 m)
  then have "regs m R2 = 1" by (simp add: word_unat_eq_iff)
  then obtain m' where "regs m' = (regs m)(R2 := 0, R3 := regs m R3 + 1)" "bytes m' = (bytes m)(regs m R3 := ucast (regs m R1))" "run_asm A L Memset l m = Some m'"
    using memset_either[OF assms(1), of m L] by auto
  moreover have "ref_set d v (Suc 0) mem = mem(d := v)" for d v mem by (auto simp: ref_set_def fun_eq_iff unat_eq_0)
  ultimately show ?case by (auto simp: loop_ends_def)
next
  case (Suc k m)
  note r = unat_Suc_Suc[OF Suc.prems(1)]
  obtain m' where m': "regs m' = (regs m)(R2 := regs m R2 - 1, R3 := regs m R3 + 1)" "bytes m' = (bytes m)(regs m R3 := ucast (regs m R1))"
    "run_asm A L Memset l m = run_asm A L Memset l m'"
    using memset_either[OF assms(1), of m L] r(1) by auto
  have r': "regs m' R0 = regs m R0" "regs m' R1 = regs m R1" "regs m' R2 = regs m R2 - 1" "regs m' R3 = regs m R3 + 1" by (simp_all add: m'(1))
  have e: "ref_set (regs m' R3) (ucast (regs m' R1)) (Suc k) (bytes m') = ref_set (regs m R3) (ucast (regs m R1)) (Suc (Suc k)) (bytes m)"
    unfolding r' m'(2) by (rule ref_set_step[OF Suc_bound[OF Suc.prems]])
  show ?case by (rule loop_again[OF m'(3) Suc.IH[of m', unfolded e, unfolded r', OF r(2)]])
qed

lemma memcpy_loop:
  assumes "A = Armv7em \<and> l = 1 \<or> A = Armv6m \<and> l = 2" "unat (regs m R2) = Suc k" "regs m R1 = regs m R0 \<or> Suc k \<le> unat (regs m R1 - regs m R0)"
  shows "loop_ends A L Memcpy l m (regs m R0) (ref_copy (regs m R0) (regs m R1) (Suc k) (bytes m))"
  using assms(2,3)
proof (induction k arbitrary: m)
  case (0 m)
  then have r: "regs m R2 = 1" by (simp add: word_unat_eq_iff)
  obtain m' where "regs m' = (regs m)(R2 := 0, R3 := ucast (bytes m (regs m R1)))" "bytes m' = (bytes m)(regs m R0 := bytes m (regs m R1))"
    "run_asm A L Memcpy l m = Some m'" using memcpy_either[OF assms(1), of m L] r by auto
  then show ?case by (auto simp: loop_ends_def ref_copy_one)
next
  case (Suc k m)
  note r = unat_Suc_Suc[OF Suc.prems(1)]
  then have i: "regs m R2 - 1 = of_nat (Suc k)" by (metis of_nat_unat ucast_id)
  obtain m' where m': "regs m' = (regs m)(R2 := regs m R2 - 1, R3 := ucast (bytes m (regs m R1 + (regs m R2 - 1))))"
    "bytes m' = (bytes m)(regs m R0 + of_nat (Suc k) := bytes m (regs m R1 + of_nat (Suc k)))" "run_asm A L Memcpy l m = run_asm A L Memcpy l m'"
    using memcpy_either[OF assms(1), of m L] r(1) unfolding i[symmetric] by auto
  have r': "regs m' R0 = regs m R0" "regs m' R1 = regs m R1" "regs m' R2 = regs m R2 - 1" by (simp_all add: m'(1))
  have k: "Suc k < 2 ^ 32" "regs m R1 = regs m R0 \<or> Suc k \<le> unat (regs m R1 - regs m R0)" using Suc_bound[OF Suc.prems(1)] Suc.prems(2) by auto
  have e: "ref_copy (regs m' R0) (regs m' R1) (Suc k) (bytes m') = ref_copy (regs m R0) (regs m R1) (Suc (Suc k)) (bytes m)"
    unfolding r' m'(2) by (rule ref_copy_back[OF Suc.prems(2) k(1)])
  show ?case by (rule loop_again[OF m'(3) Suc.IH[of m', unfolded e, unfolded r', OF r(2) k(2)]])
qed

lemma memcpy_fwd_end: "A = Armv7em \<and> l = 7 \<or> A = Armv6m \<and> l = 10 \<Longrightarrow> loop_ends A L Memcpy_fwd l m (regs m R12) (bytes m)"
  unfolding loop_ends_def
  by (elim disjE conjE; simp; subst run_asm.simps)
     (simp_all add: exec_simps run_asm.simps[of Armv7em L Memcpy_fwd 8] run_asm.simps[of Armv6m L Memcpy_fwd 11])

lemma memcpy_fwd_loop:
  assumes "A = Armv7em \<and> l = 3 \<or> A = Armv6m \<and> l = 4" "unat (regs m R2 - regs m R0) = Suc k" "regs m R0 = regs m R1 \<or> Suc k \<le> unat (regs m R0 - regs m R1)"
  shows "loop_ends A L Memcpy_fwd l m (regs m R12) (ref_copy (regs m R0) (regs m R1) (Suc k) (bytes m))"
  using assms(2,3)
proof (induction k arbitrary: m)
  define e :: nat where "e = (if A = Armv7em then 7 else 10)"
  have N: "\<exists>m'. regs m' = (regs m)(R3 := ucast (bytes m (regs m R1)), R1 := regs m R1 + 1, R0 := regs m R0 + 1)
    \<and> bytes m' = (bytes m)(regs m R0 := bytes m (regs m R1))
    \<and> run_asm A L Memcpy_fwd l m = run_asm A L Memcpy_fwd (if regs m R2 = regs m R0 + 1 then e else l) m'" for m
    by (rule memcpy_fwd_either) (use assms(1) in \<open>auto simp: e_def\<close>)
  have E: "A = Armv7em \<and> e = 7 \<or> A = Armv6m \<and> e = 10" using assms(1) by (auto simp: e_def)
  {
    case (0 m)
    then have "regs m R2 - regs m R0 = 1" by (simp add: word_unat_eq_iff)
    then have r: "regs m R2 = regs m R0 + 1" by (simp add: algebra_simps)
    obtain m' where m': "regs m' = (regs m)(R3 := ucast (bytes m (regs m R1)), R1 := regs m R1 + 1, R0 := regs m R0 + 1)"
      "bytes m' = (bytes m)(regs m R0 := bytes m (regs m R1))" "run_asm A L Memcpy_fwd l m = run_asm A L Memcpy_fwd e m'"
      using N[of m, unfolded if_P[OF r]] by blast
    have "regs m' R12 = regs m R12" by (simp add: m'(1))
    then show ?case using loop_again[OF m'(3) memcpy_fwd_end[OF E]] unfolding ref_copy_one m'(2) by (simp add: fun_upd_def)
  next
    case (Suc k m)
    have r: "regs m R2 \<noteq> regs m R0 + 1" "unat (regs m R2 - (regs m R0 + 1)) = Suc k"
      using unat_Suc_Suc[OF Suc.prems(1)] by (auto simp: algebra_simps)
    obtain m' where m': "regs m' = (regs m)(R3 := ucast (bytes m (regs m R1)), R1 := regs m R1 + 1, R0 := regs m R0 + 1)"
      "bytes m' = (bytes m)(regs m R0 := bytes m (regs m R1))" "run_asm A L Memcpy_fwd l m = run_asm A L Memcpy_fwd l m'"
      using N[of m, unfolded if_not_P[OF r(1)]] by blast
    have s: "regs m R0 + 1 = regs m R1 + 1 \<or> Suc k \<le> unat (regs m R0 + 1 - (regs m R1 + 1))" using Suc.prems(2) by auto
    have r': "regs m' R0 = regs m R0 + 1" "regs m' R1 = regs m R1 + 1" "regs m' R2 = regs m R2" "regs m' R12 = regs m R12" by (simp_all add: m'(1))
    have e: "ref_copy (regs m' R0) (regs m' R1) (Suc k) (bytes m') = ref_copy (regs m R0) (regs m R1) (Suc (Suc k)) (bytes m)"
      unfolding r' m'(2) by (rule ref_copy_fwd[OF Suc.prems(2) Suc_bound[OF Suc.prems(1)]])
    show ?case by (rule loop_again[OF m'(3) Suc.IH[of m', unfolded e, unfolded r', OF r(2) s]])
  }
qed

section \<open>The functions\<close>

text \<open>The effect of each function on the memory, by its arguments in the registers.\<close>

fun mem_spec :: "sym \<Rightarrow> (reg \<Rightarrow> u32) \<Rightarrow> (u32 \<Rightarrow> 8 word) \<Rightarrow> u32 \<Rightarrow> 8 word" where
  "mem_spec Memset r = ref_set (r R0) (ucast (r R1)) (unat (r R2))"
| "mem_spec Aeabi_memset r = ref_set (r R0) (ucast (r R2)) (unat (r R1))"
| "mem_spec Memclr r = ref_set (r R0) 0 (unat (r R1))"
| "mem_spec Aeabi_memclr r = ref_set (r R0) 0 (unat (r R1))"
| "mem_spec Memcpy r = ref_copy (r R0) (r R1) (unat (r R2))"
| "mem_spec Memcpy_fwd r = ref_copy (r R0) (r R1) (unat (r R2))"
| "mem_spec Memmove r = ref_copy (r R0) (r R1) (unat (r R2))"

text \<open>When a copy must be right: the regions of \<open>memcpy\<close>, which copies from the end, and of
  \<open>memcpy_fwd\<close> overlap in the direction of the copy only, the regions of \<open>memmove\<close> do not wrap around
  and, if they overlap, lie in the same half of the address space.\<close>

fun args_ok :: "sym \<Rightarrow> (reg \<Rightarrow> u32) \<Rightarrow> bool" where
  "args_ok Memcpy r \<longleftrightarrow> r R1 = r R0 \<or> unat (r R2) \<le> unat (r R1 - r R0)"
| "args_ok Memcpy_fwd r \<longleftrightarrow> r R0 = r R1 \<or> unat (r R2) \<le> unat (r R0 - r R1)"
| "args_ok Memmove r \<longleftrightarrow> unat (r R0) + unat (r R2) \<le> 2 ^ 32 \<and> unat (r R1) + unat (r R2) \<le> 2 ^ 32
     \<and> ((r R0 < 0x80000000 \<longleftrightarrow> r R1 < 0x80000000) \<or> unat (r R0) + unat (r R2) \<le> unat (r R1) \<or> unat (r R1) + unat (r R2) \<le> unat (r R0))"
| "args_ok _ _ \<longleftrightarrow> True"

text \<open>From the entry to the loop, or to the return if there are no bytes.\<close>

lemma memset_entry:
  "run_asm Armv7em L Memset 0 m = (if regs m R2 = 0 then Some m else run_asm Armv7em L Memset 2 (set_reg R3 (regs m R0) m))"
  "run_asm Armv6m L Memset 0 m = (let m = compare (regs m R2) 0 m in if regs m R2 = 0 then Some m else run_asm Armv6m L Memset 3 (set_reg R3 (regs m R0) m))"
  by (simp_all add: Let_def exec_simps eval_nat_numeral run_asm.simps[of _ L Memset 0] run_asm.simps[of Armv7em L Memset "Suc 0"] run_asm.simps[of Armv6m L Memset "Suc 0"]
      run_asm.simps[of Armv6m L Memset "Suc (Suc 0)"] run_asm.simps[of Armv7em L Memset "Suc (Suc (Suc (Suc (Suc 0))))"]
      run_asm.simps[of Armv6m L Memset "Suc (Suc (Suc (Suc (Suc (Suc (Suc 0))))))"])

lemma memcpy_entry:
  "run_asm Armv7em L Memcpy 0 m = (if regs m R2 = 0 then Some m else run_asm Armv7em L Memcpy 1 m)"
  "run_asm Armv6m L Memcpy 0 m = (let m = compare (regs m R2) 0 m in if regs m R2 = 0 then Some m else run_asm Armv6m L Memcpy 2 m)"
  by (simp_all add: Let_def exec_simps eval_nat_numeral run_asm.simps[of _ L Memcpy 0] run_asm.simps[of Armv6m L Memcpy "Suc 0"]
      run_asm.simps[of Armv7em L Memcpy "Suc (Suc (Suc (Suc (Suc 0))))"] run_asm.simps[of Armv6m L Memcpy "Suc (Suc (Suc (Suc (Suc (Suc 0)))))"])

lemma memcpy_fwd_entry:
  "run_asm Armv7em L Memcpy_fwd 0 m = (if regs m R2 = 0 then Some m else
     run_asm Armv7em L Memcpy_fwd 3 (set_reg R2 (regs m R2 + regs m R0) (add_flags (regs m R2) (regs m R0) (set_reg R12 (regs m R0) m))))"
  "run_asm Armv6m L Memcpy_fwd 0 m = (let m = compare (regs m R2) 0 m in if regs m R2 = 0 then Some m else
     run_asm Armv6m L Memcpy_fwd 4 (set_reg R2 (regs m R2 + regs m R0) (add_flags (regs m R2) (regs m R0) (set_reg R12 (regs m R0) m))))"
  by (simp_all add: Let_def exec_simps eval_nat_numeral run_asm.simps[of _ L Memcpy_fwd 0] run_asm.simps[of _ L Memcpy_fwd "Suc 0"] run_asm.simps[of _ L Memcpy_fwd "Suc (Suc 0)"]
      run_asm.simps[of Armv6m L Memcpy_fwd "Suc (Suc (Suc 0))"] run_asm.simps[of Armv7em L Memcpy_fwd "Suc (Suc (Suc (Suc (Suc (Suc (Suc (Suc 0)))))))"]
      run_asm.simps[of Armv6m L Memcpy_fwd "Suc (Suc (Suc (Suc (Suc (Suc (Suc (Suc (Suc (Suc (Suc 0))))))))))"])

lemma not_zero: "(x :: u32) \<noteq> 0 \<Longrightarrow> \<exists>k. unat x = Suc k"
  by (metis not0_implies_Suc unat_eq_zero)

lemma ref_none [simp]: "ref_set d v 0 mem = mem" "ref_copy d s 0 mem = mem"
  by (simp_all add: ref_set_def ref_copy_def)

lemma entry_regs [simp]:
  "regs (set_reg r v m) = (regs m)(r := v)" "bytes (set_reg r v m) = bytes m" "regs (compare a b m) = regs m" "bytes (compare a b m) = bytes m"
  "regs (add_flags a b m) = regs m" "bytes (add_flags a b m) = bytes m" "regs (set_nz a m) = regs m" "bytes (set_nz a m) = bytes m"
  by (simp_all add: exec_simps)

lemmas entries = memset_entry memcpy_entry memcpy_fwd_entry

lemma memset_start:
  assumes "regs m R2 \<noteq> 0"
  shows "run_asm Armv7em L Memset 0 m = run_asm Armv7em L Memset 2 (set_reg R3 (regs m R0) m)"
    "run_asm Armv6m L Memset 0 m = run_asm Armv6m L Memset 3 (set_reg R3 (regs m R0) (compare (regs m R2) 0 m))"
  using assms by (simp_all only: entries Let_def entry_regs if_False simp_thms)

lemma memcpy_start:
  assumes "regs m R2 \<noteq> 0"
  shows "run_asm Armv7em L Memcpy 0 m = run_asm Armv7em L Memcpy 1 m" "run_asm Armv6m L Memcpy 0 m = run_asm Armv6m L Memcpy 2 (compare (regs m R2) 0 m)"
  using assms by (simp_all only: entries Let_def entry_regs if_False simp_thms)

definition fwd_start :: "machine \<Rightarrow> machine" where
  "fwd_start m = set_reg R2 (regs m R2 + regs m R0) (add_flags (regs m R2) (regs m R0) (set_reg R12 (regs m R0) m))"

lemma memcpy_fwd_start:
  assumes "regs m R2 \<noteq> 0"
  shows "run_asm Armv7em L Memcpy_fwd 0 m = run_asm Armv7em L Memcpy_fwd 3 (fwd_start m)"
    "run_asm Armv6m L Memcpy_fwd 0 m = run_asm Armv6m L Memcpy_fwd 4 (fwd_start (compare (regs m R2) 0 m))"
  using assms by (simp_all only: entries Let_def entry_regs if_False simp_thms fwd_start_def)

lemma no_bytes:
  "regs m R2 = 0 \<Longrightarrow> f = Memset \<or> f = Memcpy \<or> f = Memcpy_fwd \<Longrightarrow> loop_ends A L f 0 m (regs m R0) (mem_spec f (regs m) (bytes m))"
  by (cases A; elim disjE; simp add: loop_ends_def entries Let_def)

lemma memset_ok: "loop_ends A L Memset 0 m (regs m R0) (mem_spec Memset (regs m) (bytes m))"
proof (cases "regs m R2 = 0")
  case True
  then show ?thesis by (intro no_bytes) simp_all
next
  case False
  then obtain k where k: "unat (regs m R2) = Suc k" using not_zero by blast
  show ?thesis
    by (cases A; simp only:; rule loop_again[OF memset_start(1)[OF False]] loop_again[OF memset_start(2)[OF False]])
       (use memset_loop[of Armv7em 2 "set_reg R3 (regs m R0) m" k L] memset_loop[of Armv6m 3 "set_reg R3 (regs m R0) (compare (regs m R2) 0 m)" k L] k in simp_all)
qed

lemma memcpy_ok:
  assumes "args_ok Memcpy (regs m)"
  shows "loop_ends A L Memcpy 0 m (regs m R0) (mem_spec Memcpy (regs m) (bytes m))"
proof (cases "regs m R2 = 0")
  case True
  then show ?thesis by (intro no_bytes) simp_all
next
  case False
  then obtain k where k: "unat (regs m R2) = Suc k" using not_zero by blast
  then have "regs m R1 = regs m R0 \<or> Suc k \<le> unat (regs m R1 - regs m R0)" using assms by simp
  then show ?thesis using k
    by (cases A; simp only:; intro loop_again[OF memcpy_start(1)[OF False]] loop_again[OF memcpy_start(2)[OF False]])
       (use memcpy_loop[of Armv7em 1 m k L] memcpy_loop[of Armv6m 2 "compare (regs m R2) 0 m" k L] in simp_all)
qed

lemma memcpy_fwd_ok:
  assumes "args_ok Memcpy_fwd (regs m)"
  shows "loop_ends A L Memcpy_fwd 0 m (regs m R0) (mem_spec Memcpy_fwd (regs m) (bytes m))"
proof (cases "regs m R2 = 0")
  case True
  then show ?thesis by (intro no_bytes) simp_all
next
  case False
  then obtain k where k: "unat (regs m R2) = Suc k" using not_zero by blast
  then have "regs m R0 = regs m R1 \<or> Suc k \<le> unat (regs m R0 - regs m R1)" using assms by simp
  then show ?thesis using k
    by (cases A; simp only:; intro loop_again[OF memcpy_fwd_start(1)[OF False]] loop_again[OF memcpy_fwd_start(2)[OF False]])
       (use memcpy_fwd_loop[of Armv7em 3 "fwd_start m" k L] memcpy_fwd_loop[of Armv6m 4 "fwd_start (compare (regs m R2) 0 m)" k L] in \<open>simp_all add: fwd_start_def\<close>)
qed

text \<open>The tail calls.\<close>

lemma memclr_ok:
  assumes "linked L" "f = Memclr \<or> f = Aeabi_memclr"
  shows "loop_ends A L f 0 m (regs m R0) (mem_spec f (regs m) (bytes m))"
proof -
  let ?m = "set_reg R1 0 (set_nz 0 (set_reg R2 (regs m R1) m))"
  let ?n = "if A = Armv7em then ?m else set_reg R3 (sym_addr L Memset) ?m"
  have "run_asm A L f 0 m = run_asm A L Memset 0 ?n"
    using assms by (cases A; elim disjE)
      (simp_all add: exec_simps linked_def eval_nat_numeral run_asm.simps[of _ L Memclr 0] run_asm.simps[of _ L Memclr "Suc 0"]
        run_asm.simps[of _ L Memclr "Suc (Suc 0)"] run_asm.simps[of _ L Memclr "Suc (Suc (Suc 0))"]
        run_asm.simps[of _ L Aeabi_memclr 0] run_asm.simps[of _ L Aeabi_memclr "Suc 0"]
        run_asm.simps[of _ L Aeabi_memclr "Suc (Suc 0)"] run_asm.simps[of _ L Aeabi_memclr "Suc (Suc (Suc 0))"])
  from loop_again[OF this] show ?thesis using memset_ok[of A L ?n] assms(2) by (auto split: if_splits)
qed

lemma aeabi_memset_ok:
  assumes "linked L"
  shows "loop_ends A L Aeabi_memset 0 m (regs m R0) (mem_spec Aeabi_memset (regs m) (bytes m))"
proof -
  let ?m = "set_reg R1 (regs m R2) (set_reg R2 (regs m R1) (set_reg R3 (regs m R2) m))"
  let ?n = "if A = Armv7em then ?m else set_reg R3 (sym_addr L Memset) ?m"
  have "run_asm A L Aeabi_memset 0 m = run_asm A L Memset 0 ?n"
    using assms by (cases A)
      (simp_all add: exec_simps linked_def eval_nat_numeral run_asm.simps[of _ L Aeabi_memset 0] run_asm.simps[of _ L Aeabi_memset "Suc 0"]
        run_asm.simps[of _ L Aeabi_memset "Suc (Suc 0)"] run_asm.simps[of _ L Aeabi_memset "Suc (Suc (Suc 0))"]
        run_asm.simps[of _ L Aeabi_memset "Suc (Suc (Suc (Suc 0)))"])
  from loop_again[OF this] show ?thesis using memset_ok[of A L ?n] by (auto split: if_splits)
qed

text \<open>Signed comparison.\<close>

lemma signed_wrap:
  assumes "- (3 * 2 ^ 31) \<le> x" "x < 3 * 2 ^ 31"
  shows "signed_take_bit 31 (x :: int) = (if x < - (2 ^ 31) then x + 2 ^ 32 else if x < 2 ^ 31 then x else x - 2 ^ 32)"
proof -
  have e: "signed_take_bit 31 x = (x + 2 ^ 31) mod 2 ^ 32 - 2 ^ 31" by (simp add: signed_take_bit_eq_take_bit_shift take_bit_eq_mod)
  have "(x + 2 ^ 31) mod 2 ^ 32 = (x + 2 ^ 31 + 2 ^ 32) mod 2 ^ 32" "(x + 2 ^ 31) mod 2 ^ 32 = (x + 2 ^ 31 - 2 ^ 32) mod 2 ^ 32"
    by (rule mod_add_self2[symmetric], rule minus_mod_self2[symmetric])
  then show ?thesis unfolding e using assms
      mod_pos_pos_trivial[of "x + 2 ^ 31 + 2 ^ 32" "2 ^ 32"] mod_pos_pos_trivial[of "x + 2 ^ 31" "2 ^ 32"] mod_pos_pos_trivial[of "x + 2 ^ 31 - 2 ^ 32" "2 ^ 32"]
    by (auto split: if_splits)
qed

lemma sint_u32: "sint (a :: u32) = (if a < 0x80000000 then uint a else uint a - 2 ^ 32)"
proof -
  have "0 \<le> uint a" "uint a < 2 ^ 32" using unsigned_less[of a, where ?'a = int] by simp_all
  moreover have "a < 0x80000000 \<longleftrightarrow> uint a < 2 ^ 31" by (simp add: word_less_def)
  moreover have "signed_take_bit 31 (uint a) = (if uint a < - (2 ^ 31) then uint a + 2 ^ 32 else if uint a < 2 ^ 31 then uint a else uint a - 2 ^ 32)"
  proof (rule signed_wrap)
    show "- (3 * 2 ^ 31) \<le> uint a" by (rule order_trans[of _ 0]) simp_all
    show "uint a < 3 * 2 ^ 31" using calculation by simp
  qed
  moreover have "\<not> uint a < - (2 ^ 31)" unfolding not_less by (rule order_trans[of _ 0]) simp_all
  ultimately show ?thesis by (simp add: sint_uint)
qed

lemma ble_flags: "flag_z (compare a b m) \<or> flag_n (compare a b m) \<noteq> flag_v (compare a b m) \<longleftrightarrow> sint a \<le> sint b"
proof -
  have r: "- (2 ^ 31) \<le> sint x" "sint x < 2 ^ 31" for x :: u32 using sint_greater_eq[of x] sint_less[of x] by simp_all
  have d: "sint (a - b) = signed_take_bit 31 (sint a - sint b)" by (simp add: sint_word_ariths)
  have z: "a - b = 0 \<longleftrightarrow> sint a = sint b" by (auto intro: signed_word_eqI)
  show ?thesis unfolding compare_def set_nz_def using signed_wrap[of "sint a - sint b", folded d] r[of a] r[of b] z by (auto split: if_splits)
qed

text \<open>The direction is right for overlapping regions in the same half of the address space.\<close>

lemma memmove_direction:
  assumes "args_ok Memmove r"
  shows "if sint (r R0) \<le> sint (r R1) then args_ok Memcpy_fwd r else args_ok Memcpy r"
proof -
  let ?d = "unat (r R0)" and ?s = "unat (r R1)" and ?n = "unat (r R2)"
  have u: "sint (r R0) = (if r R0 < 0x80000000 then int ?d else int ?d - 2 ^ 32)" "sint (r R1) = (if r R1 < 0x80000000 then int ?s else int ?s - 2 ^ 32)"
    by (simp_all add: sint_u32)
  have f: "unat (r R0 - r R1) = (if ?s \<le> ?d then ?d - ?s else ?d + 2 ^ 32 - ?s)" "unat (r R1 - r R0) = (if ?d \<le> ?s then ?s - ?d else ?s + 2 ^ 32 - ?d)"
    by (simp_all add: unat_sub_if')
  have e: "r R0 = r R1 \<longleftrightarrow> ?d = ?s" "r R1 = r R0 \<longleftrightarrow> ?d = ?s" by (auto simp: word_unat_eq_iff)
  have h: "?d < 2 ^ 32" "?s < 2 ^ 32" using unsigned_less[of "r R0", where ?'a = nat] unsigned_less[of "r R1", where ?'a = nat] by simp_all
  have a: "?d + ?n \<le> 2 ^ 32" "?s + ?n \<le> 2 ^ 32" "(r R0 < 0x80000000 \<longleftrightarrow> r R1 < 0x80000000) \<or> ?d + ?n \<le> ?s \<or> ?s + ?n \<le> ?d"
    using assms by simp_all
  have o: "int ?d \<le> int ?s \<longleftrightarrow> ?d \<le> ?s" by (rule of_nat_le_iff)
  show ?thesis unfolding args_ok.simps e f u using a h o by (auto simp del: of_nat_unat split: if_splits)
qed

lemma memmove_ok:
  assumes "linked L" "args_ok Memmove (regs m)"
  shows "loop_ends A L Memmove 0 m (regs m R0) (mem_spec Memmove (regs m) (bytes m))"
proof -
  let ?f = "if sint (regs m R0) \<le> sint (regs m R1) then Memcpy_fwd else Memcpy"
  let ?m = "compare (regs m R0) (regs m R1) m"
  let ?n = "if A = Armv7em then ?m else set_reg R3 (sym_addr L ?f) ?m"
  have "run_asm A L Memmove 0 m = run_asm A L Memmove (Suc 0) ?m" by (cases A) (simp_all add: run_asm.simps[of _ L Memmove 0])
  also have "\<dots> = run_asm A L ?f 0 ?n"
    using assms(1) ble_flags[of "regs m R0" "regs m R1" m] by (cases A; cases "sint (regs m R0) \<le> sint (regs m R1)")
      (auto simp: branch_def linked_def eval_nat_numeral run_asm.simps[of _ L Memmove "Suc 0"] run_asm.simps[of _ L Memmove "Suc (Suc 0)"]
        run_asm.simps[of _ L Memmove "Suc (Suc (Suc 0))"] run_asm.simps[of _ L Memmove "Suc (Suc (Suc (Suc 0)))"]
        run_asm.simps[of _ L Memmove "Suc (Suc (Suc (Suc (Suc 0))))"])
  finally have e: "run_asm A L Memmove 0 m = run_asm A L ?f 0 ?n" .
  show ?thesis by (rule loop_again[OF e])
    (use memmove_direction[OF assms(2)] memcpy_fwd_ok[of ?n A L] memcpy_ok[of ?n A L] in \<open>auto split: if_splits\<close>)
qed


definition link0 :: linkage where
  "link0 = \<lparr>sym_addr = (\<lambda>f. case f of Memset \<Rightarrow> 1 | Memclr \<Rightarrow> 3 | Memcpy \<Rightarrow> 5 | Memcpy_fwd \<Rightarrow> 7 | Memmove \<Rightarrow> 9 | Aeabi_memset \<Rightarrow> 11 | Aeabi_memclr \<Rightarrow> 13),
     sym_at = (\<lambda>a. if a = 1 then Some Memset else if a = 3 then Some Memclr else if a = 5 then Some Memcpy else if a = 7 then Some Memcpy_fwd
       else if a = 9 then Some Memmove else if a = 11 then Some Aeabi_memset else if a = 13 then Some Aeabi_memclr else None)\<rparr>"

definition machine0 :: "u32 \<Rightarrow> u32 \<Rightarrow> u32 \<Rightarrow> machine" where
  "machine0 a b c = \<lparr>regs = (\<lambda>_. 0)(R0 := a, R1 := b, R2 := c), flag_n = False, flag_z = False, flag_v = False, bytes = ucast\<rparr>"

lemma link0_linked: "linked link0"
proof -
  have "sym_at link0 (sym_addr link0 f) = Some f" for f by (cases f) (simp_all add: link0_def)
  then show ?thesis by (simp add: linked_def)
qed


text \<open>The comparison of the addresses is signed: a region that reaches over the address \<open>0x80000000\<close> is
  moved in the wrong direction, and its second byte is lost.\<close>

lemma memmove_across_halves:
  "\<exists>m. run_asm Armv7em L Memmove 0 (machine0 0x7FFFFFFF 0x80000000 2) = Some m \<and> bytes m 0x7FFFFFFF = 1
     \<and> mem_spec Memmove (regs (machine0 0x7FFFFFFF 0x80000000 2)) (bytes (machine0 0x7FFFFFFF 0x80000000 2)) 0x7FFFFFFF = 0"
proof -
  let ?m = "machine0 0x7FFFFFFF 0x80000000 2"
  have c: "\<not> (flag_z (compare 0x7FFFFFFF 0x80000000 ?m) \<or> flag_n (compare 0x7FFFFFFF 0x80000000 ?m) \<noteq> flag_v (compare 0x7FFFFFFF 0x80000000 ?m))"
    unfolding ble_flags by (simp add: sint_u32)
  have "run_asm Armv7em L Memmove 0 ?m = run_asm Armv7em L Memcpy 0 (compare 0x7FFFFFFF 0x80000000 ?m)"
    using c by (simp add: branch_def machine0_def eval_nat_numeral run_asm.simps[of _ L Memmove 0] run_asm.simps[of _ L Memmove "Suc 0"] run_asm.simps[of _ L Memmove "Suc (Suc 0)"])
  also have "\<dots> = run_asm Armv7em L Memcpy 1 (compare 0x7FFFFFFF 0x80000000 ?m)" by (rule memcpy_start) (simp add: machine0_def)
  finally have e: "run_asm Armv7em L Memmove 0 ?m = run_asm Armv7em L Memcpy 1 (compare 0x7FFFFFFF 0x80000000 ?m)" .
  let ?c = "compare 0x7FFFFFFF 0x80000000 ?m"
  have r2: "regs ?c R2 \<noteq> 1" by (simp add: machine0_def)
  obtain m1 where m1: "regs m1 = (regs ?c)(R2 := regs ?c R2 - 1, R3 := ucast (bytes ?c (regs ?c R1 + (regs ?c R2 - 1))))"
    "bytes m1 = (bytes ?c)(regs ?c R0 + (regs ?c R2 - 1) := bytes ?c (regs ?c R1 + (regs ?c R2 - 1)))"
    "run_asm Armv7em L Memcpy 1 ?c = run_asm Armv7em L Memcpy 1 m1"
    using memcpy_round(1)[of ?c L, unfolded if_not_P[OF r2]] by blast
  have b: "regs m1 R0 = 0x7FFFFFFF" "regs m1 R1 = 0x80000000" "regs m1 R2 = 1" "bytes m1 0x80000000 = 1" by (simp_all add: m1(1,2) machine0_def)
  obtain m2 where m2: "bytes m2 = (bytes m1)(regs m1 R0 + (regs m1 R2 - 1) := bytes m1 (regs m1 R1 + (regs m1 R2 - 1)))" "run_asm Armv7em L Memcpy 1 m1 = Some m2"
    using memcpy_round(1)[of m1 L, unfolded if_P[OF b(3)]] by blast
  have "run_asm Armv7em L Memmove 0 ?m = Some m2" unfolding e m1(3) by (rule m2(2))
  moreover have "bytes m2 0x7FFFFFFF = 1" by (simp add: m2(1) b)
  ultimately show ?thesis by (intro exI[of _ m2]) (simp add: machine0_def ref_copy_def)
qed

end
