(* ===== verification/Reset.thy ===== *)
theory Reset
  imports Memops Config
begin

text \<open>
  The code that runs first after power on, \<open>src/boot/reset.rs\<close>, with the feature \<open>unwind\<close>: it calls the
  memory functions to clear and fill the sections and writes the thread-local storage. The addresses
  of the sections, which the linker script defines, are a record.
\<close>

section \<open>Operations\<close>

record sections =
  sbss :: u32
  ebss :: u32
  sdata :: u32
  edata :: u32
  sidata :: u32

definition memory_init :: "arch \<Rightarrow> linkage \<Rightarrow> config \<Rightarrow> sections \<Rightarrow> machine \<Rightarrow> machine option" where
  "memory_init A L cf S m =
     Option.bind (run_asm A L Memclr 0 (set_reg R1 (ebss S - sbss S) (set_reg R0 (sbss S) m))) (\<lambda>m.
     Option.bind (run_asm A L Memcpy 0 (set_reg R2 (edata S - sdata S) (set_reg R1 (sidata S) (set_reg R0 (sdata S) m)))) (\<lambda>m.
       run_asm A L Memset 0 (set_reg R2 (CONTIGUOUS_STACK_BOTTOM cf - 0x20000000) (set_reg R1 0xAA (set_reg R0 0x20000000 m)))))"

text \<open>A store of a word, in little-endian order.\<close>

definition str :: "u32 \<Rightarrow> u32 \<Rightarrow> machine \<Rightarrow> machine" where
  "str a v m = m\<lparr>bytes := (bytes m)(a := ucast v, a + 1 := ucast (drop_bit 8 v), a + 2 := ucast (drop_bit 16 v), a + 3 := ucast (drop_bit 24 v))\<rparr>"

definition tls_init :: "config \<Rightarrow> machine \<Rightarrow> machine" where
  "tls_init cf m =
     (let m = str (TLS_MEM_ADDR cf) (CONTIGUOUS_STACK_BOUNDARY cf) m;
          m = str (TLS_MEM_ADDR cf + 4) 0 m
      in str (TLS_MEM_ADDR cf + 8) 0 m)"

definition deferred_unwind_init :: "config \<Rightarrow> u32 \<Rightarrow> machine \<Rightarrow> machine" where
  "deferred_unwind_init cf deferred_unwind m = str (TLS_MEM_ADDR cf + 12) deferred_unwind m"

text \<open>Up to the call of \<open>system_start\<close>.\<close>

definition reset_entry :: "arch \<Rightarrow> linkage \<Rightarrow> config \<Rightarrow> sections \<Rightarrow> u32 \<Rightarrow> machine \<Rightarrow> machine option" where
  "reset_entry A L cf S deferred_unwind m =
     Option.bind (memory_init A L cf S m) (\<lambda>m. Some (deferred_unwind_init cf deferred_unwind (tls_init cf m)))"

section \<open>The memory that the kernel starts with\<close>

definition in_section :: "u32 \<Rightarrow> u32 \<Rightarrow> u32 \<Rightarrow> bool" where
  "in_section lo hi a \<longleftrightarrow> lo \<le> a \<and> a < hi"

text \<open>The layout of the linker script: the stack region from the start of the RAM, then the two sections
  in some order, and the image of the initial values elsewhere.\<close>

definition layout_ok :: "config \<Rightarrow> sections \<Rightarrow> bool" where
  "layout_ok cf S \<longleftrightarrow> 0x20000000 + 16 \<le> CONTIGUOUS_STACK_BOTTOM cf \<and> TLS_MEM_ADDR cf = 0x20000000
     \<and> sbss S \<le> ebss S \<and> sdata S \<le> edata S \<and> CONTIGUOUS_STACK_BOTTOM cf \<le> sbss S \<and> CONTIGUOUS_STACK_BOTTOM cf \<le> sdata S
     \<and> (ebss S \<le> sdata S \<or> edata S \<le> sbss S) \<and> unat (sidata S) + unat (edata S - sdata S) \<le> unat (0x20000000 :: u32)"

lemma section_iff: "lo \<le> hi \<Longrightarrow> unat (a - lo) < unat (hi - lo) \<longleftrightarrow> in_section lo hi a"
  unfolding in_section_def word_le_nat_alt word_less_nat_alt using unsigned_less[of hi, where ?'a = nat] by (auto simp: unat_sub_if')

lemma memory_init_bytes:
  assumes "linked L" "layout_ok cf S"
  shows "\<exists>m'. memory_init A L cf S m = Some m' \<and> bytes m' = (\<lambda>a.
    if in_section 0x20000000 (CONTIGUOUS_STACK_BOTTOM cf) a then 0xAA
    else if in_section (sdata S) (edata S) a then bytes m (sidata S + (a - sdata S))
    else if in_section (sbss S) (ebss S) a then 0 else bytes m a)"
proof -
  let ?d = "unat (sdata S)" and ?e = "unat (edata S)" and ?i = "unat (sidata S)" and ?B = "CONTIGUOUS_STACK_BOTTOM cf"
  have L: "?d \<le> ?e" "unat ?B \<le> ?d" "unat ?B \<le> unat (sbss S)" "sbss S \<le> ebss S" "sdata S \<le> edata S" "0x20000000 \<le> ?B"
    "?i + unat (edata S - sdata S) \<le> 0x20000000" "unat (0x20000000 :: u32) \<le> unat ?B"
    using assms(2) by (auto simp: layout_ok_def word_le_nat_alt)
  have n: "unat (edata S - sdata S) = ?e - ?d" "?e < 2 ^ 32" using L(1) unsigned_less[of "edata S", where ?'a = nat] by (simp_all add: unat_sub_if')
  let ?m0 = "set_reg R1 (ebss S - sbss S) (set_reg R0 (sbss S) m)"
  obtain m1 where m1: "run_asm A L Memclr 0 ?m0 = Some m1" "bytes m1 = mem_spec Memclr (regs ?m0) (bytes ?m0)"
    using memclr_ok[OF assms(1), of Memclr A ?m0] unfolding loop_ends_def by blast
  let ?m1 = "set_reg R2 (edata S - sdata S) (set_reg R1 (sidata S) (set_reg R0 (sdata S) m1))"
  have "unat (sidata S - sdata S) = (if ?d \<le> ?i then ?i - ?d else ?i + 2 ^ 32 - ?d)" by (simp add: unat_sub_if')
  then have "unat (edata S - sdata S) \<le> unat (sidata S - sdata S)" using L(1,2,8) L(7)[unfolded n(1)] n(2) unfolding n(1) by (auto split: if_splits)
  then have "args_ok Memcpy (regs ?m1)" by simp
  then obtain m2 where m2: "run_asm A L Memcpy 0 ?m1 = Some m2" "bytes m2 = mem_spec Memcpy (regs ?m1) (bytes ?m1)"
    using memcpy_ok[of ?m1 A L] unfolding loop_ends_def by blast
  let ?m2 = "set_reg R2 (?B - 0x20000000) (set_reg R1 0xAA (set_reg R0 0x20000000 m2))"
  obtain m3 where m3: "run_asm A L Memset 0 ?m2 = Some m3" "bytes m3 = mem_spec Memset (regs ?m2) (bytes ?m2)"
    using memset_ok[of A L ?m2] unfolding loop_ends_def by blast
  have src: "\<not> in_section (sbss S) (ebss S) (sidata S + (a - sdata S))" if "in_section (sdata S) (edata S) a" for a
  proof -
    have "unat (a - sdata S) < ?e - ?d" using section_iff[OF L(5), of a] that n(1) by simp
    then have "unat (sidata S + (a - sdata S)) < 0x20000000" using L(7)[unfolded n(1)] unat_add_lem[of "sidata S" "a - sdata S"] by auto
    then show ?thesis using L(3,8) by (simp add: in_section_def word_le_nat_alt)
  qed
  have "memory_init A L cf S m = Some m3" unfolding memory_init_def using m1(1) m2(1) m3(1) by simp
  moreover have "bytes m3 = (\<lambda>a. if in_section 0x20000000 ?B a then 0xAA else if in_section (sdata S) (edata S) a then bytes m (sidata S + (a - sdata S))
    else if in_section (sbss S) (ebss S) a then 0 else bytes m a)"
    by (rule ext) (use src in \<open>simp add: m1(2) m2(2) m3(2) ref_set_def ref_copy_def section_iff[OF L(4)] section_iff[OF L(5)] section_iff[OF L(6)]\<close>)
  ultimately show ?thesis by blast
qed

text \<open>When \<open>system_start\<close> is called, the zeroed and the initialised variables have their values, the
  thread-local storage describes the stack of the kernel, and the rest of the stack region is marked.\<close>

lemma reset_entry_memory:
  assumes "linked L" "layout_ok cf S"
  shows "\<exists>m'. reset_entry A L cf S du m = Some m'
    \<and> (\<forall>a. in_section (sdata S) (edata S) a \<longrightarrow> bytes m' a = bytes m (sidata S + (a - sdata S)))
    \<and> (\<forall>a. in_section (sbss S) (ebss S) a \<longrightarrow> bytes m' a = 0)
    \<and> (\<forall>a. in_section (0x20000000 + 16) (CONTIGUOUS_STACK_BOTTOM cf) a \<longrightarrow> bytes m' a = 0xAA)
    \<and> map (bytes m') [0x20000004, 0x20000005, 0x20000006, 0x20000007, 0x20000008, 0x20000009, 0x2000000A, 0x2000000B] = [0, 0, 0, 0, 0, 0, 0, 0]"
proof -
  obtain m' where m': "memory_init A L cf S m = Some m'" "bytes m' = (\<lambda>a. if in_section 0x20000000 (CONTIGUOUS_STACK_BOTTOM cf) a then 0xAA
    else if in_section (sdata S) (edata S) a then bytes m (sidata S + (a - sdata S)) else if in_section (sbss S) (ebss S) a then 0 else bytes m a)"
    using memory_init_bytes[OF assms] by blast
  let ?r = "deferred_unwind_init cf du (tls_init cf m')"
  have t: "TLS_MEM_ADDR cf = 0x20000000" using assms(2) by (simp add: layout_ok_def)
  have o: "bytes ?r a = bytes m' a" if "0x20000010 \<le> a" for a
  proof -
    have "a \<noteq> 0x20000000 + w" if "unat w < 16" for w
    proof
      assume e: "a = 0x20000000 + w"
      have "unat (0x20000000 + w) = 0x20000000 + unat w" using unat_add_lem[of "0x20000000" w] that by simp
      then show False using \<open>0x20000010 \<le> a\<close> that by (simp add: e word_le_nat_alt)
    qed
    from this[of 0] this[of 1] this[of 2] this[of 3] this[of 4] this[of 5] this[of 6] this[of 7] this[of 8] this[of 9] this[of 10] this[of 11]
      this[of 12] this[of 13] this[of 14] this[of 15]
    show ?thesis by (simp add: deferred_unwind_init_def tls_init_def str_def t Let_def)
  qed
  have z: "map (bytes ?r) [0x20000004, 0x20000005, 0x20000006, 0x20000007, 0x20000008, 0x20000009, 0x2000000A, 0x2000000B] = [0, 0, 0, 0, 0, 0, 0, 0]"
    by (simp add: deferred_unwind_init_def tls_init_def str_def t Let_def)
  have b: "0x20000010 \<le> CONTIGUOUS_STACK_BOTTOM cf" "CONTIGUOUS_STACK_BOTTOM cf \<le> sbss S" "CONTIGUOUS_STACK_BOTTOM cf \<le> sdata S"
    "ebss S \<le> sdata S \<or> edata S \<le> sbss S" using assms(2) by (simp_all add: layout_ok_def)
  have above: "0x20000010 \<le> a" "\<not> in_section 0x20000000 (CONTIGUOUS_STACK_BOTTOM cf) a" if "CONTIGUOUS_STACK_BOTTOM cf \<le> a" for a
    using order_trans[OF b(1) that] that by (simp_all add: in_section_def not_less)
  have 1: "bytes ?r a = bytes m (sidata S + (a - sdata S))" if "in_section (sdata S) (edata S) a" for a
  proof -
    have "CONTIGUOUS_STACK_BOTTOM cf \<le> a" using that order_trans[OF b(3)] by (simp add: in_section_def)
    then show ?thesis using o[OF above(1)] above(2) that by (simp add: m'(2))
  qed
  have 2: "bytes ?r a = 0" if "in_section (sbss S) (ebss S) a" for a
  proof -
    have "CONTIGUOUS_STACK_BOTTOM cf \<le> a" using that order_trans[OF b(2)] by (simp add: in_section_def)
    moreover have "\<not> in_section (sdata S) (edata S) a" using that b(4) unfolding in_section_def by (meson leD order.strict_trans2 order_trans)
    ultimately show ?thesis using o[OF above(1)] above(2) that by (simp add: m'(2))
  qed
  have 3: "bytes ?r a = 0xAA" if "in_section (0x20000000 + 16) (CONTIGUOUS_STACK_BOTTOM cf) a" for a
  proof -
    have a: "0x20000010 \<le> a" "a < CONTIGUOUS_STACK_BOTTOM cf" using that by (simp_all add: in_section_def)
    have "0x20000000 \<le> a" by (rule order_trans[OF _ a(1)]) simp
    then show ?thesis using o[OF a(1)] a(2) by (simp add: m'(2) in_section_def)
  qed
  have e: "reset_entry A L cf S du m = Some ?r" by (simp add: reset_entry_def m'(1))
  show ?thesis by (intro exI[of _ ?r] conjI allI impI) (fact e, rule 1, assumption, rule 2, assumption, rule 3, assumption, fact z)
qed

end
